(* ===== verification/Xv6_Prelude.thy ===== *)
theory Xv6_Prelude
  imports Main "HOL-Library.Word"
begin

text \<open>
  Shared vocabulary of the development.

  \<^item> Machine integers: \<open>uint8\<close>, \<open>uint16\<close>, \<open>uint32\<close> and \<open>uint64\<close> are words of the widths that
    \<^verbatim>\<open>kernel/types.h\<close> gives them.  A C \<open>int\<close> is a HOL \<open>int\<close> kept in range by
    \<open>i32\<close>, the two's complement reading of its low 32 bits, wherever the code can overflow it.
  \<^item> Control flow: a kernel routine that may not return normally has result type
    \<open>stop + 'a\<close>.  \<open>Inl\<close> says why control does not come back: \<open>Panic\<close> for a call of
    \<^verbatim>\<open>panic()\<close>, \<open>Spin\<close> for a busy wait whose condition is false, \<open>Fault\<close> for a
    memory access the hardware traps.  \<open>bindE\<close> sequences such routines, \<open>for_each\<close> and
    \<open>find_loop\<close> are the two loop shapes of the sources (a full sweep, and a sweep left
    by \<^verbatim>\<open>break\<close> or \<^verbatim>\<open>return\<close>).
  \<^item> Generic facts on these combinators, on lists and on words.
\<close>

type_synonym uint8 = "8 word"
type_synonym uint16 = "16 word"
type_synonym uint32 = "32 word"
type_synonym uint64 = "64 word"

datatype stop = Panic string | Spin string | Fault string

type_synonym 'a res = "stop + 'a"

definition bindE :: "'a res \<Rightarrow> ('a \<Rightarrow> 'b res) \<Rightarrow> 'b res" where
  "bindE m f = (case m of Inl e \<Rightarrow> Inl e | Inr x \<Rightarrow> f x)"

fun for_each :: "('i \<Rightarrow> 's \<Rightarrow> 's res) \<Rightarrow> 'i list \<Rightarrow> 's \<Rightarrow> 's res" where
  "for_each f [] s = Inr s"
| "for_each f (i # is) s = bindE (f i s) (for_each f is)"

fun find_loop :: "('i \<Rightarrow> 's \<Rightarrow> ('r option \<times> 's) res) \<Rightarrow> 'i list \<Rightarrow> 's \<Rightarrow> ('r option \<times> 's) res" where
  "find_loop f [] s = Inr (None, s)"
| "find_loop f (i # is) s = bindE (f i s) (\<lambda>(r, s').
     case r of None \<Rightarrow> find_loop f is s' | Some x \<Rightarrow> Inr (Some x, s'))"

definition i32 :: "int \<Rightarrow> int" where
  "i32 x = signed_take_bit 31 x"

text \<open>States a transition system reaches from its initial states.\<close>

inductive reach :: "('s \<Rightarrow> bool) \<Rightarrow> ('s \<Rightarrow> 's \<Rightarrow> bool) \<Rightarrow> 's \<Rightarrow> bool" for init step where
  reach_init: "init s \<Longrightarrow> reach init step s"
| reach_step: "reach init step s \<Longrightarrow> step s t \<Longrightarrow> reach init step t"

named_theorems res_simps \<open>equations of the result combinators\<close>
named_theorems frame_simps \<open>what an operation leaves alone\<close>
named_theorems inv_intros \<open>operations that keep an invariant\<close>

subsection \<open>Result combinators\<close>

lemma bindE_Inr [simp, res_simps]: "bindE (Inr x) f = f x"
  by (simp add: bindE_def)

lemma bindE_Inl [simp, res_simps]: "bindE (Inl e) f = Inl e"
  by (simp add: bindE_def)

lemma bindE_eq_Inr: "bindE m f = Inr y \<longleftrightarrow> (\<exists>x. m = Inr x \<and> f x = Inr y)"
  by (cases m) auto

lemma bindE_eq_Inl: "bindE m f = Inl e \<longleftrightarrow> m = Inl e \<or> (\<exists>x. m = Inr x \<and> f x = Inl e)"
  by (cases m) auto

lemma bindE_assoc: "bindE (bindE m f) g = bindE m (\<lambda>x. bindE (f x) g)"
  by (cases m) auto

lemma bindE_cong [fundef_cong]: "m = m' \<Longrightarrow> (\<And>x. m' = Inr x \<Longrightarrow> f x = f' x) \<Longrightarrow> bindE m f = bindE m' f'"
  by (cases m') auto

lemma for_each_append [simp]:
  "for_each f (is @ js) s = bindE (for_each f is s) (for_each f js)"
  by (induction "is" arbitrary: s) (auto simp: bindE_assoc intro: bindE_cong)

text \<open>A sweep whose body always succeeds as a pure update is a fold of that update.\<close>

lemma for_each_pure:
  assumes "\<And>i s. i \<in> set is \<Longrightarrow> P s \<Longrightarrow> f i s = Inr (g i s) \<and> P (g i s)"
    and "P s"
  shows "for_each f is s = Inr (fold g is s) \<and> P (fold g is s)"
  using assms by (induction "is" arbitrary: s) auto

lemma for_each_invariant:
  assumes "\<And>i s s'. i \<in> set is \<Longrightarrow> P s \<Longrightarrow> f i s = Inr s' \<Longrightarrow> P s'"
    and "P s" and "for_each f is s = Inr s'"
  shows "P s'"
  using assms by (induction "is" arbitrary: s) (auto simp: bindE_eq_Inr)

lemma find_loop_invariant:
  assumes "\<And>i s r s'. i \<in> set is \<Longrightarrow> P s \<Longrightarrow> f i s = Inr (r, s') \<Longrightarrow> P s'"
    and "P s" and "find_loop f is s = Inr (r, s')"
  shows "P s'"
  using assms
proof (induction "is" arbitrary: s)
  case (Cons i "is")
  from Cons.prems(3) obtain r1 s1 where step: "f i s = Inr (r1, s1)"
    and rest: "(case r1 of None \<Rightarrow> find_loop f is s1 | Some x \<Rightarrow> Inr (Some x, s1)) = Inr (r, s')"
    by (auto simp: bindE_eq_Inr)
  have "P s1" using Cons.prems(1,2) step by auto
  with rest Cons.IH[of s1] Cons.prems(1) show ?case by (auto split: option.splits)
qed simp

subsection \<open>Folds over an index range that update a table\<close>

lemma fold_upd_outside:
  assumes "\<And>i t. i \<in> set is \<Longrightarrow> j \<noteq> i \<Longrightarrow> (f i t) j = t j" and "j \<notin> set is"
  shows "(fold f is t) j = t j"
  using assms
proof (induction "is" arbitrary: t)
  case (Cons i "is")
  have "j \<noteq> i" using Cons.prems(2) by auto
  then have "f i t j = t j" using Cons.prems(1)[of i t] by simp
  moreover have "fold f is (f i t) j = f i t j"
    using Cons.prems by (intro Cons.IH) auto
  ultimately show ?case by simp
qed simp

lemma fold_pointwise:
  assumes "distinct is"
  shows "fold (\<lambda>i t. t(i := h i (t i))) is t j = (if j \<in> set is then h j (t j) else t j)"
  using assms by (induction "is" arbitrary: t) auto

subsection \<open>Two's complement 32-bit integers\<close>

lemma i32_id [simp]: "- (2 ^ 31) \<le> x \<Longrightarrow> x < 2 ^ 31 \<Longrightarrow> i32 x = x"
  by (simp add: i32_def signed_take_bit_int_eq_self)

lemma i32_range: "- (2 ^ 31) \<le> i32 x" "i32 x < 2 ^ 31"
  using signed_take_bit_int_greater_eq_minus_exp[of 31 x] signed_take_bit_int_less_exp[of 31 x]
  by (simp_all add: i32_def)

lemma i32_wraps: "i32 (2 ^ 31) = - (2 ^ 31)"
  by (simp add: i32_def signed_take_bit_rec)

subsection \<open>Inductive invariants\<close>

text \<open>
  What a component promises about its step relation: the invariant holds at the start and no
  step breaks it.  Clients then have it in every reachable state.
\<close>

locale invariant =
  fixes init :: "'s \<Rightarrow> bool" and step :: "'s \<Rightarrow> 's \<Rightarrow> bool" and inv :: "'s \<Rightarrow> bool"
  assumes inv_init: "init s \<Longrightarrow> inv s"
    and inv_step: "step s t \<Longrightarrow> inv s \<Longrightarrow> inv t"
begin

lemma inv_reach: "reach init step s \<Longrightarrow> inv s"
  by (induction rule: reach.induct) (auto intro: inv_init inv_step)

lemma inv_path: "step\<^sup>*\<^sup>* s t \<Longrightarrow> inv s \<Longrightarrow> inv t"
  by (induction rule: rtranclp_induct) (auto intro: inv_step)

end

subsection \<open>Bounded queues\<close>

text \<open>
  The contract of the ring buffers of the kernel: a queue with a capacity, specified by the list
  of its elements.
\<close>

locale bounded_queue =
  fixes put :: "'a \<Rightarrow> 'q \<Rightarrow> 'q" and front :: "'q \<Rightarrow> 'a" and pop :: "'q \<Rightarrow> 'q"
    and full :: "'q \<Rightarrow> bool" and empty :: "'q \<Rightarrow> bool" and contents :: "'q \<Rightarrow> 'a list"
    and good :: "'q \<Rightarrow> bool" and cap :: nat
  assumes len: "good q \<Longrightarrow> length (contents q) \<le> cap"
    and full_iff: "good q \<Longrightarrow> full q \<longleftrightarrow> length (contents q) = cap"
    and empty_iff: "good q \<Longrightarrow> empty q \<longleftrightarrow> contents q = []"
    and put_good: "good q \<Longrightarrow> \<not> full q \<Longrightarrow> good (put x q)"
    and put_contents: "good q \<Longrightarrow> \<not> full q \<Longrightarrow> contents (put x q) = contents q @ [x]"
    and pop_good: "good q \<Longrightarrow> \<not> empty q \<Longrightarrow> good (pop q)"
    and pop_contents: "good q \<Longrightarrow> \<not> empty q \<Longrightarrow> contents q = front q # contents (pop q)"
begin

lemma put_many:
  "good q \<Longrightarrow> length (contents q) + length xs \<le> cap \<Longrightarrow>
    good (fold put xs q) \<and> contents (fold put xs q) = contents q @ xs"
proof (induction xs arbitrary: q)
  case (Cons x xs)
  then have "\<not> full q" by (simp add: full_iff)
  then show ?case using Cons put_good put_contents by simp
qed simp

lemma pop_many:
  "good q \<Longrightarrow> n \<le> length (contents q) \<Longrightarrow> good ((pop ^^ n) q) \<and> contents ((pop ^^ n) q) = drop n (contents q)"
proof (induction n)
  case (Suc n)
  then have g: "good ((pop ^^ n) q)" "contents ((pop ^^ n) q) = drop n (contents q)" by simp_all
  then have "\<not> empty ((pop ^^ n) q)" using Suc.prems(2) by (simp add: empty_iff)
  then have "good (pop ((pop ^^ n) q))" "drop n (contents q) = front ((pop ^^ n) q) # contents (pop ((pop ^^ n) q))"
    using g pop_good pop_contents[of "(pop ^^ n) q"] by simp_all
  then show ?case by (simp add: drop_Suc tl_drop[symmetric])
qed simp

lemma front_nth:
  "good q \<Longrightarrow> n < length (contents q) \<Longrightarrow> front ((pop ^^ n) q) = contents q ! n"
proof -
  assume a: "good q" "n < length (contents q)"
  then have g: "good ((pop ^^ n) q)" "contents ((pop ^^ n) q) = drop n (contents q)" using pop_many by simp_all
  then have "\<not> empty ((pop ^^ n) q)" using a(2) by (simp add: empty_iff)
  then show ?thesis using pop_contents[OF g(1)] g(2) a(2) by (metis Cons_nth_drop_Suc list.inject)
qed

text \<open>What is put in comes out, in order.\<close>

lemma fifo:
  assumes "good q" and "contents q = []" and "length xs \<le> cap" and "n < length xs"
  shows "front ((pop ^^ n) (fold put xs q)) = xs ! n"
  using put_many[OF assms(1), of xs] front_nth[of "fold put xs q" n] assms by simp

end

end
