(* ===== verification/Spinlock.thy ===== *)
theory Spinlock
  imports Xv6_Prelude
begin

text \<open>
  Spin locks and per-CPU interrupt nesting: \<^verbatim>\<open>kernel/spinlock.c\<close>,
  \<^verbatim>\<open>kernel/spinlock.h\<close>, \<^verbatim>\<open>struct cpu\<close> of \<^verbatim>\<open>kernel/proc.h\<close> and the
  interrupt-enable accessors of \<^verbatim>\<open>kernel/riscv.h\<close>.

  The machine state \<open>machine\<close> holds the CPUs and every spin lock of the kernel, named by
  \<open>lockid\<close>; the components extend this record with their own data.  An operation takes the
  number of the CPU that executes it, which is what \<^verbatim>\<open>cpuid()\<close> reads.  A CPU that
  finds a lock taken busy-waits: the sequential \<open>acquire\<close> then answers \<open>Spin\<close>.  The
  interleaving of several CPUs on one lock, at the grain of the single memory operations of
  \<open>acquire\<close> and \<open>release\<close>, is the step relation \<open>lk_step\<close>.
\<close>

datatype lockid =
    KmemLock | PrLock | PidLock | WaitLock | ProcLock nat | TicksLock | ConsLock | TxLock
  | BcacheLock | LogLock | ItableLock | FtableLock | VdiskLock | BufLock nat | InodeLock nat

record spinlock =
  locked :: bool
  lname :: string
  lcpu :: "nat option"

record cpu =
  cproc :: "nat option"
  noff :: int
  intena :: bool
  sie :: bool

record machine =
  cpus :: "nat \<Rightarrow> cpu"
  locks :: "lockid \<Rightarrow> spinlock"

definition upd_cpu :: "nat \<Rightarrow> (cpu \<Rightarrow> cpu) \<Rightarrow> 'a machine_scheme \<Rightarrow> 'a machine_scheme" where
  "upd_cpu c f s = s\<lparr>cpus := (cpus s)(c := f (cpus s c))\<rparr>"

definition upd_lock :: "lockid \<Rightarrow> (spinlock \<Rightarrow> spinlock) \<Rightarrow> 'a machine_scheme \<Rightarrow> 'a machine_scheme" where
  "upd_lock l f s = s\<lparr>locks := (locks s)(l := f (locks s l))\<rparr>"

definition intr_get :: "nat \<Rightarrow> 'a machine_scheme \<Rightarrow> bool" where
  "intr_get c s = sie (cpus s c)"

definition intr_on :: "nat \<Rightarrow> 'a machine_scheme \<Rightarrow> 'a machine_scheme" where
  "intr_on c s = upd_cpu c (sie_update (\<lambda>_. True)) s"

definition intr_off :: "nat \<Rightarrow> 'a machine_scheme \<Rightarrow> 'a machine_scheme" where
  "intr_off c s = upd_cpu c (sie_update (\<lambda>_. False)) s"

definition initlock :: "lockid \<Rightarrow> string \<Rightarrow> 'a machine_scheme \<Rightarrow> 'a machine_scheme" where
  "initlock l nm s = upd_lock l (\<lambda>lk. lk\<lparr>lname := nm, locked := False, lcpu := None\<rparr>) s"

definition holding :: "nat \<Rightarrow> lockid \<Rightarrow> 'a machine_scheme \<Rightarrow> bool" where
  "holding c l s = (locked (locks s l) \<and> lcpu (locks s l) = Some c)"

definition push_off :: "nat \<Rightarrow> 'a machine_scheme \<Rightarrow> 'a machine_scheme" where
  "push_off c s =
     (let old = intr_get c s;
          s = intr_off c s;
          s = (if noff (cpus s c) = 0 then upd_cpu c (intena_update (\<lambda>_. old)) s else s)
      in upd_cpu c (noff_update (\<lambda>n. n + 1)) s)"

definition pop_off :: "nat \<Rightarrow> 'a machine_scheme \<Rightarrow> 'a machine_scheme res" where
  "pop_off c s =
     (if intr_get c s then Inl (Panic ''pop_off - interruptible'')
      else if noff (cpus s c) < 1 then Inl (Panic ''pop_off'')
      else let s = upd_cpu c (noff_update (\<lambda>n. n - 1)) s
           in Inr (if noff (cpus s c) = 0 \<and> intena (cpus s c) then intr_on c s else s))"

definition test_and_set :: "spinlock \<Rightarrow> bool \<times> spinlock" where
  "test_and_set lk = (locked lk, lk\<lparr>locked := True\<rparr>)"

definition acquire :: "nat \<Rightarrow> lockid \<Rightarrow> 'a machine_scheme \<Rightarrow> 'a machine_scheme res" where
  "acquire c l s =
     (let s = push_off c s in
      if holding c l s then Inl (Panic ''acquire'')
      else if fst (test_and_set (locks s l)) then Inl (Spin ''acquire'')
      else Inr (upd_lock l (lcpu_update (\<lambda>_. Some c)) (upd_lock l (\<lambda>lk. snd (test_and_set lk)) s)))"

definition release :: "nat \<Rightarrow> lockid \<Rightarrow> 'a machine_scheme \<Rightarrow> 'a machine_scheme res" where
  "release c l s =
     (if \<not> holding c l s then Inl (Panic ''release'')
      else pop_off c (upd_lock l (locked_update (\<lambda>_. False)) (upd_lock l (lcpu_update (\<lambda>_. None)) s)))"

subsection \<open>Critical sections\<close>

text \<open>
  \<open>lock_free\<close>: nobody holds the lock.  \<open>cpu_sane\<close>: the nesting count is not negative, and
  interrupts are off whenever it is positive, which \<open>push_off\<close> establishes.  A pair of
  \<open>push_off\<close> and \<open>pop_off\<close> at nesting depth 0 leaves one trace: \<open>intena\<close> holds the
  interrupt state it saw.  \<open>settle\<close> is that change.
\<close>

definition lock_free :: "lockid \<Rightarrow> 'a machine_scheme \<Rightarrow> bool" where
  "lock_free l s = (\<not> locked (locks s l) \<and> lcpu (locks s l) = None)"

definition cpu_sane :: "nat \<Rightarrow> 'a machine_scheme \<Rightarrow> bool" where
  "cpu_sane c s = (0 \<le> noff (cpus s c) \<and> (0 < noff (cpus s c) \<longrightarrow> \<not> sie (cpus s c)))"

definition settle :: "nat \<Rightarrow> 'a machine_scheme \<Rightarrow> 'a machine_scheme" where
  "settle c s = (if noff (cpus s c) = 0
     then upd_cpu c (intena_update (\<lambda>_. sie (cpus s c))) s else s)"

text \<open>The state inside a critical section entered from \<open>s\<close>.\<close>

definition inside :: "nat \<Rightarrow> lockid \<Rightarrow> 'a machine_scheme \<Rightarrow> 'a machine_scheme" where
  "inside c l s = upd_lock l (\<lambda>lk. lk\<lparr>locked := True, lcpu := Some c\<rparr>) (push_off c s)"

text \<open>A body that neither reads nor writes CPUs and locks.\<close>

definition lockless :: "('a machine_scheme \<Rightarrow> 'a machine_scheme) \<Rightarrow> bool" where
  "lockless f = (\<forall>s g h. f (s\<lparr>cpus := g, locks := h\<rparr>) = (f s)\<lparr>cpus := g, locks := h\<rparr>)"

subsection \<open>Several CPUs on one lock\<close>

text \<open>
  Where a CPU stands in \<open>acquire\<close> and \<open>release\<close>: not involved; in the
  \<^verbatim>\<open>while(__sync_lock_test_and_set(...))\<close> loop; past the swap but before
  \<^verbatim>\<open>lk->cpu = mycpu()\<close>; in the critical section; past \<^verbatim>\<open>lk->cpu = 0\<close> but
  before \<^verbatim>\<open>__sync_lock_release\<close>.
\<close>

datatype lk_pc = Outside | Spinning | Swapped | Critical | Clearing

record lk_sys =
  lk :: spinlock
  pc :: "nat \<Rightarrow> lk_pc"

inductive lk_step :: "lk_sys \<Rightarrow> lk_sys \<Rightarrow> bool" where
  call_acquire: "pc s c = Outside \<Longrightarrow> \<not> (locked (lk s) \<and> lcpu (lk s) = Some c) \<Longrightarrow>
     lk_step s (s\<lparr>pc := (pc s)(c := Spinning)\<rparr>)"
| swap_busy: "pc s c = Spinning \<Longrightarrow> fst (test_and_set (lk s)) \<Longrightarrow>
     lk_step s (s\<lparr>lk := snd (test_and_set (lk s))\<rparr>)"
| swap_won: "pc s c = Spinning \<Longrightarrow> \<not> fst (test_and_set (lk s)) \<Longrightarrow>
     lk_step s (s\<lparr>lk := snd (test_and_set (lk s)), pc := (pc s)(c := Swapped)\<rparr>)"
| record_cpu: "pc s c = Swapped \<Longrightarrow>
     lk_step s (s\<lparr>lk := (lk s)\<lparr>lcpu := Some c\<rparr>, pc := (pc s)(c := Critical)\<rparr>)"
| clear_cpu: "pc s c = Critical \<Longrightarrow> locked (lk s) \<and> lcpu (lk s) = Some c \<Longrightarrow>
     lk_step s (s\<lparr>lk := (lk s)\<lparr>lcpu := None\<rparr>, pc := (pc s)(c := Clearing)\<rparr>)"
| lock_release: "pc s c = Clearing \<Longrightarrow>
     lk_step s (s\<lparr>lk := (lk s)\<lparr>locked := False\<rparr>, pc := (pc s)(c := Outside)\<rparr>)"

definition lk_init :: "lk_sys \<Rightarrow> bool" where
  "lk_init s = (\<not> locked (lk s) \<and> lcpu (lk s) = None \<and> (\<forall>c. pc s c = Outside))"

definition owns :: "lk_sys \<Rightarrow> nat \<Rightarrow> bool" where
  "owns s c = (pc s c = Swapped \<or> pc s c = Critical \<or> pc s c = Clearing)"

definition lk_inv :: "lk_sys \<Rightarrow> bool" where
  "lk_inv s = ((\<forall>c d. owns s c \<longrightarrow> owns s d \<longrightarrow> c = d) \<and>
     (locked (lk s) \<longleftrightarrow> (\<exists>c. owns s c)) \<and>
     (\<forall>c. lcpu (lk s) = Some c \<longleftrightarrow> pc s c = Critical))"

subsection \<open>Lemmas\<close>

lemmas machine_defs =
  upd_cpu_def upd_lock_def intr_get_def intr_on_def intr_off_def holding_def
  push_off_def pop_off_def test_and_set_def acquire_def release_def initlock_def

lemma acquire_free:
  assumes "lock_free l s"
  shows "acquire c l s = Inr (inside c l s)"
  using assms
  by (simp add: machine_defs inside_def lock_free_def Let_def)

lemma acquire_held:
  assumes "holding c l s"
  shows "acquire c l s = Inl (Panic ''acquire'')"
  using assms by (simp add: machine_defs Let_def)

lemma acquire_busy:
  assumes "locked (locks s l)" and "\<not> holding c l s"
  shows "acquire c l s = Inl (Spin ''acquire'')"
  using assms by (auto simp: machine_defs Let_def)

lemma release_not_held: "\<not> holding c l s \<Longrightarrow> release c l s = Inl (Panic ''release'')"
  by (simp add: release_def)

lemma lockless_frame:
  assumes "lockless f"
  shows "cpus (f s) = cpus s" and "locks (f s) = locks s"
proof -
  have "f (s\<lparr>cpus := cpus s, locks := locks s\<rparr>) = (f s)\<lparr>cpus := cpus s, locks := locks s\<rparr>"
    using assms unfolding lockless_def by blast
  then have eq: "f s = (f s)\<lparr>cpus := cpus s, locks := locks s\<rparr>" by simp
  show "cpus (f s) = cpus s" by (subst eq) simp
  show "locks (f s) = locks s" by (subst eq) simp
qed

text \<open>The CPU record after \<open>push_off\<close>, and what \<open>release\<close> makes of it.\<close>

lemma push_off_eq:
  "push_off c s = s\<lparr>cpus := (cpus s)(c := (cpus s c)
     \<lparr>noff := noff (cpus s c) + 1,
      intena := (if noff (cpus s c) = 0 then sie (cpus s c) else intena (cpus s c)),
      sie := False\<rparr>)\<rparr>"
  by (cases "cpus s c") (simp add: push_off_def intr_get_def intr_off_def upd_cpu_def Let_def)

lemma inside_eq:
  "inside c l s = s\<lparr>cpus := (cpus s)(c := (cpus s c)
     \<lparr>noff := noff (cpus s c) + 1,
      intena := (if noff (cpus s c) = 0 then sie (cpus s c) else intena (cpus s c)),
      sie := False\<rparr>),
     locks := (locks s)(l := (locks s l)\<lparr>locked := True, lcpu := Some c\<rparr>)\<rparr>"
  by (simp add: inside_def push_off_eq upd_lock_def)

lemma lockless_inside: "lockless f \<Longrightarrow> f (inside c l s) = inside c l (f s)"
  using lockless_frame[of f s] by (simp add: inside_eq lockless_def)

lemma lockless_settle:
  assumes "lockless f"
  shows "f (settle c s) = settle c (f s)"
proof -
  have "f (s\<lparr>cpus := g, locks := locks s\<rparr>) = (f s)\<lparr>cpus := g, locks := locks (f s)\<rparr>" for g
    using assms lockless_frame(2)[OF assms] unfolding lockless_def by metis
  then have "f (s\<lparr>cpus := g\<rparr>) = (f s)\<lparr>cpus := g\<rparr>" for g by simp
  then show ?thesis
    using lockless_frame[OF assms, of s] by (simp add: settle_def upd_cpu_def)
qed

lemma free_lock_eq: "lock_free l s \<Longrightarrow> (locks s l)\<lparr>lcpu := None, locked := False\<rparr> = locks s l"
  by (cases "locks s l") (simp add: lock_free_def)

lemma release_inside:
  assumes "lock_free l s" and "cpu_sane c s"
  shows "release c l (inside c l s) = Inr (settle c s)"
proof -
  let ?p = "cpus s c"
  have "release c l (inside c l s) =
      pop_off c (s\<lparr>cpus := (cpus s)(c := ?p\<lparr>noff := noff ?p + 1,
        intena := (if noff ?p = 0 then sie ?p else intena ?p), sie := False\<rparr>)\<rparr>)"
    using free_lock_eq[OF assms(1)]
    by (simp add: release_def inside_eq holding_def upd_lock_def)
  also have "\<dots> = Inr (settle c s)"
    using assms(2)
    by (cases ?p) (auto simp: pop_off_def intr_get_def intr_on_def upd_cpu_def settle_def
        cpu_sane_def Let_def fun_upd_idem)
  finally show ?thesis .
qed

text \<open>
  A critical section whose body leaves locks and CPUs alone is that body: \<open>acquire\<close> cannot
  fail on a free lock, \<open>release\<close> cannot panic, and the lock is free again afterwards.
\<close>

lemma critical_section:
  assumes "lock_free l s" and "cpu_sane c s" and "lockless f"
  shows "bindE (acquire c l s) (\<lambda>s. release c l (f s)) = Inr (f (settle c s))"
proof -
  have "lock_free l (f s)" "cpu_sane c (f s)"
    using assms lockless_frame[OF assms(3), of s] by (simp_all add: lock_free_def cpu_sane_def)
  then show ?thesis
    using assms by (simp add: acquire_free lockless_inside release_inside lockless_settle)
qed

lemma critical_section_free:
  "lock_free l' s \<Longrightarrow> lockless f \<Longrightarrow> lock_free l' (f (settle c s))"
  by (simp add: lockless_settle lock_free_def settle_def upd_cpu_def lockless_frame)

lemma cpu_sane_settle [simp]: "cpu_sane c' (settle c s) = cpu_sane c' s"
  by (simp add: cpu_sane_def settle_def upd_cpu_def)

lemma settle_idem [simp]: "settle c (settle c s) = settle c s"
  by (simp add: settle_def upd_cpu_def)

lemma settle_frame [frame_simps]:
  "locks (settle c s) = locks s" "cproc (cpus (settle c s) d) = cproc (cpus s d)"
  "noff (cpus (settle c s) d) = noff (cpus s d)" "sie (cpus (settle c s) d) = sie (cpus s d)"
  by (simp_all add: settle_def upd_cpu_def)

subsection \<open>Mutual exclusion\<close>

lemma owns_upd: "owns (s\<lparr>lk := k, pc := (pc s)(c := x)\<rparr>) d =
    (if d = c then x = Swapped \<or> x = Critical \<or> x = Clearing else owns s d)"
  "owns (s\<lparr>pc := (pc s)(c := x)\<rparr>) d =
    (if d = c then x = Swapped \<or> x = Critical \<or> x = Clearing else owns s d)"
  by (auto simp: owns_def)

lemma lk_inv_owner:
  assumes "lk_inv s" and "pc s c = Swapped \<or> pc s c = Critical \<or> pc s c = Clearing"
  shows "locked (lk s)" and "owns s d \<longleftrightarrow> d = c" and "d \<noteq> c \<Longrightarrow> pc s d \<noteq> Critical"
    and "lcpu (lk s) = (if pc s c = Critical then Some c else None)"
proof -
  have c: "owns s c" using assms(2) by (simp add: owns_def)
  then show "locked (lk s)" using assms(1) by (auto simp: lk_inv_def)
  have own: "owns s d \<longleftrightarrow> d = c" for d
    using assms(1) c unfolding lk_inv_def by blast
  then show "owns s d \<longleftrightarrow> d = c" .
  have crit: "pc s d = Critical \<Longrightarrow> d = c" for d
    using own[of d] by (simp add: owns_def)
  then show "d \<noteq> c \<Longrightarrow> pc s d \<noteq> Critical" by blast
  have iff: "lcpu (lk s) = Some d \<longleftrightarrow> pc s d = Critical" for d
    using assms(1) by (simp add: lk_inv_def)
  show "lcpu (lk s) = (if pc s c = Critical then Some c else None)"
  proof (cases "lcpu (lk s)")
    case None
    then show ?thesis using iff[of c] by simp
  next
    case (Some d)
    then show ?thesis using iff[of d] crit[of d] by auto
  qed
qed

lemma lk_step_inv: "lk_step s t \<Longrightarrow> lk_inv s \<Longrightarrow> lk_inv t"
proof (induction rule: lk_step.induct)
  case (call_acquire s c)
  then have "\<not> owns s c" by (simp add: owns_def)
  with call_acquire show ?case unfolding lk_inv_def owns_upd by auto
next
  case (swap_busy s c)
  have "s\<lparr>lk := snd (test_and_set (lk s))\<rparr> = s"
    using swap_busy(2) by (cases s; cases "lk s") (simp add: test_and_set_def)
  with swap_busy(3) show ?case by simp
next
  case (swap_won s c)
  then have "\<And>d. \<not> owns s d" by (auto simp: lk_inv_def test_and_set_def)
  with swap_won show ?case unfolding lk_inv_def owns_upd by (auto simp: test_and_set_def)
next
  case (record_cpu s c)
  note own = lk_inv_owner[OF record_cpu(2), of c]
  then show ?case using record_cpu(1) unfolding lk_inv_def owns_upd by auto
next
  case (clear_cpu s c)
  note own = lk_inv_owner[OF clear_cpu(3), of c]
  then show ?case using clear_cpu(1) unfolding lk_inv_def owns_upd by auto
next
  case (lock_release s c)
  note own = lk_inv_owner[OF lock_release(2), of c]
  then show ?case using lock_release(1) unfolding lk_inv_def owns_upd by auto
qed

interpretation spin: invariant lk_init lk_step lk_inv
proof unfold_locales
  show "lk_init s \<Longrightarrow> lk_inv s" for s by (simp add: lk_init_def lk_inv_def owns_def)
  show "lk_step s t \<Longrightarrow> lk_inv s \<Longrightarrow> lk_inv t" for s t by (rule lk_step_inv)
qed

text \<open>
  C19. Spin locks exclude each other.  In every interleaving of any number of CPUs through the
  atomic swap, the owner record and the release of one lock, at most one CPU is between its
  successful swap and its releasing store; and the test of \<open>holding()\<close> answers true for
  a CPU exactly when that CPU is in its critical section.
\<close>

theorem spinlock_mutual_exclusion:
  assumes "reach lk_init lk_step s"
  shows "(owns s c \<and> owns s d \<longrightarrow> c = d) \<and>
    (locked (lk s) \<and> lcpu (lk s) = Some c \<longleftrightarrow> pc s c = Critical)"
proof -
  from assms have inv: "lk_inv s" by (rule spin.inv_reach)
  then show ?thesis by (auto simp: lk_inv_def owns_def)
qed

lemma lk_run_example:
  "reach lk_init lk_step \<lparr>lk = \<lparr>locked = True, lname = ''kmem'', lcpu = Some 1\<rparr>,
     pc = (\<lambda>_. Outside)(0 := Spinning, 1 := Critical)\<rparr>" (is "reach lk_init lk_step ?t")
proof -
  let ?l = "\<lparr>locked = False, lname = ''kmem'', lcpu = None\<rparr>"
  let ?s0 = "\<lparr>lk = ?l, pc = (\<lambda>_. Outside)\<rparr>"
  let ?s1 = "?s0\<lparr>pc := (pc ?s0)(0 := Spinning)\<rparr>"
  let ?s2 = "?s1\<lparr>pc := (pc ?s1)(1 := Spinning)\<rparr>"
  let ?s3 = "?s2\<lparr>lk := snd (test_and_set (lk ?s2)), pc := (pc ?s2)(1 := Swapped)\<rparr>"
  let ?s4 = "?s3\<lparr>lk := (lk ?s3)\<lparr>lcpu := Some 1\<rparr>, pc := (pc ?s3)(1 := Critical)\<rparr>"
  have "reach lk_init lk_step ?s0" by (rule reach_init) (simp add: lk_init_def)
  then have "reach lk_init lk_step ?s1" by (rule reach_step) (rule call_acquire, simp_all)
  then have "reach lk_init lk_step ?s2" by (rule reach_step) (rule call_acquire, simp_all)
  then have "reach lk_init lk_step ?s3" by (rule reach_step) (rule swap_won, simp_all add: test_and_set_def)
  then have "reach lk_init lk_step ?s4" by (rule reach_step) (rule record_cpu, simp)
  moreover have "?s4 = ?t" by (simp add: test_and_set_def)
  ultimately show ?thesis by simp
qed

theorem spinlock_mutual_exclusion_witness:
  "\<exists>s. reach lk_init lk_step s \<and> pc s 0 = Spinning \<and> pc s 1 = Critical \<and> (owns s 1 \<and> owns s 1 \<longrightarrow> (1::nat) = 1)
    \<and> locked (lk s) \<and> lcpu (lk s) = Some 1"
  using spinlock_mutual_exclusion[OF lk_run_example, of 1 1] lk_run_example
  by (intro exI[of _ "\<lparr>lk = \<lparr>locked = True, lname = ''kmem'', lcpu = Some 1\<rparr>,
     pc = (\<lambda>_. Outside)(0 := Spinning, 1 := Critical)\<rparr>"]) simp

subsection \<open>Settled interrupt state\<close>

definition settled :: "nat \<Rightarrow> 'a machine_scheme \<Rightarrow> bool" where
  "settled c s = (noff (cpus s c) = 0 \<longrightarrow> intena (cpus s c) = sie (cpus s c))"

lemma settle_settled: "settled c s \<Longrightarrow> settle c s = s"
  by (cases "cpus s c") (auto simp: settled_def settle_def upd_cpu_def fun_upd_idem)

lemma settled_settle [simp]: "settled c (settle c s)"
  by (simp add: settled_def settle_def upd_cpu_def)

lemma lockless_comp: "lockless f \<Longrightarrow> lockless g \<Longrightarrow> lockless (\<lambda>s. f (g s))"
  by (simp add: lockless_def)

subsection \<open>What the primitives change, when they return\<close>

text \<open>
  These facts hold in every state: nothing is said about which locks are free.  They are what the
  interleaved models need.
\<close>

definition same_cprocs :: "'a machine_scheme \<Rightarrow> 'a machine_scheme \<Rightarrow> bool" where
  "same_cprocs s s' = (\<forall>d. cproc (cpus s' d) = cproc (cpus s d))"

definition machine_only :: "'a machine_scheme \<Rightarrow> 'a machine_scheme \<Rightarrow> bool" where
  "machine_only s s' = (s' = s\<lparr>cpus := cpus s', locks := locks s'\<rparr> \<and> same_cprocs s s')"

definition kept :: "'a machine_scheme \<Rightarrow> 'a machine_scheme \<Rightarrow> bool" where
  "kept s s' = (\<forall>l. locked (locks s l) \<longrightarrow> locks s' l = locks s l)"

lemma kept_refl [simp]: "kept s s" and same_cprocs_refl [simp]: "same_cprocs s s"
  and machine_only_refl [simp]: "machine_only s s"
  by (simp_all add: kept_def same_cprocs_def machine_only_def)

lemma same_cprocs_trans: "same_cprocs s t \<Longrightarrow> same_cprocs t u \<Longrightarrow> same_cprocs s u"
  by (simp add: same_cprocs_def)

lemma kept_trans: "kept s t \<Longrightarrow> kept t u \<Longrightarrow> kept s u"
  by (simp add: kept_def)

lemma machine_only_cprocs: "machine_only s s' \<Longrightarrow> same_cprocs s s'"
  by (simp add: machine_only_def)

lemma acquire_Inr:
  assumes "acquire c l s = Inr s'"
  shows "s' = inside c l s" and "\<not> locked (locks s l)"
proof -
  have free: "\<not> locked (locks s l)"
    using assms by (auto simp: machine_defs Let_def split: if_splits)
  then show "\<not> locked (locks s l)" .
  then show "s' = inside c l s"
    using assms by (auto simp: acquire_def Let_def holding_def test_and_set_def push_off_eq inside_eq upd_lock_def split: if_splits)
qed

lemma inside_machine_only: "machine_only s (inside c l s)"
  by (simp add: machine_only_def inside_eq same_cprocs_def)

lemma pop_off_Inr: "pop_off c s = Inr s' \<Longrightarrow> machine_only s s' \<and> locks s' = locks s"
  by (auto simp: machine_only_def same_cprocs_def pop_off_def intr_on_def upd_cpu_def Let_def split: if_splits)

lemma release_Inr:
  assumes "release c l s = Inr s'"
  shows "holding c l s" and "machine_only s s'"
    and "locks s' = (locks s)(l := (locks s l)\<lparr>lcpu := None, locked := False\<rparr>)"
proof -
  show "holding c l s" using assms by (auto simp: release_def split: if_splits)
  let ?t = "s\<lparr>locks := (locks s)(l := (locks s l)\<lparr>lcpu := None, locked := False\<rparr>)\<rparr>"
  have "pop_off c ?t = Inr s'"
    using assms by (auto simp: release_def upd_lock_def split: if_splits)
  from pop_off_Inr[OF this] have eq: "s' = ?t\<lparr>cpus := cpus s', locks := locks s'\<rparr>" and sc: "same_cprocs ?t s'"
    and lk: "locks s' = locks ?t" unfolding machine_only_def by blast+
  show "locks s' = (locks s)(l := (locks s l)\<lparr>lcpu := None, locked := False\<rparr>)" using lk by simp
  have "s' = s\<lparr>cpus := cpus s', locks := locks s'\<rparr>" by (subst eq) simp
  then show "machine_only s s'" using sc by (simp add: machine_only_def same_cprocs_def)
qed

lemma push_off_cproc [simp]: "cproc (cpus (push_off c s) d) = cproc (cpus s d)"
  and push_off_locks [simp]: "locks (push_off c s) = locks s"
  by (simp_all add: push_off_eq)

lemma push_off_only: "machine_only s (push_off c s)"
  by (simp add: machine_only_def push_off_eq same_cprocs_def)

end
