(* ===== verification/Printf.thy ===== *)
theory Printf
  imports Spinlock
begin

text \<open>
  Console output and formatted printing: \<^verbatim>\<open>kernel/printf.c\<close>, \<open>consputc\<close> of
  \<^verbatim>\<open>kernel/console.c\<close> and \<open>uartputc_sync\<close> of \<^verbatim>\<open>kernel/uart.c\<close>.

  \<open>uart_out\<close> is the sequence of bytes written to the transmit register; the poll of the line
  status register before each write is taken to succeed, since the device always becomes
  idle again.  A variadic argument is a \<open>va\<close>; reading one at a type it does not have is a
  \<open>Fault\<close>.  \<open>render\<close> is the specification of \<open>printf\<close>: the text a format and its arguments
  stand for.
\<close>

record kio = machine +
  uart_out :: string
  panicking :: bool
  panicked :: bool

datatype va = VaInt int | VaLong uint64 | VaStr "string option"

definition uartputc_sync :: "nat \<Rightarrow> nat \<Rightarrow> 'a kio_scheme \<Rightarrow> 'a kio_scheme res" where
  "uartputc_sync c x s =
     (let s = (if \<not> panicking s then push_off c s else s) in
      if panicked s then Inl (Spin ''uartputc_sync'')
      else let s = s\<lparr>uart_out := uart_out s @ [char_of x]\<rparr> in
           if \<not> panicking s then pop_off c s else Inr s)"

definition BACKSPACE :: nat where "BACKSPACE = 0x100"

definition consputc :: "nat \<Rightarrow> nat \<Rightarrow> 'a kio_scheme \<Rightarrow> 'a kio_scheme res" where
  "consputc c x s =
     (if x = BACKSPACE then
        bindE (uartputc_sync c 8 s) (\<lambda>s.
        bindE (uartputc_sync c (of_char CHR '' '') s) (\<lambda>s.
        uartputc_sync c 8 s))
      else uartputc_sync c x s)"

definition digits :: "string" where "digits = ''0123456789abcdef''"

text \<open>The \<^verbatim>\<open>do ... while\<close> loop of \<open>printint\<close>: digits, least significant first.\<close>

function printint_loop :: "nat \<Rightarrow> nat \<Rightarrow> string" where
  "printint_loop base x =
     digits ! (x mod base) #
       (if base < 2 \<or> x div base = 0 then [] else printint_loop base (x div base))"
  by pat_completeness auto
termination
  by (relation "measure snd") (auto intro!: div_less_dividend gr0I)

declare printint_loop.simps [simp del]

definition printint_buf :: "int \<Rightarrow> nat \<Rightarrow> bool \<Rightarrow> string" where
  "printint_buf xx base sign =
     (let neg = (sign \<and> xx < 0);
          x = (if neg then nat (- xx) else nat (xx mod 2 ^ 64))
      in printint_loop base x @ (if neg then ''-'' else []))"

fun putchars :: "nat \<Rightarrow> string \<Rightarrow> 'a kio_scheme \<Rightarrow> 'a kio_scheme res" where
  "putchars c [] s = Inr s"
| "putchars c (x # xs) s = bindE (consputc c (of_char x) s) (putchars c xs)"

definition printint :: "nat \<Rightarrow> int \<Rightarrow> nat \<Rightarrow> bool \<Rightarrow> 'a kio_scheme \<Rightarrow> 'a kio_scheme res" where
  "printint c xx base sign s =
     (let buf = printint_buf xx base sign in
      if 20 < length buf then Inl (Fault ''printint buf'') else putchars c (rev buf) s)"

fun printptr_loop :: "nat \<Rightarrow> uint64 \<Rightarrow> string" where
  "printptr_loop 0 x = []"
| "printptr_loop (Suc n) x = digits ! unat (drop_bit 60 x) # printptr_loop n (push_bit 4 x)"

definition printptr :: "nat \<Rightarrow> uint64 \<Rightarrow> 'a kio_scheme \<Rightarrow> 'a kio_scheme res" where
  "printptr c x s = putchars c (''0x'' @ printptr_loop 16 x) s"

text \<open>
  The conversions after a percent sign, tried in the order of the source: what is
  consumed of the format besides the percent sign, and which conversion it is.
\<close>

datatype conv = ConvInt nat bool | ConvLong nat bool | ConvPtr | ConvChar | ConvStr | ConvPercent | ConvUnknown char

definition conversion :: "string \<Rightarrow> conv \<times> nat" where
  "conversion f =
     (let c0 = f ! 0;
          c1 = (if 1 < length f then Some (f ! 1) else None);
          c2 = (if 2 < length f then Some (f ! 2) else None)
      in if c0 = CHR ''d'' then (ConvInt 10 True, 1)
         else if c0 = CHR ''l'' \<and> c1 = Some CHR ''d'' then (ConvLong 10 True, 2)
         else if c0 = CHR ''l'' \<and> c1 = Some CHR ''l'' \<and> c2 = Some CHR ''d'' then (ConvLong 10 True, 3)
         else if c0 = CHR ''u'' then (ConvInt 10 False, 1)
         else if c0 = CHR ''l'' \<and> c1 = Some CHR ''u'' then (ConvLong 10 False, 2)
         else if c0 = CHR ''l'' \<and> c1 = Some CHR ''l'' \<and> c2 = Some CHR ''u'' then (ConvLong 10 False, 3)
         else if c0 = CHR ''x'' then (ConvInt 16 False, 1)
         else if c0 = CHR ''l'' \<and> c1 = Some CHR ''x'' then (ConvLong 16 False, 2)
         else if c0 = CHR ''l'' \<and> c1 = Some CHR ''l'' \<and> c2 = Some CHR ''x'' then (ConvLong 16 False, 3)
         else if c0 = CHR ''p'' then (ConvPtr, 1)
         else if c0 = CHR ''c'' then (ConvChar, 1)
         else if c0 = CHR ''s'' then (ConvStr, 1)
         else if c0 = CHR ''%'' then (ConvPercent, 1)
         else (ConvUnknown c0, 1))"

text \<open>One conversion: it may take the next argument.  \<^verbatim>\<open>va_arg(ap, uint32)\<close> and
  \<^verbatim>\<open>va_arg(ap, int)\<close> read the same 32 bits.\<close>

definition do_conv :: "nat \<Rightarrow> conv \<Rightarrow> va list \<Rightarrow> 'a kio_scheme \<Rightarrow> (va list \<times> 'a kio_scheme) res" where
  "do_conv c cv ap s =
     (case cv of
        ConvInt base sign \<Rightarrow> (case ap of
            VaInt n # ap \<Rightarrow> bindE (printint c (if sign then i32 n else n mod 2 ^ 32) base sign s) (\<lambda>s. Inr (ap, s))
          | _ \<Rightarrow> Inl (Fault ''va_arg''))
      | ConvLong base sign \<Rightarrow> (case ap of
            VaLong w # ap \<Rightarrow> bindE (printint c (sint w) base sign s) (\<lambda>s. Inr (ap, s))
          | _ \<Rightarrow> Inl (Fault ''va_arg''))
      | ConvPtr \<Rightarrow> (case ap of
            VaLong w # ap \<Rightarrow> bindE (printptr c w s) (\<lambda>s. Inr (ap, s))
          | _ \<Rightarrow> Inl (Fault ''va_arg''))
      | ConvChar \<Rightarrow> (case ap of
            VaInt n # ap \<Rightarrow> bindE (consputc c (nat (n mod 2 ^ 32)) s) (\<lambda>s. Inr (ap, s))
          | _ \<Rightarrow> Inl (Fault ''va_arg''))
      | ConvStr \<Rightarrow> (case ap of
            VaStr t # ap \<Rightarrow> bindE (putchars c (case t of None \<Rightarrow> ''(null)'' | Some t \<Rightarrow> t) s) (\<lambda>s. Inr (ap, s))
          | _ \<Rightarrow> Inl (Fault ''va_arg''))
      | ConvPercent \<Rightarrow> bindE (consputc c (of_char CHR ''%'') s) (\<lambda>s. Inr (ap, s))
      | ConvUnknown x \<Rightarrow> bindE (consputc c (of_char CHR ''%'') s) (\<lambda>s.
          bindE (consputc c (of_char x) s) (\<lambda>s. Inr (ap, s))))"

function printf_loop :: "nat \<Rightarrow> string \<Rightarrow> va list \<Rightarrow> 'a kio_scheme \<Rightarrow> 'a kio_scheme res" where
  "printf_loop c [] ap s = Inr s"
| "printf_loop c (x # f) ap s =
     (if x \<noteq> CHR ''%'' then bindE (consputc c (of_char x) s) (\<lambda>s. printf_loop c f ap s)
      else if f = [] then Inr s
      else bindE (do_conv c (fst (conversion f)) ap s) (\<lambda>(ap, s).
             printf_loop c (drop (snd (conversion f)) f) ap s))"
  by pat_completeness auto
termination
  by (relation "measure (\<lambda>(c, f, ap, s). length f)") auto

definition printf :: "nat \<Rightarrow> string \<Rightarrow> va list \<Rightarrow> 'a kio_scheme \<Rightarrow> 'a kio_scheme res" where
  "printf c fmt ap s =
     bindE (if \<not> panicking s then acquire c PrLock s else Inr s) (\<lambda>s.
     bindE (printf_loop c fmt ap s) (\<lambda>s.
     if \<not> panicking s then release c PrLock s else Inr s))"

text \<open>\<open>panic\<close> prints, freezes the output of the other CPUs and never returns.\<close>

definition panic :: "nat \<Rightarrow> string \<Rightarrow> 'a kio_scheme \<Rightarrow> stop \<times> 'a kio_scheme" where
  "panic c msg s =
     (let s = s\<lparr>panicking := True\<rparr> in
      case bindE (printf c ''panic: '' [] s) (printf c (''%s'' @ [char_of (10::nat)]) [VaStr (Some msg)]) of
        Inl e \<Rightarrow> (e, s)
      | Inr s \<Rightarrow> (Panic msg, s\<lparr>panicked := True\<rparr>))"

subsection \<open>Specification\<close>

definition render_conv :: "conv \<Rightarrow> va list \<Rightarrow> (string \<times> va list) option" where
  "render_conv cv ap =
     (case (cv, ap) of
        (ConvInt base sign, VaInt n # ap) \<Rightarrow>
          Some (rev (printint_buf (if sign then i32 n else n mod 2 ^ 32) base sign), ap)
      | (ConvLong base sign, VaLong w # ap) \<Rightarrow> Some (rev (printint_buf (sint w) base sign), ap)
      | (ConvPtr, VaLong w # ap) \<Rightarrow> Some (''0x'' @ printptr_loop 16 w, ap)
      | (ConvChar, VaInt n # ap) \<Rightarrow>
          Some (if n mod 2 ^ 32 = 256 then [char_of (8::nat), CHR '' '', char_of (8::nat)]
                else [char_of (nat (n mod 2 ^ 32))], ap)
      | (ConvStr, VaStr t # ap) \<Rightarrow> Some (case t of None \<Rightarrow> ''(null)'' | Some t \<Rightarrow> t, ap)
      | (ConvPercent, ap) \<Rightarrow> Some (''%'', ap)
      | (ConvUnknown x, ap) \<Rightarrow> Some ([CHR ''%'', x], ap)
      | _ \<Rightarrow> None)"

function render :: "string \<Rightarrow> va list \<Rightarrow> string option" where
  "render [] ap = Some []"
| "render (x # f) ap =
     (if x \<noteq> CHR ''%'' then map_option ((#) x) (render f ap)
      else if f = [] then Some []
      else case render_conv (fst (conversion f)) ap of
             None \<Rightarrow> None
           | Some (out, ap) \<Rightarrow> map_option ((@) out) (render (drop (snd (conversion f)) f) ap))"
  by pat_completeness auto
termination
  by (relation "measure (\<lambda>(f, ap). length f)") auto

text \<open>
  A format matches its arguments when each conversion finds an argument of its kind; this
  depends on the kinds only, so it can be computed for a literal format.
\<close>

datatype va_kind = KInt | KLong | KStr

fun kind_of :: "va \<Rightarrow> va_kind" where
  "kind_of (VaInt n) = KInt"
| "kind_of (VaLong w) = KLong"
| "kind_of (VaStr t) = KStr"

fun conv_takes :: "conv \<Rightarrow> va_kind option" where
  "conv_takes (ConvInt b sg) = Some KInt"
| "conv_takes (ConvLong b sg) = Some KLong"
| "conv_takes ConvPtr = Some KLong"
| "conv_takes ConvChar = Some KInt"
| "conv_takes ConvStr = Some KStr"
| "conv_takes ConvPercent = None"
| "conv_takes (ConvUnknown x) = None"

function fmt_ok :: "string \<Rightarrow> va_kind list \<Rightarrow> bool" where
  "fmt_ok [] ks = True"
| "fmt_ok (x # f) ks =
     (if x \<noteq> CHR ''%'' then fmt_ok f ks
      else if f = [] then True
      else case conv_takes (fst (conversion f)) of
             None \<Rightarrow> fmt_ok (drop (snd (conversion f)) f) ks
           | Some k \<Rightarrow> ks \<noteq> [] \<and> hd ks = k \<and> fmt_ok (drop (snd (conversion f)) f) (tl ks))"
  by pat_completeness auto
termination
  by (relation "measure (\<lambda>(f, ks). length f)") auto

text \<open>The reader of a decimal number, for the round trip of \<open>printint\<close>.\<close>

fun read_digits :: "nat \<Rightarrow> string \<Rightarrow> nat" where
  "read_digits base [] = 0"
| "read_digits base (x # xs) = (of_char x - of_char CHR ''0'') + base * read_digits base xs"

definition read_decimal :: "string \<Rightarrow> int" where
  "read_decimal t = (if t \<noteq> [] \<and> hd t = CHR ''-'' then - int (read_digits 10 (rev (tl t)))
     else int (read_digits 10 (rev t)))"

subsection \<open>Output of a single character\<close>

definition outputs :: "string \<Rightarrow> 'a kio_scheme \<Rightarrow> 'a kio_scheme" where
  "outputs t s = s\<lparr>uart_out := uart_out s @ t\<rparr>"

definition can_print :: "nat \<Rightarrow> 'a kio_scheme \<Rightarrow> bool" where
  "can_print c s = (cpu_sane c s \<and> \<not> panicking s \<and> \<not> panicked s)"

lemma push_pop:
  assumes "cpu_sane c s"
  shows "pop_off c (outputs t (push_off c s)) = Inr (outputs t (settle c s))"
  using assms
  by (cases "cpus s c") (auto simp: pop_off_def push_off_eq intr_get_def intr_on_def upd_cpu_def
      settle_def cpu_sane_def outputs_def Let_def fun_upd_idem)

lemma push_off_io [simp]: "panicking (push_off c s) = panicking s"
  "panicked (push_off c s) = panicked s" "uart_out (push_off c s) = uart_out s"
  by (simp_all add: push_off_eq)

lemma settle_io [simp]: "panicking (settle c s) = panicking s"
  "panicked (settle c s) = panicked s" "uart_out (settle c s) = uart_out s"
  by (simp_all add: settle_def upd_cpu_def)

lemma can_print_settle [simp]: "can_print c (settle d s) = can_print c s"
  by (simp add: can_print_def)

lemma can_print_outputs [simp]: "can_print c (outputs t s) = can_print c s"
  by (simp add: can_print_def outputs_def cpu_sane_def)

lemma outputs_outputs [simp]: "outputs t (outputs u s) = outputs (u @ t) s"
  by (simp add: outputs_def)

lemma outputs_Nil [simp]: "outputs [] s = s"
  by (simp add: outputs_def)

lemma settle_outputs [simp]: "settle c (outputs t s) = outputs t (settle c s)"
  by (simp add: settle_def outputs_def upd_cpu_def)

lemma lockless_outputs: "lockless (outputs t)"
  by (simp add: lockless_def outputs_def)

lemma uartputc_sync_ok:
  "can_print c s \<Longrightarrow> uartputc_sync c x s = Inr (outputs [char_of x] (settle c s))"
  using push_pop[of c s "[char_of x]"]
  by (simp add: uartputc_sync_def can_print_def Let_def outputs_def)

lemma consputc_ok:
  "can_print c s \<Longrightarrow> x \<noteq> BACKSPACE \<Longrightarrow>
    consputc c x s = Inr (outputs [char_of x] (settle c s))"
  by (simp add: consputc_def uartputc_sync_ok)

lemma of_char_not_256: "(of_char x :: nat) \<noteq> 256"
  by (metis mod_self of_char_mod_256 zero_neq_numeral)

lemma consputc_char_ok:
  "can_print c s \<Longrightarrow> consputc c (of_char x) s = Inr (outputs [x] (settle c s))"
  by (subst consputc_ok) (simp_all add: BACKSPACE_def of_char_not_256)

lemma consputc_erase:
  "can_print c s \<Longrightarrow> consputc c BACKSPACE s = Inr (outputs [char_of (8::nat), CHR '' '', char_of (8::nat)] (settle c s))"
  by (simp add: consputc_def uartputc_sync_ok del: of_char_Char)

text \<open>With a lock held the nesting count is positive and \<open>settle\<close> does nothing.\<close>

lemma settle_nested: "noff (cpus s c) \<noteq> 0 \<Longrightarrow> settle c s = s"
  by (simp add: settle_def)

lemma outputs_machine [simp]: "cpus (outputs t s) = cpus s" "locks (outputs t s) = locks s"
  by (simp_all add: outputs_def)

lemma putchars_ok:
  "can_print c s \<Longrightarrow> noff (cpus s c) \<noteq> 0 \<Longrightarrow> putchars c t s = Inr (outputs t s)"
  by (induction t arbitrary: s) (simp_all add: consputc_char_ok settle_nested)

subsection \<open>Numbers\<close>

lemma printint_loop_length:
  assumes "x < base ^ k" and "0 < k" and "2 \<le> base"
  shows "length (printint_loop base x) \<le> k"
  using assms
proof (induction base x arbitrary: k rule: printint_loop.induct)
  case (1 base x)
  obtain m where k: "k = Suc m" using "1.prems"(2) by (cases k) auto
  show ?case
  proof (cases "x div base = 0")
    case True
    then show ?thesis using k by (simp add: printint_loop.simps[of base x])
  next
    case False
    then have "x div base < base ^ m"
      using "1.prems"(1,3) k by (simp add: less_mult_imp_div_less mult.commute)
    moreover have "0 < m" using False calculation by (cases m) auto
    ultimately have "length (printint_loop base (x div base)) \<le> m"
      using "1.IH" False "1.prems"(3) by simp
    then show ?thesis using k by (simp add: printint_loop.simps[of base x])
  qed
qed

lemma printint_buf_length:
  assumes "base = 10 \<or> base = 16" and "sign \<Longrightarrow> - (2 ^ 63) \<le> xx"
  shows "length (printint_buf xx base sign) \<le> 20"
proof (cases "sign \<and> xx < 0")
  case True
  then have "nat (- xx) < 10 ^ 19" "nat (- xx) < 16 ^ 19" using assms(2) by simp_all
  then have "length (printint_loop base (nat (- xx))) \<le> 19"
    using assms(1) by (auto intro: printint_loop_length)
  with True show ?thesis by (simp add: printint_buf_def)
next
  case False
  have "xx mod 2 ^ 64 < 2 ^ 64" "0 \<le> xx mod 2 ^ 64" by simp_all
  then have "nat (xx mod 2 ^ 64) < 10 ^ 20" "nat (xx mod 2 ^ 64) < 16 ^ 20" by simp_all
  then have "length (printint_loop base (nat (xx mod 2 ^ 64))) \<le> 20"
    using assms(1) by (auto intro: printint_loop_length)
  with False show ?thesis unfolding printint_buf_def Let_def if_not_P[OF False] by simp
qed

lemma printint_ok:
  assumes "can_print c s" and "noff (cpus s c) \<noteq> 0"
    and "base = 10 \<or> base = 16" and "sign \<Longrightarrow> - (2 ^ 63) \<le> xx"
  shows "printint c xx base sign s = Inr (outputs (rev (printint_buf xx base sign)) s)"
  using assms printint_buf_length[OF assms(3), of sign xx] by (simp add: printint_def putchars_ok Let_def)

lemma digit_value: "d < 10 \<Longrightarrow> of_char (digits ! d) - of_char CHR ''0'' = d"
proof -
  assume "d < 10"
  then have "d \<in> set [0..<10]" by simp
  then show ?thesis by (auto simp: digits_def upt_rec)
qed

lemma read_printint_loop: "read_digits 10 (printint_loop 10 x) = x"
proof (induction "10::nat" x rule: printint_loop.induct)
  case (1 x)
  show ?case
  proof (cases "x div 10 = 0")
    case True
    then show ?thesis
      by (simp add: printint_loop.simps[of 10 x] digit_value[simplified] div_eq_0_iff)
  next
    case False
    then show ?thesis using 1 digit_value[of "x mod 10"]
      by (simp add: printint_loop.simps[of 10 x])
  qed
qed

lemma printint_loop_digit: "x \<in> set (printint_loop 10 n) \<Longrightarrow> x \<noteq> CHR ''-''"
proof (induction "10::nat" n rule: printint_loop.induct)
  case (1 n)
  have "digits ! (n mod 10) \<noteq> CHR ''-''"
  proof -
    have "n mod 10 \<in> set [0..<10]" by simp
    then show ?thesis by (auto simp: digits_def upt_rec)
  qed
  with 1 show ?case by (auto simp: printint_loop.simps[of 10 n] split: if_splits)
qed

lemma printint_loop_not_Nil: "printint_loop b n \<noteq> []"
  by (simp add: printint_loop.simps)

lemma read_printint_buf:
  assumes "- (2 ^ 63) \<le> xx" and "xx < 2 ^ 63"
  shows "read_decimal (rev (printint_buf xx 10 True)) = xx"
proof (cases "xx < 0")
  case True
  then show ?thesis by (simp add: printint_buf_def read_decimal_def read_printint_loop)
next
  case False
  let ?t = "printint_loop 10 (nat xx)"
  have "xx mod 2 ^ 64 = xx" using False assms by simp
  then have b: "printint_buf xx 10 True = ?t" using False by (simp add: printint_buf_def)
  have "hd (rev ?t) \<in> set ?t" using printint_loop_not_Nil[of 10 "nat xx"]
    by (metis hd_in_set rev_is_Nil_conv set_rev)
  then have "hd (rev ?t) \<noteq> CHR ''-''" by (rule printint_loop_digit)
  then show ?thesis using False b by (simp add: read_decimal_def read_printint_loop)
qed

text \<open>
  C25. Signed decimal output is exact.  For every 64-bit integer the digits of \<open>printint\<close> fit
  its 20-byte buffer, no part of the machine but the output changes, and reading the printed
  text back gives the number.
\<close>

theorem printint_roundtrip:
  assumes "- (2 ^ 63) \<le> xx" and "xx < 2 ^ 63" and "can_print c s" and "noff (cpus s c) \<noteq> 0"
  shows "\<exists>t. printint c xx 10 True s = Inr (outputs t s) \<and> length t \<le> 20 \<and> read_decimal t = xx"
  using printint_ok[OF assms(3,4), of 10 True xx] printint_buf_length[of 10 True xx]
    read_printint_buf[OF assms(1,2)] assms(1)
  by (intro exI[of _ "rev (printint_buf xx 10 True)"]) simp

definition boot_cpu :: cpu where
  "boot_cpu = \<lparr>cproc = None, noff = 1, intena = False, sie = False\<rparr>"

definition io_example :: kio where
  "io_example = \<lparr>cpus = (\<lambda>_. boot_cpu), locks = (\<lambda>_. \<lparr>locked = False, lname = [], lcpu = None\<rparr>),
     uart_out = [], panicking = False, panicked = False\<rparr>"

theorem printint_roundtrip_witness:
  "\<exists>t. printint 0 (- (2 ^ 63)) 10 True io_example = Inr (outputs t io_example) \<and> length t \<le> 20
     \<and> read_decimal t = - (2 ^ 63)"
  by (rule printint_roundtrip) (simp_all add: can_print_def cpu_sane_def io_example_def boot_cpu_def)

subsection \<open>printf refines its specification\<close>

lemma conversion_base:
  "conversion f = (ConvInt base sign, n) \<Longrightarrow> base = 10 \<or> base = 16"
  "conversion f = (ConvLong base sign, n) \<Longrightarrow> base = 10 \<or> base = 16"
  by (auto simp: conversion_def Let_def split: if_splits)

lemma do_conv_render:
  assumes "can_print c s" and "noff (cpus s c) \<noteq> 0"
    and "render_conv (fst (conversion f)) ap = Some (out, ap')"
  shows "do_conv c (fst (conversion f)) ap s = Inr (ap', outputs out s)"
proof -
  obtain cv n where cv: "conversion f = (cv, n)" by (cases "conversion f")
  note base = conversion_base[of f]
  have lo: "- 9223372036854775808 \<le> i32 m" for m using i32_range(1)[of m] by simp
  have sl: "- 9223372036854775808 \<le> sint (w :: uint64)" for w using sint_ge[of w] by simp
  note pi = printint_ok[OF assms(1,2), of 10, simplified] printint_ok[OF assms(1,2), of 16, simplified]
  show ?thesis
    using assms cv base
    by (cases cv; cases ap rule: list.exhaust)
      (auto simp: do_conv_def render_conv_def printptr_def putchars_ok consputc_char_ok
        settle_nested consputc_ok consputc_erase[unfolded BACKSPACE_def] BACKSPACE_def lo sl pi
        simp del: of_char_Char split: va.splits if_splits)
qed

lemma printf_loop_render:
  assumes "can_print c s" and "noff (cpus s c) \<noteq> 0" and "render f ap = Some out"
  shows "printf_loop c f ap s = Inr (outputs out s)"
  using assms
proof (induction f ap arbitrary: s out rule: render.induct)
  case (2 x f ap)
  consider (plain) "x \<noteq> CHR ''%''" | (stop) "x = CHR ''%''" "f = []" | (conv) "x = CHR ''%''" "f \<noteq> []"
    by blast
  then show ?case
  proof cases
    case plain
    with "2.prems"(3) obtain o1 where "render f ap = Some o1" "out = x # o1" by auto
    with plain 2 show ?thesis by (simp add: consputc_char_ok settle_nested)
  next
    case stop
    with "2.prems" show ?thesis by simp
  next
    case conv
    with "2.prems"(3) obtain o1 ap1 o2 where
      o1: "render_conv (fst (conversion f)) ap = Some (o1, ap1)"
      and o2: "render (drop (snd (conversion f)) f) ap1 = Some o2" and out: "out = o1 @ o2"
      by (auto split: option.splits prod.splits)
    have "printf_loop c (drop (snd (conversion f)) f) ap1 (outputs o1 s) = Inr (outputs o2 (outputs o1 s))"
      using conv o1 o2 "2.prems"(1,2) by (intro "2.IH"(2)) simp_all
    then show ?thesis
      using conv out do_conv_render[OF "2.prems"(1,2) o1] by simp
  qed
qed simp

lemma printf_render:
  assumes "lock_free PrLock s" and "can_print c s" and "render fmt ap = Some out"
  shows "printf c fmt ap s = Inr (outputs out (settle c s))"
proof -
  have sane: "cpu_sane c s" "\<not> panicking s" "\<not> panicked s" using assms(2) by (simp_all add: can_print_def)
  have i: "can_print c (inside c PrLock s)" "noff (cpus (inside c PrLock s) c) \<noteq> 0"
    "\<not> panicking (inside c PrLock s)"
    using sane by (simp_all add: inside_eq can_print_def cpu_sane_def)
  have "printf c fmt ap s = release c PrLock (outputs out (inside c PrLock s))"
    using sane i printf_loop_render[OF i(1,2) assms(3)] assms(1)
    by (simp add: printf_def acquire_free outputs_def)
  also have "\<dots> = release c PrLock (inside c PrLock (outputs out s))"
    by (simp add: lockless_inside[OF lockless_outputs])
  also have "\<dots> = Inr (outputs out (settle c s))"
    using assms(1) sane(1) by (subst release_inside) (simp_all add: lock_free_def cpu_sane_def)
  finally show ?thesis .
qed

lemma conv_takes_render:
  "conv_takes cv = None \<Longrightarrow> \<exists>out. render_conv cv ap = Some (out, ap)"
  "conv_takes cv = Some (kind_of v) \<Longrightarrow> \<exists>out. render_conv cv (v # ap) = Some (out, ap)"
  by (cases cv; cases v; simp add: render_conv_def)+

lemma fmt_ok_render: "fmt_ok f (map kind_of ap) \<Longrightarrow> render f ap \<noteq> None"
proof (induction f "map kind_of ap" arbitrary: ap rule: fmt_ok.induct)
  case (2 x f)
  consider (plain) "x \<noteq> CHR ''%''" | (stop) "x = CHR ''%''" "f = []"
    | (none) "x = CHR ''%''" "f \<noteq> []" "conv_takes (fst (conversion f)) = None"
    | (some) k where "x = CHR ''%''" "f \<noteq> []" "conv_takes (fst (conversion f)) = Some k" by blast
  then show ?case
  proof cases
    case none
    then obtain out where "render_conv (fst (conversion f)) ap = Some (out, ap)"
      using conv_takes_render(1) by blast
    then show ?thesis using none 2 by simp
  next
    case some
    with 2(4) obtain v ap' where ap: "ap = v # ap'" "kind_of v = k" by (cases ap) auto
    then obtain out where "render_conv (fst (conversion f)) ap = Some (out, ap')"
      using conv_takes_render(2) some(3) by blast
    then show ?thesis using some 2 ap by simp
  qed (use 2 in auto)
qed simp

lemma printf_text:
  assumes "lock_free PrLock s" and "can_print c s" and "fmt_ok fmt (map kind_of ap)"
  shows "printf c fmt ap s = Inr (outputs (the (render fmt ap)) (settle c s))"
  using printf_render[OF assms(1,2)] fmt_ok_render[OF assms(3)] by auto

declare render.simps [simp del] fmt_ok.simps [simp del] printf_loop.simps [simp del]

subsection \<open>What printing changes, when it returns\<close>

definition io_only :: "'a kio_scheme \<Rightarrow> 'a kio_scheme \<Rightarrow> bool" where
  "io_only s s' = (s' = s\<lparr>cpus := cpus s', locks := locks s', uart_out := uart_out s'\<rparr> \<and> same_cprocs s s')"

lemma io_only_refl [simp]: "io_only s s"
  by (simp add: io_only_def)

lemma io_only_cprocs: "io_only s s' \<Longrightarrow> same_cprocs s s'"
  by (simp add: io_only_def)

lemma machine_io: "machine_only s s' \<Longrightarrow> io_only s s'"
proof -
  assume "machine_only s s'"
  then have eq: "s' = s\<lparr>cpus := cpus s', locks := locks s'\<rparr>" and sc: "same_cprocs s s'"
    by (simp_all add: machine_only_def)
  have "uart_out s' = uart_out s" by (subst eq) simp
  then show ?thesis using eq sc by (simp add: io_only_def)
qed

lemma io_only_trans:
  assumes "io_only s t" and "io_only t u"
  shows "io_only s u"
proof -
  have t: "t = s\<lparr>cpus := cpus t, locks := locks t, uart_out := uart_out t\<rparr>"
    and u: "u = t\<lparr>cpus := cpus u, locks := locks u, uart_out := uart_out u\<rparr>"
    and sc: "same_cprocs s u" using assms by (auto simp: io_only_def intro: same_cprocs_trans)
  have "u = s\<lparr>cpus := cpus u, locks := locks u, uart_out := uart_out u\<rparr>"
    by (subst u, subst t) simp
  then show ?thesis using sc by (simp add: io_only_def)
qed

lemma io_only_panicking: "io_only s s' \<Longrightarrow> panicking s' = panicking s"
proof -
  assume "io_only s s'"
  then have eq: "s' = s\<lparr>cpus := cpus s', locks := locks s', uart_out := uart_out s'\<rparr>" by (simp add: io_only_def)
  show "panicking s' = panicking s" by (subst eq) simp
qed

lemma uartputc_Inr:
  assumes "uartputc_sync c x s = Inr s'"
  shows "io_only s s' \<and> locks s' = locks s"
proof (cases "panicking s")
  case True
  then show ?thesis using assms
    by (auto simp: uartputc_sync_def Let_def io_only_def same_cprocs_def split: if_splits)
next
  case False
  let ?t = "(push_off c s)\<lparr>uart_out := uart_out s @ [char_of x]\<rparr>"
  have "pop_off c ?t = Inr s'"
    using assms False by (auto simp: uartputc_sync_def Let_def split: if_splits)
  then have "io_only ?t s'" "locks s' = locks ?t" using pop_off_Inr machine_io by blast+
  moreover have "io_only s ?t" by (simp add: io_only_def push_off_eq same_cprocs_def)
  ultimately show ?thesis using io_only_trans by auto
qed

lemma consputc_Inr: "consputc c x s = Inr s' \<Longrightarrow> io_only s s' \<and> locks s' = locks s"
  by (auto simp: consputc_def bindE_eq_Inr split: if_splits dest!: uartputc_Inr intro: io_only_trans)

lemma putchars_Inr: "putchars c t s = Inr s' \<Longrightarrow> io_only s s' \<and> locks s' = locks s"
  by (induction t arbitrary: s) (auto simp: bindE_eq_Inr dest!: consputc_Inr intro: io_only_trans)

lemma do_conv_Inr:
  assumes "do_conv c cv ap s = Inr (ap', s')"
  shows "io_only s s' \<and> locks s' = locks s"
proof -
  have one: "bindE m (\<lambda>s. Inr (ap1, s)) = Inr (ap', s') \<longleftrightarrow> m = Inr s' \<and> ap1 = ap'" for m :: "'a kio_scheme res" and ap1
    by (auto simp: bindE_eq_Inr)
  have "(\<exists>t. putchars c t s = Inr s') \<or> (\<exists>x. consputc c x s = Inr s') \<or>
      (\<exists>x y s1. consputc c x s = Inr s1 \<and> consputc c y s1 = Inr s')"
    using assms
    by (cases cv) (auto simp: do_conv_def one printint_def printptr_def Let_def bindE_eq_Inr
        split: va.splits list.splits if_splits simp del: of_char_Char putchars.simps)
  then show ?thesis using putchars_Inr consputc_Inr io_only_trans by metis
qed

lemma printf_loop_Inr: "printf_loop c f ap s = Inr s' \<Longrightarrow> io_only s s' \<and> locks s' = locks s"
proof (induction c f ap s rule: printf_loop.induct)
  case (2 c x f ap s)
  consider (plain) "x \<noteq> CHR ''%''" | (stop) "x = CHR ''%''" "f = []" | (conv) "x = CHR ''%''" "f \<noteq> []" by blast
  then show ?case
  proof cases
    case plain
    then obtain s1 where "consputc c (of_char x) s = Inr s1" "printf_loop c f ap s1 = Inr s'"
      using "2.prems" by (auto simp: printf_loop.simps bindE_eq_Inr)
    then show ?thesis using plain "2.IH"(1) consputc_Inr io_only_trans by metis
  next
    case stop
    then show ?thesis using "2.prems" by (simp add: printf_loop.simps)
  next
    case conv
    then obtain ap1 s1 where "do_conv c (fst (conversion f)) ap s = Inr (ap1, s1)"
      "printf_loop c (drop (snd (conversion f)) f) ap1 s1 = Inr s'"
      using "2.prems" by (auto simp: printf_loop.simps bindE_eq_Inr)
    then show ?thesis using conv "2.IH"(2)[of "(ap1, s1)"] do_conv_Inr[of c _ ap s ap1 s1] io_only_trans[of s s1 s'] by simp
  qed
qed (simp add: printf_loop.simps)

lemma printf_Inr:
  assumes "printf c fmt ap s = Inr s'"
  shows "io_only s s' \<and> kept s s'"
proof (cases "panicking s")
  case True
  then have "printf_loop c fmt ap s = Inr s' \<or> (\<exists>s1. printf_loop c fmt ap s = Inr s1 \<and> \<not> panicking s1)"
    using assms by (auto simp: printf_def bindE_eq_Inr split: if_splits)
  then obtain s1 where "printf_loop c fmt ap s = Inr s1" "panicking s1 \<Longrightarrow> s' = s1" by auto
  moreover from this have "io_only s s1 \<and> locks s1 = locks s" by (intro printf_loop_Inr)
  ultimately show ?thesis using True io_only_panicking[of s s1] by (simp add: kept_def)
next
  case False
  then obtain s1 s2 where s1: "acquire c PrLock s = Inr s1" and s2: "printf_loop c fmt ap s1 = Inr s2"
    and s': "(if \<not> panicking s2 then release c PrLock s2 else Inr s2) = Inr s'"
    using assms by (auto simp: printf_def bindE_eq_Inr)
  have i1: "io_only s s1" "s1 = inside c PrLock s" "\<not> locked (locks s PrLock)"
    using acquire_Inr[OF s1] machine_io[OF inside_machine_only] by simp_all
  have i2: "io_only s1 s2" "locks s2 = locks s1" using printf_loop_Inr[OF s2] by simp_all
  have "panicking s2 = panicking s" using i1(1) i2(1) by (simp add: io_only_panicking)
  then have r: "release c PrLock s2 = Inr s'" using s' False by simp
  have "io_only s s'" using i1(1) i2(1) release_Inr(2)[OF r] machine_io io_only_trans by blast
  moreover have "kept s s'"
    using i1(2,3) i2(2) release_Inr(3)[OF r] by (auto simp: kept_def inside_eq)
  ultimately show ?thesis by simp
qed

end
