(* ===== verification/Thermal.thy ===== *)
theory Thermal
  imports Printf "HOL-Library.Signed_Division"
begin

text \<open>
  The CPU temperature model and the thermal metrics of \<^verbatim>\<open>kernel/proc.c\<close>:
  \<open>update_cpu_temp\<close>, the table of tracked processes and the end-of-run summary.

  \<open>thermal\<close> extends the console state by the file's static variables.  The C integers are
  kept in range by \<open>i32\<close> where the code adds to them without a bound of its own.
\<close>

definition COOL_TEMP :: int where "COOL_TEMP = 30"
definition WARM_TEMP :: int where "WARM_TEMP = 60"
definition HOT_TEMP :: int where "HOT_TEMP = 80"
definition THROTTLE_TEMP :: int where "THROTTLE_TEMP = 90"
definition HEAT_INCREMENT :: int where "HEAT_INCREMENT = 10"
definition HEAT_DECAY :: int where "HEAT_DECAY = 2"
definition MAX_HEAT :: int where "MAX_HEAT = 100"
definition HEAT_COOL_THRESH :: int where "HEAT_COOL_THRESH = 30"
definition HEAT_WARM_THRESH :: int where "HEAT_WARM_THRESH = 60"
definition THERMAL_LOG_INTERVAL :: int where "THERMAL_LOG_INTERVAL = 10"
definition STARVE_TICKS :: int where "STARVE_TICKS = 200"
definition MAX_TRACKED_PIDS :: nat where "MAX_TRACKED_PIDS = 16"

lemmas thermal_consts = COOL_TEMP_def WARM_TEMP_def HOT_TEMP_def THROTTLE_TEMP_def
  HEAT_INCREMENT_def HEAT_DECAY_def MAX_HEAT_def HEAT_COOL_THRESH_def HEAT_WARM_THRESH_def
  THERMAL_LOG_INTERVAL_def STARVE_TICKS_def

record thermal_metrics =
  tm_pid :: int
  sched_count :: int
  skip_count :: int
  heat_sum :: int
  heat_min :: int
  heat_max :: int

record thermal = kio +
  cpu_temp :: int
  tm :: "nat \<Rightarrow> thermal_metrics"
  tm_temp_sum :: int
  tm_temp_count :: int
  tm_temp_min :: int
  tm_temp_max :: int
  tm_cooling_cycles :: int
  tm_had_children :: bool
  sched_round :: int
  summary_printed :: bool

text \<open>
  The temperature after one call, as a function of the temperature before.  The call is one step here; the
  interleaving of its loads and stores with those of other CPUs is in \<open>TempRace\<close>.
\<close>

definition next_temp :: "int \<Rightarrow> int \<Rightarrow> int" where
  "next_temp process_heat t =
     (let t = (if 0 < process_heat then t + (1 + process_heat sdiv 30)
               else t - (if 50 < t then 2 else 1))
      in if 100 < t then 100 else if t < 20 then 20 else t)"

definition update_cpu_temp :: "int \<Rightarrow> 'a thermal_scheme \<Rightarrow> 'a thermal_scheme" where
  "update_cpu_temp process_heat s = s\<lparr>cpu_temp := next_temp process_heat (cpu_temp s)\<rparr>"

definition tm_find :: "int \<Rightarrow> 'a thermal_scheme \<Rightarrow> nat option \<times> 'a thermal_scheme" where
  "tm_find pid s =
     (case find (\<lambda>i. tm_pid (tm s i) = pid) [0..<MAX_TRACKED_PIDS] of
        Some i \<Rightarrow> (Some i, s)
      | None \<Rightarrow>
          (case find (\<lambda>i. tm_pid (tm s i) = 0) [0..<MAX_TRACKED_PIDS] of
             Some i \<Rightarrow> (Some i, s\<lparr>tm := (tm s)(i :=
                 (tm s i)\<lparr>tm_pid := pid, heat_min := MAX_HEAT + 1, heat_max := -1\<rparr>)\<rparr>)
           | None \<Rightarrow> (None, s)))"

definition tm_record_schedule :: "int \<Rightarrow> int \<Rightarrow> 'a thermal_scheme \<Rightarrow> 'a thermal_scheme" where
  "tm_record_schedule pid heat s =
     (case tm_find pid s of
        (None, s) \<Rightarrow> s
      | (Some i, s) \<Rightarrow>
          let m = tm s i;
              m = m\<lparr>sched_count := i32 (sched_count m + 1), heat_sum := i32 (heat_sum m + heat)\<rparr>;
              m = m\<lparr>heat_min := (if heat < heat_min m then heat else heat_min m)\<rparr>;
              m = m\<lparr>heat_max := (if heat > heat_max m then heat else heat_max m)\<rparr>
          in s\<lparr>tm := (tm s)(i := m),
               tm_temp_sum := i32 (tm_temp_sum s + cpu_temp s),
               tm_temp_count := i32 (tm_temp_count s + 1),
               tm_temp_min := (if cpu_temp s < tm_temp_min s then cpu_temp s else tm_temp_min s),
               tm_temp_max := (if cpu_temp s > tm_temp_max s then cpu_temp s else tm_temp_max s)\<rparr>)"

definition tm_record_skip :: "int \<Rightarrow> 'a thermal_scheme \<Rightarrow> 'a thermal_scheme" where
  "tm_record_skip pid s =
     (case tm_find pid s of
        (None, s) \<Rightarrow> s
      | (Some i, s) \<Rightarrow>
          s\<lparr>tm := (tm s)(i := (tm s i)\<lparr>skip_count := i32 (skip_count (tm s i) + 1)\<rparr>)\<rparr>)"

text \<open>A run of \<open>printf\<close> calls, each with its format and arguments.\<close>

fun printfs :: "nat \<Rightarrow> (string \<times> va list) list \<Rightarrow> 'a kio_scheme \<Rightarrow> 'a kio_scheme res" where
  "printfs c [] s = Inr s"
| "printfs c ((fmt, ap) # ps) s = bindE (printf c fmt ap s) (printfs c ps)"

definition nl :: string where "nl = [char_of (10::nat)]"

text \<open>The digit count of \<open>printpad\<close>.\<close>

function pad_digits :: "int \<Rightarrow> int \<Rightarrow> int" where
  "pad_digits tmp ds = (if tmp > 0 then pad_digits (tmp sdiv 10) (ds + 1) else ds)"
  by pat_completeness auto
termination
  by (relation "measure (\<lambda>(tmp, ds). nat tmp)") (auto simp: signed_divide_int_def)

declare pad_digits.simps [simp del]

definition printpad :: "int \<Rightarrow> int \<Rightarrow> (string \<times> va list) list" where
  "printpad val width =
     replicate (nat (width - pad_digits val (if val \<le> 0 then 1 else 0))) ('' '', []) @ [(''%d'', [VaInt val])]"

definition summary_row :: "thermal_metrics \<Rightarrow> (string \<times> va list) list" where
  "summary_row m =
     (if tm_pid m = 0 then []
      else let avg_heat = (if sched_count m > 0 then heat_sum m sdiv sched_count m else 0);
               mn = (if heat_min m \<le> MAX_HEAT then heat_min m else 0);
               mx = (if heat_max m \<ge> 0 then heat_max m else 0)
           in [(''  '', [])] @ printpad (tm_pid m) 4 @ [(''  |'', [])]
              @ printpad (sched_count m) 10 @ [('' |'', [])]
              @ printpad (skip_count m) 8 @ [('' |'', [])]
              @ printpad avg_heat 9 @ [('' |'', [])]
              @ printpad mn 9 @ [('' |'', [])]
              @ printpad mx 9 @ [(nl, [])])"

definition summary_text :: "'a thermal_scheme \<Rightarrow> (string \<times> va list) list" where
  "summary_text s =
     (let avg_temp = (if tm_temp_count s > 0 then tm_temp_sum s sdiv tm_temp_count s else 0) in
      [(nl, []),
       (''  ============================================================'' @ nl, []),
       (''  ===          THERMAL SCHEDULING SUMMARY                  ==='' @ nl, []),
       (''  ============================================================'' @ nl, []),
       (nl, []),
       (''  CPU Temperature'' @ nl, []),
       (''  -----------------------------------------------------------'' @ nl, []),
       (''    Average : %d    Min : %d    Max : %d'' @ nl,
          [VaInt avg_temp, VaInt (tm_temp_min s), VaInt (tm_temp_max s)]),
       (''    Cooling cycles (throttled) : %d'' @ nl, [VaInt (tm_cooling_cycles s)]),
       (''    Total schedule events      : %d'' @ nl, [VaInt (tm_temp_count s)]),
       (nl, []),
       (''  Per-Process Heat Metrics'' @ nl, []),
       (''  ---------------------------------------------------------------'' @ nl, []),
       (''  PID  | Scheduled | Skipped | Avg Heat | Min Heat | Max Heat'' @ nl, []),
       (''  ---------------------------------------------------------------'' @ nl, [])]
      @ concat (map (\<lambda>i. summary_row (tm s i)) [0..<MAX_TRACKED_PIDS])
      @ [(''  ---------------------------------------------------------------'' @ nl, []),
         (nl, [])])"

definition tm_print_summary :: "nat \<Rightarrow> 'a thermal_scheme \<Rightarrow> 'a thermal_scheme res" where
  "tm_print_summary c s = printfs c (summary_text s) s"

definition tm_cleared :: thermal_metrics where
  "tm_cleared = \<lparr>tm_pid = 0, sched_count = 0, skip_count = 0, heat_sum = 0,
     heat_min = MAX_HEAT + 1, heat_max = -1\<rparr>"

definition tm_reset :: "'a thermal_scheme \<Rightarrow> 'a thermal_scheme" where
  "tm_reset s = s\<lparr>tm := (\<lambda>i. if i < MAX_TRACKED_PIDS then tm_cleared else tm s i),
     tm_temp_sum := 0, tm_temp_count := 0, tm_temp_min := 100, tm_temp_max := 0,
     tm_cooling_cycles := 0, tm_had_children := False\<rparr>"

subsection \<open>Printing\<close>

lemma printfs_text:
  assumes "lock_free PrLock s" and "can_print c s" and "\<forall>(f, ap) \<in> set ps. fmt_ok f (map kind_of ap)"
    and "settle c s = s"
  shows "printfs c ps s = Inr (outputs (concat (map (\<lambda>(f, ap). the (render f ap)) ps)) s)"
  using assms
proof (induction ps arbitrary: s)
  case (Cons p ps)
  obtain f ap where p: "p = (f, ap)" by force
  then have one: "printf c f ap s = Inr (outputs (the (render f ap)) s)"
    using Cons.prems printf_text[of s c f ap] by simp
  have "printfs c ps (outputs (the (render f ap)) s)
     = Inr (outputs (concat (map (\<lambda>(f, ap). the (render f ap)) ps)) (outputs (the (render f ap)) s))"
    by (intro Cons.IH) (use Cons.prems in \<open>simp_all add: lock_free_def\<close>)
  then show ?case using one p by simp
qed simp

definition fmts_ok :: "(string \<times> va list) list \<Rightarrow> bool" where
  "fmts_ok ps = list_all (\<lambda>(f, ap). fmt_ok f (map kind_of ap)) ps"

lemma fmts_ok_simps [simp]: "fmts_ok (ps @ qs) = (fmts_ok ps \<and> fmts_ok qs)" "fmts_ok []"
  "fmts_ok ((f, ap) # ps) = (fmt_ok f (map kind_of ap) \<and> fmts_ok ps)"
  by (simp_all add: fmts_ok_def)

lemma fmt_int: "fmt_ok ''%d'' [KInt]" and fmt_space: "fmt_ok '' '' []" and fmt_nl: "fmt_ok nl []"
  and fmt_bar: "fmt_ok '' |'' []" "fmt_ok ''  |'' []" "fmt_ok ''  '' []"
  by code_simp+

lemma fmts_printpad: "fmts_ok (printpad v w)"
  by (auto simp: fmts_ok_def printpad_def list_all_iff fmt_int fmt_space)

lemma fmts_row: "fmts_ok (summary_row m)"
  by (simp add: summary_row_def Let_def fmts_printpad fmt_nl fmt_bar)

lemma fmts_concat: "(\<And>x. x \<in> set xs \<Longrightarrow> fmts_ok (f x)) \<Longrightarrow> fmts_ok (concat (map f xs))"
  by (induction xs) (auto simp: fmts_ok_def)

lemma fmts_summary: "fmts_ok (summary_text s)"
proof -
  have "fmt_ok (''    Average : %d    Min : %d    Max : %d'' @ nl) [KInt, KInt, KInt]"
    "fmt_ok (''    Cooling cycles (throttled) : %d'' @ nl) [KInt]"
    "fmt_ok (''    Total schedule events      : %d'' @ nl) [KInt]"
    "list_all (\<lambda>f. fmt_ok f [])
       [nl, ''  ============================================================'' @ nl,
        ''  ===          THERMAL SCHEDULING SUMMARY                  ==='' @ nl,
        ''  CPU Temperature'' @ nl,
        ''  -----------------------------------------------------------'' @ nl,
        ''  Per-Process Heat Metrics'' @ nl,
        ''  ---------------------------------------------------------------'' @ nl,
        ''  PID  | Scheduled | Skipped | Avg Heat | Min Heat | Max Heat'' @ nl]"
    by code_simp+
  then show ?thesis
    by (simp only: summary_text_def Let_def fmts_ok_simps list.map kind_of.simps list.pred_inject
        simp_thms fmts_concat[OF fmts_row])
qed



lemma printfs_ok:
  assumes "fmts_ok ps" and "lock_free PrLock s" and "can_print c s" and "settled c s"
  shows "\<exists>out. printfs c ps s = Inr (outputs out s)"
  using printfs_text[OF assms(2,3) _ settle_settled[OF assms(4)], of ps] assms(1)
  by (auto simp: fmts_ok_def list_all_iff)

lemma printfs_Inr: "printfs c ps s = Inr s' \<Longrightarrow> io_only s s' \<and> kept s s'"
proof (induction ps arbitrary: s)
  case (Cons p ps)
  then show ?case
    by (cases p) (auto simp: bindE_eq_Inr dest!: printf_Inr intro: io_only_trans kept_trans)
qed simp

end
