(* ===== verification/CString.thy ===== *)
theory CString
  imports Xv6_Prelude
begin

text \<open>
  \<^verbatim>\<open>kernel/string.c\<close>.

  The \<open>mem\<close> routines work on a byte memory \<open>uint64 \<Rightarrow> uint8\<close>, one load or store per loop
  iteration, with pointers that wrap like the machine's.  The \<open>str\<close> routines work on C
  strings: a HOL \<open>string\<close> holds the characters before the terminating NUL, so reading
  past its last character reads the NUL.
\<close>

type_synonym bytemem = "uint64 \<Rightarrow> uint8"

fun memset :: "uint64 \<Rightarrow> uint8 \<Rightarrow> nat \<Rightarrow> bytemem \<Rightarrow> bytemem" where
  "memset cdst x 0 m = m"
| "memset cdst x (Suc n) m = memset (cdst + 1) x n (m(cdst := x))"

fun memcmp :: "uint64 \<Rightarrow> uint64 \<Rightarrow> nat \<Rightarrow> bytemem \<Rightarrow> int" where
  "memcmp s1 s2 0 m = 0"
| "memcmp s1 s2 (Suc n) m =
     (if m s1 \<noteq> m s2 then uint (m s1) - uint (m s2) else memcmp (s1 + 1) (s2 + 1) n m)"

fun copy_up :: "uint64 \<Rightarrow> uint64 \<Rightarrow> nat \<Rightarrow> bytemem \<Rightarrow> bytemem" where
  "copy_up d s 0 m = m"
| "copy_up d s (Suc n) m = copy_up (d + 1) (s + 1) n (m(d := m s))"

text \<open>The descending loop: \<open>d\<close> and \<open>s\<close> point one past the bytes still to copy.\<close>

fun copy_down :: "uint64 \<Rightarrow> uint64 \<Rightarrow> nat \<Rightarrow> bytemem \<Rightarrow> bytemem" where
  "copy_down d s 0 m = m"
| "copy_down d s (Suc n) m = copy_down (d - 1) (s - 1) n (m(d - 1 := m (s - 1)))"

definition memmove :: "uint64 \<Rightarrow> uint64 \<Rightarrow> nat \<Rightarrow> bytemem \<Rightarrow> bytemem" where
  "memmove dst src n m =
     (if n = 0 then m
      else if src < dst \<and> src + of_nat n > dst
           then copy_down (dst + of_nat n) (src + of_nat n) n m
           else copy_up dst src n m)"

definition memcpy :: "uint64 \<Rightarrow> uint64 \<Rightarrow> nat \<Rightarrow> bytemem \<Rightarrow> bytemem" where
  "memcpy dst src n m = memmove dst src n m"

text \<open>The byte a C string pointer points at: 0 at the end.\<close>

definition cchar :: "string \<Rightarrow> int" where
  "cchar p = (case p of [] \<Rightarrow> 0 | x # _ \<Rightarrow> of_char x)"

function strncmp :: "string \<Rightarrow> string \<Rightarrow> nat \<Rightarrow> int" where
  "strncmp p q n =
     (if 0 < n \<and> cchar p \<noteq> 0 \<and> cchar p = cchar q then strncmp (tl p) (tl q) (n - 1)
      else if n = 0 then 0
      else cchar p - cchar q)"
  by pat_completeness auto
termination
  by (relation "measure (\<lambda>(p, q, n). n)") auto

declare strncmp.simps [simp del]

text \<open>\<open>strncpy\<close> and \<open>safestrcpy\<close>: the bytes stored at the destination, in order.\<close>

fun strncpy :: "string \<Rightarrow> nat \<Rightarrow> char list" where
  "strncpy t 0 = []"
| "strncpy [] (Suc n) = char_of (0::nat) # strncpy [] n"
| "strncpy (x # t) (Suc n) = x # strncpy t n"

fun safestrcpy_loop :: "string \<Rightarrow> nat \<Rightarrow> char list" where
  "safestrcpy_loop t 0 = [char_of (0::nat)]"
| "safestrcpy_loop [] (Suc n) = [char_of (0::nat), char_of (0::nat)]"
| "safestrcpy_loop (x # t) (Suc n) = x # safestrcpy_loop t n"

definition safestrcpy :: "string \<Rightarrow> int \<Rightarrow> char list" where
  "safestrcpy t n = (if n \<le> 0 then [] else safestrcpy_loop t (nat (n - 1)))"

fun strlen :: "string \<Rightarrow> nat" where
  "strlen [] = 0"
| "strlen (x # s) = Suc (strlen s)"

text \<open>The C string stored in a byte array: the bytes before the first NUL.\<close>

definition cstr :: "char list \<Rightarrow> string" where
  "cstr bs = takeWhile (\<lambda>x. x \<noteq> char_of (0::nat)) bs"

definition no_nul :: "string \<Rightarrow> bool" where
  "no_nul p = (char_of (0::nat) \<notin> set p)"

text \<open>The bytes of a range that does not wrap around the address space.\<close>

definition in_range :: "uint64 \<Rightarrow> nat \<Rightarrow> uint64 \<Rightarrow> bool" where
  "in_range a n x = (unat a \<le> unat x \<and> unat x < unat a + n)"

subsection \<open>Lemmas\<close>

lemma of_char_zero: "(of_char a :: int) = 0 \<longleftrightarrow> a = char_of (0::nat)"
proof -
  have "(of_char (char_of (0::nat)) :: int) = 0" by (simp add: char_of_def of_char_def)
  then show ?thesis by (metis of_char_eq_iff)
qed

lemma cchar_zero: "no_nul p \<Longrightarrow> cchar p = 0 \<longleftrightarrow> p = []"
  by (cases p) (auto simp: cchar_def no_nul_def of_char_zero)

lemma no_nul_tl: "no_nul p \<Longrightarrow> no_nul (tl p)"
  by (cases p) (auto simp: no_nul_def)

lemma strncmp_zero_iff:
  assumes "no_nul p" and "no_nul q"
  shows "strncmp p q n = 0 \<longleftrightarrow> take n p = take n q"
  using assms
proof (induction p q n rule: strncmp.induct)
  case (1 p q n)
  show ?case
  proof (cases "0 < n \<and> cchar p \<noteq> 0 \<and> cchar p = cchar q")
    case True
    then obtain a p' b q' where pq: "p = a # p'" "q = b # q'"
      using "1.prems" by (cases p; cases q) (auto simp: cchar_def)
    with True "1.prems" have "a = b" by (simp add: cchar_def)
    moreover obtain m where "n = Suc m" using True by (cases n) auto
    ultimately show ?thesis using 1 True pq no_nul_tl[of p] no_nul_tl[of q]
      by (subst strncmp.simps) simp
  next
    case False
    show ?thesis
    proof (cases "n = 0")
      case True
      then show ?thesis by (subst strncmp.simps) simp
    next
      case n: False
      have "strncmp p q n = cchar p - cchar q" using False n
        by (subst strncmp.simps) auto
      moreover have "cchar p = cchar q \<longleftrightarrow> take n p = take n q"
        using False n "1.prems" cchar_zero[of p] cchar_zero[of q]
        by (cases p; cases q; cases n) (auto simp: cchar_def)
      ultimately show ?thesis by simp
    qed
  qed
qed

lemma strncmp_lit: "no_nul p \<Longrightarrow> no_nul q \<Longrightarrow> n = length q \<Longrightarrow> strncmp p q n = 0 \<longleftrightarrow> take n p = q"
  by (simp add: strncmp_zero_iff)

lemma safestrcpy_loop_spec:
  "safestrcpy_loop t n = take n t @ [char_of (0::nat)] @ (if length t < n then [char_of (0::nat)] else [])"
  by (induction t n rule: safestrcpy_loop.induct) auto

lemma strncpy_spec: "strncpy t n = take n t @ replicate (n - length t) (char_of (0::nat))"
  by (induction t n rule: strncpy.induct) (simp_all add: replicate_append_same)

lemma strlen_length [simp]: "strlen s = length s"
  by (induction s) simp_all

lemma memset_spec:
  "unat a + n \<le> 2 ^ 64 \<Longrightarrow> memset a x n m y = (if in_range a n y then x else m y)"
proof (induction n arbitrary: a m)
  case 0
  then show ?case by (auto simp: in_range_def)
next
  case (Suc n)
  show ?case
  proof (cases "n = 0")
    case True
    then show ?thesis by (auto simp: in_range_def word_unat_eq_iff)
  next
    case False
    with Suc.prems have a1: "unat (a + 1) = unat a + 1"
      by (subst unat_add_lem[THEN iffD1]) simp_all
    have "memset (a + 1) x n (m(a := x)) y = (if in_range (a + 1) n y then x else (m(a := x)) y)"
      using Suc.prems a1 by (intro Suc.IH) simp
    then show ?thesis using a1 by (auto simp: in_range_def word_unat_eq_iff)
  qed
qed

text \<open>Ascending copy: right when the source is not below the destination inside the range.\<close>

lemma copy_up_spec:
  assumes "unat d + n \<le> 2 ^ 64" and "unat s + n \<le> 2 ^ 64"
    and "unat d \<le> unat s \<or> unat s + n \<le> unat d"
  shows "copy_up d s n m y = (if in_range d n y then m (s + (y - d)) else m y)"
  using assms
proof (induction n arbitrary: d s m)
  case 0
  then show ?case by (auto simp: in_range_def)
next
  case (Suc n)
  show ?case
  proof (cases "n = 0")
    case True
    have "in_range d (Suc n) y \<longleftrightarrow> y = d"
      using True by (auto simp: in_range_def word_unat_eq_iff)
    with True show ?thesis by simp
  next
    case False
    with Suc.prems have d1: "unat (d + 1) = unat d + 1" and s1: "unat (s + 1) = unat s + 1"
      by (subst unat_add_lem[THEN iffD1]; simp)+
    have ih: "copy_up (d + 1) (s + 1) n (m(d := m s)) y =
        (if in_range (d + 1) n y then (m(d := m s)) (s + 1 + (y - (d + 1))) else (m(d := m s)) y)"
      using Suc.prems d1 s1 by (intro Suc.IH) auto
    have "s + 1 + (y - (d + 1)) = s + (y - d)" by simp
    moreover have "s + (y - d) \<noteq> d" if r: "in_range (d + 1) n y"
    proof -
      have le: "d \<le> y" using r d1 by (simp add: in_range_def word_le_nat_alt)
      have "unat (y - d) = unat y - unat d" using le by (simp add: unat_sub)
      then have "unat (s + (y - d)) = unat s + (unat y - unat d)"
        using r d1 Suc.prems by (subst unat_add_lem[THEN iffD1]) (auto simp: in_range_def)
      then show ?thesis using r d1 Suc.prems by (auto simp: in_range_def word_unat_eq_iff)
    qed
    moreover have "in_range d (Suc n) y \<longleftrightarrow> y = d \<or> in_range (d + 1) n y" "\<not> in_range (d + 1) n d"
      using d1 by (auto simp: in_range_def word_unat_eq_iff)
    ultimately show ?thesis using ih by auto
  qed
qed


text \<open>Descending copy: right when the source is not above the destination.\<close>

lemma unat_plus_of_nat:
  assumes "unat (a :: uint64) + n < 2 ^ 64"
  shows "unat (a + of_nat n) = unat a + n"
proof -
  have "unat (of_nat n :: uint64) = n"
    using assms by (simp add: unat_of_nat take_bit_nat_eq_self)
  then show ?thesis using assms by (subst unat_add_lem[THEN iffD1]) simp_all
qed

lemma copy_down_spec:
  assumes "unat d + n \<le> 2 ^ 64" and "unat s + n \<le> 2 ^ 64" and "unat s \<le> unat d"
  shows "copy_down (d + of_nat n) (s + of_nat n) n m y = (if in_range d n y then m (s + (y - d)) else m y)"
  using assms
proof (induction n arbitrary: m)
  case 0
  then show ?case by (auto simp: in_range_def)
next
  case (Suc n)
  have dn: "unat (d + of_nat n) = unat d + n" and sn: "unat (s + of_nat n) = unat s + n"
    using Suc.prems by (simp_all add: unat_plus_of_nat)
  let ?m = "m(d + of_nat n := m (s + of_nat n))"
  have "copy_down (d + of_nat (Suc n)) (s + of_nat (Suc n)) (Suc n) m y =
      copy_down (d + of_nat n) (s + of_nat n) n ?m y"
    by (simp add: add.commute add.left_commute)
  also have "\<dots> = (if in_range d n y then ?m (s + (y - d)) else ?m y)"
    using Suc.prems by (intro Suc.IH) simp_all
  also have "\<dots> = (if in_range d (Suc n) y then m (s + (y - d)) else m y)"
  proof (cases "in_range d n y")
    case True
    then have "d \<le> y" by (simp add: in_range_def word_le_nat_alt)
    then have "unat (y - d) = unat y - unat d" by (simp add: unat_sub)
    then have "unat (s + (y - d)) = unat s + (unat y - unat d)"
      using True Suc.prems by (subst unat_add_lem[THEN iffD1]) (auto simp: in_range_def)
    then have "s + (y - d) \<noteq> d + of_nat n"
      using True dn Suc.prems by (auto simp: in_range_def word_unat_eq_iff)
    then show ?thesis using True by (simp add: in_range_def)
  next
    case False
    then have "in_range d (Suc n) y \<longleftrightarrow> y = d + of_nat n"
      using dn by (auto simp: in_range_def word_unat_eq_iff)
    then show ?thesis using False by simp
  qed
  finally show ?case .
qed

lemma memmove_spec:
  assumes "unat dst + n \<le> 2 ^ 64" and "unat src + n < 2 ^ 64"
  shows "memmove dst src n m y = (if in_range dst n y then m (src + (y - dst)) else m y)"
proof (cases "n = 0")
  case True
  then show ?thesis by (auto simp: memmove_def in_range_def)
next
  case False
  have sn: "unat (src + of_nat n) = unat src + n" using assms(2) by (rule unat_plus_of_nat)
  show ?thesis
  proof (cases "src < dst \<and> src + of_nat n > dst")
    case True
    with False assms show ?thesis
      by (simp add: memmove_def copy_down_spec word_less_nat_alt)
  next
    case down: False
    then have "unat dst \<le> unat src \<or> unat src + n \<le> unat dst"
      using sn by (auto simp: word_less_nat_alt)
    with False down assms show ?thesis
      by (auto simp: memmove_def copy_up_spec)
  qed
qed

lemma cstr_terminated: "no_nul t \<Longrightarrow> cstr (t @ char_of (0::nat) # u) = t"
  by (induction t) (auto simp: cstr_def no_nul_def)

lemma safestrcpy_stores:
  assumes "0 < n"
  shows "safestrcpy t n = take (nat (n - 1)) t @ [char_of (0::nat)] @ (if int (length t) < n - 1 then [char_of (0::nat)] else [])"
proof -
  have "length t < nat (n - 1) \<longleftrightarrow> int (length t) < n - 1" by linarith
  then show ?thesis using assms by (simp add: safestrcpy_def safestrcpy_loop_spec)
qed

text \<open>
  C21. \<open>memmove\<close> is right for overlapping ranges.  Whatever the overlap, when neither range
  wraps around the address space the destination range receives the bytes that the source
  range held before the call, and every other byte of memory keeps its value.
\<close>

theorem memmove_overlap_safe:
  assumes "unat dst + n \<le> 2 ^ 64" and "unat src + n < 2 ^ 64"
  shows "memmove dst src n m y = (if in_range dst n y then m (src + (y - dst)) else m y)"
  using assms by (rule memmove_spec)

theorem memmove_overlap_safe_witness:
  "memmove 0x1001 0x1000 3 (\<lambda>a. ucast a) 0x1003 = (2 :: uint8)"
  using memmove_overlap_safe[of "0x1001" 3 "0x1000" "\<lambda>a. ucast a" "0x1003"]
  by (simp add: in_range_def)

text \<open>
  C22. \<open>safestrcpy\<close> always leaves a terminated string within the destination.  Copying a C string to a
  destination of \<open>n > 0\<close> bytes stores the source truncated to \<open>n - 1\<close> characters, then a NUL, and
  after it at most a second NUL; all this is at most \<open>n\<close> bytes, and the C string read back is the
  truncated source.
\<close>

theorem safestrcpy_terminates_string:
  assumes "no_nul t" and "0 < n"
  shows "\<exists>pad. safestrcpy t n = take (nat (n - 1)) t @ [char_of (0::nat)] @ pad \<and>
      pad \<in> {[], [char_of (0::nat)]} \<and> length (safestrcpy t n) \<le> nat n \<and>
      cstr (safestrcpy t n) = take (nat (n - 1)) t"
proof -
  have "no_nul (take (nat (n - 1)) t)" using assms(1) by (auto simp: no_nul_def dest: in_set_takeD)
  moreover have "length (safestrcpy t n) \<le> nat n" using assms(2) by (auto simp: safestrcpy_stores)
  ultimately show ?thesis
    using cstr_terminated[of "take (nat (n - 1)) t"] by (auto simp: safestrcpy_stores[OF assms(2)])
qed

theorem safestrcpy_terminates_string_witness:
  "\<exists>pad. safestrcpy ''schedtest_long_name'' 16 = ''schedtest_long_'' @ [char_of (0::nat)] @ pad \<and>
    pad \<in> {[], [char_of (0::nat)]} \<and> length (safestrcpy ''schedtest_long_name'' 16) \<le> 16 \<and>
    cstr (safestrcpy ''schedtest_long_name'' 16) = ''schedtest_long_''"
  using safestrcpy_terminates_string[of "''schedtest_long_name''" 16]
  by (simp add: no_nul_def char_of_def)

end
