(* ===== verification/ProcTable.thy ===== *)
theory ProcTable
  imports Thermal CString
begin

text \<open>
  The process table of \<^verbatim>\<open>kernel/proc.c\<close> and \<^verbatim>\<open>kernel/proc.h\<close>: the operations that
  work on the table under its locks.

  \<open>ptable\<close> extends the thermal state by \<^verbatim>\<open>proc[NPROC]\<close>, \<open>initproc\<close> and \<open>nextpid\<close>.  A
  pointer to a process is its index; a wait channel, in C the address of some object, is a
  value of \<open>chan\<close>, one constructor per object the kernel sleeps on.

  \<open>sched\<close> leaves the calling thread in the middle: the model has the part before
  \<^verbatim>\<open>swtch\<close> (\<open>sched_leave\<close>, which returns the saved \<open>intena\<close>) and the part after it
  (\<open>sched_return\<close>), and its callers \<open>yield\<close> and \<open>sleep\<close> are split the same way.
\<close>

definition NPROC :: nat where "NPROC = 64"
definition NOFILE :: nat where "NOFILE = 16"

datatype procstate = UNUSED | USED | SLEEPING | RUNNABLE | RUNNING | ZOMBIE

datatype chan =
    ChProc nat | ChTicks | ChLog | ChPipeRead nat | ChPipeWrite nat | ChCons | ChTx
  | ChDiskFree | ChBuf nat | ChSleepBuf nat | ChSleepInode nat

record kcontext =
  ctx_ra :: uint64
  ctx_sp :: uint64
  ctx_s :: "nat \<Rightarrow> uint64"

record proc =
  pstate :: procstate
  pchan :: "chan option"
  pkilled :: bool
  xstate :: int
  pid :: int
  waiting_tick :: int
  heat :: int
  parent :: "nat option"
  kstack :: uint64
  psz :: uint64
  pagetable :: uint64
  trapframe :: uint64
  pcontext :: kcontext
  ofile :: "nat \<Rightarrow> nat option"
  cwd :: "nat option"
  pname :: string

record ptable = thermal +
  procs :: "nat \<Rightarrow> proc"
  initproc :: "nat option"
  nextpid :: int

definition upd_proc :: "nat \<Rightarrow> (proc \<Rightarrow> proc) \<Rightarrow> 'a ptable_scheme \<Rightarrow> 'a ptable_scheme" where
  "upd_proc i f s = s\<lparr>procs := (procs s)(i := f (procs s i))\<rparr>"

text \<open>\<^verbatim>\<open>acquire(l); f; release(l)\<close>, without and with a result.\<close>

definition with_lock :: "nat \<Rightarrow> lockid \<Rightarrow> ('a machine_scheme \<Rightarrow> 'a machine_scheme)
    \<Rightarrow> 'a machine_scheme \<Rightarrow> 'a machine_scheme res" where
  "with_lock c l f s = bindE (acquire c l s) (\<lambda>s. release c l (f s))"

definition with_lock_ret :: "nat \<Rightarrow> lockid \<Rightarrow> ('a machine_scheme \<Rightarrow> 'r \<times> 'a machine_scheme)
    \<Rightarrow> 'a machine_scheme \<Rightarrow> ('r \<times> 'a machine_scheme) res" where
  "with_lock_ret c l f s = bindE (acquire c l s) (\<lambda>s.
     case f s of (r, s) \<Rightarrow> bindE (release c l s) (\<lambda>s. Inr (r, s)))"

definition TRAMPOLINE :: uint64 where "TRAMPOLINE = 0x3FFFFFF000"
definition TRAPFRAME :: uint64 where "TRAPFRAME = TRAMPOLINE - 4096"

definition KSTACK :: "nat \<Rightarrow> uint64" where
  "KSTACK p = TRAMPOLINE - of_nat (p + 1) * 2 * 4096"

definition procinit :: "'a ptable_scheme \<Rightarrow> 'a ptable_scheme" where
  "procinit s = fold (\<lambda>i s. upd_proc i (\<lambda>p. p\<lparr>pstate := UNUSED, kstack := KSTACK i\<rparr>)
                               (initlock (ProcLock i) ''proc'' s))
     [0..<NPROC] (initlock WaitLock ''wait_lock'' (initlock PidLock ''nextpid'' s))"

definition myproc :: "nat \<Rightarrow> 'a machine_scheme \<Rightarrow> (nat option \<times> 'a machine_scheme) res" where
  "myproc c s =
     (let s = push_off c s; p = cproc (cpus s c)
      in bindE (pop_off c s) (\<lambda>s. Inr (p, s)))"

definition allocpid :: "nat \<Rightarrow> 'a ptable_scheme \<Rightarrow> (int \<times> 'a ptable_scheme) res" where
  "allocpid c = with_lock_ret c PidLock (\<lambda>s. (nextpid s, s\<lparr>nextpid := i32 (nextpid s + 1)\<rparr>))"

text \<open>The loop of \<open>allocproc\<close>: the first unused slot, with its lock held.\<close>

definition allocproc_find :: "nat \<Rightarrow> 'a ptable_scheme \<Rightarrow> (nat option \<times> 'a ptable_scheme) res" where
  "allocproc_find c = find_loop (\<lambda>i s.
     bindE (acquire c (ProcLock i) s) (\<lambda>s.
     if pstate (procs s i) = UNUSED then Inr (Some i, s)
     else bindE (release c (ProcLock i) s) (\<lambda>s. Inr (None, s)))) [0..<NPROC]"

text \<open>\<^verbatim>\<open>found:\<close> up to the first allocation.\<close>

definition allocproc_claim :: "nat \<Rightarrow> nat \<Rightarrow> 'a ptable_scheme \<Rightarrow> 'a ptable_scheme res" where
  "allocproc_claim c i s =
     bindE (allocpid c s) (\<lambda>(n, s).
     Inr (upd_proc i (\<lambda>p. p\<lparr>pid := n, pstate := USED, waiting_tick := 0, heat := 0\<rparr>) s))"

text \<open>What \<open>freeproc\<close> resets once the pages are gone.\<close>

definition freeproc_reset :: "nat \<Rightarrow> 'a ptable_scheme \<Rightarrow> 'a ptable_scheme" where
  "freeproc_reset i s = upd_proc i (\<lambda>p. p\<lparr>psz := 0, pid := 0, parent := None, pname := [],
     pchan := None, pkilled := False, xstate := 0, heat := 0, pstate := UNUSED\<rparr>) s"

subsection \<open>Sleeping and waking\<close>

definition sched_leave :: "nat \<Rightarrow> 'a ptable_scheme \<Rightarrow> (bool \<times> 'a ptable_scheme) res" where
  "sched_leave c s =
     bindE (myproc c s) (\<lambda>(p, s).
     case p of None \<Rightarrow> Inl (Fault ''sched'')
     | Some p \<Rightarrow>
         if \<not> holding c (ProcLock p) s then Inl (Panic ''sched p->lock'')
         else if noff (cpus s c) \<noteq> 1 then Inl (Panic ''sched locks'')
         else if pstate (procs s p) = RUNNING then Inl (Panic ''sched RUNNING'')
         else if intr_get c s then Inl (Panic ''sched interruptible'')
         else Inr (intena (cpus s c), s))"

definition sched_return :: "nat \<Rightarrow> bool \<Rightarrow> 'a machine_scheme \<Rightarrow> 'a machine_scheme" where
  "sched_return c saved s = upd_cpu c (intena_update (\<lambda>_. saved)) s"

text \<open>\<open>yield\<close> up to the switch, and from the switch back to its end.\<close>

definition yield_leave :: "nat \<Rightarrow> 'a ptable_scheme \<Rightarrow> (bool \<times> 'a ptable_scheme) res" where
  "yield_leave c s =
     bindE (myproc c s) (\<lambda>(p, s).
     case p of None \<Rightarrow> Inl (Fault ''yield'')
     | Some p \<Rightarrow>
         bindE (acquire c (ProcLock p) s) (\<lambda>s.
         sched_leave c (upd_proc p (pstate_update (\<lambda>_. RUNNABLE)) s)))"

definition yield_return :: "nat \<Rightarrow> nat \<Rightarrow> bool \<Rightarrow> 'a ptable_scheme \<Rightarrow> 'a ptable_scheme res" where
  "yield_return c p saved s = release c (ProcLock p) (sched_return c saved s)"

text \<open>\<open>sleep\<close>; the lock argument is a pointer, and the null pointer cannot be released.\<close>

definition release_ptr :: "nat \<Rightarrow> lockid option \<Rightarrow> 'a machine_scheme \<Rightarrow> 'a machine_scheme res" where
  "release_ptr c lkp s = (case lkp of None \<Rightarrow> Inl (Fault ''release'') | Some l \<Rightarrow> release c l s)"

definition acquire_ptr :: "nat \<Rightarrow> lockid option \<Rightarrow> 'a machine_scheme \<Rightarrow> 'a machine_scheme res" where
  "acquire_ptr c lkp s = (case lkp of None \<Rightarrow> Inl (Fault ''acquire'') | Some l \<Rightarrow> acquire c l s)"

definition sleep_leave :: "nat \<Rightarrow> chan \<Rightarrow> lockid option \<Rightarrow> 'a ptable_scheme \<Rightarrow> (bool \<times> 'a ptable_scheme) res" where
  "sleep_leave c ch lkp s =
     bindE (myproc c s) (\<lambda>(p, s).
     case p of None \<Rightarrow> Inl (Fault ''sleep'')
     | Some p \<Rightarrow>
         bindE (acquire c (ProcLock p) s) (\<lambda>s.
         bindE (release_ptr c lkp s) (\<lambda>s.
         sched_leave c (upd_proc p (\<lambda>q. q\<lparr>pchan := Some ch, pstate := SLEEPING\<rparr>) s))))"

definition sleep_wake :: "nat \<Rightarrow> nat \<Rightarrow> bool \<Rightarrow> 'a ptable_scheme \<Rightarrow> 'a ptable_scheme res" where
  "sleep_wake c p saved s =
     release c (ProcLock p) (upd_proc p (pchan_update (\<lambda>_. None)) (sched_return c saved s))"

definition sleep_return :: "nat \<Rightarrow> nat \<Rightarrow> lockid option \<Rightarrow> bool \<Rightarrow> 'a ptable_scheme \<Rightarrow> 'a ptable_scheme res" where
  "sleep_return c p lkp saved s = bindE (sleep_wake c p saved s) (acquire_ptr c lkp)"

text \<open>\<open>wakeup\<close> compares the channel as a pointer, which may be null.\<close>

definition wake_one :: "chan option \<Rightarrow> proc \<Rightarrow> proc" where
  "wake_one ch p = (if pstate p = SLEEPING \<and> pchan p = ch then p\<lparr>pstate := RUNNABLE\<rparr> else p)"

definition wakeup :: "nat \<Rightarrow> chan option \<Rightarrow> 'a ptable_scheme \<Rightarrow> 'a ptable_scheme res" where
  "wakeup c ch = for_each (\<lambda>i s.
     bindE (myproc c s) (\<lambda>(me, s).
     if Some i \<noteq> me then with_lock c (ProcLock i) (upd_proc i (wake_one ch)) s else Inr s)) [0..<NPROC]"

subsection \<open>Killing\<close>

definition kill_one :: "proc \<Rightarrow> proc" where
  "kill_one p = (if pstate p = SLEEPING then p\<lparr>pkilled := True, pstate := RUNNABLE\<rparr>
     else p\<lparr>pkilled := True\<rparr>)"

definition kkill :: "nat \<Rightarrow> int \<Rightarrow> 'a ptable_scheme \<Rightarrow> (int \<times> 'a ptable_scheme) res" where
  "kkill c n s =
     bindE (find_loop (\<lambda>i. with_lock_ret c (ProcLock i) (\<lambda>s.
              if pid (procs s i) = n then (Some (0::int), upd_proc i kill_one s) else (None, s)))
            [0..<NPROC] s) (\<lambda>(r, s).
     Inr (case r of Some x \<Rightarrow> x | None \<Rightarrow> -1, s))"

definition setkilled :: "nat \<Rightarrow> nat \<Rightarrow> 'a ptable_scheme \<Rightarrow> 'a ptable_scheme res" where
  "setkilled c p = with_lock c (ProcLock p) (upd_proc p (pkilled_update (\<lambda>_. True)))"

definition killed :: "nat \<Rightarrow> nat \<Rightarrow> 'a ptable_scheme \<Rightarrow> (bool \<times> 'a ptable_scheme) res" where
  "killed c p = with_lock_ret c (ProcLock p) (\<lambda>s. (pkilled (procs s p), s))"

subsection \<open>Fork, exit and wait: the parts on the table\<close>

text \<open>\<open>kfork\<close> from \<^verbatim>\<open>pid = np->pid\<close> to its end; the child's lock is held on entry.\<close>

definition kfork_publish :: "nat \<Rightarrow> nat \<Rightarrow> nat \<Rightarrow> 'a ptable_scheme \<Rightarrow> (int \<times> 'a ptable_scheme) res" where
  "kfork_publish c p np s =
     (let n = pid (procs s np) in
      bindE (release c (ProcLock np) s) (\<lambda>s.
      bindE (with_lock c WaitLock (upd_proc np (parent_update (\<lambda>_. Some p))) s) (\<lambda>s.
      bindE (with_lock c (ProcLock np) (upd_proc np (pstate_update (\<lambda>_. RUNNABLE))) s) (\<lambda>s.
      Inr (n, s)))))"

definition reparent :: "nat \<Rightarrow> nat \<Rightarrow> 'a ptable_scheme \<Rightarrow> 'a ptable_scheme res" where
  "reparent c p = for_each (\<lambda>i s.
     if parent (procs s i) = Some p
     then wakeup c (map_option ChProc (initproc s)) (upd_proc i (parent_update (\<lambda>_. initproc s)) s)
     else Inr s) [0..<NPROC]"

text \<open>\<open>kexit\<close> from \<^verbatim>\<open>acquire(&wait_lock)\<close> to the switch; \<open>exit_zombie\<close> is its end.\<close>

definition exit_zombie :: "nat \<Rightarrow> nat \<Rightarrow> int \<Rightarrow> 'a ptable_scheme \<Rightarrow> (bool \<times> 'a ptable_scheme) res" where
  "exit_zombie c p status s =
     bindE (acquire c (ProcLock p) s) (\<lambda>s.
     bindE (release c WaitLock (upd_proc p (\<lambda>q. q\<lparr>xstate := status, pstate := ZOMBIE\<rparr>) s))
       (sched_leave c))"

definition kexit_leave :: "nat \<Rightarrow> nat \<Rightarrow> int \<Rightarrow> 'a ptable_scheme \<Rightarrow> (bool \<times> 'a ptable_scheme) res" where
  "kexit_leave c p status s =
     bindE (acquire c WaitLock s) (\<lambda>s.
     bindE (reparent c p s) (\<lambda>s.
     bindE (wakeup c (map_option ChProc (parent (procs s p))) s)
       (exit_zombie c p status)))"

subsection \<open>Listings\<close>

definition dump_state :: "procstate \<Rightarrow> string" where
  "dump_state st = (case st of UNUSED \<Rightarrow> ''unused'' | USED \<Rightarrow> ''used'' | SLEEPING \<Rightarrow> ''sleep ''
     | RUNNABLE \<Rightarrow> ''runble'' | RUNNING \<Rightarrow> ''run   '' | ZOMBIE \<Rightarrow> ''zombie'')"

definition procdump :: "nat \<Rightarrow> 'a ptable_scheme \<Rightarrow> 'a ptable_scheme res" where
  "procdump c s = printfs c ((nl, []) # concat (map (\<lambda>i. let p = procs s i in
     if pstate p = UNUSED then []
     else [(''%d %s %s heat=%d'', [VaInt (pid p), VaStr (Some (dump_state (pstate p))),
                                 VaStr (Some (pname p)), VaInt (heat p)]),
           (nl, [])]) [0..<NPROC])) s"

definition ps_state :: "procstate \<Rightarrow> string" where
  "ps_state st = (case st of UNUSED \<Rightarrow> ''UNUSED'' | USED \<Rightarrow> ''USED'' | SLEEPING \<Rightarrow> ''SLEEPING''
     | RUNNABLE \<Rightarrow> ''RUNNABLE'' | RUNNING \<Rightarrow> ''RUNNING'' | ZOMBIE \<Rightarrow> ''ZOMBIE'')"

definition tab :: string where "tab = [char_of (9::nat)]"

text \<open>The processes a listing shows: the slots that are not unused, in table order.\<close>

definition ps_rows :: "(proc \<Rightarrow> string \<times> va list) \<Rightarrow> 'a ptable_scheme \<Rightarrow> (string \<times> va list) list" where
  "ps_rows row s = concat (map (\<lambda>i. if pstate (procs s i) \<noteq> UNUSED then [row (procs s i)] else []) [0..<NPROC])"

definition kps_text :: "string \<Rightarrow> 'a ptable_scheme \<Rightarrow> (string \<times> va list) list" where
  "kps_text arguments s =
     (if strncmp arguments ''-o'' 2 = 0 then
        ps_rows (\<lambda>p. (''%s '', [VaStr (Some (pname p))])) s @ [(nl, [])]
      else if strncmp arguments ''-l'' 2 = 0 then
        [(''PID'' @ tab @ ''STATE'' @ tab @ tab @ ''NAME'' @ nl, []),
         (''-------------------------------'' @ nl, [])]
        @ ps_rows (\<lambda>p. (''%d'' @ tab @ ''%s'' @ tab @ tab @ ''%s'' @ nl,
             [VaInt (pid p), VaStr (Some (ps_state (pstate p))), VaStr (Some (pname p))])) s
      else if strncmp arguments ''-t'' 2 = 0 then
        [(''===== Thermal Monitor ====='' @ nl, []),
         (''CPU Temperature: %d / 100'', [VaInt (cpu_temp s)]),
         (if cpu_temp s \<ge> 80 then ''  [HOT]'' @ nl
          else if cpu_temp s \<ge> 60 then ''  [WARM]'' @ nl else ''  [COOL]'' @ nl, []),
         (nl @ ''PID'' @ tab @ ''STATE'' @ tab @ tab @ ''HEAT'' @ tab @ ''NAME'' @ nl, []),
         (''---------------------------------------'' @ nl, [])]
        @ ps_rows (\<lambda>p. (''%d'' @ tab @ ''%s'' @ tab @ tab @ ''%d'' @ tab @ ''%s'' @ nl,
             [VaInt (pid p), VaStr (Some (ps_state (pstate p))), VaInt (heat p), VaStr (Some (pname p))])) s
      else [(''Usage: ps [-o | -l | -t]'' @ nl, [])])"

definition kps :: "nat \<Rightarrow> string \<Rightarrow> 'a ptable_scheme \<Rightarrow> (int \<times> 'a ptable_scheme) res" where
  "kps c arguments s = bindE (printfs c (kps_text arguments s) s) (\<lambda>s. Inr (0, s))"

subsection \<open>Sweeps over the table\<close>

lemma with_lock_ok:
  assumes "lock_free l s" and "cpu_sane c s" and "lockless f"
  shows "with_lock c l f s = Inr (f (settle c s))"
  using critical_section[OF assms] by (simp add: with_lock_def)

lemma with_lock_ret_ok:
  assumes "lock_free l s" and "cpu_sane c s" and "lockless (\<lambda>s. snd (f s))"
    and "\<And>s g h. fst (f (s\<lparr>cpus := g, locks := h\<rparr>)) = fst (f s)"
  shows "with_lock_ret c l f s = Inr (fst (f s), snd (f (settle c s)))"
proof -
  let ?g = "\<lambda>s. snd (f s)"
  have r: "fst (f (inside c l s)) = fst (f s)" using assms(4) by (simp add: inside_eq)
  have "with_lock_ret c l f s = bindE (release c l (?g (inside c l s))) (\<lambda>s'. Inr (fst (f s), s'))"
    using assms(1) r by (simp add: with_lock_ret_def acquire_free case_prod_beta)
  also have "release c l (?g (inside c l s)) = Inr (?g (settle c s))"
    using critical_section[OF assms(1-3)] assms(1) by (simp add: acquire_free)
  finally show ?thesis by simp
qed

lemma lockless_upd_proc [simp, intro]: "lockless (upd_proc i f)"
  by (simp add: lockless_def upd_proc_def)

lemma lockless_id [simp, intro]: "lockless (\<lambda>s. s)"
  by (simp add: lockless_def)

lemma upd_proc_frame [simp, frame_simps]:
  "cpus (upd_proc i f s) = cpus s" "locks (upd_proc i f s) = locks s"
  "uart_out (upd_proc i f s) = uart_out s" "panicking (upd_proc i f s) = panicking s"
  "panicked (upd_proc i f s) = panicked s" "cpu_temp (upd_proc i f s) = cpu_temp s"
  "tm (upd_proc i f s) = tm s" "sched_round (upd_proc i f s) = sched_round s"
  "tm_had_children (upd_proc i f s) = tm_had_children s"
  "summary_printed (upd_proc i f s) = summary_printed s"
  "initproc (upd_proc i f s) = initproc s" "nextpid (upd_proc i f s) = nextpid s"
  by (simp_all add: upd_proc_def)

lemma procs_upd_proc [simp]: "procs (upd_proc i f s) = (procs s)(i := f (procs s i))"
  by (simp add: upd_proc_def)

lemma settle_ptable [simp, frame_simps]:
  "procs (settle c s) = procs s" "initproc (settle c s) = initproc s" "nextpid (settle c s) = nextpid s"
  "cpu_temp (settle c s) = cpu_temp s" "sched_round (settle c s) = sched_round s"
  "tm_had_children (settle c s) = tm_had_children s" "summary_printed (settle c s) = summary_printed s"
  by (simp_all add: settle_def upd_cpu_def)

lemma settle_upd_proc: "settle c (upd_proc i f s) = upd_proc i f (settle c s)"
  by (simp add: lockless_settle[OF lockless_upd_proc])

lemma myproc_ok: "cpu_sane c s \<Longrightarrow> myproc c s = Inr (cproc (cpus s c), settle c s)"
proof -
  assume "cpu_sane c s"
  then have "pop_off c (push_off c s) = Inr (settle c s)"
    by (cases "cpus s c") (auto simp: pop_off_def push_off_eq intr_get_def intr_on_def upd_cpu_def
      settle_def cpu_sane_def Let_def fun_upd_idem)
  then show ?thesis by (simp add: myproc_def Let_def push_off_eq)
qed

text \<open>A sweep over the table under the slots' locks is one simultaneous update.\<close>

definition map_procs :: "(nat \<Rightarrow> proc \<Rightarrow> proc) \<Rightarrow> 'a ptable_scheme \<Rightarrow> 'a ptable_scheme" where
  "map_procs h s = s\<lparr>procs := (\<lambda>i. if i < NPROC then h i (procs s i) else procs s i)\<rparr>"

definition procs_free :: "nat \<Rightarrow> 'a machine_scheme \<Rightarrow> bool" where
  "procs_free c s = (cpu_sane c s \<and> (\<forall>i. lock_free (ProcLock i) s))"

lemma fold_upd_proc:
  "distinct is \<Longrightarrow> fold (\<lambda>i. upd_proc i (h i)) is s =
     s\<lparr>procs := (\<lambda>i. if i \<in> set is then h i (procs s i) else procs s i)\<rparr>"
proof (induction "is" arbitrary: s)
  case (Cons i "is")
  then show ?case by (auto simp: upd_proc_def fun_eq_iff intro!: arg_cong[where f = "\<lambda>p. procs_update (\<lambda>_. p) s"])
qed simp

lemma procs_free_settle [simp]: "procs_free c (settle d s) = procs_free c s"
  by (simp add: procs_free_def lock_free_def frame_simps)

lemma procs_free_upd_proc [simp]: "procs_free c (upd_proc i f s) = procs_free c s"
  by (simp add: procs_free_def lock_free_def cpu_sane_def)

lemma procs_free_lock: "procs_free c s \<Longrightarrow> lock_free (ProcLock i) s"
  by (simp add: procs_free_def)

lemma upd_proc_id [simp]: "upd_proc i (\<lambda>p. p) s = s"
  by (simp add: upd_proc_def)

lemma inside_settle [simp]: "inside c l (settle c s) = inside c l s"
  by (cases "cpus s c") (simp add: inside_eq settle_def upd_cpu_def)

lemma sweep_fold:
  assumes "procs_free c s" and "cproc (cpus s c) = me" and "is \<noteq> []"
    and "\<And>i s. procs_free c s \<Longrightarrow> cproc (cpus s c) = me \<Longrightarrow> body i s = Inr (upd_proc i (h i) (settle c s))"
  shows "for_each body is s = Inr (fold (\<lambda>i. upd_proc i (h i)) is (settle c s))"
  using assms
proof (induction "is" arbitrary: s)
  case (Cons i "is")
  show ?case
  proof (cases "is = []")
    case True
    then show ?thesis using Cons.prems by simp
  next
    case False
    then show ?thesis using Cons by (simp add: settle_upd_proc frame_simps)
  qed
qed simp

lemma sweep_procs:
  assumes "procs_free c s"
    and "\<And>i s'. procs_free c s' \<Longrightarrow> cproc (cpus s' c) = cproc (cpus s c) \<Longrightarrow>
           body i s' = Inr (upd_proc i (h i) (settle c s'))"
  shows "for_each body [0..<NPROC] s = Inr (map_procs h (settle c s))"
proof -
  have "[0..<NPROC] \<noteq> []" by (simp add: NPROC_def)
  from sweep_fold[OF assms(1) refl this] assms(2) show ?thesis
    by (simp add: fold_upd_proc map_procs_def)
qed

lemma with_lock_proc:
  "procs_free c s \<Longrightarrow> with_lock c (ProcLock i) (upd_proc i f) s = Inr (upd_proc i f (settle c s))"
  by (simp add: with_lock_ok procs_free_def)

text \<open>A sweep that stops at the first slot with a property.\<close>

lemma scan_procs:
  assumes "procs_free c s" and "is \<noteq> []"
    and "\<And>i s. procs_free c s \<Longrightarrow>
      body i s = Inr (if P (procs s) i then (Some (v i), g i (settle c s)) else (None, settle c s))"
  shows "find_loop body is s = Inr (case find (P (procs s)) is of
      None \<Rightarrow> (None, settle c s) | Some i \<Rightarrow> (Some (v i), g i (settle c s)))"
  using assms
proof (induction "is" arbitrary: s)
  case (Cons i "is")
  show ?case
  proof (cases "P (procs s) i \<or> is = []")
    case True
    then show ?thesis using Cons.prems by auto
  next
    case False
    then show ?thesis using Cons.prems Cons.IH[of "settle c s"] by (simp split: option.splits)
  qed
qed simp

lemma upt_NPROC [simp]: "[0..<NPROC] \<noteq> []"
  by (simp add: NPROC_def)

lemma wakeup_spec:
  assumes "procs_free c s"
  shows "wakeup c ch s = Inr (map_procs (\<lambda>i p. if cproc (cpus s c) = Some i then p else wake_one ch p) (settle c s))"
  unfolding wakeup_def
proof (rule sweep_procs[OF assms])
  fix i and s' :: "'a ptable_scheme"
  assume free: "procs_free c s'" and me: "cproc (cpus s' c) = cproc (cpus s c)"
  then have "myproc c s' = Inr (cproc (cpus s c), settle c s')"
    by (simp add: myproc_ok procs_free_def)
  then show "bindE (myproc c s') (\<lambda>(me, s).
      if Some i \<noteq> me then with_lock c (ProcLock i) (upd_proc i (wake_one ch)) s else Inr s)
    = Inr (upd_proc i (\<lambda>p. if cproc (cpus s c) = Some i then p else wake_one ch p) (settle c s'))"
    using free by (auto simp: with_lock_proc)
qed

lemma kkill_spec:
  assumes "procs_free c s"
  shows "kkill c n s = Inr (case find (\<lambda>i. pid (procs s i) = n) [0..<NPROC] of
     Some i \<Rightarrow> (0, upd_proc i kill_one (settle c s)) | None \<Rightarrow> (-1, settle c s))"
proof -
  let ?f = "\<lambda>i s. if pid (procs s i) = n then (Some (0::int), upd_proc i kill_one s) else (None, s)"
  have body: "with_lock_ret c (ProcLock i) (?f i) s =
      Inr (if pid (procs s i) = n then (Some 0, upd_proc i kill_one (settle c s)) else (None, settle c s))"
    if "procs_free c s" for i and s :: "'a ptable_scheme"
    using that
    by (subst with_lock_ret_ok) (auto simp: procs_free_def lockless_def upd_proc_def)
  show ?thesis
    unfolding kkill_def
    by (subst scan_procs[OF assms upt_NPROC, where P = "\<lambda>ps i. pid (ps i) = n" and v = "\<lambda>_. 0"
          and g = "\<lambda>i. upd_proc i kill_one"], rule body) (auto split: option.splits)
qed

lemma allocproc_find_spec:
  assumes "procs_free c s"
  shows "allocproc_find c s = Inr (case find (\<lambda>i. pstate (procs s i) = UNUSED) [0..<NPROC] of
     Some i \<Rightarrow> (Some i, inside c (ProcLock i) s) | None \<Rightarrow> (None, settle c s))"
proof -
  have body: "bindE (acquire c (ProcLock i) s) (\<lambda>s.
       if pstate (procs s i) = UNUSED then Inr (Some i, s)
       else bindE (release c (ProcLock i) s) (\<lambda>s. Inr (None, s)))
     = Inr (if pstate (procs s i) = UNUSED then (Some i, inside c (ProcLock i) (settle c s)) else (None, settle c s))"
    if "procs_free c s" for i and s :: "'a ptable_scheme"
  proof -
    have "procs (inside c (ProcLock i) s) = procs s" by (simp add: inside_eq)
    then show ?thesis
      using that by (simp add: procs_free_def acquire_free release_inside)
  qed
  show ?thesis
    unfolding allocproc_find_def
    by (subst scan_procs[OF assms upt_NPROC, where P = "\<lambda>ps i. pstate (ps i) = UNUSED" and v = "\<lambda>i. i"
          and g = "\<lambda>i. inside c (ProcLock i)"], rule body) (auto split: option.splits)
qed


lemma allocpid_spec:
  assumes "lock_free PidLock s" and "cpu_sane c s"
  shows "allocpid c s = Inr (nextpid s, (settle c s)\<lparr>nextpid := i32 (nextpid s + 1)\<rparr>)"
  unfolding allocpid_def
  by (subst with_lock_ret_ok) (simp_all add: assms lockless_def)

lemma killed_spec: "procs_free c s \<Longrightarrow> killed c p s = Inr (pkilled (procs s p), settle c s)"
  unfolding killed_def
  by (subst with_lock_ret_ok) (simp_all add: procs_free_def)

lemma setkilled_spec: "procs_free c s \<Longrightarrow> setkilled c p s = Inr (upd_proc p (pkilled_update (\<lambda>_. True)) (settle c s))"
  by (simp add: setkilled_def with_lock_proc)

lemma map_procs_settle: "settle c (map_procs h s) = map_procs h (settle c s)"
  by (rule lockless_settle[symmetric]) (simp add: lockless_def map_procs_def cong: if_cong)

lemma map_procs_frame [simp]: "cpus (map_procs h s) = cpus s" "locks (map_procs h s) = locks s"
  "initproc (map_procs h s) = initproc s" "nextpid (map_procs h s) = nextpid s"
  "procs_free c (map_procs h s) = procs_free c s"
  "cpu_temp (map_procs h s) = cpu_temp s" "sched_round (map_procs h s) = sched_round s"
  by (simp_all add: map_procs_def procs_free_def lock_free_def cpu_sane_def)

lemma procs_map_procs: "procs (map_procs h s) i = (if i < NPROC then h i (procs s i) else procs s i)"
  by (simp add: map_procs_def)

definition adopt :: "nat \<Rightarrow> nat option \<Rightarrow> bool \<Rightarrow> nat option \<Rightarrow> nat list \<Rightarrow> nat \<Rightarrow> proc \<Rightarrow> proc" where
  "adopt p ini wake me js i q =
     (let q = (if wake \<and> me \<noteq> Some i then wake_one (map_option ChProc ini) q else q)
      in if i \<in> set js \<and> parent q = Some p then q\<lparr>parent := ini\<rparr> else q)"

lemma wake_one_simps [simp]: "parent (wake_one ch q) = parent q" "wake_one ch (wake_one ch q) = wake_one ch q"
  "wake_one ch (q\<lparr>parent := x\<rparr>) = (wake_one ch q)\<lparr>parent := x\<rparr>"
  by (simp_all add: wake_one_def)

lemma reparent_loop:
  assumes "procs_free c s" and "settle c s = s" and "distinct js" and "set js \<subseteq> {..<NPROC}" and "initproc s \<noteq> Some p"
  shows "for_each (\<lambda>i s. if parent (procs s i) = Some p
     then wakeup c (map_option ChProc (initproc s)) (upd_proc i (parent_update (\<lambda>_. initproc s)) s)
     else Inr s) js s
   = Inr (map_procs (adopt p (initproc s) (\<exists>j \<in> set js. parent (procs s j) = Some p) (cproc (cpus s c)) js) s)"
  using assms
proof (induction js arbitrary: s)
  case Nil
  then show ?case by (simp add: map_procs_def adopt_def)
next
  case (Cons j js)
  show ?case
  proof (cases "parent (procs s j) = Some p")
    case True
    let ?u = "upd_proc j (parent_update (\<lambda>_. initproc s)) s"
    let ?t = "map_procs (\<lambda>i p. if cproc (cpus s c) = Some i then p else wake_one (map_option ChProc (initproc s)) p) ?u"
    have u: "wakeup c (map_option ChProc (initproc s)) ?u = Inr ?t"
      using Cons.prems by (simp add: wakeup_spec settle_upd_proc)
    have par: "parent (procs ?t i) = (if i = j then initproc s else parent (procs s i))" for i
      by (simp add: procs_map_procs)
    have "map_procs (adopt p (initproc s) (\<exists>j \<in> set js. parent (procs ?t j) = Some p) (cproc (cpus s c)) js) ?t
       = map_procs (adopt p (initproc s) True (cproc (cpus s c)) (j # js)) s"
      using Cons.prems True
      by (auto simp: map_procs_def adopt_def Let_def fun_eq_iff upd_proc_def
           intro!: arg_cong[where f = "\<lambda>p. procs_update (\<lambda>_. p) s"])
    moreover have "for_each (\<lambda>i s. if parent (procs s i) = Some p
         then wakeup c (map_option ChProc (initproc s)) (upd_proc i (parent_update (\<lambda>_. initproc s)) s)
         else Inr s) js ?t
       = Inr (map_procs (adopt p (initproc ?t) (\<exists>j \<in> set js. parent (procs ?t j) = Some p) (cproc (cpus ?t c)) js) ?t)"
      using Cons.prems by (intro Cons.IH) (simp_all add: map_procs_settle settle_upd_proc)
    ultimately show ?thesis using True u by simp
  next
    case False
    then have "map_procs (adopt p (initproc s) w (cproc (cpus s c)) (j # js)) s
       = map_procs (adopt p (initproc s) w (cproc (cpus s c)) js) s" for w
      by (auto simp: map_procs_def adopt_def Let_def fun_eq_iff
          intro!: arg_cong[where f = "\<lambda>p. procs_update (\<lambda>_. p) s"])
    then show ?thesis using False Cons by simp
  qed
qed


lemma reparent_spec:
  assumes "procs_free c s" and "settle c s = s" and "initproc s \<noteq> Some p"
  shows "reparent c p s = Inr (map_procs (adopt p (initproc s)
     (\<exists>j < NPROC. parent (procs s j) = Some p) (cproc (cpus s c)) [0..<NPROC]) s)"
  unfolding reparent_def using reparent_loop[OF assms(1,2) _ _ assms(3), of "[0..<NPROC]"]
  by (simp add: atLeast0LessThan Bex_def)


subsection \<open>Leaving the CPU\<close>

lemma lockless_map_procs [simp, intro]: "lockless (map_procs h)"
  by (simp add: lockless_def map_procs_def cong: if_cong)

lemma inside_frame [simp]: "procs (inside c l s) = procs s" "initproc (inside c l s) = initproc s"
  "nextpid (inside c l s) = nextpid s" "cpu_temp (inside c l s) = cpu_temp s"
  "cproc (cpus (inside c l s) d) = cproc (cpus s d)"
  "noff (cpus (inside c l s) c) = noff (cpus s c) + 1"
  by (simp_all add: inside_eq)

lemma inside_sane: "cpu_sane c s \<Longrightarrow> cpu_sane c (inside c l s)"
  by (simp add: cpu_sane_def inside_eq)

lemma inside_lock_free: "l \<noteq> l' \<Longrightarrow> lock_free l (inside c l' s) = lock_free l s"
  by (simp add: lock_free_def inside_eq)

lemma settle_inside: "cpu_sane c s \<Longrightarrow> settle c (inside c l s) = inside c l s"
proof -
  assume "cpu_sane c s"
  then have "noff (cpus s c) + 1 \<noteq> 0" unfolding cpu_sane_def by linarith
  then show ?thesis by (intro settle_nested) (simp add: inside_eq)
qed

lemma release_swap:
  assumes "lock_free l s" and "cpu_sane c s" and "l \<noteq> l'"
  shows "release c l (inside c l' (inside c l s)) = Inr (inside c l' s)"
proof -
  let ?p = "cpus s c"
  have "release c l (inside c l' (inside c l s)) =
      pop_off c (s\<lparr>cpus := (cpus s)(c := ?p\<lparr>noff := 2 + noff ?p,
        intena := (if noff ?p = 0 then sie ?p else intena ?p), sie := False\<rparr>),
        locks := (locks s)(l' := (locks s l')\<lparr>locked := True, lcpu := Some c\<rparr>)\<rparr>)"
    using assms free_lock_eq[OF assms(1)]
    by (simp add: release_def inside_eq holding_def upd_lock_def cpu_sane_def fun_upd_twist[of l' l])
  also have "\<dots> = Inr (inside c l' s)"
    using assms(2)
    by (cases ?p) (auto simp: pop_off_def intr_get_def intr_on_def upd_cpu_def inside_eq
        cpu_sane_def Let_def add.commute)
  finally show ?thesis .
qed

lemma sched_leave_ok:
  assumes "cpu_sane c s" and "noff (cpus s c) = 0" and "cproc (cpus s c) = Some p"
    and "pstate (procs s p) \<noteq> RUNNING"
  shows "sched_leave c (inside c (ProcLock p) s) = Inr (sie (cpus s c), inside c (ProcLock p) s)"
proof -
  have "myproc c (inside c (ProcLock p) s) = Inr (Some p, inside c (ProcLock p) s)"
    using assms(1,3) by (simp add: myproc_ok inside_sane settle_inside)
  then show ?thesis
    using assms by (simp add: sched_leave_def holding_def intr_get_def inside_eq)
qed

lemma yield_leave_spec:
  assumes "procs_free c s" and "noff (cpus s c) = 0" and "cproc (cpus s c) = Some p"
  shows "yield_leave c s = Inr (sie (cpus s c),
     inside c (ProcLock p) (upd_proc p (pstate_update (\<lambda>_. RUNNABLE)) s))"
proof -
  have sane: "cpu_sane c s" and free: "lock_free (ProcLock p) (settle c s)"
    using assms(1) by (simp_all add: procs_free_def lock_free_def frame_simps)
  have "yield_leave c s = sched_leave c (inside c (ProcLock p) (upd_proc p (pstate_update (\<lambda>_. RUNNABLE)) s))"
    using assms sane free
    by (simp add: yield_leave_def myproc_ok acquire_free lockless_inside[OF lockless_upd_proc])
  also have "\<dots> = Inr (sie (cpus s c), inside c (ProcLock p) (upd_proc p (pstate_update (\<lambda>_. RUNNABLE)) s))"
    using assms sane by (subst sched_leave_ok) (simp_all add: cpu_sane_def)
  finally show ?thesis .
qed

lemma sleep_null_faults:
  assumes "procs_free c s" and "cproc (cpus s c) = Some p"
  shows "sleep_leave c ch None s = Inl (Fault ''release'')"
proof -
  have "lock_free (ProcLock p) (settle c s)"
    using assms(1) by (simp add: procs_free_def lock_free_def frame_simps)
  with assms show ?thesis
    by (simp add: sleep_leave_def myproc_ok procs_free_def acquire_free release_ptr_def)
qed

lemma leave_handover:
  assumes "lock_free (ProcLock p) s" and "lock_free l s" and "l \<noteq> ProcLock p" and "cpu_sane c s"
    and "noff (cpus s c) = 0" and "cproc (cpus s c) = Some p" and "pstate (f (procs s p)) \<noteq> RUNNING"
  shows "bindE (acquire c (ProcLock p) (inside c l s)) (\<lambda>s. bindE (release c l (upd_proc p f s)) (sched_leave c))
    = Inr (sie (cpus s c), inside c (ProcLock p) (upd_proc p f s))"
proof -
  have eq: "upd_proc p f (inside c (ProcLock p) (inside c l s)) = inside c (ProcLock p) (inside c l (upd_proc p f s))"
    by (simp add: lockless_inside)
  have "release c l (inside c (ProcLock p) (inside c l (upd_proc p f s))) = Inr (inside c (ProcLock p) (upd_proc p f s))"
    by (rule release_swap) (use assms in \<open>simp_all add: lock_free_def cpu_sane_def\<close>)
  moreover have "sched_leave c (inside c (ProcLock p) (upd_proc p f s)) = Inr (sie (cpus s c), inside c (ProcLock p) (upd_proc p f s))"
    using assms by (subst sched_leave_ok) (simp_all add: cpu_sane_def)
  ultimately show ?thesis
    using assms(1,3) eq by (simp add: acquire_free inside_lock_free)
qed

lemma sleep_leave_spec:
  assumes "procs_free c s" and "lock_free l s" and "l \<noteq> ProcLock p"
    and "noff (cpus s c) = 0" and "cproc (cpus s c) = Some p"
  shows "sleep_leave c ch (Some l) (inside c l s) = Inr (sie (cpus s c),
     inside c (ProcLock p) (upd_proc p (\<lambda>q. q\<lparr>pchan := Some ch, pstate := SLEEPING\<rparr>) s))"
proof -
  have sane: "cpu_sane c s" and free: "lock_free (ProcLock p) s"
    using assms(1) by (simp_all add: procs_free_def)
  have "sleep_leave c ch (Some l) (inside c l s)
     = sched_leave c (inside c (ProcLock p) (upd_proc p (\<lambda>q. q\<lparr>pchan := Some ch, pstate := SLEEPING\<rparr>) s))"
    using assms sane free
    by (simp add: sleep_leave_def myproc_ok inside_sane settle_inside acquire_free inside_lock_free
        release_ptr_def release_swap lockless_inside[OF lockless_upd_proc])
  also have "\<dots> = Inr (sie (cpus s c),
     inside c (ProcLock p) (upd_proc p (\<lambda>q. q\<lparr>pchan := Some ch, pstate := SLEEPING\<rparr>) s))"
    using assms sane by (subst sched_leave_ok) (simp_all add: cpu_sane_def)
  finally show ?thesis .
qed

lemma kexit_leave_spec:
  assumes "procs_free c s" and "lock_free WaitLock s" and "noff (cpus s c) = 0"
    and "cproc (cpus s c) = Some p" and "initproc s \<noteq> Some p" and "parent (procs s p) \<noteq> Some p"
  shows "kexit_leave c p status s = Inr (sie (cpus s c), inside c (ProcLock p)
     (upd_proc p (\<lambda>q. q\<lparr>xstate := status, pstate := ZOMBIE\<rparr>)
       (map_procs (\<lambda>i q. if i = p then q else wake_one (map_option ChProc (parent (procs s p))) q)
         (map_procs (adopt p (initproc s) (\<exists>j < NPROC. parent (procs s j) = Some p) (Some p) [0..<NPROC]) s))))"
proof -
  let ?adopt = "adopt p (initproc s) (\<exists>j < NPROC. parent (procs s j) = Some p) (Some p) [0..<NPROC]"
  let ?wake = "\<lambda>i q. if i = p then q else wake_one (map_option ChProc (parent (procs s p))) q"
  let ?f = "\<lambda>q. q\<lparr>xstate := status, pstate := ZOMBIE\<rparr>"
  let ?s2 = "map_procs ?wake (map_procs ?adopt s)"
  have sane: "cpu_sane c s" using assms(1) by (simp add: procs_free_def)
  have free: "procs_free c (inside c WaitLock s)"
    using assms(1) by (simp add: procs_free_def inside_sane inside_lock_free)
  have r: "reparent c p (inside c WaitLock s) = Inr (inside c WaitLock (map_procs ?adopt s))"
    using assms reparent_spec[OF free] sane by (simp add: settle_inside lockless_inside)
  have free2: "procs_free c (inside c WaitLock (map_procs ?adopt s))"
    and sane2: "cpu_sane c (map_procs ?adopt s)"
    using free sane by (simp_all add: procs_free_def lock_free_def cpu_sane_def inside_eq)
  have self: "parent (procs (map_procs ?adopt s) p) = parent (procs s p)"
    using assms(6) by (simp add: procs_map_procs adopt_def Let_def)
  have w: "wakeup c (map_option ChProc (parent (procs s p))) (inside c WaitLock (map_procs ?adopt s))
     = Inr (inside c WaitLock ?s2)"
    using wakeup_spec[OF free2] assms(4) sane2 by (simp add: settle_inside lockless_inside eq_commute[of p])
  have "kexit_leave c p status s = bindE (acquire c (ProcLock p) (inside c WaitLock ?s2))
      (\<lambda>s. bindE (release c WaitLock (upd_proc p ?f s)) (sched_leave c))"
    using assms(2) r w self by (simp add: kexit_leave_def exit_zombie_def acquire_free)
  also have "\<dots> = Inr (sie (cpus ?s2 c), inside c (ProcLock p) (upd_proc p ?f ?s2))"
    by (rule leave_handover) (use assms sane in \<open>simp_all add: lock_free_def procs_free_def cpu_sane_def\<close>)
  finally show ?thesis by simp
qed

lemma io_only_frame:
  assumes "io_only s s'"
  shows "procs s' = procs s" "cpu_temp s' = cpu_temp s" "panicking s' = panicking s"
    "tm_had_children s' = tm_had_children s" "summary_printed s' = summary_printed s"
    "sched_round s' = sched_round s" "initproc s' = initproc s" "nextpid s' = nextpid s"
proof -
  have eq: "s' = s\<lparr>cpus := cpus s', locks := locks s', uart_out := uart_out s'\<rparr>"
    using assms by (simp add: io_only_def)
  show "procs s' = procs s" "cpu_temp s' = cpu_temp s" "panicking s' = panicking s"
    "tm_had_children s' = tm_had_children s" "summary_printed s' = summary_printed s"
    "sched_round s' = sched_round s" "initproc s' = initproc s" "nextpid s' = nextpid s"
    by (subst eq, simp)+
qed

text \<open>An unused slot, for the concrete states of the witnesses.\<close>

definition demo_proc :: proc where
  "demo_proc = \<lparr>pstate = UNUSED, pchan = None, pkilled = False, xstate = 0, pid = 0, waiting_tick = 0,
     heat = 0, parent = None, kstack = 0, psz = 0, pagetable = 0, trapframe = 0,
     pcontext = \<lparr>ctx_ra = 0, ctx_sp = 0, ctx_s = (\<lambda>_. 0)\<rparr>, ofile = (\<lambda>_. None), cwd = None, pname = []\<rparr>"

end
