(* ===== verification/Scheduler.thy ===== *)
theory Scheduler
  imports ProcTable
begin

text \<open>
  The thermal-aware scheduler: \<open>scheduler()\<close> of \<^verbatim>\<open>kernel/proc.c\<close>.

  The body of the endless loop is \<open>scheduler_round\<close>, from \<^verbatim>\<open>intr_on()\<close> to the context
  switch or the end of the iteration; \<open>scheduler_back\<close> is what follows the switch back.
  Each loop over the table is a \<open>for_each\<close> or \<open>find_loop\<close> over the slot numbers with the
  body of the source, its locking and its printing.
\<close>

definition is_thermal_test :: "string \<Rightarrow> bool" where
  "is_thermal_test name = (strncmp name ''schedtest'' 9 = 0 \<or> strncmp name ''matrix'' 6 = 0)"

definition test_child :: "(nat \<Rightarrow> proc) \<Rightarrow> nat \<Rightarrow> bool" where
  "test_child ps i = (case parent (ps i) of None \<Rightarrow> False | Some q \<Rightarrow> is_thermal_test (pname (ps q)))"

text \<open>Step 0: has the test run ended?\<close>

definition active_body :: "nat \<Rightarrow> nat \<Rightarrow> 'a ptable_scheme \<Rightarrow> (unit option \<times> 'a ptable_scheme) res" where
  "active_body c i = with_lock_ret c (ProcLock i) (\<lambda>s.
     (if pstate (procs s i) \<noteq> UNUSED \<and> pstate (procs s i) \<noteq> ZOMBIE \<and> test_child (procs s) i
      then Some () else None, s))"

definition end_of_run :: "nat \<Rightarrow> 'a ptable_scheme \<Rightarrow> 'a ptable_scheme res" where
  "end_of_run c s =
     bindE (tm_print_summary c (s\<lparr>summary_printed := True\<rparr>)) (\<lambda>s. Inr (tm_reset s))"

definition step_summary :: "nat \<Rightarrow> 'a ptable_scheme \<Rightarrow> 'a ptable_scheme res" where
  "step_summary c s =
     (if tm_had_children s \<and> \<not> summary_printed s then
        bindE (find_loop (active_body c) [0..<NPROC] s) (\<lambda>(still_active, s).
        if still_active = None then end_of_run c s else Inr s)
      else Inr s)"

text \<open>Step 1: heat decay.\<close>

definition decay_one :: "proc \<Rightarrow> proc" where
  "decay_one p =
     (if pstate p = RUNNABLE \<or> pstate p = SLEEPING then
        (if heat p > 0 then
           let h = heat p - HEAT_DECAY in p\<lparr>heat := (if h < 0 then 0 else h)\<rparr>
         else p)
      else p)"

definition decay_body :: "nat \<Rightarrow> nat \<Rightarrow> 'a ptable_scheme \<Rightarrow> 'a ptable_scheme res" where
  "decay_body c i = with_lock c (ProcLock i) (upd_proc i decay_one)"

definition step_decay :: "nat \<Rightarrow> 'a ptable_scheme \<Rightarrow> 'a ptable_scheme res" where
  "step_decay c = for_each (decay_body c) [0..<NPROC]"

text \<open>Step 2: the idle cycle of a throttled CPU.\<close>

definition log_round :: "'a thermal_scheme \<Rightarrow> bool" where
  "log_round s = (sched_round s smod THERMAL_LOG_INTERVAL = 0)"

definition cooling_line :: string where
  "cooling_line = ''  [COOLING] Temp: %d/%d  | Throttling -- idle cycle to cool down'' @ nl"

definition step_throttle :: "nat \<Rightarrow> 'a ptable_scheme \<Rightarrow> 'a ptable_scheme res" where
  "step_throttle c s =
     (let s = s\<lparr>tm_cooling_cycles := i32 (tm_cooling_cycles s + 1)\<rparr> in
      bindE (if log_round s
             then printf c cooling_line
                    [VaInt (cpu_temp s), VaInt THROTTLE_TEMP] s
             else Inr s) (\<lambda>s.
      Inr (update_cpu_temp 0 s)))"

text \<open>Step 3: the thermal gate and the three passes.\<close>

definition dominated :: "int \<Rightarrow> proc \<Rightarrow> bool" where
  "dominated temp p =
     (if waiting_tick p < STARVE_TICKS then
        (if temp \<ge> HOT_TEMP \<and> heat p \<ge> HEAT_COOL_THRESH then True
         else if temp \<ge> WARM_TEMP \<and> heat p \<ge> HEAT_WARM_THRESH then True
         else False)
      else False)"

definition skipped_line :: string where
  "skipped_line = ''  [SKIPPED] PID: %d | Heat: %d | Waited: %d | Temp: %d'' @ nl"

definition passA_body ::
  "nat \<Rightarrow> nat \<Rightarrow> (nat option \<times> int) \<times> 'a ptable_scheme \<Rightarrow> ((nat option \<times> int) \<times> 'a ptable_scheme) res" where
  "passA_body c i = (\<lambda>((chosen, skipped), s).
     bindE (acquire c (ProcLock i) s) (\<lambda>s.
     let p = procs s i in
     if pstate p = RUNNABLE then
       if dominated (cpu_temp s) p then
         let s = tm_record_skip (pid p) s in
         bindE (if log_round s
                then printf c skipped_line
                       [VaInt (pid p), VaInt (heat p), VaInt (waiting_tick p), VaInt (cpu_temp s)] s
                else Inr s) (\<lambda>s.
         bindE (release c (ProcLock i) s) (\<lambda>s. Inr ((chosen, skipped + 1), s)))
       else if test_child (procs s) i then
         let s = (if \<not> tm_had_children s then s\<lparr>summary_printed := False\<rparr> else s);
             s = s\<lparr>tm_had_children := True\<rparr>;
             chosen = (case chosen of None \<Rightarrow> Some i
                       | Some j \<Rightarrow> if pid p < pid (procs s j) then Some i else Some j)
         in bindE (release c (ProcLock i) s) (\<lambda>s. Inr ((chosen, skipped), s))
       else bindE (release c (ProcLock i) s) (\<lambda>s. Inr ((chosen, skipped), s))
     else bindE (release c (ProcLock i) s) (\<lambda>s. Inr ((chosen, skipped), s))))"

definition passB_body ::
  "nat \<Rightarrow> nat \<Rightarrow> (nat option \<times> int \<times> int) \<times> 'a ptable_scheme
     \<Rightarrow> ((nat option \<times> int \<times> int) \<times> 'a ptable_scheme) res" where
  "passB_body c i = (\<lambda>((chosen, lowest_heat, skipped), s).
     with_lock_ret c (ProcLock i) (\<lambda>s.
     let p = procs s i in
     if pstate p = RUNNABLE then
       if dominated (cpu_temp s) p
       then ((chosen, lowest_heat, skipped + 1), tm_record_skip (pid p) s)
       else if heat p < lowest_heat then ((Some i, heat p, skipped), s)
       else ((chosen, lowest_heat, skipped), s)
     else ((chosen, lowest_heat, skipped), s)) s)"

definition passC_body :: "nat \<Rightarrow> nat \<Rightarrow> 'a ptable_scheme \<Rightarrow> (nat option \<times> 'a ptable_scheme) res" where
  "passC_body c i = with_lock_ret c (ProcLock i) (\<lambda>s.
     (if pstate (procs s i) = RUNNABLE then Some i else None, s))"

definition step_select ::
  "nat \<Rightarrow> 'a ptable_scheme \<Rightarrow> ((nat option \<times> int) \<times> 'a ptable_scheme) res" where
  "step_select c s =
     bindE (for_each (passA_body c) [0..<NPROC] ((None, 0), s)) (\<lambda>((chosen, skipped), s).
     bindE (if chosen = None then
              bindE (for_each (passB_body c) [0..<NPROC] ((None, MAX_HEAT + 1, skipped), s))
                (\<lambda>((chosen, lowest_heat, skipped), s). Inr ((chosen, skipped), s))
            else Inr ((chosen, skipped), s)) (\<lambda>((chosen, skipped), s).
     if chosen = None then
       bindE (find_loop (passC_body c) [0..<NPROC] s) (\<lambda>(chosen, s). Inr ((chosen, skipped), s))
     else Inr ((chosen, skipped), s)))"

text \<open>Step 4: waiting counters of the processes that were not chosen.\<close>

definition wait_one :: "nat option \<Rightarrow> nat \<Rightarrow> proc \<Rightarrow> proc" where
  "wait_one chosen i p =
     (if pstate p = RUNNABLE \<and> Some i \<noteq> chosen then p\<lparr>waiting_tick := i32 (waiting_tick p + 1)\<rparr> else p)"

definition wait_body :: "nat \<Rightarrow> nat option \<Rightarrow> nat \<Rightarrow> 'a ptable_scheme \<Rightarrow> 'a ptable_scheme res" where
  "wait_body c chosen i = with_lock c (ProcLock i) (upd_proc i (wait_one chosen i))"

definition step_waiting :: "nat \<Rightarrow> nat option \<Rightarrow> 'a ptable_scheme \<Rightarrow> 'a ptable_scheme res" where
  "step_waiting c chosen = for_each (wait_body c chosen) [0..<NPROC]"

text \<open>Step 5: idle, or switch to the chosen process if it is still runnable.\<close>

datatype sched_result = Throttled | Idled | Missed | SwitchTo nat

definition zone :: "int \<Rightarrow> string" where
  "zone temp = (if temp \<ge> HOT_TEMP then ''HOT '' else if temp \<ge> WARM_TEMP then ''WARM'' else ''COOL'')"

definition thermal_log :: "int \<Rightarrow> proc \<Rightarrow> int \<Rightarrow> (string \<times> va list) list" where
  "thermal_log temp p skipped =
     [(''  [THERMAL] Temp: %d [%s] | PID: %d | Heat: %d | %s'',
        [VaInt temp, VaStr (Some (zone temp)), VaInt (pid p), VaInt (heat p), VaStr (Some (pname p))])]
     @ (if skipped > 0 then [('' | %d skipped'', [VaInt skipped])] else [])
     @ [(nl, [])]"

definition heat_up :: "proc \<Rightarrow> proc" where
  "heat_up p = (let h = heat p + HEAT_INCREMENT in
     p\<lparr>waiting_tick := 0, heat := (if h > MAX_HEAT then MAX_HEAT else h)\<rparr>)"

definition run_chosen :: "nat \<Rightarrow> nat \<Rightarrow> 'a ptable_scheme \<Rightarrow> 'a ptable_scheme" where
  "run_chosen c i s =
     (let s = upd_proc i (pstate_update (\<lambda>_. RUNNING)) s;
          s = upd_cpu c (cproc_update (\<lambda>_. Some i)) s;
          s = tm_record_schedule (pid (procs s i)) (heat (procs s i)) s;
          s = upd_proc i heat_up s
      in update_cpu_temp (heat (procs s i)) s)"

definition step_dispatch ::
  "nat \<Rightarrow> nat option \<Rightarrow> int \<Rightarrow> 'a ptable_scheme \<Rightarrow> (sched_result \<times> 'a ptable_scheme) res" where
  "step_dispatch c chosen skipped s =
     (case chosen of
        None \<Rightarrow> Inr (Idled, update_cpu_temp 0 s)
      | Some i \<Rightarrow>
          bindE (acquire c (ProcLock i) s) (\<lambda>s.
          if pstate (procs s i) = RUNNABLE then
            bindE (if log_round s then printfs c (thermal_log (cpu_temp s) (procs s i) skipped) s else Inr s)
              (\<lambda>s. Inr (SwitchTo i, run_chosen c i s))
          else bindE (release c (ProcLock i) s) (\<lambda>s. Inr (Missed, s))))"

definition scheduler_back :: "nat \<Rightarrow> nat \<Rightarrow> 'a machine_scheme \<Rightarrow> 'a machine_scheme res" where
  "scheduler_back c i s = release c (ProcLock i) (upd_cpu c (cproc_update (\<lambda>_. None)) s)"

definition scheduler_round :: "nat \<Rightarrow> 'a ptable_scheme \<Rightarrow> (sched_result \<times> 'a ptable_scheme) res" where
  "scheduler_round c s =
     (let s = intr_off c (intr_on c s);
          s = s\<lparr>sched_round := i32 (sched_round s + 1)\<rparr> in
      bindE (step_summary c s) (\<lambda>s.
      bindE (step_decay c s) (\<lambda>s.
      if cpu_temp s \<ge> THROTTLE_TEMP
      then bindE (step_throttle c s) (\<lambda>s. Inr (Throttled, s))
      else bindE (step_select c s) (\<lambda>((chosen, skipped), s).
           bindE (step_waiting c chosen s) (\<lambda>s.
           step_dispatch c chosen skipped s)))))"

subsection \<open>The metrics touch nothing else\<close>

definition tm_slot :: "int \<Rightarrow> (nat \<Rightarrow> thermal_metrics) \<Rightarrow> nat option \<times> (nat \<Rightarrow> thermal_metrics)" where
  "tm_slot n t =
     (case find (\<lambda>i. tm_pid (t i) = n) [0..<MAX_TRACKED_PIDS] of
        Some i \<Rightarrow> (Some i, t)
      | None \<Rightarrow> (case find (\<lambda>i. tm_pid (t i) = 0) [0..<MAX_TRACKED_PIDS] of
             Some i \<Rightarrow> (Some i, t(i := (t i)\<lparr>tm_pid := n, heat_min := MAX_HEAT + 1, heat_max := -1\<rparr>))
           | None \<Rightarrow> (None, t)))"

lemma tm_find_slot: "tm_find n s = (fst (tm_slot n (tm s)), s\<lparr>tm := snd (tm_slot n (tm s))\<rparr>)"
  by (simp add: tm_find_def tm_slot_def split: option.splits)

lemma tm_record_skip_eq: "\<exists>t. \<forall>s. tm s = t0 \<longrightarrow> tm_record_skip n s = s\<lparr>tm := t\<rparr>"
  by (cases "fst (tm_slot n t0)") (auto simp: tm_record_skip_def tm_find_slot)

lemma lockless_tm_record_skip [simp, intro]: "lockless (tm_record_skip n)"
  by (simp add: lockless_def tm_record_skip_def tm_find_slot split: option.splits)

lemma tm_record_skip_frame [simp]:
  "procs (tm_record_skip n s) = procs s" "cpu_temp (tm_record_skip n s) = cpu_temp s"
  "sched_round (tm_record_skip n s) = sched_round s"
  by (simp_all add: tm_record_skip_def tm_find_slot split: option.splits)

lemma lockless_tm_record_schedule [simp, intro]: "lockless (tm_record_schedule n h)"
  by (simp add: lockless_def tm_record_schedule_def tm_find_slot Let_def split: option.splits)

lemma tm_record_schedule_frame [simp]:
  "procs (tm_record_schedule n h s) = procs s" "cpu_temp (tm_record_schedule n h s) = cpu_temp s"
  "cpus (tm_record_schedule n h s) = cpus s" "locks (tm_record_schedule n h s) = locks s"
  by (simp_all add: tm_record_schedule_def tm_find_slot Let_def split: option.splits)

subsection \<open>One pass over the table\<close>

text \<open>
  \<open>sched_ok\<close>: the scheduler runs on CPU \<open>c\<close> with nothing locked and its interrupt state
  settled.  \<open>same_core\<close>: only the console output and the thermal metrics differ.
\<close>

definition sched_ok :: "nat \<Rightarrow> 'a ptable_scheme \<Rightarrow> bool" where
  "sched_ok c s = (procs_free c s \<and> lock_free PrLock s \<and> can_print c s \<and> settled c s)"

definition with_metrics :: "'a ptable_scheme \<Rightarrow> 'a ptable_scheme \<Rightarrow> 'a ptable_scheme" where
  "with_metrics s' s = s\<lparr>uart_out := uart_out s', tm := tm s', tm_temp_sum := tm_temp_sum s',
     tm_temp_count := tm_temp_count s', tm_temp_min := tm_temp_min s', tm_temp_max := tm_temp_max s',
     tm_cooling_cycles := tm_cooling_cycles s', tm_had_children := tm_had_children s',
     summary_printed := summary_printed s'\<rparr>"

definition same_core :: "'a ptable_scheme \<Rightarrow> 'a ptable_scheme \<Rightarrow> bool" where
  "same_core s s' = (s' = with_metrics s' s)"

lemma same_core_refl [simp]: "same_core s s"
  by (simp add: same_core_def with_metrics_def)

lemma same_core_trans:
  assumes "same_core s t" and "same_core t u"
  shows "same_core s u"
proof -
  have "u = with_metrics u (with_metrics t s)" using assms by (simp add: same_core_def)
  then show ?thesis by (simp add: same_core_def with_metrics_def)
qed

lemma with_metrics_frame [simp]:
  "procs (with_metrics t s) = procs s" "cpu_temp (with_metrics t s) = cpu_temp s"
  "cpus (with_metrics t s) = cpus s" "locks (with_metrics t s) = locks s"
  "sched_round (with_metrics t s) = sched_round s" "initproc (with_metrics t s) = initproc s"
  "nextpid (with_metrics t s) = nextpid s" "panicking (with_metrics t s) = panicking s"
  "panicked (with_metrics t s) = panicked s"
  by (simp_all add: with_metrics_def)

lemma same_core_frame:
  assumes "same_core s s'"
  shows "procs s' = procs s" "cpu_temp s' = cpu_temp s" "cpus s' = cpus s" "locks s' = locks s"
    "sched_round s' = sched_round s" "initproc s' = initproc s" "nextpid s' = nextpid s"
    "panicking s' = panicking s" "panicked s' = panicked s"
  using assms unfolding same_core_def by (metis with_metrics_frame)+

lemma same_core_ok: "same_core s s' \<Longrightarrow> sched_ok c s' = sched_ok c s"
  by (simp add: sched_ok_def procs_free_def lock_free_def can_print_def cpu_sane_def settled_def
      same_core_frame)

lemma same_core_outputs [simp]: "same_core s (outputs t s)"
  by (simp add: same_core_def with_metrics_def outputs_def)

lemma same_core_skip [simp]: "same_core s (tm_record_skip n s)"
proof -
  obtain t where "tm_record_skip n s = s\<lparr>tm := t\<rparr>" using tm_record_skip_eq[of "tm s" n] by auto
  then show ?thesis by (simp add: same_core_def with_metrics_def)
qed

lemma same_core_reset [simp]: "same_core s (tm_reset s)"
  by (simp add: same_core_def with_metrics_def tm_reset_def)

lemma release_body:
  assumes "sched_ok c s" and "lockless f"
  shows "release c (ProcLock i) (f (inside c (ProcLock i) s)) = Inr (f s)"
proof -
  have "release c (ProcLock i) (inside c (ProcLock i) (f s)) = Inr (settle c (f s))"
    using assms lockless_frame[OF assms(2), of s]
    by (intro release_inside) (simp_all add: sched_ok_def procs_free_def lock_free_def cpu_sane_def)
  then show ?thesis
    using assms lockless_settle[OF assms(2), of c s] by (simp add: lockless_inside sched_ok_def settle_settled)
qed

lemma sched_ok_acquire: "sched_ok c s \<Longrightarrow> acquire c (ProcLock i) s = Inr (inside c (ProcLock i) s)"
  by (simp add: sched_ok_def procs_free_def acquire_free)

text \<open>Printing with a process lock held only adds output.\<close>

lemma printf_locked:
  assumes "sched_ok c s" and "fmt_ok fmt (map kind_of ap)" and "lockless f" and "\<And>s. same_core s (f s)"
  shows "printf c fmt ap (f (inside c (ProcLock i) s))
    = Inr (outputs (the (render fmt ap)) (f (inside c (ProcLock i) s)))"
proof -
  let ?t = "inside c (ProcLock i) s"
  have sane: "cpu_sane c s" using assms(1) by (simp add: sched_ok_def procs_free_def)
  have "panicking (f ?t) = panicking s" "panicked (f ?t) = panicked s"
    using same_core_frame(8,9)[OF assms(4)[of ?t]] by (simp_all add: inside_eq)
  moreover have "cpus (f ?t) = cpus ?t" "locks (f ?t) = locks ?t"
    using lockless_frame[OF assms(3)] by simp_all
  moreover have "lock_free PrLock ?t" using assms(1) by (simp add: inside_lock_free sched_ok_def)
  moreover have "cpu_sane c ?t" using sane by (rule inside_sane)
  ultimately have "printf c fmt ap (f ?t) = Inr (outputs (the (render fmt ap)) (settle c (f ?t)))"
    using assms(1,2) by (intro printf_text) (simp_all add: lock_free_def can_print_def cpu_sane_def sched_ok_def)
  moreover have "settle c (f ?t) = f ?t"
    using lockless_settle[OF assms(3), of c ?t] settle_inside[OF sane] by simp
  ultimately show ?thesis by simp
qed

definition gated :: "(nat \<Rightarrow> proc) \<Rightarrow> int \<Rightarrow> nat \<Rightarrow> bool" where
  "gated ps temp i = (pstate (ps i) = RUNNABLE \<and> dominated temp (ps i))"

definition ready :: "(nat \<Rightarrow> proc) \<Rightarrow> int \<Rightarrow> nat \<Rightarrow> bool" where
  "ready ps temp i = (pstate (ps i) = RUNNABLE \<and> \<not> dominated temp (ps i))"

definition passA_acc :: "(nat \<Rightarrow> proc) \<Rightarrow> int \<Rightarrow> nat \<Rightarrow> nat option \<times> int \<Rightarrow> nat option \<times> int" where
  "passA_acc ps temp i = (\<lambda>(chosen, skipped).
     if gated ps temp i then (chosen, skipped + 1)
     else if ready ps temp i \<and> test_child ps i
     then (case chosen of None \<Rightarrow> Some i | Some j \<Rightarrow> if pid (ps i) < pid (ps j) then Some i else Some j, skipped)
     else (chosen, skipped))"

lemma skipped_fmt: "fmt_ok skipped_line [KInt, KInt, KInt, KInt]"
  by code_simp

lemma passA_step:
  assumes "sched_ok c s"
  shows "\<exists>s'. passA_body c i (acc, s) = Inr (passA_acc (procs s) (cpu_temp s) i acc, s') \<and> same_core s s'"
proof -
  let ?t = "inside c (ProcLock i) s"
  obtain ch sk where acc: "acc = (ch, sk)" by force
  have fr: "procs ?t = procs s" "cpu_temp ?t = cpu_temp s" by simp_all
  note start = passA_body_def acc sched_ok_acquire[OF assms]
  consider (gated) "gated (procs s) (cpu_temp s) i" | (child) "ready (procs s) (cpu_temp s) i" "test_child (procs s) i"
    | (other) "\<not> gated (procs s) (cpu_temp s) i" "\<not> (ready (procs s) (cpu_temp s) i \<and> test_child (procs s) i)"
    by blast
  then show ?thesis
  proof cases
    case gated
    let ?n = "pid (procs s i)"
    let ?out = "the (render skipped_line
       [VaInt ?n, VaInt (heat (procs s i)), VaInt (waiting_tick (procs s i)), VaInt (cpu_temp s)])"
    let ?f = "\<lambda>s'. if log_round s then outputs ?out (tm_record_skip ?n s') else tm_record_skip ?n s'"
    have lf: "lockless ?f"
      using lockless_comp[OF lockless_outputs[of ?out] lockless_tm_record_skip[of ?n]] by (cases "log_round s") simp_all
    have lr: "log_round (tm_record_skip ?n ?t) = log_round s" by (simp add: log_round_def inside_eq)
    have sc: "same_core s (?f s)" by (simp add: same_core_trans[OF same_core_skip same_core_outputs])
    have "passA_body c i (acc, s) = bindE (release c (ProcLock i) (?f ?t)) (\<lambda>s. Inr ((ch, sk + 1), s))"
      using gated fr printf_locked[OF assms, of _ _ "tm_record_skip ?n"] skipped_fmt lr
      by (simp add: start gated_def Let_def)
    then show ?thesis
      using gated sc release_body[OF assms lf] by (auto simp: passA_acc_def acc)
  next
    case child
    let ?f = "\<lambda>s. (if \<not> tm_had_children s then s\<lparr>summary_printed := False\<rparr> else s)\<lparr>tm_had_children := True\<rparr>"
    have lf: "lockless ?f" by (simp add: lockless_def)
    have sc: "same_core s (?f s)"
      by (simp add: same_core_def with_metrics_def)
    have "passA_body c i (acc, s) = bindE (release c (ProcLock i) (?f ?t)) (\<lambda>s'. Inr (passA_acc (procs s) (cpu_temp s) i acc, s'))"
      using child fr by (auto simp: start passA_acc_def gated_def ready_def Let_def split: option.splits)
    then show ?thesis using sc release_body[OF assms lf] by auto
  next
    case other
    have "passA_body c i (acc, s) = bindE (release c (ProcLock i) ?t) (\<lambda>s'. Inr (passA_acc (procs s) (cpu_temp s) i acc, s'))"
      using other fr by (auto simp: start passA_acc_def gated_def ready_def Let_def)
    then show ?thesis using release_body[OF assms lockless_id] by auto
  qed
qed


definition passB_acc :: "(nat \<Rightarrow> proc) \<Rightarrow> int \<Rightarrow> nat \<Rightarrow> nat option \<times> int \<times> int \<Rightarrow> nat option \<times> int \<times> int" where
  "passB_acc ps temp i = (\<lambda>(chosen, lowest_heat, skipped).
     if gated ps temp i then (chosen, lowest_heat, skipped + 1)
     else if ready ps temp i \<and> heat (ps i) < lowest_heat then (Some i, heat (ps i), skipped)
     else (chosen, lowest_heat, skipped))"

lemma passB_step:
  assumes "sched_ok c s"
  shows "\<exists>s'. passB_body c i (acc, s) = Inr (passB_acc (procs s) (cpu_temp s) i acc, s') \<and> same_core s s'"
proof -
  obtain ch lo sk where acc: "acc = (ch, lo, sk)" by (metis prod.exhaust)
  let ?g = "if gated (procs s) (cpu_temp s) i then tm_record_skip (pid (procs s i)) else (\<lambda>s. s)"
  have lf: "lockless ?g" by simp
  have "passB_body c i (acc, s)
     = bindE (release c (ProcLock i) (?g (inside c (ProcLock i) s))) (\<lambda>s'. Inr (passB_acc (procs s) (cpu_temp s) i acc, s'))"
    by (simp add: passB_body_def acc with_lock_ret_def sched_ok_acquire[OF assms] Let_def passB_acc_def
        gated_def ready_def)
  then show ?thesis using release_body[OF assms lf] by auto
qed

lemma select_fold:
  assumes "sched_ok c s"
    and "\<And>i acc s'. sched_ok c s' \<Longrightarrow> procs s' = procs s \<Longrightarrow> cpu_temp s' = cpu_temp s \<Longrightarrow>
      \<exists>s''. body i (acc, s') = Inr (g i acc, s'') \<and> same_core s' s''"
  shows "\<exists>s'. for_each body is (acc, s) = Inr (fold g is acc, s') \<and> same_core s s'"
  using assms
proof (induction "is" arbitrary: s acc)
  case (Cons i "is")
  obtain s1 where s1: "body i (acc, s) = Inr (g i acc, s1)" "same_core s s1"
    using Cons.prems(2)[OF Cons.prems(1) refl refl] by blast
  have ok: "sched_ok c s1" using Cons.prems(1) s1(2) by (simp add: same_core_ok)
  have fr: "procs s1 = procs s" "cpu_temp s1 = cpu_temp s" using s1(2) by (simp_all add: same_core_frame)
  obtain s2 where "for_each body is (g i acc, s1) = Inr (fold g is (g i acc), s2)" "same_core s1 s2"
    using Cons.IH[OF ok, of "g i acc"] Cons.prems(2) fr by auto
  then show ?case using s1 same_core_trans by auto
qed auto

text \<open>What the two folds compute.\<close>

definition choice_A :: "(nat \<Rightarrow> proc) \<Rightarrow> int \<Rightarrow> nat list \<Rightarrow> nat option \<Rightarrow> bool" where
  "choice_A ps temp is ch =
     (case ch of
        None \<Rightarrow> \<forall>i\<in>set is. \<not> (ready ps temp i \<and> test_child ps i)
      | Some i \<Rightarrow> i \<in> set is \<and> ready ps temp i \<and> test_child ps i \<and>
          (\<forall>j\<in>set is. ready ps temp j \<and> test_child ps j \<longrightarrow> pid (ps i) \<le> pid (ps j)))"

lemma choice_A_step:
  "choice_A ps temp is ch \<Longrightarrow> choice_A ps temp (is @ [i]) (fst (passA_acc ps temp i (ch, k)))"
  by (auto simp: choice_A_def passA_acc_def gated_def ready_def split: option.splits)

lemma fold_passA: "choice_A ps temp is (fst (fold (passA_acc ps temp) is (None, k)))"
proof (induction "is" rule: rev_induct)
  case Nil
  then show ?case by (simp add: choice_A_def)
next
  case (snoc i "is")
  obtain ch sk where "fold (passA_acc ps temp) is (None, k) = (ch, sk)" by force
  with snoc show ?case using choice_A_step[of ps temp "is" ch i sk] by simp
qed

definition choice_B :: "(nat \<Rightarrow> proc) \<Rightarrow> int \<Rightarrow> nat list \<Rightarrow> nat option \<times> int \<Rightarrow> bool" where
  "choice_B ps temp is = (\<lambda>(ch, lo).
     case ch of
        None \<Rightarrow> lo = MAX_HEAT + 1 \<and> (\<forall>i\<in>set is. ready ps temp i \<longrightarrow> heat (ps i) > MAX_HEAT)
      | Some i \<Rightarrow> i \<in> set is \<and> ready ps temp i \<and> lo = heat (ps i) \<and> lo \<le> MAX_HEAT \<and>
          (\<forall>j\<in>set is. ready ps temp j \<longrightarrow> heat (ps i) \<le> heat (ps j)))"

lemma choice_B_step:
  "choice_B ps temp is (ch, lo) \<Longrightarrow> passB_acc ps temp i (ch, lo, k) = (ch', lo', k') \<Longrightarrow>
    choice_B ps temp (is @ [i]) (ch', lo')"
  by (auto simp: choice_B_def passB_acc_def gated_def ready_def split: option.splits if_splits)

lemma fold_passB:
  "fold (passB_acc ps temp) is (None, MAX_HEAT + 1, k) = (ch, lo, sk) \<Longrightarrow> choice_B ps temp is (ch, lo)"
proof (induction "is" arbitrary: ch lo sk rule: rev_induct)
  case Nil
  then show ?case by (auto simp: choice_B_def)
next
  case (snoc i "is")
  obtain ch' lo' sk' where f: "fold (passB_acc ps temp) is (None, MAX_HEAT + 1, k) = (ch', lo', sk')"
    by (metis prod.exhaust)
  from choice_B_step[OF snoc.IH[OF f]] snoc.prems f show ?case by simp
qed

lemma passC_scan:
  assumes "sched_ok c s"
  shows "find_loop (passC_body c) [0..<NPROC] s
    = Inr (find (\<lambda>i. pstate (procs s i) = RUNNABLE) [0..<NPROC], s)"
proof -
  have body: "passC_body c i s' = Inr (if pstate (procs s' i) = RUNNABLE then (Some i, settle c s') else (None, settle c s'))"
    if "procs_free c s'" for i and s' :: "'a ptable_scheme"
    using that unfolding passC_body_def
    by (subst with_lock_ret_ok) (simp_all add: procs_free_def)
  have free: "procs_free c s" and st: "settle c s = s" using assms by (simp_all add: sched_ok_def settle_settled)
  show ?thesis
    by (subst scan_procs[OF free upt_NPROC, where P = "\<lambda>ps i. pstate (ps i) = RUNNABLE" and v = "\<lambda>i. i"
          and g = "\<lambda>i s. s"], rule body) (auto simp: st split: option.splits)
qed


text \<open>
  The policy.  Among the runnable processes that pass the gate, a child of a test program with
  the lowest pid; if there is none, a process with the lowest heat; if every runnable process
  is held back, the first runnable one; and nobody only if nothing is runnable.
\<close>

definition thermal_choice :: "(nat \<Rightarrow> proc) \<Rightarrow> int \<Rightarrow> nat option \<Rightarrow> bool" where
  "thermal_choice ps temp ch =
     (let runnable = {i. i < NPROC \<and> pstate (ps i) = RUNNABLE};
          passing = {i \<in> runnable. \<not> dominated temp (ps i)};
          tests = {i \<in> passing. test_child ps i}
      in if tests \<noteq> {} then \<exists>i \<in> tests. ch = Some i \<and> (\<forall>j \<in> tests. pid (ps i) \<le> pid (ps j))
         else if passing \<noteq> {} then \<exists>i \<in> passing. ch = Some i \<and> (\<forall>j \<in> passing. heat (ps i) \<le> heat (ps j))
         else if runnable \<noteq> {} then \<exists>i \<in> runnable. ch = Some i \<and> (\<forall>j \<in> runnable. i \<le> j)
         else ch = None)"

lemma find_first_Some: "find P [0..<n] = Some i \<Longrightarrow> i < n \<and> P i \<and> (\<forall>j < i. \<not> P j)"
  by (auto simp: find_Some_iff)

lemma find_first_None: "find P [0..<n] = None \<longleftrightarrow> (\<forall>i < n. \<not> P i)"
  by (auto simp: find_None_iff)

lemma choice_passA: "choice_A ps temp [0..<NPROC] (Some i) \<Longrightarrow> thermal_choice ps temp (Some i)"
  by (auto simp: choice_A_def thermal_choice_def ready_def Let_def)

lemma choice_passB:
  "choice_A ps temp [0..<NPROC] None \<Longrightarrow> choice_B ps temp [0..<NPROC] (Some i, lo) \<Longrightarrow>
    thermal_choice ps temp (Some i)"
  by (auto simp: choice_A_def choice_B_def thermal_choice_def ready_def Let_def)

lemma choice_passC:
  assumes "choice_A ps temp [0..<NPROC] None" and "choice_B ps temp [0..<NPROC] (None, lo)"
    and "\<forall>i < NPROC. heat (ps i) \<le> MAX_HEAT"
  shows "thermal_choice ps temp (find (\<lambda>i. pstate (ps i) = RUNNABLE) [0..<NPROC])"
proof -
  have none: "\<not> ready ps temp i" if "i < NPROC" for i
    using assms(2,3) that by (fastforce simp: choice_B_def)
  then show ?thesis
    by (cases "find (\<lambda>i. pstate (ps i) = RUNNABLE) [0..<NPROC]")
      (auto simp: thermal_choice_def ready_def Let_def find_first_None dest!: find_first_Some
        intro: leI)
qed

lemma snd_passA: "snd (passA_acc ps temp i a) = snd a + (if gated ps temp i then 1 else 0)"
  by (cases a) (simp add: passA_acc_def)

lemma fold_passA_skips: "snd (fold (passA_acc ps temp) is a) = snd a + int (length (filter (gated ps temp) is))"
  by (induction "is" arbitrary: a) (simp_all add: snd_passA)

lemma snd_passB: "snd (snd (passB_acc ps temp i a)) = snd (snd a) + (if gated ps temp i then 1 else 0)"
  by (cases a) (simp add: passB_acc_def)

lemma fold_passB_skips:
  "snd (snd (fold (passB_acc ps temp) is a)) = snd (snd a) + int (length (filter (gated ps temp) is))"
  by (induction "is" arbitrary: a) (simp_all add: snd_passB)

text \<open>The number of slots the gate holds back.\<close>

definition held_back :: "(nat \<Rightarrow> proc) \<Rightarrow> int \<Rightarrow> int" where
  "held_back ps temp = int (length (filter (gated ps temp) [0..<NPROC]))"

definition test_passes :: "(nat \<Rightarrow> proc) \<Rightarrow> int \<Rightarrow> bool" where
  "test_passes ps temp = list_ex (\<lambda>i. ready ps temp i \<and> test_child ps i) [0..<NPROC]"

lemma choice_A_None: "choice_A ps temp [0..<NPROC] ch \<Longrightarrow> ch = None \<longleftrightarrow> \<not> test_passes ps temp"
  by (auto simp: choice_A_def test_passes_def list_ex_iff split: option.splits)

lemma step_select_spec:
  assumes "sched_ok c s" and "\<forall>i < NPROC. heat (procs s i) \<le> MAX_HEAT"
  shows "\<exists>ch sk s'. step_select c s = Inr ((ch, sk), s') \<and> same_core s s' \<and>
    thermal_choice (procs s) (cpu_temp s) ch \<and>
    sk = (if test_passes (procs s) (cpu_temp s) then 1 else 2) * held_back (procs s) (cpu_temp s)"
proof -
  let ?ps = "procs s" and ?t = "cpu_temp s" and ?is = "[0..<NPROC]"
  obtain chA skA where A: "fold (passA_acc ?ps ?t) ?is (None, 0) = (chA, skA)" by force
  have cA: "choice_A ?ps ?t ?is chA" using fold_passA[of ?ps ?t ?is 0] A by simp
  have kA: "skA = held_back ?ps ?t" using fold_passA_skips[of ?ps ?t ?is "(None, 0)"] A by (simp add: held_back_def)
  note tp = choice_A_None[OF cA]
  obtain s1 where s1: "for_each (passA_body c) ?is ((None, 0), s) = Inr ((chA, skA), s1)" "same_core s s1"
    using select_fold[OF assms(1), of "passA_body c" "passA_acc ?ps ?t" ?is "(None, 0)"] passA_step A
    by (metis (no_types, lifting))
  show ?thesis
  proof (cases chA)
    case (Some i)
    then show ?thesis using s1 choice_passA cA kA tp by (simp add: step_select_def)
  next
    case None
    have ok1: "sched_ok c s1" using assms(1) s1(2) by (simp add: same_core_ok)
    have fr1: "procs s1 = ?ps" "cpu_temp s1 = ?t" using s1(2) by (simp_all add: same_core_frame)
    obtain chB lo skB where B: "fold (passB_acc ?ps ?t) ?is (None, MAX_HEAT + 1, skA) = (chB, lo, skB)"
      by (metis prod.exhaust)
    have cB: "choice_B ?ps ?t ?is (chB, lo)" using fold_passB B by blast
    have kB: "skB = 2 * held_back ?ps ?t"
      using fold_passB_skips[of ?ps ?t ?is "(None, MAX_HEAT + 1, skA)"] B kA by (simp add: held_back_def)
    obtain s2 where s2: "for_each (passB_body c) ?is ((None, MAX_HEAT + 1, skA), s1) = Inr ((chB, lo, skB), s2)"
      "same_core s1 s2"
      using select_fold[OF ok1, of "passB_body c" "passB_acc ?ps ?t" ?is "(None, MAX_HEAT + 1, skA)"]
        passB_step fr1 B by (metis (no_types, lifting))
    show ?thesis
    proof (cases chB)
      case (Some i)
      then show ?thesis
        using None s1 s2 choice_passB cA cB kB tp same_core_trans by (auto simp: step_select_def)
    next
      case N: None
      have ok2: "sched_ok c s2" using ok1 s2(2) by (simp add: same_core_ok)
      have fr2: "procs s2 = ?ps" using s2(2) fr1 by (simp add: same_core_frame)
      have "step_select c s = Inr ((find (\<lambda>i. pstate (?ps i) = RUNNABLE) ?is, skB), s2)"
        using None N s1 s2 passC_scan[OF ok2] fr2 by (simp add: step_select_def)
      then show ?thesis
        using choice_passC cA cB kB tp None N assms(2) same_core_trans[OF s1(2) s2(2)] by auto
    qed
  qed
qed


subsection \<open>The steps around the selection\<close>

definition sched_ready :: "nat \<Rightarrow> 'a ptable_scheme \<Rightarrow> bool" where
  "sched_ready c s = (procs_free c s \<and> lock_free PrLock s \<and> can_print c s)"

lemma sched_ready_ok: "sched_ready c s \<Longrightarrow> sched_ok c (settle c s)"
  by (simp add: sched_ready_def sched_ok_def lock_free_def frame_simps)

lemma end_of_run_ok:
  assumes "sched_ok c s"
  shows "\<exists>s'. end_of_run c s = Inr s' \<and> same_core s s'"
proof -
  let ?s = "s\<lparr>summary_printed := True\<rparr>"
  have sc: "same_core s ?s" by (simp add: same_core_def with_metrics_def)
  then have "sched_ok c ?s" using assms by (simp add: same_core_ok)
  then obtain out where "tm_print_summary c ?s = Inr (outputs out ?s)"
    unfolding tm_print_summary_def using printfs_ok[OF fmts_summary, of ?s c ?s] by (auto simp: sched_ok_def)
  then show ?thesis
    using sc same_core_trans[OF _ same_core_reset] same_core_trans[OF sc same_core_outputs]
    by (auto simp: end_of_run_def)
qed

lemma step_summary_spec:
  assumes "sched_ready c s"
  shows "\<exists>s' t. step_summary c s = Inr s' \<and> same_core t s' \<and> (t = s \<or> t = settle c s)"
proof (cases "tm_had_children s \<and> \<not> summary_printed s")
  case True
  have body: "active_body c i s' = Inr (if pstate (procs s' i) \<noteq> UNUSED \<and> pstate (procs s' i) \<noteq> ZOMBIE \<and> test_child (procs s') i
      then (Some (), settle c s') else (None, settle c s'))" if "procs_free c s'" for i and s' :: "'a ptable_scheme"
    using that unfolding active_body_def by (subst with_lock_ret_ok) (simp_all add: procs_free_def)
  have free: "procs_free c s" using assms by (simp add: sched_ready_def)
  have "\<exists>r. find_loop (active_body c) [0..<NPROC] s = Inr (r, settle c s)"
    by (subst scan_procs[OF free upt_NPROC, where v = "\<lambda>_. ()" and g = "\<lambda>i s. s" and
          P = "\<lambda>ps i. pstate (ps i) \<noteq> UNUSED \<and> pstate (ps i) \<noteq> ZOMBIE \<and> test_child ps i"], rule body)
      (auto split: option.splits)
  then obtain r where r: "find_loop (active_body c) [0..<NPROC] s = Inr (r, settle c s)" by blast
  show ?thesis
    using True r end_of_run_ok[OF sched_ready_ok[OF assms]] by (cases r) (auto simp: step_summary_def intro: exI[of _ "settle c s"])
next
  case False
  then show ?thesis by (auto simp: step_summary_def intro: exI[of _ s])
qed

lemma step_decay_spec: "procs_free c s \<Longrightarrow> step_decay c s = Inr (map_procs (\<lambda>_. decay_one) (settle c s))"
  unfolding step_decay_def decay_body_def by (rule sweep_procs) (simp_all add: with_lock_proc)

lemma step_waiting_spec: "sched_ok c s \<Longrightarrow> step_waiting c ch s = Inr (map_procs (wait_one ch) s)"
  unfolding step_waiting_def wait_body_def
  by (subst sweep_procs[where c = c and h = "wait_one ch"]) (simp_all add: with_lock_proc sched_ok_def settle_settled)

lemma cooling_fmt: "fmt_ok cooling_line [KInt, KInt]"
  by code_simp

lemma step_throttle_spec:
  assumes "sched_ok c s"
  shows "\<exists>s'. step_throttle c s = Inr (update_cpu_temp 0 s') \<and> same_core s s'"
proof -
  let ?s = "s\<lparr>tm_cooling_cycles := i32 (tm_cooling_cycles s + 1)\<rparr>"
  have sc: "same_core s ?s" by (simp add: same_core_def with_metrics_def)
  then have "sched_ok c ?s" using assms by (simp add: same_core_ok)
  then have "printf c cooling_line [VaInt (cpu_temp ?s), VaInt THROTTLE_TEMP] ?s
     = Inr (outputs (the (render cooling_line [VaInt (cpu_temp ?s), VaInt THROTTLE_TEMP])) ?s)"
    using cooling_fmt by (subst printf_text) (simp_all add: sched_ok_def settle_settled)
  then show ?thesis using sc same_core_trans[OF sc same_core_outputs] by (auto simp: step_throttle_def Let_def)
qed


lemma thermal_log_fmts: "fmts_ok (thermal_log temp p k)"
proof -
  have "fmt_ok ''  [THERMAL] Temp: %d [%s] | PID: %d | Heat: %d | %s'' [KInt, KStr, KInt, KInt, KStr]"
    "fmt_ok '' | %d skipped'' [KInt]" by code_simp+
  then show ?thesis by (simp add: thermal_log_def fmt_nl)
qed

lemma run_chosen_effect:
  "procs (run_chosen c i s) = (procs s)(i := heat_up ((procs s i)\<lparr>pstate := RUNNING\<rparr>))"
  "cpu_temp (run_chosen c i s) = next_temp (heat (heat_up (procs s i))) (cpu_temp s)"
  "locks (run_chosen c i s) = locks s"
  "cpus (run_chosen c i s) = (cpus s)(c := (cpus s c)\<lparr>cproc := Some i\<rparr>)"
  by (simp_all add: run_chosen_def Let_def update_cpu_temp_def upd_cpu_def heat_up_def)

lemma step_dispatch_spec:
  assumes "sched_ok c s" and "pstate (procs s i) = RUNNABLE"
  shows "\<exists>s'. step_dispatch c (Some i) k s = Inr (SwitchTo i, run_chosen c i s')
     \<and> same_core (inside c (ProcLock i) s) s'"
proof -
  let ?t = "inside c (ProcLock i) s"
  have "cpu_sane c s" using assms(1) by (simp add: sched_ok_def procs_free_def)
  then have "settled c ?t" "cpu_sane c ?t" by (auto simp: settled_def cpu_sane_def inside_eq)
  moreover have "lock_free PrLock ?t" using assms(1) by (simp add: sched_ok_def inside_lock_free)
  moreover have "can_print c ?t" using assms(1) calculation by (simp add: sched_ok_def can_print_def inside_eq)
  ultimately obtain out where
    "printfs c (thermal_log (cpu_temp s) (procs s i) k) ?t = Inr (outputs out ?t)"
    using printfs_ok[OF thermal_log_fmts] by metis
  then show ?thesis
    using assms(2) by (auto simp: step_dispatch_def sched_ok_acquire[OF assms(1)])
qed

lemma same_core_settle:
  assumes "same_core s s'"
  shows "same_core (settle c s) (settle c s')"
proof -
  have "lockless (with_metrics s')" by (simp add: lockless_def with_metrics_def)
  then have "settle c (with_metrics s' s) = with_metrics s' (settle c s)" by (rule lockless_settle[symmetric])
  moreover have "with_metrics s' = with_metrics (settle c s')"
    by (simp add: with_metrics_def fun_eq_iff settle_def upd_cpu_def)
  ultimately show ?thesis using assms by (simp add: same_core_def)
qed

text \<open>The state in which the passes of a round run.\<close>

definition round_start :: "nat \<Rightarrow> 'a ptable_scheme \<Rightarrow> 'a ptable_scheme" where
  "round_start c s = (let s = intr_off c (intr_on c s) in s\<lparr>sched_round := i32 (sched_round s + 1)\<rparr>)"

lemma round_start_frame [simp]:
  "procs (round_start c s) = procs s" "cpu_temp (round_start c s) = cpu_temp s"
  "locks (round_start c s) = locks s" "cproc (cpus (round_start c s) d) = cproc (cpus s d)"
  "noff (cpus (round_start c s) d) = noff (cpus s d)"
  by (simp_all add: round_start_def Let_def machine_defs)

lemma round_start_ready: "sched_ready c s \<Longrightarrow> sched_ready c (round_start c s)"
  by (simp add: sched_ready_def procs_free_def lock_free_def can_print_def cpu_sane_def round_start_def
      Let_def machine_defs)

lemma round_decayed:
  assumes "sched_ready c s"
  shows "\<exists>s1 u. scheduler_round c s = (if cpu_temp s \<ge> THROTTLE_TEMP
        then bindE (step_throttle c s1) (\<lambda>s. Inr (Throttled, s))
        else bindE (step_select c s1) (\<lambda>((chosen, skipped), s).
             bindE (step_waiting c chosen s) (\<lambda>s. step_dispatch c chosen skipped s)))
     \<and> sched_ok c s1 \<and> s1 = map_procs (\<lambda>_. decay_one) u \<and> same_core (settle c (round_start c s)) u"
proof -
  let ?r = "round_start c s"
  have ready: "sched_ready c ?r" using assms by (rule round_start_ready)
  obtain s0 t where s0: "step_summary c ?r = Inr s0" "same_core t s0" "t = ?r \<or> t = settle c ?r"
    using step_summary_spec[OF ready] by blast
  let ?u = "settle c s0"
  have u: "same_core (settle c ?r) ?u"
    using s0(2,3) same_core_settle[OF s0(2), of c] by auto
  have ok: "sched_ok c ?u" using u sched_ready_ok[OF ready] by (simp add: same_core_ok)
  let ?s1 = "map_procs (\<lambda>_. decay_one) ?u"
  have "procs_free c s0" using ok by (simp add: sched_ok_def)
  then have d: "step_decay c s0 = Inr ?s1" by (rule step_decay_spec)
  have "sched_ok c ?s1" using ok by (simp add: sched_ok_def lock_free_def can_print_def cpu_sane_def settled_def map_procs_def procs_free_def)
  moreover have "cpu_temp ?s1 = cpu_temp s" using same_core_frame(2)[OF u] by simp
  ultimately show ?thesis
    using s0(1) d u
    by (intro exI[of _ ?s1] exI[of _ ?u]) (simp add: scheduler_round_def round_start_def Let_def)
qed


text \<open>The whole round, on a CPU that is below the throttle threshold.\<close>

lemma decay_one_simps [simp]: "pstate (decay_one p) = pstate p" "pid (decay_one p) = pid p"
  "parent (decay_one p) = parent p" "pname (decay_one p) = pname p" "waiting_tick (decay_one p) = waiting_tick p"
  by (simp_all add: decay_one_def Let_def)

lemma decay_one_heat: "heat (decay_one p) = (if pstate p = RUNNABLE \<or> pstate p = SLEEPING
    then (if heat p > 0 then max 0 (heat p - HEAT_DECAY) else heat p) else heat p)"
  by (simp add: decay_one_def Let_def)

lemma thermal_choice_runnable: "thermal_choice ps temp (Some i) \<Longrightarrow> i < NPROC \<and> pstate (ps i) = RUNNABLE"
  by (auto simp: thermal_choice_def Let_def split: if_splits)

definition decayed :: "(nat \<Rightarrow> proc) \<Rightarrow> nat \<Rightarrow> proc" where
  "decayed ps i = (if i < NPROC then decay_one (ps i) else ps i)"

definition waited :: "nat option \<Rightarrow> (nat \<Rightarrow> proc) \<Rightarrow> nat \<Rightarrow> proc" where
  "waited ch ps i = (if i < NPROC then wait_one ch i (ps i) else ps i)"

lemma sched_ok_ready: "sched_ok c s \<Longrightarrow> sched_ready c s"
  by (simp add: sched_ok_def sched_ready_def)

lemma sched_ready_temp [simp]: "sched_ready c (update_cpu_temp h s) = sched_ready c s"
  by (simp add: sched_ready_def update_cpu_temp_def procs_free_def lock_free_def can_print_def cpu_sane_def)

lemma update_cpu_temp_frame [simp]: "procs (update_cpu_temp h s) = procs s"
  "cpu_temp (update_cpu_temp h s) = next_temp h (cpu_temp s)"
  by (simp_all add: update_cpu_temp_def)

lemma round_core:
  assumes "same_core (settle c (round_start c s)) u"
  shows "procs (map_procs (\<lambda>_. decay_one) u) = decayed (procs s)"
    and "cpu_temp (map_procs (\<lambda>_. decay_one) u) = cpu_temp s"
  using same_core_frame(1,2)[OF assms] by (simp_all add: map_procs_def decayed_def fun_eq_iff)

lemma round_throttled:
  assumes "sched_ready c s" and "cpu_temp s \<ge> THROTTLE_TEMP"
  shows "\<exists>s'. scheduler_round c s = Inr (Throttled, s') \<and> procs s' = decayed (procs s) \<and>
    cpu_temp s' = next_temp 0 (cpu_temp s) \<and> sched_ready c s'"
proof -
  obtain s1 u where r: "scheduler_round c s = bindE (step_throttle c s1) (\<lambda>s. Inr (Throttled, s))"
    and ok: "sched_ok c s1" and s1: "s1 = map_procs (\<lambda>_. decay_one) u" and u: "same_core (settle c (round_start c s)) u"
    using round_decayed[OF assms(1)] assms(2) by auto
  obtain s2 where s2: "step_throttle c s1 = Inr (update_cpu_temp 0 s2)" "same_core s1 s2"
    using step_throttle_spec[OF ok] by blast
  have "sched_ok c s2" using ok s2(2) by (simp add: same_core_ok)
  then show ?thesis
    using r s2 s1 round_core[OF u] by (simp add: same_core_frame sched_ok_ready)
qed

lemma choice_None: "thermal_choice ps temp None \<Longrightarrow> i < NPROC \<Longrightarrow> pstate (ps i) \<noteq> RUNNABLE"
  by (auto simp: thermal_choice_def Let_def split: if_splits)

lemma map_procs_ok: "sched_ok c (map_procs h s) = sched_ok c s"
  by (simp add: sched_ok_def lock_free_def can_print_def cpu_sane_def settled_def map_procs_def procs_free_def)

definition round_result :: "nat \<Rightarrow> (nat \<Rightarrow> proc) \<Rightarrow> int \<Rightarrow> nat option \<Rightarrow> sched_result \<Rightarrow> 'a ptable_scheme \<Rightarrow> bool" where
  "round_result c ps temp ch r s' =
     (case ch of
        None \<Rightarrow> r = Idled \<and> sched_ready c s' \<and> procs s' = ps \<and> cpu_temp s' = next_temp 0 temp
      | Some i \<Rightarrow> r = SwitchTo i \<and> holding c (ProcLock i) s' \<and> cproc (cpus s' c) = Some i \<and>
          procs s' = (waited ch ps)(i := heat_up ((ps i)\<lparr>pstate := RUNNING\<rparr>)) \<and>
          cpu_temp s' = next_temp (heat (procs s' i)) temp)"

lemma round_selects:
  assumes "sched_ready c s" and "cpu_temp s < THROTTLE_TEMP" and "\<forall>i < NPROC. heat (procs s i) \<le> MAX_HEAT"
  shows "\<exists>ch r s'. thermal_choice (decayed (procs s)) (cpu_temp s) ch \<and>
    scheduler_round c s = Inr (r, s') \<and> round_result c (decayed (procs s)) (cpu_temp s) ch r s'"
proof -
  obtain s1 u where r: "scheduler_round c s = bindE (step_select c s1) (\<lambda>((chosen, skipped), s).
             bindE (step_waiting c chosen s) (\<lambda>s. step_dispatch c chosen skipped s))"
    and ok: "sched_ok c s1" and s1: "s1 = map_procs (\<lambda>_. decay_one) u" and u: "same_core (settle c (round_start c s)) u"
    using round_decayed[OF assms(1)] assms(2) by auto
  have core: "procs s1 = decayed (procs s)" "cpu_temp s1 = cpu_temp s" using s1 round_core[OF u] by simp_all
  have "\<forall>i < NPROC. heat (procs s1 i) \<le> MAX_HEAT"
    using assms(3) unfolding core by (auto simp: decayed_def decay_one_heat HEAT_DECAY_def MAX_HEAT_def)
  then obtain ch sk s2 where s2: "step_select c s1 = Inr ((ch, sk), s2)" "same_core s1 s2"
    and choice: "thermal_choice (decayed (procs s)) (cpu_temp s) ch"
    using step_select_spec[OF ok] core by auto
  have ok2: "sched_ok c s2" using ok s2(2) by (simp add: same_core_ok)
  let ?s3 = "map_procs (wait_one ch) s2"
  have ok3: "sched_ok c ?s3" using ok2 by (simp add: map_procs_ok)
  have p3: "procs ?s3 = waited ch (decayed (procs s))" "cpu_temp ?s3 = cpu_temp s"
    using same_core_frame(1,2)[OF s2(2)] core by (simp_all add: map_procs_def waited_def fun_eq_iff)
  have r3: "scheduler_round c s = step_dispatch c ch sk ?s3"
    using r s2(1) step_waiting_spec[OF ok2] by simp
  show ?thesis
  proof (cases ch)
    case None
    have "waited None (decayed (procs s)) = decayed (procs s)"
      using choice_None[OF choice[unfolded None]] by (auto simp: waited_def wait_one_def fun_eq_iff)
    then show ?thesis
      using None choice r3 ok3 p3
      by (intro exI[of _ ch]) (simp add: step_dispatch_def round_result_def sched_ok_ready)
  next
    case (Some i)
    have st: "i < NPROC" "pstate (decayed (procs s) i) = RUNNABLE"
      using thermal_choice_runnable choice Some by auto
    have pi: "procs ?s3 i = decayed (procs s) i"
      using p3 Some by (simp add: waited_def wait_one_def)
    obtain s4 where s4: "step_dispatch c (Some i) sk ?s3 = Inr (SwitchTo i, run_chosen c i s4)"
      "same_core (inside c (ProcLock i) ?s3) s4"
      using step_dispatch_spec[OF ok3, of i sk] st pi by auto
    have "holding c (ProcLock i) (run_chosen c i s4)"
      using same_core_frame(4)[OF s4(2)] by (simp add: holding_def run_chosen_effect inside_eq)
    moreover have "procs s4 = procs ?s3" "cpu_temp s4 = cpu_temp ?s3" using same_core_frame(1,2)[OF s4(2)] by simp_all
    ultimately show ?thesis
      using Some choice r3 s4(1) p3 pi
      by (intro exI[of _ ch] exI[of _ "SwitchTo i"] exI[of _ "run_chosen c i s4"])
        (simp add: round_result_def run_chosen_effect heat_up_def Let_def)
  qed
qed


subsection \<open>Temperature\<close>

lemma next_temp_range: "20 \<le> next_temp h t \<and> next_temp h t \<le> 100"
  by (simp add: next_temp_def Let_def)

lemma next_temp_cools: "20 \<le> t \<Longrightarrow> t \<le> 100 \<Longrightarrow> next_temp 0 t = max 20 (t - (if 50 < t then 2 else 1))"
  by (simp add: next_temp_def Let_def)

fun run_rounds :: "nat \<Rightarrow> nat \<Rightarrow> 'a ptable_scheme \<Rightarrow> (sched_result list \<times> 'a ptable_scheme) res" where
  "run_rounds c 0 s = Inr ([], s)"
| "run_rounds c (Suc n) s = bindE (scheduler_round c s) (\<lambda>(r, s).
     bindE (run_rounds c n s) (\<lambda>(rs, s). Inr (r # rs, s)))"

lemma throttled_rounds:
  assumes "sched_ready c s" and "cpu_temp s \<le> 100" and "THROTTLE_TEMP + 2 * int n \<le> cpu_temp s + 2"
  shows "\<exists>s'. run_rounds c n s = Inr (replicate n Throttled, s') \<and> sched_ready c s' \<and>
    cpu_temp s' = cpu_temp s - 2 * int n"
  using assms
proof (induction n arbitrary: s)
  case (Suc n)
  have hot: "cpu_temp s \<ge> THROTTLE_TEMP" using Suc.prems(3) by simp
  obtain s1 where s1: "scheduler_round c s = Inr (Throttled, s1)" "sched_ready c s1"
    "cpu_temp s1 = next_temp 0 (cpu_temp s)"
    using round_throttled[OF Suc.prems(1) hot] by blast
  have t1: "cpu_temp s1 = cpu_temp s - 2"
    using s1(3) hot Suc.prems(2) by (simp add: next_temp_cools THROTTLE_TEMP_def)
  then obtain s2 where "run_rounds c n s1 = Inr (replicate n Throttled, s2)" "sched_ready c s2"
    "cpu_temp s2 = cpu_temp s1 - 2 * int n"
    using Suc.IH[OF s1(2)] Suc.prems(2,3) by auto
  then show ?case using s1(1) t1 by auto
qed simp

subsection \<open>Properties of a round\<close>

text \<open>
  C1. A scheduler round follows the thermal policy.  On a CPU below the throttle threshold,
  with no lock held, the round neither panics nor hangs; it first cools every runnable and
  sleeping process, then chooses by \<open>thermal_choice\<close> -- lowest pid among test children that
  pass the gate, else lowest heat among the processes that pass it, else the first runnable
  process, else nobody -- and either idles, which cools the CPU, or switches to the chosen
  process with its lock held: the process is \<open>RUNNING\<close>, its heat is raised and its waiting
  counter is zero, every other runnable process has waited one round more, and the CPU is
  heated by the heat of the chosen process.
\<close>

theorem scheduler_round_policy:
  assumes "sched_ready c s" and "cpu_temp s < THROTTLE_TEMP"
    and "\<forall>i < NPROC. heat (procs s i) \<le> MAX_HEAT"
  shows "\<exists>ch r s'. thermal_choice (decayed (procs s)) (cpu_temp s) ch \<and>
    scheduler_round c s = Inr (r, s') \<and> round_result c (decayed (procs s)) (cpu_temp s) ch r s'"
  by (rule round_selects[OF assms])

text \<open>A machine with two runnable processes, the hotter one in the lower slot.\<close>

definition demo_state :: "int \<Rightarrow> ptable" where
  "demo_state temp =
     \<lparr>cpus = (\<lambda>_. \<lparr>cproc = None, noff = 0, intena = False, sie = True\<rparr>),
      locks = (\<lambda>_. \<lparr>locked = False, lname = [], lcpu = None\<rparr>),
      uart_out = [], panicking = False, panicked = False,
      cpu_temp = temp, tm = (\<lambda>_. tm_cleared), tm_temp_sum = 0, tm_temp_count = 0, tm_temp_min = 100,
      tm_temp_max = 0, tm_cooling_cycles = 0, tm_had_children = False, sched_round = 0, summary_printed = False,
      procs = (\<lambda>_. demo_proc)(0 := demo_proc\<lparr>pstate := RUNNABLE, pid := 1, heat := 70\<rparr>,
                              1 := demo_proc\<lparr>pstate := RUNNABLE, pid := 2, heat := 10\<rparr>),
      initproc = Some 0, nextpid = 3\<rparr>"

lemma demo_ready: "sched_ready 0 (demo_state temp)"
  by (simp add: sched_ready_def procs_free_def lock_free_def can_print_def cpu_sane_def demo_state_def)

lemma demo_heat: "heat (procs (demo_state temp) i) \<le> MAX_HEAT"
  by (simp add: demo_state_def demo_proc_def MAX_HEAT_def)

theorem scheduler_round_policy_witness:
  "\<exists>ch r s'. thermal_choice (decayed (procs (demo_state 65))) 65 ch \<and>
    scheduler_round 0 (demo_state 65) = Inr (r, s') \<and> round_result 0 (decayed (procs (demo_state 65))) 65 ch r s'"
  using scheduler_round_policy[OF demo_ready[of 65]] demo_heat[of 65]
  by (simp add: demo_state_def THROTTLE_TEMP_def)

text \<open>
  C10. Throttling ends.  From any temperature the model can reach at or above the throttle
  threshold, at most six consecutive idle rounds -- all of them \<open>Throttled\<close> -- bring the CPU
  below the threshold again, with the scheduler ready to choose a process.
\<close>

theorem throttle_ends:
  assumes "sched_ready c s" and "THROTTLE_TEMP \<le> cpu_temp s" and "cpu_temp s \<le> 100"
  shows "\<exists>n \<le> 6. \<exists>s'. run_rounds c n s = Inr (replicate n Throttled, s') \<and>
    cpu_temp s' < THROTTLE_TEMP \<and> sched_ready c s'"
proof -
  define n where "n = nat ((cpu_temp s - THROTTLE_TEMP) div 2 + 1)"
  have n: "n \<le> 6" "THROTTLE_TEMP + 2 * int n \<le> cpu_temp s + 2" "cpu_temp s - 2 * int n < THROTTLE_TEMP"
    using assms(2,3) by (simp_all add: n_def THROTTLE_TEMP_def)
  from throttled_rounds[OF assms(1,3) n(2)] n(1,3) show ?thesis by auto
qed

theorem throttle_ends_witness:
  "\<exists>n \<le> 6. \<exists>s'. run_rounds 0 n (demo_state 100) = Inr (replicate n Throttled, s') \<and>
    cpu_temp s' < THROTTLE_TEMP \<and> sched_ready 0 s'"
  by (rule throttle_ends[OF demo_ready]) (simp_all add: demo_state_def THROTTLE_TEMP_def)

text \<open>
  C26. The count of skipped processes is doubled.  When no test child passes the gate, the
  selection looks at every process twice, and the number it reports as skipped this round is
  twice the number of processes the gate held back.
\<close>

theorem skips_counted_twice:
  assumes "sched_ok c s" and "\<forall>i < NPROC. heat (procs s i) \<le> MAX_HEAT"
    and "\<not> test_passes (procs s) (cpu_temp s)"
  shows "\<exists>ch s'. step_select c s = Inr ((ch, 2 * held_back (procs s) (cpu_temp s)), s')"
  using step_select_spec[OF assms(1,2)] assms(3) by auto

theorem skips_counted_twice_witness:
  "\<exists>ch s'. step_select 0 (settle 0 (demo_state 65)) = Inr ((ch, 2 * 1), s')"
proof -
  have h: "held_back (procs (settle 0 (demo_state 65))) 65 = 1"
    and t: "\<not> test_passes (procs (settle 0 (demo_state 65))) 65"
    unfolding settle_ptable demo_state_def ptable.select_convs by code_simp+
  have "cpu_temp (settle 0 (demo_state 65)) = 65" by (simp add: demo_state_def)
  with skips_counted_twice[OF sched_ready_ok[OF demo_ready[of 65]]] demo_heat[of 65] h t
  show ?thesis by simp
qed

end
