(* ===== verification/TempRace.thy ===== *)
theory TempRace
  imports Thermal
begin

text \<open>
  \<open>update_cpu_temp\<close> of \<^verbatim>\<open>kernel/proc.c\<close> on several CPUs at once.

  The variable \<open>cpu_temp\<close> has no lock, and every CPU calls \<open>update_cpu_temp\<close>, from the scheduler and on every
  timer interrupt.  Here the loads and stores of the calls interleave one at a time.  A CPU is outside
  the function, about to load the value that it changes, about to store the sum, in one of the two tests of the
  clamping, or about to store a bound.  A test may load the variable again or use the value that the CPU stored
  itself, and the sum and the bound may be stored at once: the compiler is free to do either.
\<close>

datatype temp_pc = TOut | TAdd int | TPut int | TCheck int | TLow int | TClamp int

record tmach =
  tcell :: int
  tpc :: "nat \<Rightarrow> temp_pc"

definition clamp_temp :: "int \<Rightarrow> int" where
  "clamp_temp t = (if 100 < t then 100 else if t < 20 then 20 else t)"

definition tgoto :: "nat \<Rightarrow> temp_pc \<Rightarrow> tmach \<Rightarrow> tmach" where
  "tgoto c p m = m\<lparr>tpc := (tpc m)(c := p)\<rparr>"

inductive temp_step :: "tmach \<Rightarrow> tmach \<Rightarrow> bool" where
  heats: "tpc m c = TOut \<Longrightarrow> 0 < h \<Longrightarrow> temp_step m (tgoto c (TAdd (1 + h sdiv 30)) m)"
| cools: "tpc m c = TOut \<Longrightarrow> temp_step m (tgoto c (TAdd (if 50 < tcell m then - 2 else - 1)) m)"
| loads: "tpc m c = TAdd d \<Longrightarrow> temp_step m (tgoto c (TPut (i32 (tcell m + d))) m)"
| puts: "tpc m c = TPut v \<Longrightarrow> temp_step m (tgoto c (TCheck v) (m\<lparr>tcell := v\<rparr>))"
| puts_clamped: "tpc m c = TPut v \<Longrightarrow> temp_step m (tgoto c TOut (m\<lparr>tcell := clamp_temp v\<rparr>))"
| checks_high: "tpc m c = TCheck v \<Longrightarrow> x = v \<or> x = tcell m \<Longrightarrow>
     temp_step m (tgoto c (if 100 < x then TClamp 100 else TLow v) m)"
| checks_low: "tpc m c = TLow v \<Longrightarrow> x = v \<or> x = tcell m \<Longrightarrow>
     temp_step m (tgoto c (if x < 20 then TClamp 20 else TOut) m)"
| clamps: "tpc m c = TClamp x \<Longrightarrow> temp_step m (tgoto c TOut (m\<lparr>tcell := x\<rparr>))"

definition temp_init :: "tmach \<Rightarrow> bool" where
  "temp_init m = (tcell m = 25 \<and> (\<forall>c. tpc m c = TOut))"

text \<open>A value out of range is on its way out: the CPU that stored it last has not done its tests.\<close>

definition temp_inv :: "tmach \<Rightarrow> bool" where
  "temp_inv m = ((\<forall>c x. tpc m c = TClamp x \<longrightarrow> x = 20 \<or> x = 100) \<and>
     (100 < tcell m \<longrightarrow> (\<exists>c. tpc m c = TCheck (tcell m) \<or> tpc m c = TClamp 100)) \<and>
     (tcell m < 20 \<longrightarrow> (\<exists>c. tpc m c = TCheck (tcell m) \<or> tpc m c = TLow (tcell m) \<or> tpc m c = TClamp 20)))"

text \<open>A CPU that is none of these may go anywhere but to a wrong bound.\<close>

lemma temp_inv_goto:
  assumes "temp_inv m" "\<And>x. p = TClamp x \<Longrightarrow> x = 20 \<or> x = 100"
    and "100 < tcell m \<Longrightarrow> tpc m c = TCheck (tcell m) \<or> tpc m c = TClamp 100 \<Longrightarrow> p = TCheck (tcell m) \<or> p = TClamp 100"
    and "tcell m < 20 \<Longrightarrow> tpc m c = TCheck (tcell m) \<or> tpc m c = TLow (tcell m) \<or> tpc m c = TClamp 20 \<Longrightarrow>
      p = TCheck (tcell m) \<or> p = TLow (tcell m) \<or> p = TClamp 20"
  shows "temp_inv (tgoto c p m)"
  using assms unfolding temp_inv_def tgoto_def by (simp, metis)

lemma temp_inv_store:
  assumes "temp_inv m" "p = TCheck x \<or> p = TOut \<and> 20 \<le> x \<and> x \<le> 100"
  shows "temp_inv (tgoto c p (m\<lparr>tcell := x\<rparr>))"
  using assms unfolding temp_inv_def tgoto_def by auto

lemma temp_inv_step: "temp_step m m' \<Longrightarrow> temp_inv m \<Longrightarrow> temp_inv m'"
proof (induction rule: temp_step.induct)
  case (checks_high m c v x)
  then show ?case by (intro temp_inv_goto) (auto split: if_splits)
next
  case (checks_low m c v x)
  then show ?case by (intro temp_inv_goto) (auto split: if_splits)
next
  case (clamps m c x)
  then have "x = 20 \<or> x = 100" by (simp add: temp_inv_def)
  then show ?case using clamps by (intro temp_inv_store) auto
qed (auto intro!: temp_inv_goto temp_inv_store simp: clamp_temp_def)

interpretation temps: invariant temp_init temp_step temp_inv
proof unfold_locales
  show "temp_init m \<Longrightarrow> temp_inv m" for m by (simp add: temp_init_def temp_inv_def)
  show "temp_step m m' \<Longrightarrow> temp_inv m \<Longrightarrow> temp_inv m'" for m m' by (rule temp_inv_step)
qed

lemma temp_settled: "temp_inv m \<Longrightarrow> \<forall>c. tpc m c = TOut \<Longrightarrow> 20 \<le> tcell m \<and> tcell m \<le> 100"
  unfolding temp_inv_def by (metis not_le temp_pc.distinct(5) temp_pc.distinct(7) temp_pc.distinct(9))

text \<open>A CPU that is not disturbed does what \<open>update_cpu_temp\<close> says.\<close>

lemma temp_alone:
  assumes "tpc m c = TOut" "0 \<le> h" "h \<le> MAX_HEAT" "20 \<le> tcell m" "tcell m \<le> 100"
  shows "temp_step\<^sup>*\<^sup>* m (m\<lparr>tcell := next_temp h (tcell m)\<rparr>)"
proof -
  define d where "d = (if 0 < h then 1 + h sdiv 30 else if 50 < tcell m then - 2 else - 1)"
  let ?m1 = "tgoto c (TAdd d) m"
  let ?m2 = "tgoto c (TPut (tcell m + d)) ?m1"
  have d: "- 2 \<le> d" "d \<le> 4" using assms(2,3) by (auto simp: d_def MAX_HEAT_def signed_divide_int_def sgn_if)
  then have i: "i32 (tcell m + d) = tcell m + d" using assms(4,5) by (intro i32_id) auto
  have "temp_step m ?m1"
    using heats[OF assms(1), of h] cools[OF assms(1)] by (simp add: d_def)
  moreover have "temp_step ?m1 ?m2" using loads[of ?m1 c d] i by (simp add: tgoto_def)
  moreover have "temp_step ?m2 (tgoto c TOut (?m2\<lparr>tcell := clamp_temp (tcell m + d)\<rparr>))"
    by (rule puts_clamped) (simp add: tgoto_def)
  moreover have "tgoto c TOut (?m2\<lparr>tcell := clamp_temp (tcell m + d)\<rparr>) = m\<lparr>tcell := next_temp h (tcell m)\<rparr>"
    using assms(1) by (simp add: tgoto_def next_temp_def d_def clamp_temp_def Let_def fun_upd_idem)
  ultimately show ?thesis by (metis converse_rtranclp_into_rtranclp rtranclp.rtrancl_refl)
qed

end
