(* ===== verification/SchedSystem.thy ===== *)
theory SchedSystem
  imports Scheduler TempRace
begin

text \<open>
  All CPUs at once: the scheduler loops of \<^verbatim>\<open>kernel/proc.c\<close> and the processes they run,
  interleaved at the grain of critical sections.

  A step is one iteration of one of the scheduler's table loops, or one critical section of a
  running process: of \<open>yield\<close>, \<open>sleep\<close>, \<open>kexit\<close>, \<open>kfork\<close>, \<open>kwait\<close>, \<open>kkill\<close>, \<open>setkilled\<close> or
  \<open>wakeup\<close>.  The bodies are those of \<open>Scheduler\<close> and \<open>ProcTable\<close>; an operation that would spin or
  panic offers no step.  \<open>phase\<close> says where a CPU is: in a loop of the scheduler, just switched to a
  process, running it, holding the lock of a child that it makes, or back in the scheduler right after the
  process left through \<open>sched\<close>.  A process that is not running remembers where it left
  (\<open>resume_point\<close>).  Once \<open>kfork\<close> has released the lock of the child, the parent may be preempted and go on
  on another CPU; what is left of its \<open>kfork\<close> is in \<open>fk\<close>: the child, and whether its parent is set.

  Critical sections executed by interrupt handlers and by code outside this file are covered
  by letting any CPU at any time wake, kill or reparent any process under its locks.  The timer interrupt
  calls \<open>update_cpu_temp\<close>.  The temperature has no lock: whatever values the loads and stores of several
  CPUs leave in it (\<open>TempRace\<close>) are covered by letting it take any value at any time, so that nothing
  shown here rests on it.
\<close>

datatype phase =
    STop | SActive nat | SDecay nat | SThrottle
  | SPassA nat "nat option" int | SPassB nat "nat option" int int | SPassC nat int
  | SWait nat "nat option" int | SDispatch "nat option" int
  | Switched nat | Run nat | Left nat
  | Forking nat nat

text \<open>The scheduler's control flow, one loop iteration at a time.\<close>

fun sched_step :: "nat \<Rightarrow> phase \<Rightarrow> 'a ptable_scheme \<Rightarrow> (phase \<times> 'a ptable_scheme) res" where
  "sched_step c STop s =
     (let s = round_start c s
      in Inr (if tm_had_children s \<and> \<not> summary_printed s then SActive 0 else SDecay 0, s))"
| "sched_step c (SActive i) s =
     (if i < NPROC
      then bindE (active_body c i s) (\<lambda>(r, s). Inr (if r = None then SActive (i + 1) else SDecay 0, s))
      else bindE (end_of_run c s) (\<lambda>s. Inr (SDecay 0, s)))"
| "sched_step c (SDecay i) s =
     (if i < NPROC then bindE (decay_body c i s) (\<lambda>s. Inr (SDecay (i + 1), s))
      else Inr (if cpu_temp s \<ge> THROTTLE_TEMP then SThrottle else SPassA 0 None 0, s))"
| "sched_step c SThrottle s = bindE (step_throttle c s) (\<lambda>s. Inr (STop, s))"
| "sched_step c (SPassA i ch sk) s =
     (if i < NPROC
      then bindE (passA_body c i ((ch, sk), s)) (\<lambda>((ch, sk), s). Inr (SPassA (i + 1) ch sk, s))
      else Inr (if ch = None then SPassB 0 None (MAX_HEAT + 1) sk else SWait 0 ch sk, s))"
| "sched_step c (SPassB i ch lo sk) s =
     (if i < NPROC
      then bindE (passB_body c i ((ch, lo, sk), s)) (\<lambda>((ch, lo, sk), s). Inr (SPassB (i + 1) ch lo sk, s))
      else Inr (if ch = None then SPassC 0 sk else SWait 0 ch sk, s))"
| "sched_step c (SPassC i sk) s =
     (if i < NPROC
      then bindE (passC_body c i s) (\<lambda>(r, s).
             Inr (case r of None \<Rightarrow> SPassC (i + 1) sk | Some j \<Rightarrow> SWait 0 (Some j) sk, s))
      else Inr (SWait 0 None sk, s))"
| "sched_step c (SWait i ch sk) s =
     (if i < NPROC then bindE (wait_body c ch i s) (\<lambda>s. Inr (SWait (i + 1) ch sk, s))
      else Inr (SDispatch ch sk, s))"
| "sched_step c (SDispatch ch sk) s =
     bindE (step_dispatch c ch sk s) (\<lambda>(r, s). Inr (case r of SwitchTo i \<Rightarrow> Switched i | _ \<Rightarrow> STop, s))"
| "sched_step c (Left p) s = bindE (scheduler_back c p s) (\<lambda>s. Inr (STop, s))"
| "sched_step c (Switched p) s = Inl (Spin ''process'')"
| "sched_step c (Run p) s = Inl (Spin ''process'')"
| "sched_step c (Forking p i) s = Inl (Spin ''process'')"

datatype resume_point = AtForkret | AtYield bool | AtSleep bool

record ksys =
  kst :: ptable
  ph :: "nat \<Rightarrow> phase"
  rp :: "nat \<Rightarrow> resume_point"
  fk :: "nat \<Rightarrow> (nat \<times> bool) option"

text \<open>What a process does when it is switched to, up to the release of its lock.\<close>

fun resume :: "nat \<Rightarrow> nat \<Rightarrow> resume_point \<Rightarrow> 'a ptable_scheme \<Rightarrow> 'a ptable_scheme res" where
  "resume c p AtForkret s = release c (ProcLock p) s"
| "resume c p (AtYield saved) s = yield_return c p saved s"
| "resume c p (AtSleep saved) s = sleep_wake c p saved s"

inductive ksys_step :: "ksys \<Rightarrow> ksys \<Rightarrow> bool" where
  scheduler: "sched_step c (ph k c) (kst k) = Inr (f, s) \<Longrightarrow>
     ksys_step k (k\<lparr>kst := s, ph := (ph k)(c := f)\<rparr>)"
| resumes: "ph k c = Switched p \<Longrightarrow> resume c p (rp k p) (kst k) = Inr s \<Longrightarrow>
     ksys_step k (k\<lparr>kst := s, ph := (ph k)(c := Run p)\<rparr>)"
| yields: "ph k c = Run p \<Longrightarrow> yield_leave c (kst k) = Inr (b, s) \<Longrightarrow>
     ksys_step k (k\<lparr>kst := s, ph := (ph k)(c := Left p), rp := (rp k)(p := AtYield b)\<rparr>)"
| sleeps: "ph k c = Run p \<Longrightarrow> fk k p = None \<Longrightarrow> sleep_leave c ch (Some l) (kst k) = Inr (b, s) \<Longrightarrow>
     (\<And>i. l \<noteq> ProcLock i) \<Longrightarrow>
     ksys_step k (k\<lparr>kst := s, ph := (ph k)(c := Left p), rp := (rp k)(p := AtSleep b)\<rparr>)"
| exits: "ph k c = Run p \<Longrightarrow> fk k p = None \<Longrightarrow> exit_zombie c p status (kst k) = Inr (b, s) \<Longrightarrow>
     ksys_step k (k\<lparr>kst := s, ph := (ph k)(c := Left p)\<rparr>)"
| locks_it: "ph k c = Run p \<Longrightarrow> acquire c l (kst k) = Inr s \<Longrightarrow> (\<And>i. l \<noteq> ProcLock i) \<Longrightarrow>
     ksys_step k (k\<lparr>kst := s\<rparr>)"
| unlocks_it: "ph k c = Run p \<Longrightarrow> release c l (kst k) = Inr s \<Longrightarrow> (\<And>i. l \<noteq> ProcLock i) \<Longrightarrow>
     ksys_step k (k\<lparr>kst := s\<rparr>)"
| wakes: "with_lock c (ProcLock i) (upd_proc i (wake_one ch)) (kst k) = Inr s \<Longrightarrow>
     ksys_step k (k\<lparr>kst := s\<rparr>)"
| kills: "with_lock c (ProcLock i) (upd_proc i kill_one) (kst k) = Inr s \<Longrightarrow>
     ksys_step k (k\<lparr>kst := s\<rparr>)"
| sets_killed: "setkilled c i (kst k) = Inr s \<Longrightarrow> ksys_step k (k\<lparr>kst := s\<rparr>)"
| reparents: "holding c WaitLock (kst k) \<Longrightarrow>
     ksys_step k (k\<lparr>kst := upd_proc i (parent_update (\<lambda>_. x)) (kst k)\<rparr>)"
| clock_ticks: "a = (case cproc (cpus (kst k) c) of Some p \<Rightarrow> pstate (procs (kst k) p) = RUNNING | None \<Rightarrow> False) \<Longrightarrow>
     ksys_step k (k\<lparr>kst := update_cpu_temp (if a then 1 else 0) (kst k)\<rparr>)"
| temp_races: "ksys_step k (k\<lparr>kst := (kst k)\<lparr>cpu_temp := x\<rparr>\<rparr>)"
| allocates: "ph k c = Run p \<Longrightarrow> fk k p = None \<Longrightarrow> acquire c (ProcLock i) (kst k) = Inr s1 \<Longrightarrow>
     pstate (procs s1 i) = UNUSED \<Longrightarrow> allocproc_claim c i s1 = Inr s \<Longrightarrow>
     ksys_step k (k\<lparr>kst := s, ph := (ph k)(c := Forking p i)\<rparr>)"
| fork_fails: "ph k c = Forking p i \<Longrightarrow> release c (ProcLock i) (freeproc_reset i (kst k)) = Inr s \<Longrightarrow>
     ksys_step k (k\<lparr>kst := s, ph := (ph k)(c := Run p)\<rparr>)"
| fork_unlocks: "ph k c = Forking p i \<Longrightarrow> release c (ProcLock i) (kst k) = Inr s \<Longrightarrow>
     ksys_step k (k\<lparr>kst := s, ph := (ph k)(c := Run p), fk := (fk k)(p := Some (i, False))\<rparr>)"
| fork_adopts: "ph k c = Run p \<Longrightarrow> fk k p = Some (i, False) \<Longrightarrow>
     with_lock c WaitLock (upd_proc i (parent_update (\<lambda>_. Some p))) (kst k) = Inr s \<Longrightarrow>
     ksys_step k (k\<lparr>kst := s, fk := (fk k)(p := Some (i, True))\<rparr>)"
| fork_done: "ph k c = Run p \<Longrightarrow> fk k p = Some (i, True) \<Longrightarrow>
     with_lock c (ProcLock i) (upd_proc i (pstate_update (\<lambda>_. RUNNABLE))) (kst k) = Inr s \<Longrightarrow>
     ksys_step k (k\<lparr>kst := s, rp := (rp k)(i := AtForkret), fk := (fk k)(p := None)\<rparr>)"
| reaps: "ph k c = Run p \<Longrightarrow> fk k p = None \<Longrightarrow> acquire c (ProcLock i) (kst k) = Inr s1 \<Longrightarrow>
     pstate (procs s1 i) = ZOMBIE \<Longrightarrow> release c (ProcLock i) (freeproc_reset i s1) = Inr s \<Longrightarrow>
     ksys_step k (k\<lparr>kst := s\<rparr>)"

text \<open>After boot: every CPU at the top of its scheduler, one process ready to run.\<close>

definition ksys_init :: "ksys \<Rightarrow> bool" where
  "ksys_init k = ((\<forall>c. ph k c = STop \<and> cproc (cpus (kst k) c) = None) \<and>
     (\<forall>i. pstate (procs (kst k) i) = (if i = 0 then RUNNABLE else UNUSED) \<and> heat (procs (kst k) i) = 0) \<and>
     rp k 0 = AtForkret \<and> (\<forall>p. fk k p = None) \<and> cpu_temp (kst k) = 25)"

subsection \<open>The invariant\<close>

text \<open>
  What a phase says: whose process is on the CPU, which process it runs, which process lock the
  CPU holds across steps, which half-made child it owns.
\<close>

fun occupant :: "phase \<Rightarrow> nat option" where
  "occupant (Switched p) = Some p"
| "occupant (Run p) = Some p"
| "occupant (Left p) = Some p"
| "occupant (Forking p i) = Some p"
| "occupant _ = None"

definition runs :: "phase \<Rightarrow> nat option" where
  "runs f = (case f of Left p \<Rightarrow> None | _ \<Rightarrow> occupant f)"

fun keeps :: "phase \<Rightarrow> nat option" where
  "keeps (Switched p) = Some p"
| "keeps (Left p) = Some p"
| "keeps (Forking p i) = Some i"
| "keeps _ = None"

fun makes :: "phase \<Rightarrow> nat option" where
  "makes (Forking p i) = Some i"
| "makes _ = None"

definition held_by :: "nat \<Rightarrow> nat \<Rightarrow> 'a machine_scheme \<Rightarrow> bool" where
  "held_by c i s = (locked (locks s (ProcLock i)) \<and> lcpu (locks s (ProcLock i)) = Some c)"

text \<open>Heat scores stay in their documented range.\<close>

definition warm_ok :: "'a ptable_scheme \<Rightarrow> bool" where
  "warm_ok s = (\<forall>i. 0 \<le> heat (procs s i) \<and> heat (procs s i) \<le> MAX_HEAT)"

text \<open>A half-made child belongs to the CPU that holds its lock, or to the process whose \<open>kfork\<close> is not done.\<close>

datatype maker = ByCpu nat | ByProc nat

fun making :: "(nat \<Rightarrow> phase) \<Rightarrow> (nat \<Rightarrow> (nat \<times> bool) option) \<Rightarrow> maker \<Rightarrow> nat option" where
  "making f g (ByCpu c) = makes (f c)"
| "making f g (ByProc p) = map_option fst (g p)"

definition phase_inv :: "'a ptable_scheme \<Rightarrow> (nat \<Rightarrow> phase) \<Rightarrow> (nat \<Rightarrow> (nat \<times> bool) option) \<Rightarrow> bool" where
  "phase_inv s f g = (
     (\<forall>c. cproc (cpus s c) = occupant (f c)) \<and>
     (\<forall>c d p. occupant (f c) = Some p \<longrightarrow> occupant (f d) = Some p \<longrightarrow> c = d) \<and>
     (\<forall>p. pstate (procs s p) = RUNNING \<longleftrightarrow> (\<exists>c. runs (f c) = Some p)) \<and>
     (\<forall>c p. keeps (f c) = Some p \<longrightarrow> held_by c p s) \<and>
     (\<forall>m i. making f g m = Some i \<longrightarrow> pstate (procs s i) = USED) \<and>
     (\<forall>m n i. making f g m = Some i \<longrightarrow> making f g n = Some i \<longrightarrow> m = n) \<and>
     warm_ok s)"

definition ksys_inv :: "ksys \<Rightarrow> bool" where
  "ksys_inv k = phase_inv (kst k) (ph k) (fk k)"

subsection \<open>Calm steps\<close>

text \<open>
  \<open>quiet\<close>: the process table and the temperature are as before, as are the processes on the
  CPUs and every lock that was held.  \<open>calm\<close>: in the table, no process starts or stops running
  or being made, and heat stays in range.
\<close>

definition quiet :: "'a ptable_scheme \<Rightarrow> 'a ptable_scheme \<Rightarrow> bool" where
  "quiet s s' = (same_cprocs s s' \<and> kept s s' \<and> procs s' = procs s \<and> cpu_temp s' = cpu_temp s)"

definition tame :: "'a ptable_scheme \<Rightarrow> 'a ptable_scheme \<Rightarrow> bool" where
  "tame s s' = ((\<forall>i. pstate (procs s' i) = pstate (procs s i) \<or>
       pstate (procs s i) \<notin> {RUNNING, USED} \<and> pstate (procs s' i) \<notin> {RUNNING, USED}) \<and>
     (warm_ok s \<longrightarrow> warm_ok s'))"

definition calm :: "'a ptable_scheme \<Rightarrow> 'a ptable_scheme \<Rightarrow> bool" where
  "calm s s' = (same_cprocs s s' \<and> kept s s' \<and> tame s s')"

lemma quiet_refl [simp]: "quiet s s"
  by (simp add: quiet_def)

lemma quiet_trans: "quiet s t \<Longrightarrow> quiet t u \<Longrightarrow> quiet s u"
  by (auto simp: quiet_def intro: same_cprocs_trans kept_trans)

lemma quiet_calm: "quiet s s' \<Longrightarrow> calm s s'"
  by (simp add: quiet_def calm_def tame_def warm_ok_def)

lemma machine_only_quiet: "machine_only s s' \<Longrightarrow> kept s s' \<Longrightarrow> quiet s s'"
  by (simp add: quiet_def machine_only_cprocs io_only_frame[OF machine_io])

lemma io_only_quiet: "io_only s s' \<Longrightarrow> kept s s' \<Longrightarrow> quiet s s'"
  by (simp add: quiet_def io_only_cprocs io_only_frame)

lemma same_core_quiet: "same_core s s' \<Longrightarrow> quiet s s'"
  by (simp add: quiet_def same_core_frame same_cprocs_def kept_def)

lemma printf_quiet: "printf c fmt ap s = Inr s' \<Longrightarrow> quiet s s'"
  by (simp add: io_only_quiet printf_Inr)

lemma printfs_quiet: "printfs c ps s = Inr s' \<Longrightarrow> quiet s s'"
  by (simp add: io_only_quiet printfs_Inr)

text \<open>A critical section, whatever the state of the locks, if it returns.\<close>

lemma section_effect:
  assumes "acquire c l s = Inr s1" and "same_cprocs s1 s2" and "kept s1 s2" and "release c l s2 = Inr s'"
  shows "same_cprocs s s' \<and> kept s s' \<and> machine_only s2 s'"
proof -
  note a = acquire_Inr[OF assms(1)] and r = release_Inr[OF assms(4)]
  have "same_cprocs s s1" using a(1) machine_only_cprocs[OF inside_machine_only] by simp
  then have "same_cprocs s s'" using assms(2) machine_only_cprocs[OF r(2)] same_cprocs_trans by blast
  moreover have "kept s s'"
    using a assms(3) r(3) by (auto simp: kept_def inside_eq)
  ultimately show ?thesis using r(2) by simp
qed

lemma section_quiet:
  assumes "acquire c l s = Inr s1" and "quiet s1 s2" and "release c l s2 = Inr s'"
  shows "quiet s s'"
proof -
  have e: "same_cprocs s s'" "kept s s'" "machine_only s2 s'"
    using section_effect[OF assms(1) _ _ assms(3)] assms(2) by (simp_all add: quiet_def)
  have "procs s' = procs s2" "cpu_temp s' = cpu_temp s2" using io_only_frame[OF machine_io[OF e(3)]] by simp_all
  moreover have "procs s1 = procs s" "cpu_temp s1 = cpu_temp s" using acquire_Inr(1)[OF assms(1)] by simp_all
  ultimately show ?thesis using e assms(2) by (simp add: quiet_def)
qed

lemma with_lock_calm:
  assumes "with_lock c l f s = Inr s'" and "lockless f" and "tame s (f s)"
  shows "calm s s'"
proof -
  obtain s1 where s1: "acquire c l s = Inr s1" "release c l (f s1) = Inr s'"
    using assms(1) by (auto simp: with_lock_def bindE_eq_Inr)
  note fr = lockless_frame[OF assms(2), of s1]
  have e: "same_cprocs s s'" "kept s s'" "machine_only (f s1) s'"
    using section_effect[OF s1(1) _ _ s1(2)] fr by (simp_all add: same_cprocs_def kept_def)
  have "f s1 = inside c l (f s)" using acquire_Inr(1)[OF s1(1)] lockless_inside[OF assms(2)] by simp
  then have "procs s' = procs (f s)" "cpu_temp s' = cpu_temp (f s)"
    using io_only_frame[OF machine_io[OF e(3)]] by simp_all
  then show ?thesis using e assms(3) by (simp add: calm_def tame_def warm_ok_def)
qed

lemma with_lock_ret_quiet:
  assumes "with_lock_ret c l f s = Inr (r, s')" and "\<And>s. quiet s (snd (f s))"
  shows "quiet s s'"
proof -
  obtain s1 where s1: "acquire c l s = Inr s1" "release c l (snd (f s1)) = Inr s'"
    using assms(1) by (auto simp: with_lock_ret_def bindE_eq_Inr case_prod_beta)
  show ?thesis using section_quiet[OF s1(1) assms(2) s1(2)] .
qed

lemma upd_proc_tame:
  assumes "pstate (f (procs s i)) = pstate (procs s i) \<or>
      pstate (procs s i) \<notin> {RUNNING, USED} \<and> pstate (f (procs s i)) \<notin> {RUNNING, USED}"
    and "0 \<le> heat (procs s i) \<Longrightarrow> heat (procs s i) \<le> MAX_HEAT \<Longrightarrow>
      0 \<le> heat (f (procs s i)) \<and> heat (f (procs s i)) \<le> MAX_HEAT"
  shows "tame s (upd_proc i f s)"
  using assms by (auto simp: tame_def warm_ok_def)

lemma decay_body_calm: "decay_body c i s = Inr s' \<Longrightarrow> calm s s'"
  unfolding decay_body_def
  by (erule with_lock_calm) (auto intro!: upd_proc_tame simp: decay_one_heat HEAT_DECAY_def)

lemma wait_body_calm: "wait_body c ch i s = Inr s' \<Longrightarrow> calm s s'"
  unfolding wait_body_def
  by (erule with_lock_calm) (auto intro!: upd_proc_tame simp: wait_one_def split: if_splits)

lemma active_body_calm: "active_body c i s = Inr (r, s') \<Longrightarrow> calm s s'"
  unfolding active_body_def by (rule quiet_calm, erule with_lock_ret_quiet) simp

lemma passC_body_calm: "passC_body c i s = Inr (r, s') \<Longrightarrow> calm s s'"
  unfolding passC_body_def by (rule quiet_calm, erule with_lock_ret_quiet) simp

lemma passB_body_calm: "passB_body c i (a, s) = Inr (a', s') \<Longrightarrow> calm s s'"
  unfolding passB_body_def
  by (rule quiet_calm, simp split: prod.splits, erule with_lock_ret_quiet)
    (auto simp: Let_def intro: same_core_quiet)

lemma passA_body_calm:
  assumes "passA_body c i (a, s) = Inr (a', s')"
  shows "calm s s'"
proof -
  obtain ch sk where a: "a = (ch, sk)" by force
  have ph: "quiet t (t\<lparr>summary_printed := x, tm_had_children := y\<rparr>)" for t :: "'a ptable_scheme" and x y
    by (simp add: quiet_def same_cprocs_def kept_def)
  have ph': "quiet t (t\<lparr>tm_had_children := y\<rparr>)" for t :: "'a ptable_scheme" and y
    by (simp add: quiet_def same_cprocs_def kept_def)
  have "\<exists>s1 s2. acquire c (ProcLock i) s = Inr s1 \<and> quiet s1 s2 \<and> release c (ProcLock i) s2 = Inr s'"
    using assms
    by (auto simp: passA_body_def a bindE_eq_Inr Let_def split: if_splits)
      (blast intro: quiet_refl ph ph' same_core_quiet same_core_skip quiet_trans printf_quiet)+
  then show ?thesis using section_quiet quiet_calm by metis
qed

lemma end_of_run_calm: "end_of_run c s = Inr s' \<Longrightarrow> calm s s'"
proof -
  assume "end_of_run c s = Inr s'"
  then obtain t where t: "printfs c (summary_text (s\<lparr>summary_printed := True\<rparr>)) (s\<lparr>summary_printed := True\<rparr>) = Inr t"
    "s' = tm_reset t"
    by (auto simp: end_of_run_def tm_print_summary_def bindE_eq_Inr)
  have "quiet s (s\<lparr>summary_printed := True\<rparr>)" by (simp add: quiet_def same_cprocs_def kept_def)
  then show ?thesis
    using t printfs_quiet same_core_quiet[OF same_core_reset] by (blast intro: quiet_calm quiet_trans)
qed

lemma update_temp_calm: "calm s (update_cpu_temp h s)"
  using next_temp_range[of h "cpu_temp s"]
  by (auto simp: calm_def tame_def warm_ok_def same_cprocs_def kept_def update_cpu_temp_def)

lemma calm_trans: "calm s t \<Longrightarrow> calm t u \<Longrightarrow> calm s u"
  unfolding calm_def tame_def by (metis same_cprocs_trans kept_trans)

lemma step_throttle_calm: "step_throttle c s = Inr s' \<Longrightarrow> calm s s'"
proof -
  let ?t = "s\<lparr>tm_cooling_cycles := i32 (tm_cooling_cycles s + 1)\<rparr>"
  assume "step_throttle c s = Inr s'"
  then obtain u where u: "u = ?t \<or> printf c cooling_line [VaInt (cpu_temp ?t), VaInt THROTTLE_TEMP] ?t = Inr u"
    "s' = update_cpu_temp 0 u"
    by (auto simp: step_throttle_def Let_def bindE_eq_Inr split: if_splits)
  have "quiet s ?t" by (simp add: quiet_def same_cprocs_def kept_def)
  then have "quiet s u" using u(1) printf_quiet quiet_trans by blast
  then show ?thesis using u(2) quiet_calm update_temp_calm calm_trans by blast
qed

subsection \<open>Every step keeps the invariant\<close>

lemma idle_views: "occupant f = None \<Longrightarrow> runs f = None \<and> keeps f = None \<and> makes f = None"
  by (cases f) (simp_all add: runs_def)

lemma runs_occupant: "runs f = Some p \<Longrightarrow> occupant f = Some p"
  by (cases f) (simp_all add: runs_def)

text \<open>What has to be shown of a step of CPU \<open>c\<close> that leads to the state \<open>s\<close> and the phase \<open>f\<close>.\<close>

lemma inv_update_gen:
  assumes inv: "ksys_inv k"
    and cproc: "\<And>d. cproc (cpus s d) = (if d = c then occupant f else cproc (cpus (kst k) d))"
    and held: "\<And>d i. d \<noteq> c \<Longrightarrow> keeps (ph k d) = Some i \<Longrightarrow> held_by d i (kst k) \<Longrightarrow> held_by d i s"
    and keep: "\<And>i. keeps f = Some i \<Longrightarrow> held_by c i s"
    and run: "\<And>i. pstate (procs s i) = RUNNING \<longleftrightarrow>
        pstate (procs (kst k) i) = RUNNING \<and> runs (ph k c) \<noteq> Some i \<or> runs f = Some i"
    and used: "\<And>m i. making ((ph k)(c := f)) g m = Some i \<Longrightarrow> pstate (procs s i) = USED"
    and occ: "\<And>d p. d \<noteq> c \<Longrightarrow> occupant f = Some p \<Longrightarrow> occupant (ph k d) \<noteq> Some p"
    and mk: "\<And>m n i. making ((ph k)(c := f)) g m = Some i \<Longrightarrow> making ((ph k)(c := f)) g n = Some i \<Longrightarrow> m = n"
    and warm: "warm_ok s"
  shows "ksys_inv (k\<lparr>kst := s, ph := (ph k)(c := f), rp := r, fk := g\<rparr>)"
proof -
  have i1: "\<And>d. cproc (cpus (kst k) d) = occupant (ph k d)"
    and i2: "\<And>a d p. occupant (ph k a) = Some p \<Longrightarrow> occupant (ph k d) = Some p \<Longrightarrow> a = d"
    and i3: "\<And>p. pstate (procs (kst k) p) = RUNNING \<longleftrightarrow> (\<exists>d. runs (ph k d) = Some p)"
    and i4: "\<And>d p. keeps (ph k d) = Some p \<Longrightarrow> held_by d p (kst k)"
    using inv unfolding ksys_inv_def phase_inv_def by blast+
  let ?g = "(ph k)(c := f)"
  have "cproc (cpus s d) = occupant (?g d)" for d using cproc i1 by simp
  moreover have "occupant (?g a) = Some p \<Longrightarrow> occupant (?g d) = Some p \<Longrightarrow> a = d" for a d p
    using occ i2 by (auto split: if_splits)
  moreover have "pstate (procs s p) = RUNNING \<longleftrightarrow> (\<exists>d. runs (?g d) = Some p)" for p
  proof -
    have "(\<exists>d. runs (?g d) = Some p) \<longleftrightarrow> runs f = Some p \<or> (\<exists>d. d \<noteq> c \<and> runs (ph k d) = Some p)"
      by auto
    moreover have "(\<exists>d. d \<noteq> c \<and> runs (ph k d) = Some p) \<longleftrightarrow>
        pstate (procs (kst k) p) = RUNNING \<and> runs (ph k c) \<noteq> Some p"
      using i2 i3 runs_occupant by metis
    ultimately show ?thesis using run[of p] by blast
  qed
  moreover have "keeps (?g d) = Some p \<Longrightarrow> held_by d p s" for d p
    using keep held i4 by (auto split: if_splits)
  ultimately have "phase_inv s ?g g" using warm used mk unfolding phase_inv_def by blast
  then show ?thesis by (simp add: ksys_inv_def)
qed

lemma inv_facts:
  assumes "ksys_inv k"
  shows "cproc (cpus (kst k) d) = occupant (ph k d)"
    and "occupant (ph k a) = Some p \<Longrightarrow> occupant (ph k d) = Some p \<Longrightarrow> a = d"
    and "pstate (procs (kst k) p) = RUNNING \<longleftrightarrow> (\<exists>d. runs (ph k d) = Some p)"
    and "keeps (ph k d) = Some p \<Longrightarrow> held_by d p (kst k)"
    and "making (ph k) (fk k) m = Some i \<Longrightarrow> pstate (procs (kst k) i) = USED"
    and "making (ph k) (fk k) m = Some i \<Longrightarrow> making (ph k) (fk k) n = Some i \<Longrightarrow> m = n"
    and "warm_ok (kst k)"
  using assms unfolding ksys_inv_def phase_inv_def by blast+

text \<open>A step that makes no child and finishes none.\<close>

lemma making_same: "makes f = makes (ph k c) \<Longrightarrow> making ((ph k)(c := f)) (fk k) = making (ph k) (fk k)"
  by (rule ext, case_tac x) auto

lemma inv_update:
  assumes inv: "ksys_inv k"
    and cproc: "\<And>d. cproc (cpus s d) = (if d = c then occupant f else cproc (cpus (kst k) d))"
    and held: "\<And>d i. d \<noteq> c \<Longrightarrow> keeps (ph k d) = Some i \<Longrightarrow> held_by d i (kst k) \<Longrightarrow> held_by d i s"
    and keep: "\<And>i. keeps f = Some i \<Longrightarrow> held_by c i s"
    and run: "\<And>i. pstate (procs s i) = RUNNING \<longleftrightarrow>
        pstate (procs (kst k) i) = RUNNING \<and> runs (ph k c) \<noteq> Some i \<or> runs f = Some i"
    and used: "\<And>i. pstate (procs (kst k) i) = USED \<Longrightarrow> pstate (procs s i) = USED"
    and occ: "\<And>d p. d \<noteq> c \<Longrightarrow> occupant f = Some p \<Longrightarrow> occupant (ph k d) \<noteq> Some p"
    and mk: "makes f = makes (ph k c)"
    and warm: "warm_ok s"
  shows "ksys_inv (k\<lparr>kst := s, ph := (ph k)(c := f), rp := r\<rparr>)"
proof -
  have "ksys_inv (k\<lparr>kst := s, ph := (ph k)(c := f), rp := r, fk := fk k\<rparr>)"
    by (rule inv_update_gen[OF inv cproc held keep run _ occ _ warm], unfold making_same[OF mk])
      (use used inv_facts(5,6)[OF inv] in blast)+
  then show ?thesis by simp
qed

lemma calm_facts:
  assumes "calm s s'"
  shows "cproc (cpus s' d) = cproc (cpus s d)" and "held_by d i s \<Longrightarrow> held_by d i s'"
    and "pstate (procs s' i) = RUNNING \<longleftrightarrow> pstate (procs s i) = RUNNING"
    and "pstate (procs s' i) = USED \<longleftrightarrow> pstate (procs s i) = USED" and "warm_ok s \<Longrightarrow> warm_ok s'"
proof -
  have st: "pstate (procs s' i) = pstate (procs s i) \<or>
       pstate (procs s i) \<notin> {RUNNING, USED} \<and> pstate (procs s' i) \<notin> {RUNNING, USED}"
    using assms by (simp add: calm_def tame_def)
  show "pstate (procs s' i) = RUNNING \<longleftrightarrow> pstate (procs s i) = RUNNING"
    "pstate (procs s' i) = USED \<longleftrightarrow> pstate (procs s i) = USED" using st by auto
  show "cproc (cpus s' d) = cproc (cpus s d)" "held_by d i s \<Longrightarrow> held_by d i s'" "warm_ok s \<Longrightarrow> warm_ok s'"
    using assms by (simp_all add: calm_def same_cprocs_def kept_def tame_def held_by_def)
qed

text \<open>A calm step between phases that say the same.\<close>

lemma inv_calm:
  assumes "ksys_inv k" and "calm (kst k) s" and "occupant f = occupant (ph k c)"
    and "runs f = runs (ph k c)" and "keeps f = keeps (ph k c)" and "makes f = makes (ph k c)"
  shows "ksys_inv (k\<lparr>kst := s, ph := (ph k)(c := f), rp := r\<rparr>)"
proof (rule inv_update[OF assms(1)])
  show "cproc (cpus s d) = (if d = c then occupant f else cproc (cpus (kst k) d))" for d
    using calm_facts(1)[OF assms(2)] inv_facts(1)[OF assms(1)] assms(3) by simp
  show "keeps f = Some i \<Longrightarrow> held_by c i s" for i
    using assms(5) inv_facts(4)[OF assms(1)] calm_facts(2)[OF assms(2)] by simp
  show "pstate (procs s i) = RUNNING \<longleftrightarrow> pstate (procs (kst k) i) = RUNNING \<and> runs (ph k c) \<noteq> Some i \<or> runs f = Some i" for i
    using calm_facts(3)[OF assms(2)] inv_facts(3)[OF assms(1)] assms(4) by auto
  show "d \<noteq> c \<Longrightarrow> occupant f = Some p \<Longrightarrow> occupant (ph k d) \<noteq> Some p" for d p
    using assms(3) inv_facts(2)[OF assms(1)] by metis
qed (use calm_facts[OF assms(2)] inv_facts(7)[OF assms(1)] assms(6) in auto)

lemma inv_calm_stay: "ksys_inv k \<Longrightarrow> calm (kst k) s \<Longrightarrow> ksys_inv (k\<lparr>kst := s\<rparr>)"
  using inv_calm[of k s "ph k 0" 0 "rp k"] by simp

lemma sched_step_calm:
  assumes "sched_step c f s = Inr (f', s')" and "occupant f = None" and "occupant f' = None"
  shows "calm s s'"
proof -
  have st: "calm s (round_start c s)"
    by (simp add: calm_def tame_def warm_ok_def same_cprocs_def kept_def)
  have miss: "quiet s s'" if "acquire c l s = Inr t" "release c l t = Inr s'" for l t
    using section_quiet[OF that(1) quiet_refl that(2)] .
  show ?thesis
    using assms
    by (cases f)
      (auto simp: bindE_eq_Inr Let_def st step_dispatch_def quiet_calm update_temp_calm
        split: if_splits option.splits sched_result.splits
        dest: active_body_calm end_of_run_calm decay_body_calm step_throttle_calm passA_body_calm
          passB_body_calm passC_body_calm wait_body_calm miss
        intro: quiet_calm)
qed

text \<open>Leaving the CPU: the effect shared by \<open>yield\<close>, \<open>sleep\<close> and \<open>exit\<close>.\<close>

definition leaves :: "nat \<Rightarrow> nat \<Rightarrow> 'a ptable_scheme \<Rightarrow> 'a ptable_scheme \<Rightarrow> bool" where
  "leaves c p s s' = (\<not> locked (locks s (ProcLock p)) \<and> held_by c p s' \<and>
     (\<forall>i. i \<noteq> p \<longrightarrow> locks s' (ProcLock i) = locks s (ProcLock i)) \<and> same_cprocs s s' \<and>
     cpu_temp s' = cpu_temp s \<and> (\<forall>i. i \<noteq> p \<longrightarrow> procs s' i = procs s i) \<and>
     pstate (procs s' p) \<notin> {RUNNING, USED} \<and> heat (procs s' p) = heat (procs s p))"

lemma myproc_Inr:
  assumes "myproc c s = Inr (p, s')"
  shows "p = cproc (cpus s c) \<and> machine_only s s' \<and> locks s' = locks s"
proof -
  have "pop_off c (push_off c s) = Inr s'" "p = cproc (cpus s c)"
    using assms by (auto simp: myproc_def Let_def bindE_eq_Inr)
  then show ?thesis
    using pop_off_Inr[of c "push_off c s" s'] push_off_only[of s c]
    by (auto simp: machine_only_def same_cprocs_def push_off_eq)
qed

lemma myproc_own: "myproc c s = Inr (Some y, s') \<Longrightarrow> cproc (cpus s c) = Some p \<Longrightarrow> y = p"
  using myproc_Inr[of c s "Some y" s'] by simp

lemma sched_leave_Inr:
  assumes "sched_leave c s = Inr (b, s')"
  shows "machine_only s s' \<and> locks s' = locks s"
  using assms by (auto simp: sched_leave_def bindE_eq_Inr split: option.splits if_splits dest!: myproc_Inr)

lemma machine_only_procs: "machine_only s s' \<Longrightarrow> procs s' = procs s" "machine_only s s' \<Longrightarrow> cpu_temp s' = cpu_temp s"
  using io_only_frame[OF machine_io] by blast+

lemma acquired:
  assumes "acquire c l s = Inr s1"
  shows "procs s1 = procs s" "cpu_temp s1 = cpu_temp s" "same_cprocs s s1"
    "\<not> locked (locks s l)" "locks s1 = (locks s)(l := (locks s l)\<lparr>locked := True, lcpu := Some c\<rparr>)"
  using acquire_Inr[OF assms] by (simp_all add: inside_eq same_cprocs_def)

lemma released:
  assumes "release c l s = Inr s1"
  shows "procs s1 = procs s" "cpu_temp s1 = cpu_temp s" "same_cprocs s s1"
    "locked (locks s l) \<and> lcpu (locks s l) = Some c"
    "locks s1 = (locks s)(l := (locks s l)\<lparr>lcpu := None, locked := False\<rparr>)"
  using release_Inr[OF assms] machine_only_procs[OF release_Inr(2)[OF assms]]
    machine_only_cprocs[OF release_Inr(2)[OF assms]] by (simp_all add: holding_def)

lemma sched_left:
  assumes "sched_leave c s = Inr (b, s1)"
  shows "procs s1 = procs s" "cpu_temp s1 = cpu_temp s" "same_cprocs s s1" "locks s1 = locks s"
  using sched_leave_Inr[OF assms] machine_only_procs machine_only_cprocs by blast+

lemma yield_leaves:
  assumes "yield_leave c s = Inr (b, s')" and "cproc (cpus s c) = Some p"
  shows "leaves c p s s'"
proof -
  obtain y s1 s2 where s1: "myproc c s = Inr (Some y, s1)" and s2: "acquire c (ProcLock y) s1 = Inr s2"
    and s3: "sched_leave c (upd_proc y (pstate_update (\<lambda>_. RUNNABLE)) s2) = Inr (b, s')"
    using assms(1) by (auto simp: yield_leave_def bindE_eq_Inr split: option.splits)
  have y: "y = p" using myproc_own[OF s1 assms(2)] .
  have m: "procs s1 = procs s" "cpu_temp s1 = cpu_temp s" "same_cprocs s s1" "locks s1 = locks s"
    using myproc_Inr[OF s1] machine_only_procs machine_only_cprocs by blast+
  show ?thesis
    using m y acquired[OF s2] sched_left[OF s3] by (simp add: leaves_def held_by_def same_cprocs_def)
qed

lemma sleep_leaves:
  assumes "sleep_leave c ch (Some l) s = Inr (b, s')" and "cproc (cpus s c) = Some p" and "\<And>i. l \<noteq> ProcLock i"
  shows "leaves c p s s'"
proof -
  obtain y s1 s2 s3 where s1: "myproc c s = Inr (Some y, s1)" and s2: "acquire c (ProcLock y) s1 = Inr s2"
    and s3: "release c l s2 = Inr s3"
    and s4: "sched_leave c (upd_proc y (\<lambda>q. q\<lparr>pchan := Some ch, pstate := SLEEPING\<rparr>) s3) = Inr (b, s')"
    using assms(1) by (auto simp: sleep_leave_def bindE_eq_Inr release_ptr_def split: option.splits)
  have y: "y = p" using myproc_own[OF s1 assms(2)] .
  have nl: "\<And>i. ProcLock i \<noteq> l" using assms(3) by metis
  have m: "procs s1 = procs s" "cpu_temp s1 = cpu_temp s" "same_cprocs s s1" "locks s1 = locks s"
    using myproc_Inr[OF s1] machine_only_procs machine_only_cprocs by blast+
  show ?thesis
    using m y acquired[OF s2] released[OF s3] sched_left[OF s4] nl
    by (simp add: leaves_def held_by_def same_cprocs_def)
qed

lemma exit_leaves:
  assumes "exit_zombie c p status s = Inr (b, s')"
  shows "leaves c p s s'"
proof -
  obtain s1 s2 where s1: "acquire c (ProcLock p) s = Inr s1"
    and s2: "release c WaitLock (upd_proc p (\<lambda>q. q\<lparr>xstate := status, pstate := ZOMBIE\<rparr>) s1) = Inr s2"
    and s3: "sched_leave c s2 = Inr (b, s')"
    using assms by (auto simp: exit_zombie_def bindE_eq_Inr)
  show ?thesis
    using acquired[OF s1] released[OF s2] sched_left[OF s3] by (auto simp: leaves_def held_by_def same_cprocs_def)
qed

lemma inv_leaves:
  assumes inv: "ksys_inv k" and run: "ph k c = Run p" and lv: "leaves c p (kst k) s"
  shows "ksys_inv (k\<lparr>kst := s, ph := (ph k)(c := Left p), rp := r\<rparr>)"
proof (rule inv_update[OF inv])
  note f = inv_facts[OF inv]
  have pr: "pstate (procs (kst k) p) = RUNNING" using f(3)[of p] run by (auto simp: runs_def intro: exI[of _ c])
  show "cproc (cpus s d) = (if d = c then occupant (Left p) else cproc (cpus (kst k) d))" for d
    using lv f(1)[of c] run by (simp add: leaves_def same_cprocs_def)
  show "held_by d i s" if "held_by d i (kst k)" for d i
    using lv that by (cases "i = p") (auto simp: leaves_def held_by_def)
  show "keeps (Left p) = Some i \<Longrightarrow> held_by c i s" for i using lv by (simp add: leaves_def)
  show "pstate (procs s i) = RUNNING \<longleftrightarrow>
      pstate (procs (kst k) i) = RUNNING \<and> runs (ph k c) \<noteq> Some i \<or> runs (Left p) = Some i" for i
    using lv run by (cases "i = p") (auto simp: leaves_def runs_def)
  show "pstate (procs (kst k) i) = USED \<Longrightarrow> pstate (procs s i) = USED" for i
    using lv pr by (cases "i = p") (auto simp: leaves_def)
  show "d \<noteq> c \<Longrightarrow> occupant (Left p) = Some q \<Longrightarrow> occupant (ph k d) \<noteq> Some q" for d q
    using f(2)[of d q c] run by auto
  show "warm_ok s"
    unfolding warm_ok_def
  proof (intro conjI allI)
    show "0 \<le> heat (procs s i)" "heat (procs s i) \<le> MAX_HEAT" for i
      using f(7) lv by (cases "i = p"; simp add: warm_ok_def leaves_def)+
  qed
qed (use run in simp_all)


text \<open>Switching to a process.\<close>

lemma step_dispatch_Inr:
  assumes "step_dispatch c ch sk s = Inr (SwitchTo i, s')"
  shows "\<not> locked (locks s (ProcLock i))" and "pstate (procs s i) = RUNNABLE" and "held_by c i s'"
    and "\<And>j. j \<noteq> i \<Longrightarrow> locked (locks s (ProcLock j)) \<Longrightarrow> locks s' (ProcLock j) = locks s (ProcLock j)"
    and "\<And>d. cproc (cpus s' d) = (if d = c then Some i else cproc (cpus s d))"
    and "procs s' = (procs s)(i := heat_up ((procs s i)\<lparr>pstate := RUNNING\<rparr>))"
    and "20 \<le> cpu_temp s'" and "cpu_temp s' \<le> 100"
proof -
  obtain s1 s2 where s1: "acquire c (ProcLock i) s = Inr s1" and run: "pstate (procs s1 i) = RUNNABLE"
    and s2: "quiet s1 s2" and s': "s' = run_chosen c i s2"
    using assms by (auto simp: step_dispatch_def bindE_eq_Inr split: option.splits if_splits)
      (blast intro: quiet_refl printfs_quiet)+
  note a = acquired[OF s1]
  have q: "procs s2 = procs s" "same_cprocs s s2" "kept s1 s2"
    using s2 a same_cprocs_trans by (auto simp: quiet_def)
  show "\<not> locked (locks s (ProcLock i))" "pstate (procs s i) = RUNNABLE" using a run by simp_all
  show "held_by c i s'" using a q(3) s' by (simp add: held_by_def run_chosen_effect kept_def)
  show "locks s' (ProcLock j) = locks s (ProcLock j)" if "j \<noteq> i" "locked (locks s (ProcLock j))" for j
    using a q(3) s' that by (simp add: run_chosen_effect kept_def)
  show "cproc (cpus s' d) = (if d = c then Some i else cproc (cpus s d))" for d
    using q(2) s' by (simp add: run_chosen_effect same_cprocs_def)
  show "procs s' = (procs s)(i := heat_up ((procs s i)\<lparr>pstate := RUNNING\<rparr>))"
    using q(1) s' by (simp add: run_chosen_effect)
  show "20 \<le> cpu_temp s'" "cpu_temp s' \<le> 100" using s' next_temp_range by (simp_all add: run_chosen_effect)
qed

lemma heat_up_simps [simp]: "pstate (heat_up p) = pstate p" "waiting_tick (heat_up p) = 0"
  "heat (heat_up p) = min MAX_HEAT (heat p + HEAT_INCREMENT)"
  by (simp_all add: heat_up_def Let_def)

lemma inv_dispatch:
  assumes inv: "ksys_inv k" and idle: "occupant (ph k c) = None"
    and st: "step_dispatch c ch sk (kst k) = Inr (SwitchTo i, s)"
  shows "ksys_inv (k\<lparr>kst := s, ph := (ph k)(c := Switched i), rp := r\<rparr>)"
proof (rule inv_update[OF inv])
  note f = inv_facts[OF inv] and e = step_dispatch_Inr[OF st]
  note v = idle_views[OF idle]
  show "cproc (cpus s d) = (if d = c then occupant (Switched i) else cproc (cpus (kst k) d))" for d
    using e(5) by simp
  show "held_by d j s" if "held_by d j (kst k)" for d j
    using e(1,4) that by (cases "j = i") (auto simp: held_by_def)
  show "keeps (Switched i) = Some j \<Longrightarrow> held_by c j s" for j using e(3) by simp
  show "pstate (procs s j) = RUNNING \<longleftrightarrow>
      pstate (procs (kst k) j) = RUNNING \<and> runs (ph k c) \<noteq> Some j \<or> runs (Switched i) = Some j" for j
    using e(2,6) v by (auto simp: runs_def)
  show "pstate (procs (kst k) j) = USED \<Longrightarrow> pstate (procs s j) = USED" for j
    using e(2,6) by (cases "j = i") auto
  show "occupant (ph k d) \<noteq> Some q" if "occupant (Switched i) = Some q" for d q
  proof
    assume o: "occupant (ph k d) = Some q"
    have "q = i" using that by simp
    then have "runs (ph k d) = Some i \<or> keeps (ph k d) = Some i" using o by (cases "ph k d") (auto simp: runs_def)
    then show False using e(1,2) f(3)[of i] f(4)[of d i] by (auto simp: held_by_def)
  qed
  show "warm_ok s"
    using e(6-8) f(7) by (auto simp: warm_ok_def MAX_HEAT_def HEAT_INCREMENT_def)
qed (use idle_views[OF idle] in simp_all)

lemma inv_back:
  assumes inv: "ksys_inv k" and left: "ph k c = Left p" and st: "scheduler_back c p (kst k) = Inr s"
  shows "ksys_inv (k\<lparr>kst := s, ph := (ph k)(c := STop), rp := r\<rparr>)"
proof (rule inv_update[OF inv])
  note f = inv_facts[OF inv]
  note r = released[OF st[unfolded scheduler_back_def]]
  have p: "procs (upd_cpu c g t) = procs t" "cpu_temp (upd_cpu c g t) = cpu_temp t"
    "locks (upd_cpu c g t) = locks t" for g and t :: ptable by (simp_all add: upd_cpu_def)
  show "cproc (cpus s d) = (if d = c then occupant STop else cproc (cpus (kst k) d))" for d
    using r(3) by (simp add: same_cprocs_def upd_cpu_def)
  show "held_by d j s" if "d \<noteq> c" "held_by d j (kst k)" for d j
    using r(4,5) that p by (auto simp: held_by_def)
  show "pstate (procs s j) = RUNNING \<longleftrightarrow>
      pstate (procs (kst k) j) = RUNNING \<and> runs (ph k c) \<noteq> Some j \<or> runs STop = Some j" for j
    using r(1) p left by (simp add: runs_def)
  show "pstate (procs (kst k) j) = USED \<Longrightarrow> pstate (procs s j) = USED" for j using r(1) p by simp
  show "warm_ok s" using f(7) r(1,2) p by (simp add: warm_ok_def)
qed (use left in simp_all)

lemma inv_scheduler:
  assumes inv: "ksys_inv k" and st: "sched_step c (ph k c) (kst k) = Inr (f, s)"
  shows "ksys_inv (k\<lparr>kst := s, ph := (ph k)(c := f), rp := r\<rparr>)"
proof (cases "occupant (ph k c) = None")
  case idle: True
  show ?thesis
  proof (cases "occupant f = None")
    case True
    then show ?thesis
      using inv_calm[OF inv sched_step_calm[OF st idle True]] idle idle_views by metis
  next
    case False
    have "\<exists>ch sk i. f = Switched i \<and> step_dispatch c ch sk (kst k) = Inr (SwitchTo i, s)"
      using st False idle
      by ((cases "ph k c"; auto simp: bindE_eq_Inr Let_def split: if_splits option.splits sched_result.splits),
          metis sched_result.exhaust)
    then show ?thesis using inv_dispatch[OF inv idle] by blast
  qed
next
  case False
  then obtain p where "ph k c = Left p" "scheduler_back c p (kst k) = Inr s" "f = STop"
    using st by (cases "ph k c") (auto simp: bindE_eq_Inr)
  then show ?thesis using inv_back[OF inv] by simp
qed

text \<open>
  Steps in which the running process releases a lock: the locks of other CPUs stay.
\<close>

lemma released_other: "release c l (s :: 'a ptable_scheme) = Inr s' \<Longrightarrow> d \<noteq> c \<Longrightarrow> held_by d i s \<Longrightarrow> held_by d i s'"
  using released(4,5)[of c l s s'] by (auto simp: held_by_def)

lemma released_own: "release c l (s :: 'a ptable_scheme) = Inr s' \<Longrightarrow> ProcLock i \<noteq> l \<Longrightarrow> held_by d i s \<Longrightarrow> held_by d i s'"
  using released(5)[of c l s s'] by (auto simp: held_by_def)

lemma resume_released:
  assumes "resume c p r s = Inr s'"
  shows "\<exists>t. release c (ProcLock p) t = Inr s' \<and> locks t = locks s \<and> same_cprocs s t \<and> cpu_temp t = cpu_temp s \<and>
    (\<forall>i. pstate (procs t i) = pstate (procs s i) \<and> heat (procs t i) = heat (procs s i))"
  using assms
  by (cases r) (auto simp: yield_return_def sleep_wake_def sched_return_def upd_cpu_def same_cprocs_def)

lemma inv_resumes:
  assumes inv: "ksys_inv k" and sw: "ph k c = Switched p" and st: "resume c p (rp k p) (kst k) = Inr s"
  shows "ksys_inv (k\<lparr>kst := s, ph := (ph k)(c := Run p), rp := r\<rparr>)"
proof (rule inv_update[OF inv])
  note f = inv_facts[OF inv]
  obtain t where t: "release c (ProcLock p) t = Inr s" "locks t = locks (kst k)" "same_cprocs (kst k) t"
    "cpu_temp t = cpu_temp (kst k)"
    "\<And>i. pstate (procs t i) = pstate (procs (kst k) i)" "\<And>i. heat (procs t i) = heat (procs (kst k) i)"
    using resume_released[OF st] by blast
  note r = released[OF t(1)]
  show "cproc (cpus s d) = (if d = c then occupant (Run p) else cproc (cpus (kst k) d))" for d
    using r(3) t(3) f(1)[of c] sw by (simp add: same_cprocs_def)
  show "held_by d i s" if "d \<noteq> c" "held_by d i (kst k)" for d i
    using released_other[OF t(1) that(1)] that(2) t(2) by (simp add: held_by_def)
  show "pstate (procs s i) = RUNNING \<longleftrightarrow>
      pstate (procs (kst k) i) = RUNNING \<and> runs (ph k c) \<noteq> Some i \<or> runs (Run p) = Some i" for i
    using r(1) t(5) f(3)[of p] sw by (auto simp: runs_def intro: exI[of _ c])
  show "occupant (ph k d) \<noteq> Some q" if "d \<noteq> c" "occupant (Run p) = Some q" for d q
    using f(2)[of d q c] sw that by auto
  show "pstate (procs (kst k) i) = USED \<Longrightarrow> pstate (procs s i) = USED" for i using r(1) t(5) by simp
  show "warm_ok s" using f(7) r(1,2) t by (simp add: warm_ok_def)
qed (use sw in simp_all)

lemma inv_unlocks:
  assumes inv: "ksys_inv k" and st: "release c l (kst k) = Inr s" and nl: "\<And>i. ProcLock i \<noteq> l"
  shows "ksys_inv (k\<lparr>kst := s\<rparr>)"
proof -
  note f = inv_facts[OF inv] and r = released[OF st]
  have "ksys_inv (k\<lparr>kst := s, ph := (ph k)(c := ph k c), rp := rp k\<rparr>)"
  proof (rule inv_update[OF inv])
    show "cproc (cpus s d) = (if d = c then occupant (ph k c) else cproc (cpus (kst k) d))" for d
      using r(3) f(1) by (simp add: same_cprocs_def)
    show "held_by d i (kst k) \<Longrightarrow> held_by d i s" for d i using released_own[OF st nl] by simp
    show "keeps (ph k c) = Some i \<Longrightarrow> held_by c i s" for i using f(4) released_own[OF st nl] by simp
    show "pstate (procs s i) = RUNNING \<longleftrightarrow>
        pstate (procs (kst k) i) = RUNNING \<and> runs (ph k c) \<noteq> Some i \<or> runs (ph k c) = Some i" for i
      using r(1) f(3)[of i] by auto
    show "d \<noteq> c \<Longrightarrow> occupant (ph k c) = Some p \<Longrightarrow> occupant (ph k d) \<noteq> Some p" for d p using f(2) by metis
    show "warm_ok s" using f(7) r(1,2) by (simp add: warm_ok_def)
  qed (use r(1) in auto)
  then show ?thesis by simp
qed

lemma acquire_calm: "acquire c l s = Inr s' \<Longrightarrow> calm s s'"
  using acquired[of c l s s'] by (intro quiet_calm) (auto simp: quiet_def kept_def)

lemma reap_calm:
  assumes "acquire c (ProcLock i) s = Inr s1" and "pstate (procs s1 i) = ZOMBIE"
    and "release c (ProcLock i) (freeproc_reset i s1) = Inr s'"
  shows "calm s s'"
proof -
  note a = acquired[OF assms(1)] and r = released[OF assms(3)]
  have e: "same_cprocs s s'" "kept s s'"
    using section_effect[OF assms(1) _ _ assms(3)] by (simp_all add: freeproc_reset_def same_cprocs_def kept_def)
  have p: "\<And>j. j \<noteq> i \<Longrightarrow> procs s' j = procs s j" "pstate (procs s' i) = UNUSED" "heat (procs s' i) = 0"
    using r(1) a(1) by (simp_all add: freeproc_reset_def)
  have "pstate (procs s' j) = pstate (procs s j) \<or> pstate (procs s j) \<notin> {RUNNING, USED} \<and> pstate (procs s' j) \<notin> {RUNNING, USED}" for j
    using p assms(2) a(1) by (cases "j = i") simp_all
  moreover have "heat (procs s' j) = (if j = i then 0 else heat (procs s j))" for j
    using p by simp
  moreover have "cpu_temp s' = cpu_temp s" using r(2) a(2) by (simp add: freeproc_reset_def)
  ultimately show ?thesis using e by (simp add: calm_def tame_def warm_ok_def MAX_HEAT_def)
qed

text \<open>Making a child.\<close>

lemma claim_Inr:
  assumes "allocproc_claim c i s = Inr s'"
  shows "\<exists>n. procs s' = (procs s)(i := (procs s i)\<lparr>pid := n, pstate := USED, waiting_tick := 0, heat := 0\<rparr>)"
    and "same_cprocs s s'" and "kept s s'" and "cpu_temp s' = cpu_temp s"
proof -
  obtain n s1 where s1: "allocpid c s = Inr (n, s1)"
    and s': "s' = upd_proc i (\<lambda>p. p\<lparr>pid := n, pstate := USED, waiting_tick := 0, heat := 0\<rparr>) s1"
    using assms by (auto simp: allocproc_claim_def bindE_eq_Inr)
  have "quiet s s1"
    using s1 unfolding allocpid_def by (rule with_lock_ret_quiet) (simp add: quiet_def same_cprocs_def kept_def)
  then show "\<exists>n. procs s' = (procs s)(i := (procs s i)\<lparr>pid := n, pstate := USED, waiting_tick := 0, heat := 0\<rparr>)"
    "same_cprocs s s'" "kept s s'" "cpu_temp s' = cpu_temp s"
    using s' by (auto simp: quiet_def same_cprocs_def kept_def)
qed

text \<open>A step that changes the state of one child only, which the CPU or its process makes before or after.\<close>

lemma inv_child:
  assumes inv: "ksys_inv k" and now: "occupant (ph k c) = Some p" "runs (ph k c) = Some p"
    and nxt: "occupant f = Some p" "runs f = Some p" "\<And>j. keeps f = Some j \<Longrightarrow> held_by c j s"
    and s: "same_cprocs (kst k) s" "\<And>d j. d \<noteq> c \<Longrightarrow> held_by d j (kst k) \<Longrightarrow> held_by d j s"
      "\<And>j. j \<noteq> i \<Longrightarrow> procs s j = procs (kst k) j" "pstate (procs (kst k) i) \<noteq> RUNNING" "pstate (procs s i) \<noteq> RUNNING"
      "heat (procs s i) = heat (procs (kst k) i) \<or> heat (procs s i) = 0"
    and mk: "\<And>m j. j \<noteq> i \<Longrightarrow> making ((ph k)(c := f)) g m = Some j \<Longrightarrow> making (ph k) (fk k) m = Some j"
      "\<And>m. making ((ph k)(c := f)) g m = Some i \<Longrightarrow> m = mm \<and> pstate (procs s i) = USED"
  shows "ksys_inv (k\<lparr>kst := s, ph := (ph k)(c := f), rp := r, fk := g\<rparr>)"
proof (rule inv_update_gen[OF inv])
  note F = inv_facts[OF inv]
  have rc: "pstate (procs (kst k) p) = RUNNING" using F(3)[of p] now(2) by blast
  show "cproc (cpus s d) = (if d = c then occupant f else cproc (cpus (kst k) d))" for d
    using s(1) F(1) now(1) nxt(1) by (simp add: same_cprocs_def)
  show "held_by d j s" if "d \<noteq> c" "held_by d j (kst k)" for d j using s(2) that .
  show "held_by c j s" if "keeps f = Some j" for j using nxt(3) that .
  show "pstate (procs s j) = RUNNING \<longleftrightarrow> pstate (procs (kst k) j) = RUNNING \<and> runs (ph k c) \<noteq> Some j \<or> runs f = Some j" for j
  proof (cases "j = i")
    case True
    then have "j \<noteq> p" using rc s(4) by auto
    then show ?thesis using True s(4,5) nxt(2) by auto
  next
    case False
    then have "procs s j = procs (kst k) j" by (rule s(3))
    then show ?thesis using rc now(2) nxt(2) by (cases "j = p") simp_all
  qed
  show "pstate (procs s j) = USED" if m: "making ((ph k)(c := f)) g m = Some j" for m j
  proof (cases "j = i")
    case True
    then show ?thesis using mk(2) m by blast
  next
    case False
    then show ?thesis using mk(1)[OF False m] F(5) s(3)[OF False] by simp
  qed
  show "m = n" if m: "making ((ph k)(c := f)) g m = Some j" "making ((ph k)(c := f)) g n = Some j" for m n j
  proof (cases "j = i")
    case True
    then show ?thesis using mk(2) m by blast
  next
    case False
    then show ?thesis using mk(1)[OF False m(1)] mk(1)[OF False m(2)] F(6) by blast
  qed
  show "occupant (ph k d) \<noteq> Some q" if "d \<noteq> c" "occupant f = Some q" for d q
  proof
    assume o: "occupant (ph k d) = Some q"
    have "occupant (ph k c) = Some q" using now(1) nxt(1) that(2) by simp
    from F(2)[OF o this] that(1) show False by contradiction
  qed
  have "0 \<le> heat (procs s j) \<and> heat (procs s j) \<le> MAX_HEAT" for j
  proof (cases "j = i")
    case True
    then show ?thesis using F(7) s(6) by (auto simp: warm_ok_def MAX_HEAT_def)
  next
    case False
    then show ?thesis using F(7) s(3)[of j] by (simp add: warm_ok_def)
  qed
  then show "warm_ok s" by (simp add: warm_ok_def)
qed

lemma not_made: "ksys_inv k \<Longrightarrow> pstate (procs (kst k) i) \<noteq> USED \<Longrightarrow> making (ph k) (fk k) m \<noteq> Some i"
  using inv_facts(5)[of k m i] by blast

lemma made_by: "ksys_inv k \<Longrightarrow> making (ph k) (fk k) m = Some i \<Longrightarrow> making (ph k) (fk k) n = Some i \<Longrightarrow> n = m"
  using inv_facts(6)[of k m i n] by blast

lemma inv_allocates:
  assumes inv: "ksys_inv k" and run: "ph k c = Run p" and ac: "acquire c (ProcLock i) (kst k) = Inr s1"
    and un: "pstate (procs s1 i) = UNUSED" and cl: "allocproc_claim c i s1 = Inr s"
  shows "ksys_inv (k\<lparr>kst := s, ph := (ph k)(c := Forking p i), rp := r, fk := fk k\<rparr>)"
proof -
  note a = acquired[OF ac] and e = claim_Inr[OF cl]
  have un0: "pstate (procs (kst k) i) = UNUSED" using un a(1) by simp
  have ps: "pstate (procs s i) = USED" "heat (procs s i) = 0" "j \<noteq> i \<Longrightarrow> procs s j = procs (kst k) j" for j
    using e(1) a(1) by auto
  show ?thesis
  proof (rule inv_child[OF inv, where i = i and mm = "ByCpu c" and p = p])
    show "same_cprocs (kst k) s" using e(2) a(3) same_cprocs_trans by blast
    show "held_by d j s" if "held_by d j (kst k)" for d j
      using that a(4,5) e(3) by (cases "j = i") (auto simp: held_by_def kept_def)
    show "held_by c j s" if "keeps (Forking p i) = Some j" for j
      using that a(5) e(3) by (simp add: held_by_def kept_def)
    show "making (ph k) (fk k) m = Some j" if "j \<noteq> i" "making ((ph k)(c := Forking p i)) (fk k) m = Some j" for m j
      using that by (cases m) (auto split: if_splits)
    show "m = ByCpu c \<and> pstate (procs s i) = USED" if "making ((ph k)(c := Forking p i)) (fk k) m = Some i" for m
      using that ps(1) not_made[OF inv, of i m] un0 by (cases m) (auto split: if_splits)
  qed (use run un0 ps in \<open>auto simp: runs_def\<close>)
qed

lemma ksys_step_inv: "ksys_step k k' \<Longrightarrow> ksys_inv k \<Longrightarrow> ksys_inv k'"
proof (induction rule: ksys_step.induct)
  case (scheduler c k f s)
  then show ?case using inv_scheduler[of k c f s "rp k"] by simp
next
  case (resumes k c p s)
  then show ?case using inv_resumes[of k c p s "rp k"] by simp
next
  case (yields k c p b s)
  then show ?case
    using inv_leaves[of k c p s] yield_leaves[of c "kst k" b s p] inv_facts(1)[of k c] by simp
next
  case (sleeps k c p ch l b s)
  then show ?case
    using inv_leaves[of k c p s] sleep_leaves[of c ch l "kst k" b s p] inv_facts(1)[of k c] by simp
next
  case (exits k c p status b s)
  then show ?case using inv_leaves[of k c p s "rp k"] exit_leaves[of c p status "kst k" b s] by simp
next
  case (clock_ticks a k c)
  show ?case using clock_ticks(2) update_temp_calm by (rule inv_calm_stay)
next
  case (temp_races k x)
  have "calm (kst k) ((kst k)\<lparr>cpu_temp := x\<rparr>)" by (simp add: calm_def tame_def warm_ok_def same_cprocs_def kept_def)
  with temp_races show ?case by (rule inv_calm_stay)
next
  case (locks_it k c p l s)
  then show ?case using inv_calm_stay acquire_calm by blast
next
  case (unlocks_it k c p l s)
  then show ?case using inv_unlocks by metis
next
  case (wakes c i ch k s)
  have "calm (kst k) s" using wakes(1)
    by (rule with_lock_calm) (auto intro!: upd_proc_tame simp: wake_one_def split: if_splits)
  with wakes(2) show ?case by (rule inv_calm_stay)
next
  case (kills c i k s)
  have "calm (kst k) s" using kills(1)
    by (rule with_lock_calm) (auto intro!: upd_proc_tame simp: kill_one_def split: if_splits)
  with kills(2) show ?case by (rule inv_calm_stay)
next
  case (sets_killed c i k s)
  have "calm (kst k) s" using sets_killed(1) unfolding setkilled_def
    by (rule with_lock_calm) (auto intro!: upd_proc_tame)
  with sets_killed(2) show ?case by (rule inv_calm_stay)
next
  case (reparents c k i x)
  have "calm (kst k) (upd_proc i (parent_update (\<lambda>_. x)) (kst k))"
    using upd_proc_tame[of "parent_update (\<lambda>_. x)" "kst k" i] by (simp add: calm_def same_cprocs_def kept_def)
  with reparents(2) show ?case by (rule inv_calm_stay)
next
  case (allocates k c p i s1 s)
  then show ?case using inv_allocates[of k c p i s1 s "rp k"] by simp
next
  case (fork_fails k c p i s)
  note r = released[OF fork_fails(2)] and inv = fork_fails(3)
  have m: "making (ph k) (fk k) (ByCpu c) = Some i" using fork_fails(1) by simp
  have "ksys_inv (k\<lparr>kst := s, ph := (ph k)(c := Run p), rp := rp k, fk := fk k\<rparr>)"
  proof (rule inv_child[OF inv, where i = i and p = p])
    show "making (ph k) (fk k) n = Some j" if "making ((ph k)(c := Run p)) (fk k) n = Some j" for n j
      using that by (cases n) (auto split: if_splits)
    show "n = ByCpu c \<and> pstate (procs s i) = USED" if "making ((ph k)(c := Run p)) (fk k) n = Some i" for n
      using that made_by[OF inv m, of n] by (cases n) (auto split: if_splits)
  qed (use fork_fails(1) r released_other[OF fork_fails(2)] inv_facts(5)[OF inv m] in
        \<open>auto simp: runs_def freeproc_reset_def same_cprocs_def held_by_def\<close>)
  then show ?case by simp
next
  case (fork_unlocks k c p i s)
  note r = released[OF fork_unlocks(2)] and inv = fork_unlocks(3)
  have m: "making (ph k) (fk k) (ByCpu c) = Some i" using fork_unlocks(1) by simp
  let ?g = "(fk k)(p := Some (i, False))"
  have "ksys_inv (k\<lparr>kst := s, ph := (ph k)(c := Run p), rp := rp k, fk := ?g\<rparr>)"
  proof (rule inv_child[OF inv, where i = i and p = p])
    show "making (ph k) (fk k) n = Some j" if "j \<noteq> i" "making ((ph k)(c := Run p)) ?g n = Some j" for n j
      using that by (cases n) (auto split: if_splits)
    show "n = ByProc p \<and> pstate (procs s i) = USED" if "making ((ph k)(c := Run p)) ?g n = Some i" for n
      using that made_by[OF inv m, of n] inv_facts(5)[OF inv m] r(1) by (cases n) (auto split: if_splits)
  qed (use fork_unlocks(1) r released_other[OF fork_unlocks(2)] inv_facts(5)[OF inv m] in \<open>auto simp: runs_def\<close>)
  then show ?case by simp
next
  case (fork_adopts k c p i s)
  have "calm (kst k) s" using fork_adopts(3)
    by (rule with_lock_calm) (auto intro!: upd_proc_tame)
  then have "ksys_inv (k\<lparr>kst := s\<rparr>)" using fork_adopts(4) inv_calm_stay by blast
  moreover have "making (ph k) ((fk k)(p := Some (i, True))) = making (ph k) (fk k)"
    by (rule ext, case_tac x) (use fork_adopts(2) in auto)
  ultimately show ?case by (simp add: ksys_inv_def phase_inv_def)
next
  case (fork_done k c p i s)
  note inv = fork_done(4)
  have m: "making (ph k) (fk k) (ByProc p) = Some i" using fork_done(2) by simp
  obtain s1 where s1: "acquire c (ProcLock i) (kst k) = Inr s1"
    "release c (ProcLock i) (upd_proc i (pstate_update (\<lambda>_. RUNNABLE)) s1) = Inr s"
    using fork_done(3) by (auto simp: with_lock_def bindE_eq_Inr)
  note a = acquired[OF s1(1)] and r = released[OF s1(2)]
  have e: "same_cprocs (kst k) s" "kept (kst k) s"
    using section_effect[OF s1(1) _ _ s1(2)] by (simp_all add: same_cprocs_def kept_def)
  let ?g = "(fk k)(p := None)"
  have "ksys_inv (k\<lparr>kst := s, ph := (ph k)(c := Run p), rp := (rp k)(i := AtForkret), fk := ?g\<rparr>)"
  proof (rule inv_child[OF inv, where i = i and p = p])
    show "making (ph k) (fk k) n = Some j" if "making ((ph k)(c := Run p)) ?g n = Some j" for n j
      using that by (cases n) (auto split: if_splits)
    show "n = ByProc p \<and> pstate (procs s i) = USED" if "making ((ph k)(c := Run p)) ?g n = Some i" for n
      using that made_by[OF inv m, of n] by (cases n) (auto split: if_splits)
  qed (use fork_done(1) a(1,2) r(1,2) e inv_facts(5)[OF inv m] in \<open>auto simp: runs_def kept_def held_by_def\<close>)
  moreover have "(ph k)(c := Run p) = ph k" using fork_done(1) by auto
  ultimately show ?case by simp
next
  case (reaps k c p i s1 s)
  then show ?case using inv_calm_stay reap_calm by blast
qed

lemma ksys_init_inv: "ksys_init k \<Longrightarrow> ksys_inv k"
  by (auto simp: ksys_init_def ksys_inv_def phase_inv_def warm_ok_def runs_def MAX_HEAT_def elim!: making.elims)

interpretation sched: invariant ksys_init ksys_step ksys_inv
proof unfold_locales
  show "ksys_init s \<Longrightarrow> ksys_inv s" for s by (rule ksys_init_inv)
  show "ksys_step s t \<Longrightarrow> ksys_inv s \<Longrightarrow> ksys_inv t" for s t by (rule ksys_step_inv)
qed

subsection \<open>Properties\<close>

text \<open>
  C2. A process runs on at most one CPU.  Whatever the interleaving of the scheduler loops of
  all CPUs -- which choose a process without holding its lock and only later switch to it --
  with yields, sleeps, wakeups, kills, forks, exits and waits: no two CPUs ever have the same
  process, and a process is \<open>RUNNING\<close> exactly when some CPU runs it.
\<close>

theorem process_on_one_cpu:
  assumes "reach ksys_init ksys_step k"
  shows "(cproc (cpus (kst k) c) = Some p \<and> cproc (cpus (kst k) d) = Some p \<longrightarrow> c = d) \<and>
    (pstate (procs (kst k) p) = RUNNING \<longleftrightarrow> (\<exists>c. runs (ph k c) = Some p))"
proof -
  from assms have "ksys_inv k" by (rule sched.inv_reach)
  from inv_facts[OF this] show ?thesis by (metis (full_types))
qed

text \<open>The machine after boot: one runnable process.\<close>

definition boot_sys :: ksys where
  "boot_sys = \<lparr>kst = (demo_state 25)\<lparr>procs := (\<lambda>_. demo_proc)(0 := demo_proc\<lparr>pstate := RUNNABLE, pid := 1\<rparr>)\<rparr>,
     ph = (\<lambda>_. STop), rp = (\<lambda>_. AtForkret), fk = (\<lambda>_. None)\<rparr>"

lemma boot_sys_init: "ksys_init boot_sys"
  by (simp add: ksys_init_def boot_sys_def demo_state_def demo_proc_def)

text \<open>A first step of the second CPU leads into its decay loop.\<close>

lemma boot_sys_step: "\<exists>k. reach ksys_init ksys_step k \<and> ph k 1 = SDecay 0 \<and> ph k 0 = STop"
proof -
  have "ksys_step boot_sys (boot_sys\<lparr>kst := round_start 1 (kst boot_sys), ph := (ph boot_sys)(1 := SDecay 0)\<rparr>)"
    by (rule ksys_step.scheduler) (simp add: boot_sys_def demo_state_def round_start_def Let_def machine_defs)
  then have "reach ksys_init ksys_step (boot_sys\<lparr>kst := round_start 1 (kst boot_sys), ph := (ph boot_sys)(1 := SDecay 0)\<rparr>)"
    using reach_step[OF reach_init[of ksys_init, OF boot_sys_init]] by blast
  then show ?thesis by (intro exI[of _ "boot_sys\<lparr>kst := round_start 1 (kst boot_sys), ph := (ph boot_sys)(1 := SDecay 0)\<rparr>"])
      (simp add: boot_sys_def)
qed

theorem process_on_one_cpu_witness:
  "\<exists>k. reach ksys_init ksys_step k \<and> ph k 1 = SDecay 0 \<and>
    (cproc (cpus (kst k) 0) = Some 0 \<and> cproc (cpus (kst k) 1) = Some 0 \<longrightarrow> (0::nat) = 1) \<and>
    (pstate (procs (kst k) 0) = RUNNING \<longleftrightarrow> (\<exists>c. runs (ph k c) = Some 0))"
  using boot_sys_step process_on_one_cpu[of _ 0 0 1] by blast

text \<open>
  C20. Heat and temperature keep to their ranges.  In every reachable state of the machine every heat
  score is between 0 and 100.  The temperature, which all CPUs change without a lock, is between 20 and
  100 whenever no CPU is in the middle of \<open>update_cpu_temp\<close>, however the loads and stores of the calls
  have interleaved.
\<close>

theorem heat_and_temperature_bounded:
  "(reach ksys_init ksys_step k \<longrightarrow> 0 \<le> heat (procs (kst k) i) \<and> heat (procs (kst k) i) \<le> MAX_HEAT) \<and>
   (reach temp_init temp_step m \<and> (\<forall>c. tpc m c = TOut) \<longrightarrow> 20 \<le> tcell m \<and> tcell m \<le> 100)"
  using sched.inv_reach[of k] temps.inv_reach[of m] inv_facts(7)[of k] temp_settled[of m] by (auto simp: warm_ok_def)

text \<open>Two CPUs that cool at the same time: one update is lost, and the temperature is in range.\<close>

lemma two_cool: "\<exists>m. reach temp_init temp_step m \<and> (\<forall>c. tpc m c = TOut) \<and> tcell m = 24"
proof -
  let ?R = "reach temp_init temp_step"
  define m where "m = (\<lambda>t a b. \<lparr>tcell = t, tpc = (\<lambda>_. TOut)(0 := a, Suc 0 := b)\<rparr>)"
  have "?R (m 25 TOut TOut)" by (rule reach_init) (simp add: temp_init_def m_def)
  from reach_step[OF this cools[of _ 0]] have "?R (m 25 (TAdd (- 1)) TOut)" by (simp add: m_def tgoto_def fun_upd_twist)
  from reach_step[OF this cools[of _ "Suc 0"]] have "?R (m 25 (TAdd (- 1)) (TAdd (- 1)))" by (simp add: m_def tgoto_def)
  from reach_step[OF this loads[of _ 0 "- 1"]] have "?R (m 25 (TPut 24) (TAdd (- 1)))" by (simp add: m_def tgoto_def fun_upd_twist)
  from reach_step[OF this loads[of _ "Suc 0" "- 1"]] have "?R (m 25 (TPut 24) (TPut 24))" by (simp add: m_def tgoto_def)
  from reach_step[OF this puts_clamped[of _ 0 24]] have "?R (m 24 TOut (TPut 24))"
    by (simp add: m_def tgoto_def fun_upd_twist clamp_temp_def)
  from reach_step[OF this puts_clamped[of _ "Suc 0" 24]] have "?R (m 24 TOut TOut)"
    by (simp add: m_def tgoto_def fun_upd_twist clamp_temp_def)
  then show ?thesis by (intro exI[of _ "m 24 TOut TOut"]) (simp add: m_def)
qed

theorem heat_and_temperature_bounded_witness:
  "(\<exists>k. reach ksys_init ksys_step k \<and> 0 \<le> heat (procs (kst k) 0) \<and> heat (procs (kst k) 0) \<le> MAX_HEAT) \<and>
   (\<exists>m. reach temp_init temp_step m \<and> tcell m = 24 \<and> 20 \<le> tcell m \<and> tcell m \<le> 100)"
  using boot_sys_step two_cool heat_and_temperature_bounded[of _ 0] by blast

end
