(* ===== verification/Memory.thy ===== *)
theory Memory
  imports CString
begin

unbundle bit_operations_syntax

text \<open>
  Physical memory as the kernel sees it through its direct map: a total function from addresses
  to bytes (\<open>bytemem\<close>), with the 64-bit loads and stores of the RISC-V ISA (little-endian), and
  the page constants and macros of \<^verbatim>\<open>kernel/riscv.h\<close> and \<^verbatim>\<open>kernel/memlayout.h\<close>.
\<close>

definition PGSIZE :: uint64 where "PGSIZE = 4096"

definition PGROUNDUP :: "uint64 \<Rightarrow> uint64" where
  "PGROUNDUP sz = (sz + PGSIZE - 1) AND NOT (PGSIZE - 1)"

definition PGROUNDDOWN :: "uint64 \<Rightarrow> uint64" where
  "PGROUNDDOWN a = a AND NOT (PGSIZE - 1)"

definition KERNBASE :: uint64 where "KERNBASE = 0x80000000"
definition PHYSTOP :: uint64 where "PHYSTOP = KERNBASE + 128 * 1024 * 1024"
definition MAXVA :: uint64 where "MAXVA = 0x4000000000"

text \<open>\<^verbatim>\<open>end\<close>, the first address after the kernel image, as the linker placed it.\<close>

definition kend :: uint64 where "kend = 0x80024f68"

definition load64 :: "bytemem \<Rightarrow> uint64 \<Rightarrow> uint64" where
  "load64 m a = foldr (\<lambda>i w. ucast (m (a + of_nat i)) OR push_bit 8 w) [0..<8] 0"

definition store64 :: "uint64 \<Rightarrow> uint64 \<Rightarrow> bytemem \<Rightarrow> bytemem" where
  "store64 a v m = (\<lambda>x. if unat (x - a) < 8 then ucast (drop_bit (8 * unat (x - a)) v) else m x)"

text \<open>The bytes of a buffer in memory, and writing a buffer.\<close>

fun load_bytes :: "bytemem \<Rightarrow> uint64 \<Rightarrow> nat \<Rightarrow> uint8 list" where
  "load_bytes m a 0 = []"
| "load_bytes m a (Suc n) = m a # load_bytes m (a + 1) n"

fun store_bytes :: "uint64 \<Rightarrow> uint8 list \<Rightarrow> bytemem \<Rightarrow> bytemem" where
  "store_bytes a [] m = m"
| "store_bytes a (x # xs) m = store_bytes (a + 1) xs (m(a := x))"

text \<open>The addresses of the page that starts at \<open>p\<close>.\<close>

definition in_page :: "uint64 \<Rightarrow> uint64 \<Rightarrow> bool" where
  "in_page p a = (a - p < PGSIZE)"

definition page_aligned :: "uint64 \<Rightarrow> bool" where
  "page_aligned a = (a mod PGSIZE = 0)"


subsection \<open>Loads and stores\<close>

lemma bit_bytes_fold:
  fixes f :: "nat \<Rightarrow> uint8"
  assumes "k < 64"
  shows "bit (foldr (\<lambda>i (w::uint64). ucast (f i) OR push_bit 8 w) [s..<s + n] 0) k
    \<longleftrightarrow> k < 8 * n \<and> bit (f (s + k div 8)) (k mod 8)"
  using assms
proof (induction n arbitrary: s k)
  case (Suc n)
  have up: "[s..<s + Suc n] = s # [Suc s..<Suc s + n]" by (simp add: upt_conv_Cons)
  show ?case
  proof (cases "k < 8")
    case True
    then show ?thesis unfolding up using Suc.prems by (simp add: bit_simps)
  next
    case False
    then have "\<not> bit (f s) k" using bit_imp_le_length[of "f s" k] by auto
    then show ?thesis
      unfolding up using False Suc.prems Suc.IH[of "k - 8" "Suc s"]
      by (auto simp: bit_simps le_div_geq le_mod_geq less_diff_conv)
  qed
qed simp

lemma bit_load64: "k < 64 \<Longrightarrow> bit (load64 m a) k = bit (m (a + of_nat (k div 8))) (k mod 8)"
  using bit_bytes_fold[of k "\<lambda>i. m (a + of_nat i)" 0 8] by (simp add: load64_def)

lemma unat_small [simp]: "i < 4096 \<Longrightarrow> unat (of_nat i :: uint64) = i"
  by (simp add: unat_of_nat take_bit_nat_eq_self)

lemma load64_store64 [simp]: "load64 (store64 a v m) a = v"
proof (rule bit_word_eqI)
  fix k assume "k < LENGTH(64)"
  then have k: "k < 64" "k div 8 < 8" by simp_all
  then have "bit (load64 (store64 a v m) a) k = bit (ucast (drop_bit (8 * (k div 8)) v) :: uint8) (k mod 8)"
    by (simp add: bit_load64 store64_def)
  also have "\<dots> = bit v (8 * (k div 8) + k mod 8)"
    by (simp add: bit_simps)
  finally show "bit (load64 (store64 a v m) a) k = bit v k" by simp
qed

lemma load64_cong: "(\<And>i. i < 8 \<Longrightarrow> m (a + of_nat i) = m' (a + of_nat i)) \<Longrightarrow> load64 m a = load64 m' a"
  unfolding load64_def by (intro foldr_cong) auto

lemma store64_other: "8 \<le> x - a \<Longrightarrow> store64 a v m x = m x"
  by (simp add: store64_def word_le_nat_alt)

lemma unat_add_mod: "k dvd 2 ^ 64 \<Longrightarrow> unat (a + b :: uint64) mod k = (unat a + unat b) mod k"
  by (simp add: unat_word_ariths(1) mod_mod_cancel)

lemma offset_mod:
  assumes "k dvd 2 ^ 64" and "unat (p :: uint64) mod k = 0" and "i < 4096"
  shows "unat (p + of_nat i) mod k = i mod k"
proof -
  have "unat (p + of_nat i) mod k = (unat p mod k + i) mod k"
    using assms(1,3) by (simp add: unat_add_mod mod_add_left_eq)
  then show ?thesis using assms(2) by simp
qed

lemma unat_numeral_8: "unat (8 :: uint64) = 8"
  by simp

text \<open>Two aligned words are the same or apart.\<close>

lemma load64_store64_other:
  assumes "a mod 8 = 0" and "b mod 8 = 0" and "a \<noteq> b"
  shows "load64 (store64 a v m) b = load64 m b"
proof (rule load64_cong, rule store64_other, rule ccontr)
  fix i :: nat
  assume i: "i < 8" and "\<not> 8 \<le> b + of_nat i - a"
  define j where "j = unat (b + of_nat i - a)"
  then have j: "j < 8" using \<open>\<not> 8 \<le> b + of_nat i - a\<close> by (simp add: word_le_nat_alt)
  have "b + of_nat i = a + of_nat j" by (simp add: j_def)
  then have "unat (b + of_nat i) mod 8 = unat (a + of_nat j) mod 8" by simp
  moreover have "unat a mod 8 = 0" "unat b mod 8 = 0"
    using assms(1,2) by (metis unat_0 unat_mod unat_numeral_8)+
  ultimately have "i = j" using i j offset_mod[of 8 b i] offset_mod[of 8 a j] by simp
  with \<open>b + of_nat i = a + of_nat j\<close> assms(3) show False by simp
qed


subsection \<open>Pages\<close>

lemma page_aligned_unat: "page_aligned p \<longleftrightarrow> unat p mod 4096 = 0"
  by (simp add: page_aligned_def PGSIZE_def word_unat_eq_iff unat_mod)

lemma page_aligned_8: "page_aligned p \<Longrightarrow> unat p mod 8 = 0"
proof -
  assume "page_aligned p"
  then have "unat p mod 4096 mod 8 = 0" by (simp add: page_aligned_unat)
  then show ?thesis by (simp add: mod_mod_cancel)
qed

lemma in_page_ex: "in_page p a \<longleftrightarrow> (\<exists>i<4096. a = p + of_nat i)"
proof
  assume "in_page p a"
  then have "unat (a - p) < 4096" "a = p + of_nat (unat (a - p))" by (simp_all add: in_page_def PGSIZE_def word_less_nat_alt)
  then show "\<exists>i<4096. a = p + of_nat i" by blast
next
  assume "\<exists>i<4096. a = p + of_nat i"
  then show "in_page p a" by (auto simp: in_page_def PGSIZE_def word_less_nat_alt)
qed

lemma pages_disjoint:
  assumes "page_aligned p" and "page_aligned q" and "in_page p a" and "in_page q a"
  shows "p = q"
proof -
  obtain i j where i: "i < 4096" "a = p + of_nat i" and j: "j < 4096" "a = q + of_nat j"
    using assms(3,4) by (auto simp: in_page_ex)
  then have "unat (p + of_nat i) mod 4096 = unat (q + of_nat j) mod 4096" by simp
  then have "i = j"
    using assms(1,2) i(1) j(1) offset_mod[of 4096 p i] offset_mod[of 4096 q j] by (simp add: page_aligned_unat)
  then show ?thesis using i j by simp
qed

lemma aligned_word_in_page:
  assumes "page_aligned p" and "in_page p a" and "unat a mod 8 = 0" and "i < 8"
  shows "in_page p (a + of_nat i)"
proof -
  obtain k where k: "k < 4096" "a = p + of_nat k" using assms(2) by (auto simp: in_page_ex)
  have "unat a mod 8 = k mod 8"
    using k page_aligned_8[OF assms(1)] offset_mod[of 8 p k] by simp
  then have "k mod 8 = 0" using assms(3) by simp
  then have "k + i < 4096" using k(1) assms(4) by presburger
  then show ?thesis using k by (auto simp: in_page_ex intro!: exI[of _ "k + i"])
qed

lemma PGROUNDDOWN_eq: "PGROUNDDOWN a = a - a mod PGSIZE"
proof -
  have m: "(4095 :: uint64) = mask 12" by (simp add: mask_eq_exp_minus_1)
  have "(a AND mask 12) + (a AND NOT (mask 12)) = (a AND mask 12) OR (a AND NOT (mask 12))"
    by (rule disjunctive_add) (simp add: bit_simps)
  also have "\<dots> = a" by (rule bit_word_eqI) (auto simp: bit_simps)
  finally have "(a AND mask 12) + (a AND NOT (mask 12)) = a" .
  moreover have "a AND mask 12 = a mod PGSIZE" by (simp add: PGSIZE_def take_bit_eq_mask[symmetric] take_bit_eq_mod)
  ultimately have "a AND NOT (mask 12) = a - a mod PGSIZE" by (metis add_diff_cancel_left')
  then show ?thesis unfolding PGROUNDDOWN_def by (simp add: PGSIZE_def m)
qed

lemma PGROUNDDOWN_unat: "unat (PGROUNDDOWN a) = unat a - unat a mod 4096"
proof -
  have "a mod PGSIZE \<le> a" by (simp add: word_le_nat_alt unat_mod)
  then show ?thesis by (simp add: PGROUNDDOWN_eq unat_sub unat_mod PGSIZE_def)
qed

lemma PGROUNDDOWN_aligned [simp]: "page_aligned (PGROUNDDOWN a)"
  by (simp add: page_aligned_unat PGROUNDDOWN_unat minus_mod_eq_div_mult)

lemma PGROUNDDOWN_page: "in_page (PGROUNDDOWN a) a"
  by (simp add: in_page_def PGROUNDDOWN_eq PGSIZE_def word_less_nat_alt unat_mod)

lemma PGROUNDUP_unat:
  assumes "unat sz \<le> 2 ^ 64 - 4096"
  shows "unat (PGROUNDUP sz) = (unat sz + 4095) div 4096 * 4096"
proof -
  have "unat (sz + PGSIZE - 1) = unat (sz + 4095)" by (simp add: PGSIZE_def add.commute)
  also have "\<dots> = unat sz + 4095" using assms by (subst unat_add_lem[THEN iffD1]) simp_all
  finally have "unat (PGROUNDUP sz) = unat sz + 4095 - (unat sz + 4095) mod 4096"
    using PGROUNDDOWN_unat[of "sz + PGSIZE - 1"] by (simp add: PGROUNDUP_def PGROUNDDOWN_def)
  then show ?thesis by (simp add: minus_mod_eq_div_mult)
qed

text \<open>Pages filled by \<open>memset\<close>.\<close>

lemma memset_page:
  assumes "unat p + 4096 \<le> 2 ^ 64"
  shows "memset p x 4096 m a = (if in_page p a then x else m a)"
proof -
  have "in_range p 4096 a \<longleftrightarrow> in_page p a"
  proof
    assume "in_range p 4096 a"
    then have "p \<le> a" "unat a < unat p + 4096" by (simp_all add: in_range_def word_le_nat_alt)
    then show "in_page p a" by (simp add: in_page_def PGSIZE_def word_less_nat_alt unat_sub)
  next
    assume "in_page p a"
    then obtain i where i: "i < 4096" "a = p + of_nat i" by (auto simp: in_page_ex)
    then have "unat a = unat p + i" using assms by (simp add: unat_plus_of_nat)
    then show "in_range p 4096 a" using i by (simp add: in_range_def)
  qed
  then show ?thesis using assms by (simp add: memset_spec)
qed

end
