(* ===== verification/Kalloc.thy ===== *)
theory Kalloc
  imports ProcTable Memory
begin

text \<open>
  The physical page allocator, \<^verbatim>\<open>kernel/kalloc.c\<close>.

  \<open>kmem\<close> extends the kernel state by the physical memory and the head of the free list.  The
  list lives in the free pages themselves: the first eight bytes of a free page hold the
  address of the next one.  \<open>free_pages s ps\<close> reads it back as a list of pages.
\<close>

record kmem = ptable +
  ram :: bytemem
  freelist :: uint64

definition kfree :: "nat \<Rightarrow> uint64 \<Rightarrow> 'a kmem_scheme \<Rightarrow> 'a kmem_scheme res" where
  "kfree c pa s =
     (if pa mod PGSIZE \<noteq> 0 \<or> pa < kend \<or> pa \<ge> PHYSTOP then Inl (Panic ''kfree'')
      else let s = s\<lparr>ram := memset pa 1 4096 (ram s)\<rparr>
           in with_lock c KmemLock (\<lambda>s. s\<lparr>ram := store64 pa (freelist s) (ram s), freelist := pa\<rparr>) s)"

definition kalloc :: "nat \<Rightarrow> 'a kmem_scheme \<Rightarrow> (uint64 \<times> 'a kmem_scheme) res" where
  "kalloc c s =
     bindE (with_lock_ret c KmemLock (\<lambda>s. let r = freelist s in
              (r, if r \<noteq> 0 then s\<lparr>freelist := load64 (ram s) r\<rparr> else s)) s) (\<lambda>(r, s).
     Inr (r, if r \<noteq> 0 then s\<lparr>ram := memset r 5 4096 (ram s)\<rparr> else s))"

lemma kfree_Inr: "kfree c pa s = Inr s' \<Longrightarrow> pa < PHYSTOP"
  by (auto simp: kfree_def split: if_splits)

function freerange_loop :: "nat \<Rightarrow> uint64 \<Rightarrow> uint64 \<Rightarrow> 'a kmem_scheme \<Rightarrow> 'a kmem_scheme res" where
  "freerange_loop c p pa_end s =
     (if p + PGSIZE \<le> pa_end then bindE (kfree c p s) (freerange_loop c (p + PGSIZE) pa_end) else Inr s)"
  by pat_completeness auto
termination
proof (relation "measure (\<lambda>(c, p, pa_end, s). unat PHYSTOP - unat p)", goal_cases)
  case (2 c p pa_end s s')
  then have "p < PHYSTOP" using kfree_Inr by blast
  then have "unat p < unat PHYSTOP" "unat PHYSTOP = 2281701376"
    by (simp_all add: word_less_nat_alt PHYSTOP_def KERNBASE_def)
  moreover from this have "unat (p + PGSIZE) = unat p + 4096"
    by (subst unat_add_lem[THEN iffD1]) (simp_all add: PGSIZE_def)
  ultimately show ?case by simp
qed simp

declare freerange_loop.simps [simp del]

definition freerange :: "nat \<Rightarrow> uint64 \<Rightarrow> uint64 \<Rightarrow> 'a kmem_scheme \<Rightarrow> 'a kmem_scheme res" where
  "freerange c pa_start pa_end s = freerange_loop c (PGROUNDUP pa_start) pa_end s"

definition kinit :: "nat \<Rightarrow> 'a kmem_scheme \<Rightarrow> 'a kmem_scheme res" where
  "kinit c s = freerange c kend PHYSTOP (initlock KmemLock ''kmem'' s)"

subsection \<open>The free list\<close>

fun chain :: "bytemem \<Rightarrow> uint64 \<Rightarrow> uint64 list \<Rightarrow> bool" where
  "chain m p [] = (p = 0)"
| "chain m p (q # qs) = (p = q \<and> chain m (load64 m q) qs)"

definition page_ok :: "uint64 \<Rightarrow> bool" where
  "page_ok p = (page_aligned p \<and> kend \<le> p \<and> p < PHYSTOP)"

definition free_pages :: "'a kmem_scheme \<Rightarrow> uint64 list \<Rightarrow> bool" where
  "free_pages s ps = (chain (ram s) (freelist s) ps \<and> distinct ps \<and> list_all page_ok ps)"

definition kmem_ok :: "nat \<Rightarrow> 'a kmem_scheme \<Rightarrow> uint64 list \<Rightarrow> bool" where
  "kmem_ok c s ps = (free_pages s ps \<and> lock_free KmemLock s \<and> cpu_sane c s)"

subsection \<open>Facts on the free list\<close>

lemma page_ok_bounds:
  assumes "page_ok p"
  shows "page_aligned p" "unat p + 4096 \<le> 2 ^ 64" "p \<noteq> 0" "unat p mod 8 = 0"
proof -
  have "p < PHYSTOP" "kend \<le> p" using assms by (simp_all add: page_ok_def)
  then have b: "unat p < 2281701376" "2147635048 \<le> unat p"
    by (simp_all add: word_less_nat_alt word_le_nat_alt PHYSTOP_def KERNBASE_def kend_def)
  show "page_aligned p" using assms by (simp add: page_ok_def)
  then show "unat p mod 8 = 0" by (rule page_aligned_8)
  show "unat p + 4096 \<le> 2 ^ 64" using b by simp
  show "p \<noteq> 0" using b by auto
qed

lemma page_ok_iff: "page_ok p \<longleftrightarrow> \<not> (p mod PGSIZE \<noteq> 0 \<or> p < kend \<or> p \<ge> PHYSTOP)"
  unfolding page_ok_def page_aligned_def by (simp add: not_le not_less)

lemma page_ok_disjoint: "page_ok p \<Longrightarrow> page_ok q \<Longrightarrow> q \<noteq> p \<Longrightarrow> in_page q a \<Longrightarrow> \<not> in_page p a"
  using pages_disjoint page_ok_bounds(1) by blast

lemma in_page_off: "i < 4096 \<Longrightarrow> in_page p (p + of_nat i)"
  unfolding in_page_ex by blast

lemma not_in_page_8: "\<not> in_page p a \<Longrightarrow> 8 \<le> a - p"
  by (simp add: in_page_def PGSIZE_def word_le_nat_alt word_less_nat_alt)

lemma chain_cong:
  assumes "chain m p ps" and "\<And>q a. q \<in> set ps \<Longrightarrow> in_page q a \<Longrightarrow> m' a = m a" and "list_all page_ok ps"
  shows "chain m' p ps"
  using assms
proof (induction ps arbitrary: p)
  case (Cons q qs)
  have "load64 m' q = load64 m q"
  proof (rule load64_cong)
    fix i :: nat assume "i < 8"
    then have "in_page q (q + of_nat i)" by (intro in_page_off) simp
    then show "m' (q + of_nat i) = m (q + of_nat i)" using Cons.prems(2)[of q] by simp
  qed
  moreover have "chain m' (load64 m q) qs"
  proof (rule Cons.IH)
    show "m' a = m a" if "r \<in> set qs" "in_page r a" for r a using Cons.prems(2)[of r a] that by simp
  qed (use Cons.prems(1,3) in simp_all)
  ultimately show ?case using Cons.prems(1) by simp
qed simp

lemma free_pages_nonzero: "free_pages s (p # ps) \<Longrightarrow> freelist s = p \<and> p \<noteq> 0 \<and> page_ok p"
  using page_ok_bounds(3) by (simp add: free_pages_def)

lemma free_pages_Nil: "free_pages s [] \<longleftrightarrow> freelist s = 0"
  by (simp add: free_pages_def)

lemma kalloc_empty:
  assumes "kmem_ok c s []"
  shows "kalloc c s = Inr (0, settle c s)"
proof -
  have z: "freelist s = 0" "lock_free KmemLock s" "cpu_sane c s"
    using assms by (simp_all add: kmem_ok_def free_pages_Nil)
  have "freelist (settle c s) = 0" using z by (simp add: settle_def upd_cpu_def)
  then show ?thesis
    unfolding kalloc_def using z
    by (subst with_lock_ret_ok) (simp_all add: Let_def lockless_def)
qed

lemma kalloc_cons:
  assumes "kmem_ok c s (p # ps)"
  shows "kalloc c s = Inr (p, (settle c s)\<lparr>freelist := load64 (ram s) p, ram := memset p 5 4096 (ram s)\<rparr>)"
proof -
  have z: "freelist s = p" "p \<noteq> 0" "lock_free KmemLock s" "cpu_sane c s"
    using assms free_pages_nonzero by (auto simp: kmem_ok_def)
  have "freelist (settle c s) = p" "ram (settle c s) = ram s" using z by (simp_all add: settle_def upd_cpu_def)
  then show ?thesis
    unfolding kalloc_def using z
    by (subst with_lock_ret_ok) (simp_all add: Let_def lockless_def)
qed

lemma kfree_eq:
  assumes "page_ok p" and "lock_free KmemLock s" and "cpu_sane c s"
  shows "kfree c p s = Inr ((settle c s)\<lparr>ram := store64 p (freelist s) (memset p 1 4096 (ram s)), freelist := p\<rparr>)"
proof -
  let ?s = "s\<lparr>ram := memset p 1 4096 (ram s)\<rparr>"
  have "with_lock c KmemLock (\<lambda>s. s\<lparr>ram := store64 p (freelist s) (ram s), freelist := p\<rparr>) ?s
     = Inr ((\<lambda>s. s\<lparr>ram := store64 p (freelist s) (ram s), freelist := p\<rparr>) (settle c ?s))"
    using assms by (intro with_lock_ok) (simp_all add: lock_free_def cpu_sane_def lockless_def)
  also have "settle c ?s = (settle c s)\<lparr>ram := memset p 1 4096 (ram s)\<rparr>"
    by (simp add: settle_def upd_cpu_def)
  finally have w: "with_lock c KmemLock (\<lambda>s. s\<lparr>ram := store64 p (freelist s) (ram s), freelist := p\<rparr>) ?s
     = Inr ((settle c s)\<lparr>ram := store64 p (freelist s) (memset p 1 4096 (ram s)), freelist := p\<rparr>)"
    by (simp add: settle_def upd_cpu_def)
  have "p mod PGSIZE = 0" "\<not> p < kend" "\<not> PHYSTOP \<le> p"
    using assms(1) by (simp_all add: page_ok_iff)
  then show ?thesis using w by (simp add: kfree_def Let_def)
qed

lemma kfree_bad: "\<not> page_ok p \<Longrightarrow> kfree c p s = Inl (Panic ''kfree'')"
  by (simp add: kfree_def page_ok_iff)

lemma kmem_ok_frame:
  "kmem_ok c (settle c s) ps = kmem_ok c s ps"
  by (simp add: kmem_ok_def free_pages_def settle_def upd_cpu_def lock_free_def cpu_sane_def)

lemma alloc_keeps:
  assumes "kmem_ok c s (p # ps)"
  shows "kmem_ok c ((settle c s)\<lparr>freelist := load64 (ram s) p, ram := memset p 5 4096 (ram s)\<rparr>) ps"
proof -
  have f: "chain (ram s) (load64 (ram s) p) ps" "distinct (p # ps)" "list_all page_ok (p # ps)"
    using assms by (simp_all add: kmem_ok_def free_pages_def)
  have "chain (memset p 5 4096 (ram s)) (load64 (ram s) p) ps"
  proof (rule chain_cong[OF f(1)])
    fix q a assume q: "q \<in> set ps" "in_page q a"
    then have "q \<noteq> p" "page_ok q" using f by (auto simp: list_all_iff)
    then have "\<not> in_page p a" using q(2) f(3) page_ok_disjoint by auto
    then show "memset p 5 4096 (ram s) a = ram s a" using f(3) page_ok_bounds(2)[of p] by (simp add: memset_page)
  qed (use f in simp)
  then show ?thesis
    using assms f by (simp add: kmem_ok_def free_pages_def lock_free_def cpu_sane_def frame_simps)
qed

lemma free_keeps:
  assumes "kmem_ok c s ps" and "page_ok p" and "p \<notin> set ps"
  shows "kmem_ok c ((settle c s)\<lparr>ram := store64 p (freelist s) (memset p 1 4096 (ram s)), freelist := p\<rparr>) (p # ps)"
proof -
  let ?m = "store64 p (freelist s) (memset p 1 4096 (ram s))"
  have f: "chain (ram s) (freelist s) ps" "distinct ps" "list_all page_ok ps"
    using assms(1) by (simp_all add: kmem_ok_def free_pages_def)
  have "chain ?m (freelist s) ps"
  proof (rule chain_cong[OF f(1) _ f(3)])
    fix q a assume q: "q \<in> set ps" "in_page q a"
    then have "q \<noteq> p" "page_ok q" using f assms(3) by (auto simp: list_all_iff)
    then have np: "\<not> in_page p a" using q(2) assms(2) page_ok_disjoint by blast
    then have "8 \<le> a - p" by (rule not_in_page_8)
    then show "?m a = ram s a"
      using np page_ok_bounds(2)[OF assms(2)] by (simp add: store64_other memset_page)
  qed
  then show ?thesis
    using assms f by (simp add: kmem_ok_def free_pages_def lock_free_def cpu_sane_def frame_simps)
qed

subsection \<open>The allocator interface\<close>

text \<open>
  What the rest of the kernel relies on.  An allocation takes the first page of the list, or
  returns 0 if there is none; freeing a page that is not free puts it in front; neither touches
  memory outside that page.
\<close>

locale allocator =
  fixes alloc :: "'s \<Rightarrow> (uint64 \<times> 's) res" and dealloc :: "uint64 \<Rightarrow> 's \<Rightarrow> 's res"
    and avail :: "'s \<Rightarrow> uint64 list \<Rightarrow> bool" and contents :: "'s \<Rightarrow> bytemem"
  assumes avail_ok: "avail s ps \<Longrightarrow> distinct ps \<and> list_all page_ok ps"
    and alloc_none: "avail s [] \<Longrightarrow> \<exists>s'. alloc s = Inr (0, s') \<and> avail s' [] \<and> contents s' = contents s"
    and alloc_first: "avail s (p # ps) \<Longrightarrow> \<exists>s'. alloc s = Inr (p, s') \<and> avail s' ps \<and>
      (\<forall>a. contents s' a = (if in_page p a then 5 else contents s a))"
    and dealloc_first: "avail s ps \<Longrightarrow> page_ok p \<Longrightarrow> p \<notin> set ps \<Longrightarrow> \<exists>s'. dealloc p s = Inr s' \<and> avail s' (p # ps) \<and>
      (\<forall>a. \<not> in_page p a \<longrightarrow> contents s' a = contents s a)"
begin

lemma alloc_total: "avail s ps \<Longrightarrow> \<exists>p s'. alloc s = Inr (p, s') \<and> (p = 0 \<longleftrightarrow> ps = [])"
  using alloc_none alloc_first avail_ok page_ok_bounds(3) by (cases ps) fastforce+

lemma alloc_dealloc:
  assumes "avail s (p # ps)" and "alloc s = Inr (p, s1)"
  shows "\<exists>s2. dealloc p s1 = Inr s2 \<and> avail s2 (p # ps) \<and> (\<forall>a. \<not> in_page p a \<longrightarrow> contents s2 a = contents s a)"
proof -
  have ok: "page_ok p" "p \<notin> set ps" using avail_ok[OF assms(1)] by simp_all
  have s1: "avail s1 ps" "\<And>a. \<not> in_page p a \<Longrightarrow> contents s1 a = contents s a"
    using alloc_first[OF assms(1)] assms(2) by auto
  from dealloc_first[OF s1(1) ok] s1(2) show ?thesis by auto
qed

text \<open>Allocating a number of pages in a row gives as many different pages.\<close>

lemma alloc_many:
  "avail s ps \<Longrightarrow> n \<le> length ps \<Longrightarrow>
    \<exists>s'. for_each (\<lambda>_ (got, s). bindE (alloc s) (\<lambda>(p, s). Inr (got @ [p], s))) [0..<n] ([], s) = Inr (take n ps, s')
      \<and> avail s' (drop n ps)"
proof (induction n)
  case (Suc n)
  then obtain s1 where s1: "for_each (\<lambda>_ (got, s). bindE (alloc s) (\<lambda>(p, s). Inr (got @ [p], s))) [0..<n] ([], s) = Inr (take n ps, s1)"
    "avail s1 (drop n ps)" by auto
  have d: "drop n ps = ps ! n # drop (Suc n) ps" using Suc.prems(2) by (simp add: Cons_nth_drop_Suc)
  obtain s2 where "alloc s1 = Inr (ps ! n, s2)" "avail s2 (drop (Suc n) ps)"
    using alloc_first[of s1 "ps ! n" "drop (Suc n) ps"] s1(2) d by auto
  then show ?case using s1(1) Suc.prems(2) by (auto simp: take_Suc_conv_app_nth)
qed auto

end

interpretation pages: allocator "kalloc c" "kfree c" "kmem_ok c" ram for c
proof unfold_locales
  fix s :: "'a kmem_scheme" and p ps
  show "kmem_ok c s ps \<Longrightarrow> distinct ps \<and> list_all page_ok ps" by (simp add: kmem_ok_def free_pages_def)
  show "kmem_ok c s [] \<Longrightarrow> \<exists>s'. kalloc c s = Inr (0, s') \<and> kmem_ok c s' [] \<and> ram s' = ram s"
    by (simp add: kalloc_empty kmem_ok_frame) (simp add: settle_def upd_cpu_def)
  show "\<exists>s'. kalloc c s = Inr (p, s') \<and> kmem_ok c s' ps \<and> (\<forall>a. ram s' a = (if in_page p a then 5 else ram s a))"
    if k: "kmem_ok c s (p # ps)"
  proof -
    have "unat p + 4096 \<le> 2 ^ 64" using k page_ok_bounds(2) by (simp add: kmem_ok_def free_pages_def)
    then show ?thesis using kalloc_cons[OF k] alloc_keeps[OF k] by (simp add: memset_page)
  qed
  show "\<exists>s'. kfree c p s = Inr s' \<and> kmem_ok c s' (p # ps) \<and> (\<forall>a. \<not> in_page p a \<longrightarrow> ram s' a = ram s a)"
    if k: "kmem_ok c s ps" "page_ok p" "p \<notin> set ps"
  proof -
    have "store64 p v (memset p 1 4096 m) a = m a" if "\<not> in_page p a" for v m a
    proof -
      show ?thesis using that not_in_page_8[OF that] page_ok_bounds(2)[OF k(2)] by (simp add: store64_other memset_page)
    qed
    then have "ram ((settle c s)\<lparr>ram := store64 p (freelist s) (memset p 1 4096 (ram s)), freelist := p\<rparr>) a = ram s a"
      if "\<not> in_page p a" for a using that by simp
    moreover have "lock_free KmemLock s" "cpu_sane c s" using k(1) by (simp_all add: kmem_ok_def)
    ultimately show ?thesis using kfree_eq[OF k(2), of s c] free_keeps[OF k] by blast
  qed
qed

subsection \<open>Initialisation\<close>

lemma PHYSTOP_unat: "unat PHYSTOP = 2281701376"
  by (simp add: PHYSTOP_def KERNBASE_def)

lemma freerange_loop_spec:
  assumes "unat p + 4096 * n = unat PHYSTOP" and "page_aligned p" and "kend \<le> p" and "kmem_ok c s ps"
    and "\<forall>q \<in> set ps. q < p"
  shows "\<exists>s'. freerange_loop c p PHYSTOP s = Inr s' \<and>
    kmem_ok c s' (rev (map (\<lambda>i. p + of_nat (4096 * i)) [0..<n]) @ ps)"
  using assms
proof (induction n arbitrary: p s ps)
  case 0
  then have "p = PHYSTOP" by (simp add: word_unat_eq_iff)
  then have "\<not> p + PGSIZE \<le> PHYSTOP" by (simp add: PHYSTOP_def KERNBASE_def PGSIZE_def)
  then show ?case using 0 by (simp add: freerange_loop.simps)
next
  case (Suc n)
  have u: "unat (p + PGSIZE) = unat p + 4096"
    using Suc.prems(1) by (subst unat_add_lem[THEN iffD1]) (simp_all add: PGSIZE_def PHYSTOP_unat)
  have lt: "p < PHYSTOP" using Suc.prems(1) by (simp add: word_less_nat_alt)
  have ok: "page_ok p" using Suc.prems(2,3) lt by (simp add: page_ok_def)
  have np: "p \<notin> set ps" using Suc.prems(5) by auto
  obtain s1 where s1: "kfree c p s = Inr s1" "kmem_ok c s1 (p # ps)"
    using pages.dealloc_first[OF Suc.prems(4) ok np] by blast
  have "\<exists>s'. freerange_loop c (p + PGSIZE) PHYSTOP s1 = Inr s' \<and>
    kmem_ok c s' (rev (map (\<lambda>i. p + PGSIZE + of_nat (4096 * i)) [0..<n]) @ p # ps)"
  proof (rule Suc.IH[OF _ _ _ s1(2)])
    show "unat (p + PGSIZE) + 4096 * n = unat PHYSTOP" using Suc.prems(1) u by simp
    show "page_aligned (p + PGSIZE)" using Suc.prems(2) u by (simp add: page_aligned_unat)
    show "kend \<le> p + PGSIZE" using Suc.prems(3) u by (simp add: word_le_nat_alt)
    have "p < p + PGSIZE" using u by (simp add: word_less_nat_alt)
    then show "\<forall>q \<in> set (p # ps). q < p + PGSIZE" using Suc.prems(5) by auto
  qed
  then obtain s2 where s2: "freerange_loop c (p + PGSIZE) PHYSTOP s1 = Inr s2"
    "kmem_ok c s2 (rev (map (\<lambda>i. p + PGSIZE + of_nat (4096 * i)) [0..<n]) @ p # ps)" by blast
  have eq: "rev (map (\<lambda>i. p + PGSIZE + of_nat (4096 * i)) [0..<n]) @ p # ps
     = rev (map (\<lambda>i. p + of_nat (4096 * i)) [0..<Suc n]) @ ps"
    by (simp add: upt_conv_Cons map_Suc_upt[symmetric] comp_def PGSIZE_def algebra_simps del: upt_Suc)
  have "p + PGSIZE \<le> PHYSTOP" using Suc.prems(1) u by (simp add: word_le_nat_alt)
  then have "freerange_loop c p PHYSTOP s = Inr s2" using s1(1) s2(1) by (simp add: freerange_loop.simps[of c p])
  then show ?case using s2(2) unfolding eq by blast
qed

text \<open>All whole pages between the kernel image and the end of memory, the last one first.\<close>

definition n_pages :: nat where
  "n_pages = 32731"

definition all_pages :: "uint64 list" where
  "all_pages = rev (map (\<lambda>i. PGROUNDUP kend + of_nat (4096 * i)) [0..<n_pages])"

lemma first_page: "unat (PGROUNDUP kend) = 0x80025000"
  by (subst PGROUNDUP_unat) (simp_all add: kend_def)

lemma page_ok_index:
  assumes "page_ok p"
  shows "\<exists>i < n_pages. p = PGROUNDUP kend + of_nat (4096 * i)"
proof -
  have b: "2147635048 \<le> unat p" "unat p < 2281701376" "unat p mod 4096 = 0"
    using assms PHYSTOP_unat by (simp_all add: page_ok_def page_aligned_unat word_le_nat_alt word_less_nat_alt kend_def)
  then obtain k where k: "unat p = 4096 * k" by (auto simp: mod_eq_0_iff_dvd elim: dvdE)
  define i where "i = k - 524325"
  have "524325 \<le> k" using b(1) k by linarith
  then have e: "unat p = 2147635200 + 4096 * i" using k by (simp add: i_def)
  then have lt: "i < n_pages" using b(2) by (simp add: n_pages_def)
  have "unat (PGROUNDUP kend + of_nat (4096 * i)) = unat (PGROUNDUP kend) + 4096 * i"
    using lt first_page by (intro unat_plus_of_nat) (simp add: n_pages_def)
  then have "unat (PGROUNDUP kend + of_nat (4096 * i)) = unat p" using e first_page by simp
  then show ?thesis using lt by (metis word_unat_eq_iff)
qed

lemma kinit_spec:
  assumes "freelist s = 0" and "cpu_sane c s"
  shows "\<exists>s'. kinit c s = Inr s' \<and> kmem_ok c s' all_pages"
proof -
  have ok: "kmem_ok c (initlock KmemLock ''kmem'' s) []"
    using assms by (simp add: kmem_ok_def free_pages_def initlock_def upd_lock_def lock_free_def cpu_sane_def)
  have "unat (PGROUNDUP kend) + 4096 * n_pages = unat PHYSTOP"
    by (simp add: first_page PHYSTOP_unat n_pages_def)
  moreover have "page_aligned (PGROUNDUP kend)" by (simp add: page_aligned_unat first_page)
  moreover have "kend \<le> PGROUNDUP kend" by (simp add: word_le_nat_alt first_page) (simp add: kend_def)
  ultimately show ?thesis
    using freerange_loop_spec[OF _ _ _ ok] by (simp add: kinit_def freerange_def all_pages_def)
qed

subsection \<open>Properties\<close>

text \<open>
  C5. Allocation refines taking from a list.  With the free list read back as the list \<open>ps\<close>,
  \<open>kalloc\<close> returns 0 and changes nothing if \<open>ps\<close> is empty, and otherwise returns its first page:
  a page-aligned page of physical memory that is no longer free, with the rest of the list
  still free and every byte outside that page as before.
\<close>

theorem kalloc_refines_list:
  assumes "kmem_ok c s ps"
  shows "\<exists>s'. kalloc c s = Inr (case ps of [] \<Rightarrow> 0 | p # _ \<Rightarrow> p, s') \<and> kmem_ok c s' (tl ps) \<and>
    (\<forall>p qs. ps = p # qs \<longrightarrow> p \<noteq> 0 \<and> page_ok p \<and> p \<notin> set qs) \<and>
    (\<forall>a. (\<forall>p qs. ps = p # qs \<longrightarrow> \<not> in_page p a) \<longrightarrow> ram s' a = ram s a)"
proof (cases ps)
  case Nil
  then show ?thesis using pages.alloc_none[of c s] assms by auto
next
  case (Cons p qs)
  then obtain s' where s': "kalloc c s = Inr (p, s')" "kmem_ok c s' qs" "\<forall>a. ram s' a = (if in_page p a then 5 else ram s a)"
    using pages.alloc_first[of c s p qs] assms by blast
  then show ?thesis
    using Cons pages.avail_ok[OF assms] page_ok_bounds(3) by auto
qed

text \<open>A machine whose only free pages are the last two of memory.\<close>

definition two_pages :: kmem where
  "two_pages = \<lparr>cpus = (\<lambda>_. \<lparr>cproc = None, noff = 0, intena = False, sie = True\<rparr>),
      locks = (\<lambda>_. \<lparr>locked = False, lname = [], lcpu = None\<rparr>),
      uart_out = [], panicking = False, panicked = False,
      cpu_temp = 25, tm = (\<lambda>_. tm_cleared), tm_temp_sum = 0, tm_temp_count = 0, tm_temp_min = 100,
      tm_temp_max = 0, tm_cooling_cycles = 0, tm_had_children = False, sched_round = 0, summary_printed = False,
      procs = (\<lambda>_. demo_proc), initproc = None, nextpid = 1,
      ram = store64 0x87FFE000 0 (store64 0x87FFF000 0x87FFE000 (\<lambda>_. 0)), freelist = 0x87FFF000\<rparr>"

lemma two_pages_ok: "kmem_ok c two_pages [0x87FFF000, 0x87FFE000]"
proof -
  have "page_ok 0x87FFF000" "page_ok 0x87FFE000"
    by (simp_all add: page_ok_def page_aligned_def PGSIZE_def kend_def PHYSTOP_def KERNBASE_def)
  then show ?thesis
    by (simp add: kmem_ok_def free_pages_def two_pages_def lock_free_def cpu_sane_def load64_store64_other)
qed

theorem kalloc_refines_list_witness:
  "\<exists>s'. kalloc 0 two_pages = Inr (0x87FFF000, s') \<and> kmem_ok 0 s' [0x87FFE000]"
  using kalloc_refines_list[OF two_pages_ok[of 0]] by auto

text \<open>
  C23. Freeing refines putting in front.  Freeing a page of physical memory that is not free
  makes it the first free page and changes no byte outside it; any address that is not the
  start of a page between the kernel image and the end of memory is refused with a panic.
\<close>

theorem kfree_refines_list:
  assumes "kmem_ok c s ps"
  shows "(page_ok p \<and> p \<notin> set ps \<longrightarrow> (\<exists>s'. kfree c p s = Inr s' \<and> kmem_ok c s' (p # ps) \<and>
      (\<forall>a. \<not> in_page p a \<longrightarrow> ram s' a = ram s a))) \<and>
    (\<not> page_ok p \<longrightarrow> kfree c p s = Inl (Panic ''kfree''))"
  using pages.dealloc_first[OF assms] kfree_bad by blast

theorem kfree_refines_list_witness:
  "(\<exists>s'. kfree 0 0x87FFD000 two_pages = Inr s' \<and> kmem_ok 0 s' [0x87FFD000, 0x87FFF000, 0x87FFE000]) \<and>
    kfree 0 0x87FFD001 two_pages = Inl (Panic ''kfree'')"
proof -
  have "page_ok 0x87FFD000" "\<not> page_ok 0x87FFD001"
    by (simp_all add: page_ok_def page_aligned_def PGSIZE_def kend_def PHYSTOP_def KERNBASE_def)
  then show ?thesis
    using kfree_refines_list[OF two_pages_ok[of 0], of "0x87FFD000"]
      kfree_refines_list[OF two_pages_ok[of 0], of "0x87FFD001"] by auto
qed

text \<open>
  C24. Boot frees all of memory, once.  \<open>kinit\<close> returns, and afterwards the free list holds
  exactly the whole pages between the end of the kernel image and \<open>PHYSTOP\<close>, each of them once.
\<close>

theorem kinit_frees_all_memory:
  assumes "freelist s = 0" and "cpu_sane c s"
  shows "\<exists>s' ps. kinit c s = Inr s' \<and> kmem_ok c s' ps \<and> distinct ps \<and> (\<forall>p. p \<in> set ps \<longleftrightarrow> page_ok p)"
proof -
  obtain s' where s': "kinit c s = Inr s'" "kmem_ok c s' all_pages" using kinit_spec[OF assms] by blast
  have "p \<in> set all_pages" if "page_ok p" for p
    using page_ok_index[OF that] by (auto simp: all_pages_def)
  then show ?thesis using s' pages.avail_ok[OF s'(2)] by (auto simp: list_all_iff)
qed

theorem kinit_frees_all_memory_witness:
  "\<exists>s' ps. kinit 0 (two_pages\<lparr>freelist := 0\<rparr>) = Inr s' \<and> kmem_ok 0 s' ps \<and> distinct ps \<and> (\<forall>p. p \<in> set ps \<longleftrightarrow> page_ok p)"
  by (rule kinit_frees_all_memory) (simp_all add: two_pages_def cpu_sane_def)

end
