(* ===== verification/Vm.thy ===== *)
theory Vm
  imports Kalloc
begin

unbundle bit_operations_syntax

text \<open>
  Virtual memory, \<^verbatim>\<open>kernel/vm.c\<close>: Sv39 page tables as they lie in physical memory.

  A page table is the physical address of its root page; a PTE pointer is the physical address of
  the entry, 0 for the null pointer.  The kernel side of \<open>copyout\<close>, \<open>copyin\<close> and \<open>copyinstr\<close> is
  a list of bytes; the user side is physical memory behind the page table.
\<close>

definition PTE_V :: uint64 where "PTE_V = 1"
definition PTE_R :: uint64 where "PTE_R = 2"
definition PTE_W :: uint64 where "PTE_W = 4"
definition PTE_X :: uint64 where "PTE_X = 8"
definition PTE_U :: uint64 where "PTE_U = 16"

definition PA2PTE :: "uint64 \<Rightarrow> uint64" where
  "PA2PTE pa = push_bit 10 (drop_bit 12 pa)"

definition PTE2PA :: "uint64 \<Rightarrow> uint64" where
  "PTE2PA pte = push_bit 12 (drop_bit 10 pte)"

definition PTE_FLAGS :: "uint64 \<Rightarrow> uint64" where
  "PTE_FLAGS pte = pte AND 0x3FF"

definition PX :: "nat \<Rightarrow> uint64 \<Rightarrow> uint64" where
  "PX level va = drop_bit (12 + 9 * level) va AND 0x1FF"

text \<open>\<^verbatim>\<open>&pagetable[i]\<close>\<close>

definition pte_at :: "uint64 \<Rightarrow> uint64 \<Rightarrow> uint64" where
  "pte_at pt i = pt + 8 * i"

definition set_pte :: "uint64 \<Rightarrow> uint64 \<Rightarrow> 'a kmem_scheme \<Rightarrow> 'a kmem_scheme" where
  "set_pte pte v s = s\<lparr>ram := store64 pte v (ram s)\<rparr>"

definition zero_page :: "uint64 \<Rightarrow> 'a kmem_scheme \<Rightarrow> 'a kmem_scheme" where
  "zero_page p s = s\<lparr>ram := memset p 0 4096 (ram s)\<rparr>"

text \<open>The loop of \<open>walk\<close> over the given levels: the table it ends in, if any.\<close>

fun walk_levels ::
  "nat \<Rightarrow> nat list \<Rightarrow> uint64 \<Rightarrow> uint64 \<Rightarrow> bool \<Rightarrow> 'a kmem_scheme \<Rightarrow> (uint64 option \<times> 'a kmem_scheme) res" where
  "walk_levels c [] pt va alloc s = Inr (Some pt, s)"
| "walk_levels c (level # ls) pt va alloc s =
     (let pte = pte_at pt (PX level va); v = load64 (ram s) pte in
      if v AND PTE_V \<noteq> 0 then walk_levels c ls (PTE2PA v) va alloc s
      else if \<not> alloc then Inr (None, s)
      else bindE (kalloc c s) (\<lambda>(p, s).
             if p = 0 then Inr (None, s)
             else walk_levels c ls p va alloc (set_pte pte (PA2PTE p OR PTE_V) (zero_page p s))))"

definition walk ::
  "nat \<Rightarrow> uint64 \<Rightarrow> uint64 \<Rightarrow> bool \<Rightarrow> 'a kmem_scheme \<Rightarrow> (uint64 \<times> 'a kmem_scheme) res" where
  "walk c pt va alloc s =
     (if va \<ge> MAXVA then Inl (Panic ''walk'')
      else bindE (walk_levels c [2, 1] pt va alloc s) (\<lambda>(t, s).
             Inr (case t of None \<Rightarrow> 0 | Some t \<Rightarrow> pte_at t (PX 0 va), s)))"

definition walkaddr :: "nat \<Rightarrow> uint64 \<Rightarrow> uint64 \<Rightarrow> 'a kmem_scheme \<Rightarrow> (uint64 \<times> 'a kmem_scheme) res" where
  "walkaddr c pt va s =
     (if va \<ge> MAXVA then Inr (0, s)
      else bindE (walk c pt va False s) (\<lambda>(pte, s).
             Inr (if pte = 0 then 0
                  else let v = load64 (ram s) pte
                       in if v AND PTE_V = 0 then 0 else if v AND PTE_U = 0 then 0 else PTE2PA v, s)))"

lemma walk_Inr: "walk c pt va al s = Inr r \<Longrightarrow> va < MAXVA"
  by (auto simp: walk_def split: if_splits)

text \<open>A page step of a loop over user addresses below \<open>MAXVA\<close> makes progress.\<close>

lemma page_step: "a < MAXVA \<Longrightarrow> unat MAXVA - unat (a + PGSIZE) < unat MAXVA - unat a"
proof -
  assume "a < MAXVA"
  then have "unat a < 274877906944" "unat MAXVA = 274877906944" by (simp_all add: word_less_nat_alt MAXVA_def)
  moreover from this have "unat (a + PGSIZE) = unat a + 4096"
    by (subst unat_add_lem[THEN iffD1]) (simp_all add: PGSIZE_def)
  ultimately show ?thesis by simp
qed

function mappages_loop :: "nat \<Rightarrow> uint64 \<Rightarrow> uint64 \<Rightarrow> uint64 \<Rightarrow> uint64 \<Rightarrow> uint64 \<Rightarrow> 'a kmem_scheme
    \<Rightarrow> (int \<times> 'a kmem_scheme) res" where
  "mappages_loop c pt a lst pa perm s =
     bindE (walk c pt a True s) (\<lambda>(pte, s).
     if pte = 0 then Inr (-1, s)
     else if load64 (ram s) pte AND PTE_V \<noteq> 0 then Inl (Panic ''mappages: remap'')
     else let s = set_pte pte (PA2PTE pa OR perm OR PTE_V) s
          in if a = lst then Inr (0, s)
             else mappages_loop c pt (a + PGSIZE) lst (pa + PGSIZE) perm s)"
  by pat_completeness auto
termination
  by (relation "measure (\<lambda>(c, pt, a, lst, pa, perm, s). unat MAXVA - unat a)")
    (auto dest!: walk_Inr intro: page_step)

declare mappages_loop.simps [simp del]

definition mappages :: "nat \<Rightarrow> uint64 \<Rightarrow> uint64 \<Rightarrow> uint64 \<Rightarrow> uint64 \<Rightarrow> uint64 \<Rightarrow> 'a kmem_scheme
    \<Rightarrow> (int \<times> 'a kmem_scheme) res" where
  "mappages c pt va n pa perm s =
     (if va mod PGSIZE \<noteq> 0 then Inl (Panic ''mappages: va not aligned'')
      else if n mod PGSIZE \<noteq> 0 then Inl (Panic ''mappages: size not aligned'')
      else if n = 0 then Inl (Panic ''mappages: size'')
      else mappages_loop c pt va (va + n - PGSIZE) pa perm s)"

definition uvmcreate :: "nat \<Rightarrow> 'a kmem_scheme \<Rightarrow> (uint64 \<times> 'a kmem_scheme) res" where
  "uvmcreate c s = bindE (kalloc c s) (\<lambda>(p, s). if p = 0 then Inr (0, s) else Inr (p, zero_page p s))"

function uvmunmap_loop :: "nat \<Rightarrow> uint64 \<Rightarrow> uint64 \<Rightarrow> uint64 \<Rightarrow> bool \<Rightarrow> 'a kmem_scheme \<Rightarrow> 'a kmem_scheme res" where
  "uvmunmap_loop c pt a lim do_free s =
     (if a < lim then
        bindE (walk c pt a False s) (\<lambda>(pte, s).
        if pte = 0 \<or> load64 (ram s) pte AND PTE_V = 0
        then uvmunmap_loop c pt (a + PGSIZE) lim do_free s
        else bindE (if do_free then kfree c (PTE2PA (load64 (ram s) pte)) s else Inr s) (\<lambda>s.
             uvmunmap_loop c pt (a + PGSIZE) lim do_free (set_pte pte 0 s)))
      else Inr s)"
  by pat_completeness auto
termination
  by (relation "measure (\<lambda>(c, pt, a, lim, df, s). unat MAXVA - unat a)")
    (auto dest!: walk_Inr intro: page_step)

declare uvmunmap_loop.simps [simp del]

definition uvmunmap :: "nat \<Rightarrow> uint64 \<Rightarrow> uint64 \<Rightarrow> uint64 \<Rightarrow> bool \<Rightarrow> 'a kmem_scheme \<Rightarrow> 'a kmem_scheme res" where
  "uvmunmap c pt va npages do_free s =
     (if va mod PGSIZE \<noteq> 0 then Inl (Panic ''uvmunmap: not aligned'')
      else uvmunmap_loop c pt va (va + npages * PGSIZE) do_free s)"

definition uvmdealloc :: "nat \<Rightarrow> uint64 \<Rightarrow> uint64 \<Rightarrow> uint64 \<Rightarrow> 'a kmem_scheme \<Rightarrow> (uint64 \<times> 'a kmem_scheme) res" where
  "uvmdealloc c pt oldsz newsz s =
     (if newsz \<ge> oldsz then Inr (oldsz, s)
      else bindE (if PGROUNDUP newsz < PGROUNDUP oldsz
                  then let npages = i32 (uint ((PGROUNDUP oldsz - PGROUNDUP newsz) div PGSIZE))
                       in uvmunmap c pt (PGROUNDUP newsz) (of_int npages) True s
                  else Inr s) (\<lambda>s. Inr (newsz, s)))"

lemma mappages_Inr: "mappages c pt va n pa perm s = Inr r \<Longrightarrow> va < MAXVA"
  by (subst (asm) mappages_def, subst (asm) mappages_loop.simps)
    (auto split: if_splits simp: bindE_eq_Inr dest: walk_Inr)

function uvmalloc_loop :: "nat \<Rightarrow> uint64 \<Rightarrow> uint64 \<Rightarrow> uint64 \<Rightarrow> uint64 \<Rightarrow> uint64 \<Rightarrow> 'a kmem_scheme
    \<Rightarrow> (uint64 \<times> 'a kmem_scheme) res" where
  "uvmalloc_loop c pt a oldsz newsz xperm s =
     (if a < newsz then
        bindE (kalloc c s) (\<lambda>(mem, s).
        if mem = 0 then bindE (uvmdealloc c pt a oldsz s) (\<lambda>(_, s). Inr (0, s))
        else bindE (mappages c pt a PGSIZE mem (PTE_R OR PTE_U OR xperm) (zero_page mem s)) (\<lambda>(r, s).
             if r \<noteq> 0
             then bindE (kfree c mem s) (\<lambda>s. bindE (uvmdealloc c pt a oldsz s) (\<lambda>(_, s). Inr (0, s)))
             else uvmalloc_loop c pt (a + PGSIZE) oldsz newsz xperm s))
      else Inr (newsz, s))"
  by pat_completeness auto
termination
  by (relation "measure (\<lambda>(c, pt, a, oldsz, newsz, xperm, s). unat MAXVA - unat a)")
    (auto dest!: mappages_Inr intro: page_step)

declare uvmalloc_loop.simps [simp del]

definition uvmalloc :: "nat \<Rightarrow> uint64 \<Rightarrow> uint64 \<Rightarrow> uint64 \<Rightarrow> uint64 \<Rightarrow> 'a kmem_scheme
    \<Rightarrow> (uint64 \<times> 'a kmem_scheme) res" where
  "uvmalloc c pt oldsz newsz xperm s =
     (if newsz < oldsz then Inr (oldsz, s)
      else uvmalloc_loop c pt (PGROUNDUP oldsz) (PGROUNDUP oldsz) newsz xperm s)"

text \<open>
  \<open>freewalk\<close> recurses along the tree of tables.  The first argument bounds the depth; a table tree
  that is deeper (a cycle) overruns the kernel stack, which is a hardware fault.
\<close>

fun freewalk :: "nat \<Rightarrow> nat \<Rightarrow> uint64 \<Rightarrow> 'a kmem_scheme \<Rightarrow> 'a kmem_scheme res" where
  "freewalk 0 c pt s = Inl (Fault ''freewalk: stack'')"
| "freewalk (Suc depth) c pt s =
     bindE (for_each (\<lambda>i s.
              let pte = load64 (ram s) (pte_at pt (of_nat i)) in
              if pte AND PTE_V \<noteq> 0 \<and> pte AND (PTE_R OR PTE_W OR PTE_X) = 0
              then bindE (freewalk depth c (PTE2PA pte) s) (\<lambda>s. Inr (set_pte (pte_at pt (of_nat i)) 0 s))
              else if pte AND PTE_V \<noteq> 0 then Inl (Panic ''freewalk: leaf'')
              else Inr s) [0..<512] s) (\<lambda>s.
     kfree c pt s)"

definition uvmfree :: "nat \<Rightarrow> uint64 \<Rightarrow> uint64 \<Rightarrow> 'a kmem_scheme \<Rightarrow> 'a kmem_scheme res" where
  "uvmfree c pt sz s =
     bindE (if sz > 0 then uvmunmap c pt 0 (PGROUNDUP sz div PGSIZE) True s else Inr s) (\<lambda>s.
     freewalk 3 c pt s)"

text \<open>\<open>uvmcopy\<close>: the loop stops with the page index at which it failed, for the label \<open>err\<close>.\<close>

function uvmcopy_loop :: "nat \<Rightarrow> uint64 \<Rightarrow> uint64 \<Rightarrow> uint64 \<Rightarrow> uint64 \<Rightarrow> 'a kmem_scheme
    \<Rightarrow> (uint64 option \<times> 'a kmem_scheme) res" where
  "uvmcopy_loop c old new sz i s =
     (if i < sz then
        bindE (walk c old i False s) (\<lambda>(pte, s).
        if pte = 0 \<or> load64 (ram s) pte AND PTE_V = 0 then uvmcopy_loop c old new sz (i + PGSIZE) s
        else let pa = PTE2PA (load64 (ram s) pte); flags = PTE_FLAGS (load64 (ram s) pte) in
          bindE (kalloc c s) (\<lambda>(mem, s).
          if mem = 0 then Inr (Some i, s)
          else bindE (mappages c new i PGSIZE mem flags (s\<lparr>ram := memmove mem pa 4096 (ram s)\<rparr>)) (\<lambda>(r, s).
               if r \<noteq> 0 then bindE (kfree c mem s) (\<lambda>s. Inr (Some i, s))
               else uvmcopy_loop c old new sz (i + PGSIZE) s)))
      else Inr (None, s))"
  by pat_completeness auto
termination
  by (relation "measure (\<lambda>(c, old, new, sz, i, s). unat MAXVA - unat i)")
    (auto dest!: walk_Inr intro: page_step)

declare uvmcopy_loop.simps [simp del]

definition uvmcopy :: "nat \<Rightarrow> uint64 \<Rightarrow> uint64 \<Rightarrow> uint64 \<Rightarrow> 'a kmem_scheme \<Rightarrow> (int \<times> 'a kmem_scheme) res" where
  "uvmcopy c old new sz s =
     bindE (uvmcopy_loop c old new sz 0 s) (\<lambda>(e, s).
     case e of None \<Rightarrow> Inr (0, s)
     | Some i \<Rightarrow> bindE (uvmunmap c new 0 (i div PGSIZE) True s) (\<lambda>s. Inr (-1, s)))"

definition uvmclear :: "nat \<Rightarrow> uint64 \<Rightarrow> uint64 \<Rightarrow> 'a kmem_scheme \<Rightarrow> 'a kmem_scheme res" where
  "uvmclear c pt va s =
     bindE (walk c pt va False s) (\<lambda>(pte, s).
     if pte = 0 then Inl (Panic ''uvmclear'')
     else Inr (set_pte pte (load64 (ram s) pte AND NOT PTE_U) s))"

definition ismapped :: "nat \<Rightarrow> uint64 \<Rightarrow> uint64 \<Rightarrow> 'a kmem_scheme \<Rightarrow> (bool \<times> 'a kmem_scheme) res" where
  "ismapped c pt va s =
     bindE (walk c pt va False s) (\<lambda>(pte, s).
     Inr (if pte = 0 then False else load64 (ram s) pte AND PTE_V \<noteq> 0, s))"

definition vmfault :: "nat \<Rightarrow> uint64 \<Rightarrow> uint64 \<Rightarrow> 'a kmem_scheme \<Rightarrow> (uint64 \<times> 'a kmem_scheme) res" where
  "vmfault c pt va s =
     bindE (myproc c s) (\<lambda>(p, s).
     case p of None \<Rightarrow> Inl (Fault ''vmfault: no process'')
     | Some i \<Rightarrow>
       if va \<ge> psz (procs s i) then Inr (0, s)
       else let va = PGROUNDDOWN va in
         bindE (ismapped c pt va s) (\<lambda>(b, s).
         if b then Inr (0, s)
         else bindE (kalloc c s) (\<lambda>(mem, s).
              if mem = 0 then Inr (0, s)
              else bindE (mappages c (pagetable (procs s i)) va PGSIZE mem (PTE_W OR PTE_U OR PTE_R)
                            (zero_page mem s)) (\<lambda>(r, s).
                   if r \<noteq> 0 then bindE (kfree c mem s) (\<lambda>s. Inr (0, s)) else Inr (mem, s)))))"

lemma PGROUNDDOWN_chunk: "0 < unat (PGSIZE - (a - PGROUNDDOWN a))"
proof -
  have "a - PGROUNDDOWN a < PGSIZE" using PGROUNDDOWN_page[of a] by (simp add: in_page_def)
  then show ?thesis by (metis diff_add_cancel gr0I less_irrefl add_0 unat_eq_zero)
qed

function copyout :: "nat \<Rightarrow> uint64 \<Rightarrow> uint64 \<Rightarrow> uint8 list \<Rightarrow> 'a kmem_scheme \<Rightarrow> (int \<times> 'a kmem_scheme) res" where
  "copyout c pt dstva src s =
     (if src \<noteq> [] then
        let va0 = PGROUNDDOWN dstva in
        if va0 \<ge> MAXVA then Inr (-1, s)
        else bindE (walkaddr c pt va0 s) (\<lambda>(pa0, s).
          bindE (if pa0 = 0 then vmfault c pt va0 s else Inr (pa0, s)) (\<lambda>(pa0, s).
          if pa0 = 0 then Inr (-1, s)
          else bindE (walk c pt va0 False s) (\<lambda>(pte, s).
            if pte = 0 then Inl (Fault ''copyout: null pte'')
            else if load64 (ram s) pte AND PTE_W = 0 then Inr (-1, s)
            else let n = min (unat (PGSIZE - (dstva - va0))) (length src) in
                 copyout c pt (va0 + PGSIZE) (drop n src)
                   (s\<lparr>ram := store_bytes (pa0 + (dstva - va0)) (take n src) (ram s)\<rparr>))))
      else Inr (0, s))"
  by pat_completeness auto
termination
  by (relation "measure (\<lambda>(c, pt, dstva, src, s). length src)") (auto simp: PGROUNDDOWN_chunk)

declare copyout.simps [simp del]

text \<open>\<open>copyin\<close> returns the bytes written to \<open>dst\<close> so far along with its result.\<close>

function copyin_loop :: "nat \<Rightarrow> uint64 \<Rightarrow> uint8 list \<Rightarrow> uint64 \<Rightarrow> nat \<Rightarrow> 'a kmem_scheme
    \<Rightarrow> ((int \<times> uint8 list) \<times> 'a kmem_scheme) res" where
  "copyin_loop c pt dst srcva len s =
     (if len > 0 then
        let va0 = PGROUNDDOWN srcva in
        bindE (walkaddr c pt va0 s) (\<lambda>(pa0, s).
        bindE (if pa0 = 0 then vmfault c pt va0 s else Inr (pa0, s)) (\<lambda>(pa0, s).
        if pa0 = 0 then Inr ((-1, dst), s)
        else let n = min (unat (PGSIZE - (srcva - va0))) len in
             copyin_loop c pt (dst @ load_bytes (ram s) (pa0 + (srcva - va0)) n) (va0 + PGSIZE) (len - n) s))
      else Inr ((0, dst), s))"
  by pat_completeness auto
termination
  by (relation "measure (\<lambda>(c, pt, dst, srcva, len, s). len)") (auto simp: PGROUNDDOWN_chunk)

declare copyin_loop.simps [simp del]

definition copyin :: "nat \<Rightarrow> uint64 \<Rightarrow> uint64 \<Rightarrow> nat \<Rightarrow> 'a kmem_scheme
    \<Rightarrow> ((int \<times> uint8 list) \<times> 'a kmem_scheme) res" where
  "copyin c pt srcva len s = copyin_loop c pt [] srcva len s"

text \<open>The inner loop of \<open>copyinstr\<close>: at most \<open>n\<close> bytes at \<open>p\<close>, up to and including a nul.\<close>

fun copyinstr_page :: "bytemem \<Rightarrow> uint64 \<Rightarrow> nat \<Rightarrow> uint8 list \<Rightarrow> bool \<times> uint8 list" where
  "copyinstr_page m p 0 dst = (False, dst)"
| "copyinstr_page m p (Suc n) dst =
     (if m p = 0 then (True, dst @ [0]) else copyinstr_page m (p + 1) n (dst @ [m p]))"

function copyinstr_loop :: "nat \<Rightarrow> uint64 \<Rightarrow> uint8 list \<Rightarrow> uint64 \<Rightarrow> nat \<Rightarrow> 'a kmem_scheme
    \<Rightarrow> ((int \<times> uint8 list) \<times> 'a kmem_scheme) res" where
  "copyinstr_loop c pt dst srcva mx s =
     (if mx > 0 then
        let va0 = PGROUNDDOWN srcva in
        bindE (walkaddr c pt va0 s) (\<lambda>(pa0, s).
        if pa0 = 0 then Inr ((-1, dst), s)
        else let n = min (unat (PGSIZE - (srcva - va0))) mx;
                 (got_null, dst) = copyinstr_page (ram s) (pa0 + (srcva - va0)) n dst
             in if got_null then Inr ((0, dst), s)
                else copyinstr_loop c pt dst (va0 + PGSIZE) (mx - n) s)
      else Inr ((-1, dst), s))"
  by pat_completeness auto
termination
  by (relation "measure (\<lambda>(c, pt, dst, srcva, mx, s). mx)") (auto simp: PGROUNDDOWN_chunk)

declare copyinstr_loop.simps [simp del]

definition copyinstr :: "nat \<Rightarrow> uint64 \<Rightarrow> uint64 \<Rightarrow> nat \<Rightarrow> 'a kmem_scheme
    \<Rightarrow> ((int \<times> uint8 list) \<times> 'a kmem_scheme) res" where
  "copyinstr c pt srcva mx s = copyinstr_loop c pt [] srcva mx s"

subsection \<open>The kernel page table\<close>

text \<open>Device addresses of \<^verbatim>\<open>kernel/memlayout.h\<close>; \<open>etext\<close> and \<open>trampoline\<close> are the linker's.\<close>

definition UART0 :: uint64 where "UART0 = 0x10000000"
definition VIRTIO0 :: uint64 where "VIRTIO0 = 0x10001000"
definition PLIC :: uint64 where "PLIC = 0x0c000000"
definition etext :: uint64 where "etext = 0x80008000"
definition trampoline :: uint64 where "trampoline = 0x80007000"

definition kvmmap :: "nat \<Rightarrow> uint64 \<Rightarrow> uint64 \<Rightarrow> uint64 \<Rightarrow> uint64 \<Rightarrow> uint64 \<Rightarrow> 'a kmem_scheme \<Rightarrow> 'a kmem_scheme res" where
  "kvmmap c kpgtbl va pa n perm s =
     bindE (mappages c kpgtbl va n pa perm s) (\<lambda>(r, s). if r \<noteq> 0 then Inl (Panic ''kvmmap'') else Inr s)"

definition proc_mapstacks :: "nat \<Rightarrow> uint64 \<Rightarrow> 'a kmem_scheme \<Rightarrow> 'a kmem_scheme res" where
  "proc_mapstacks c kpgtbl s =
     for_each (\<lambda>p s. bindE (kalloc c s) (\<lambda>(pa, s).
       if pa = 0 then Inl (Panic ''kalloc'')
       else kvmmap c kpgtbl (KSTACK p) pa PGSIZE (PTE_R OR PTE_W) s)) [0..<NPROC] s"

definition kvmmake :: "nat \<Rightarrow> 'a kmem_scheme \<Rightarrow> (uint64 \<times> 'a kmem_scheme) res" where
  "kvmmake c s =
     bindE (kalloc c s) (\<lambda>(kpgtbl, s).
     if kpgtbl = 0 then Inl (Fault ''kvmmake: memset of null'')
     else bindE (kvmmap c kpgtbl UART0 UART0 PGSIZE (PTE_R OR PTE_W) (zero_page kpgtbl s)) (\<lambda>s.
          bindE (kvmmap c kpgtbl VIRTIO0 VIRTIO0 PGSIZE (PTE_R OR PTE_W) s) (\<lambda>s.
          bindE (kvmmap c kpgtbl PLIC PLIC 0x4000000 (PTE_R OR PTE_W) s) (\<lambda>s.
          bindE (kvmmap c kpgtbl KERNBASE KERNBASE (etext - KERNBASE) (PTE_R OR PTE_X) s) (\<lambda>s.
          bindE (kvmmap c kpgtbl etext etext (PHYSTOP - etext) (PTE_R OR PTE_W) s) (\<lambda>s.
          bindE (kvmmap c kpgtbl TRAMPOLINE trampoline PGSIZE (PTE_R OR PTE_X) s) (\<lambda>s.
          bindE (proc_mapstacks c kpgtbl s) (\<lambda>s. Inr (kpgtbl, s)))))))))"

end
