(* ===== verification/PageTable.thy ===== *)
theory PageTable
  imports Vm
begin

unbundle bit_operations_syntax

text \<open>
  What the routines of \<^verbatim>\<open>kernel/vm.c\<close> do to an address space.

  A page table is abstracted in two ways: \<open>tset\<close> is the set of the physical pages that hold its
  tables, and \<open>lookup\<close> is the function from virtual addresses to valid leaf entries.  \<open>tree_ok\<close>
  says that the tables form a tree of allocatable pages without sharing, \<open>space\<close> adds that the
  free list does not overlap them.  \<open>walk\<close> with allocation keeps \<open>lookup\<close> and grows \<open>tset\<close> by
  pages taken from the free list; \<open>mappages\<close> updates \<open>lookup\<close> on exactly the pages asked for.
\<close>

subsection \<open>The tree of tables\<close>

definition entry :: "bytemem \<Rightarrow> uint64 \<Rightarrow> uint64 \<Rightarrow> uint64" where
  "entry m pt i = load64 m (pte_at pt i)"

definition valid :: "uint64 \<Rightarrow> bool" where
  "valid pte = (pte AND PTE_V \<noteq> 0)"

definition child :: "bytemem \<Rightarrow> uint64 \<Rightarrow> uint64 \<Rightarrow> uint64 option" where
  "child m pt i = (if valid (entry m pt i) then Some (PTE2PA (entry m pt i)) else None)"

fun tset :: "bytemem \<Rightarrow> nat \<Rightarrow> uint64 \<Rightarrow> uint64 set" where
  "tset m 0 pt = {pt}"
| "tset m (Suc n) pt = insert pt (\<Union>i\<in>{i. i < 512}. case child m pt i of None \<Rightarrow> {} | Some q \<Rightarrow> tset m n q)"

fun tree_ok :: "bytemem \<Rightarrow> nat \<Rightarrow> uint64 \<Rightarrow> bool" where
  "tree_ok m 0 pt = page_ok pt"
| "tree_ok m (Suc n) pt = (page_ok pt \<and>
     (\<forall>i q. i < 512 \<longrightarrow> child m pt i = Some q \<longrightarrow>
        entry m pt i AND (PTE_R OR PTE_W OR PTE_X) = 0 \<and> tree_ok m n q \<and> pt \<notin> tset m n q \<and>
        (\<forall>j r. j < 512 \<longrightarrow> j \<noteq> i \<longrightarrow> child m pt j = Some r \<longrightarrow> tset m n q \<inter> tset m n r = {})))"

fun leaf :: "bytemem \<Rightarrow> nat \<Rightarrow> uint64 \<Rightarrow> uint64 \<Rightarrow> uint64" where
  "leaf m 0 pt va = (if valid (entry m pt (PX 0 va)) then entry m pt (PX 0 va) else 0)"
| "leaf m (Suc n) pt va = (case child m pt (PX (Suc n) va) of None \<Rightarrow> 0 | Some q \<Rightarrow> leaf m n q va)"

fun table_of :: "bytemem \<Rightarrow> nat \<Rightarrow> uint64 \<Rightarrow> uint64 \<Rightarrow> uint64 option" where
  "table_of m 0 pt va = Some pt"
| "table_of m (Suc n) pt va = (case child m pt (PX (Suc n) va) of None \<Rightarrow> None | Some q \<Rightarrow> table_of m n q va)"

fun levels :: "nat \<Rightarrow> nat list" where
  "levels 0 = []"
| "levels (Suc n) = Suc n # levels n"

definition same_pages :: "uint64 set \<Rightarrow> bytemem \<Rightarrow> bytemem \<Rightarrow> bool" where
  "same_pages T m m' = (\<forall>q\<in>T. \<forall>a. in_page q a \<longrightarrow> m' a = m a)"

definition same_outside :: "uint64 set \<Rightarrow> bytemem \<Rightarrow> bytemem \<Rightarrow> bool" where
  "same_outside T m m' = (\<forall>a. (\<forall>q\<in>T. \<not> in_page q a) \<longrightarrow> m' a = m a)"

lemma PX_less [simp]: "PX l va < 512"
proof -
  have "(0x1FF :: uint64) = mask 9" by (simp add: mask_eq_exp_minus_1)
  then have "PX l va = take_bit 9 (drop_bit (12 + 9 * l) va)" by (simp add: PX_def take_bit_eq_mask)
  then show ?thesis by (simp add: word_less_nat_alt take_bit_eq_mod unat_mod)
qed

lemma pte_at_nat: "i < 512 \<Longrightarrow> pte_at pt i = pt + of_nat (8 * unat i)"
  by (simp add: pte_at_def)

lemma small_index: "(i :: uint64) < 512 \<Longrightarrow> unat i < 512"
  by (simp add: word_less_nat_alt)

lemma pte_in_page: "i < 512 \<Longrightarrow> in_page pt (pte_at pt i)"
  using small_index[of i] in_page_off[of "8 * unat i" pt] by (simp only: pte_at_nat) simp

lemma pte_aligned: "page_ok pt \<Longrightarrow> i < 512 \<Longrightarrow> unat (pte_at pt i) mod 8 = 0"
  using small_index[of i] offset_mod[of 8 pt "8 * unat i"] page_ok_bounds(4)[of pt] by (simp only: pte_at_nat) simp

lemma pte_at_inj: "i < 512 \<Longrightarrow> j < 512 \<Longrightarrow> pte_at pt i = pte_at pt j \<Longrightarrow> i = j"
proof -
  assume a: "i < 512" "j < 512" "pte_at pt i = pte_at pt j"
  then have "unat (8 * i) = unat (8 * j)" by (simp add: pte_at_def)
  moreover have "unat (8 * i) = 8 * unat i" "unat (8 * j) = 8 * unat j"
    using small_index[OF a(1)] small_index[OF a(2)] by (subst unat_mult_lem[THEN iffD1]; simp)+
  ultimately show "i = j" by (simp add: word_unat_eq_iff)
qed

lemma pte_in_one_page:
  assumes "page_ok p" and "page_ok q" and "i < 512" and "in_page q (pte_at p i)"
  shows "p = q"
  using pages_disjoint[of p q] assms pte_in_page[of i p] page_ok_bounds(1) by blast

lemma unat_mod_8: "unat (a :: uint64) mod 8 = 0 \<longleftrightarrow> a mod 8 = 0"
  by (simp add: word_unat_eq_iff unat_mod)

lemma entry_store:
  assumes "page_ok p" and "page_ok q" and "i < 512" and "j < 512"
  shows "entry (store64 (pte_at p i) v m) q j = (if q = p \<and> j = i then v else entry m q j)"
proof (cases "pte_at p i = pte_at q j")
  case True
  then have "p = q" using pte_in_one_page[OF assms(1,2,3)] pte_in_page[OF assms(4), of q] by simp
  with True have "i = j" using pte_at_inj assms by blast
  then show ?thesis using \<open>p = q\<close> by (simp add: entry_def)
next
  case False
  then show ?thesis
    using load64_store64_other[of "pte_at p i" "pte_at q j" v m] pte_aligned assms
    by (auto simp: entry_def unat_mod_8)
qed

lemma entry_cong:
  assumes "page_ok pt" and "i < 512" and "\<And>a. in_page pt a \<Longrightarrow> m' a = m a"
  shows "entry m' pt i = entry m pt i"
  unfolding entry_def
proof (rule load64_cong)
  fix k :: nat assume "k < 8"
  then have "in_page pt (pte_at pt i + of_nat k)"
    using aligned_word_in_page[of pt "pte_at pt i" k] pte_in_page[OF assms(2)] pte_aligned[OF assms(1,2)]
      page_ok_bounds(1)[OF assms(1)] by simp
  then show "m' (pte_at pt i + of_nat k) = m (pte_at pt i + of_nat k)" by (rule assms(3))
qed

lemma same_pagesD: "same_pages T m m' \<Longrightarrow> q \<in> T \<Longrightarrow> in_page q a \<Longrightarrow> m' a = m a"
  by (simp add: same_pages_def)

lemma same_pages_mono: "same_pages T m m' \<Longrightarrow> U \<subseteq> T \<Longrightarrow> same_pages U m m'"
  by (auto simp: same_pages_def)

lemma tset_root [simp]: "pt \<in> tset m n pt"
  by (cases n) simp_all

lemma tset_Suc:
  "q \<in> tset m (Suc n) pt \<longleftrightarrow> q = pt \<or> (\<exists>i r. i < 512 \<and> child m pt i = Some r \<and> q \<in> tset m n r)"
  by (force split: option.splits)

lemma tset_child: "i < 512 \<Longrightarrow> child m pt i = Some q \<Longrightarrow> tset m n q \<subseteq> tset m (Suc n) pt"
  by force

lemma tree_ok_root: "tree_ok m n pt \<Longrightarrow> page_ok pt"
  by (cases n) simp_all

lemma tree_okD:
  assumes "tree_ok m (Suc n) pt" and "i < 512" and "child m pt i = Some q"
  shows "tree_ok m n q" "pt \<notin> tset m n q" "entry m pt i AND (PTE_R OR PTE_W OR PTE_X) = 0"
  using assms by auto

lemma tree_sep:
  assumes "tree_ok m (Suc n) pt" and "i < 512" and "j < 512" and "i \<noteq> j"
    and "child m pt i = Some q" and "child m pt j = Some r"
  shows "tset m n q \<inter> tset m n r = {}"
  using assms unfolding tree_ok.simps by blast

lemma tree_ok_pages: "tree_ok m n pt \<Longrightarrow> q \<in> tset m n pt \<Longrightarrow> page_ok q"
proof (induction n arbitrary: pt)
  case (Suc n)
  then show ?case
    using Suc.IH tree_okD(1)[OF Suc.prems(1)] tree_ok_root[OF Suc.prems(1)] unfolding tset_Suc by blast
qed simp

lemma child_cong:
  assumes "page_ok pt" and "i < 512" and "same_pages T m m'" and "pt \<in> T"
  shows "entry m' pt i = entry m pt i" "child m' pt i = child m pt i"
proof -
  show "entry m' pt i = entry m pt i" using assms same_pagesD by (intro entry_cong) auto
  then show "child m' pt i = child m pt i" by (simp add: child_def)
qed

text \<open>A tree depends only on its own pages.\<close>

lemma tree_frame:
  "tree_ok m n pt \<Longrightarrow> same_pages (tset m n pt) m m' \<Longrightarrow>
    tset m' n pt = tset m n pt \<and> tree_ok m' n pt \<and> leaf m' n pt va = leaf m n pt va \<and>
    table_of m' n pt va = table_of m n pt va"
proof (induction n arbitrary: pt)
  case 0
  then have "entry m' pt (PX 0 va) = entry m pt (PX 0 va)"
    by (intro entry_cong) (auto simp: same_pages_def)
  then show ?case using 0 by simp
next
  case (Suc n)
  have e: "entry m' pt i = entry m pt i" "child m' pt i = child m pt i" if "i < 512" for i
    using child_cong[OF tree_ok_root[OF Suc.prems(1)] that Suc.prems(2) tset_root] by simp_all
  have sub: "tset m' n q = tset m n q \<and> tree_ok m' n q \<and> leaf m' n q va = leaf m n q va \<and>
      table_of m' n q va = table_of m n q va"
    if "i < 512" "child m pt i = Some q" for i q
    using Suc.IH[of q] tree_okD(1)[OF Suc.prems(1) that] same_pages_mono[OF Suc.prems(2) tset_child[OF that]] by blast
  have "tset m' (Suc n) pt = tset m (Suc n) pt"
    using e sub by (auto split: option.splits)
  moreover have "tree_ok m' (Suc n) pt"
    using Suc.prems(1) e sub by simp
  moreover have "leaf m' (Suc n) pt va = leaf m (Suc n) pt va" "table_of m' (Suc n) pt va = table_of m (Suc n) pt va"
    using e(2)[OF PX_less] sub[OF PX_less] by (auto split: option.splits)
  ultimately show ?case by blast
qed


text \<open>Replacing the subtree behind one entry of the root.\<close>

lemma tree_graft:
  assumes t: "tree_ok m (Suc n) pt" and i: "i < 512"
    and q: "child m' pt i = Some q" "entry m' pt i AND (PTE_R OR PTE_W OR PTE_X) = 0" "tree_ok m' n q" "pt \<notin> tset m' n q"
    and others: "\<And>j. j < 512 \<Longrightarrow> j \<noteq> i \<Longrightarrow> entry m' pt j = entry m pt j"
    and sub: "\<And>j r. j < 512 \<Longrightarrow> j \<noteq> i \<Longrightarrow> child m pt j = Some r \<Longrightarrow>
                same_pages (tset m n r) m m' \<and> tset m' n q \<inter> tset m n r = {}"
  shows "tree_ok m' (Suc n) pt"
    and "leaf m' (Suc n) pt va = (if PX (Suc n) va = i then leaf m' n q va else leaf m (Suc n) pt va)"
    and "x \<in> tset m' (Suc n) pt \<longleftrightarrow> x = pt \<or> x \<in> tset m' n q \<or>
           (\<exists>j r. j < 512 \<and> j \<noteq> i \<and> child m pt j = Some r \<and> x \<in> tset m n r)"
proof -
  have ch: "child m' pt j = child m pt j" if "j < 512" "j \<noteq> i" for j
    using others[OF that] by (simp add: child_def)
  have fr: "tset m' n r = tset m n r" "tree_ok m' n r" "leaf m' n r va = leaf m n r va"
    if "j < 512" "j \<noteq> i" "child m pt j = Some r" for j r va
    using tree_frame[OF tree_okD(1)[OF t that(1,3)], of m'] sub[OF that] by blast+
  have sep: "tset m n a \<inter> tset m n b = {}"
    if "j < 512" "k < 512" "j \<noteq> k" "child m pt j = Some a" "child m pt k = Some b" for j k a b
    using tree_sep[OF t that] .
  show "tree_ok m' (Suc n) pt"
    unfolding tree_ok.simps
  proof (intro conjI allI impI)
    show "page_ok pt" using tree_ok_root[OF t] .
    fix j a assume j: "j < 512" "child m' pt j = Some a"
    then show "entry m' pt j AND (PTE_R OR PTE_W OR PTE_X) = 0"
      using q(2) tree_okD(3)[OF t j(1)] ch[of j] others[of j] by (cases "j = i") simp_all
    show "tree_ok m' n a" using j q ch[of j] fr(2)[of j a] by (cases "j = i") simp_all
    show "pt \<notin> tset m' n a"
      using j q ch[of j] fr(1)[of j a] tree_okD(2)[OF t j(1)] by (cases "j = i") simp_all
    fix k b assume k: "k < 512" "k \<noteq> j" "child m' pt k = Some b"
    show "tset m' n a \<inter> tset m' n b = {}"
    proof (cases "j = i")
      case True
      then show ?thesis using j k q ch[of k] fr(1)[of k b] sub[of k b] by auto
    next
      case False
      note ji = this
      then have a: "child m pt j = Some a" "tset m' n a = tset m n a" using j ch[of j] fr(1)[of j a] by simp_all
      show ?thesis
      proof (cases "k = i")
        case True
        then show ?thesis using a k q sub[OF j(1) ji a(1)] by auto
      next
        case False
        then have "child m pt k = Some b" "tset m' n b = tset m n b" using k ch[of k] fr(1)[of k b] by simp_all
        then show ?thesis using sep[of j k a b] a j k by simp
      qed
    qed
  qed
  show "leaf m' (Suc n) pt va = (if PX (Suc n) va = i then leaf m' n q va else leaf m (Suc n) pt va)"
    using q(1) ch[OF PX_less] fr(3)[OF PX_less] by (auto split: option.splits)
  show "x \<in> tset m' (Suc n) pt \<longleftrightarrow> x = pt \<or> x \<in> tset m' n q \<or>
           (\<exists>j r. j < 512 \<and> j \<noteq> i \<and> child m pt j = Some r \<and> x \<in> tset m n r)" (is "_ \<longleftrightarrow> ?R")
  proof
    assume "x \<in> tset m' (Suc n) pt"
    then consider "x = pt" | j r where "j < 512" "child m' pt j = Some r" "x \<in> tset m' n r"
      unfolding tset_Suc by blast
    then show ?R
    proof cases
      case (2 j r)
      then show ?thesis using q(1) ch[of j] fr(1)[of j r] by (cases "j = i") auto
    qed simp
  next
    assume ?R
    then show "x \<in> tset m' (Suc n) pt"
      unfolding tset_Suc using i q(1) ch fr(1) by metis
  qed
qed

declare tset.simps(2) [simp del] tree_ok.simps(2) [simp del]

text \<open>A zeroed page is a table with no entries.\<close>

lemma PTE_bits: "valid v \<longleftrightarrow> bit v 0"
  by (simp add: valid_def PTE_V_def and_one_eq odd_iff_mod_2_eq_one bit_0)

lemma load64_zero:
  assumes "\<And>i. i < 8 \<Longrightarrow> m (a + of_nat i) = 0"
  shows "load64 m a = 0"
proof (rule bit_word_eqI)
  fix k assume "k < LENGTH(64)"
  then show "bit (load64 m a) k = bit (0 :: uint64) k"
    using assms[of "k div 8"] by (subst bit_load64) auto
qed

lemma zero_table:
  assumes "page_ok p" and z: "\<And>a. in_page p a \<Longrightarrow> m a = 0"
  shows "entry m p i = 0 \<or> \<not> i < 512" "i < 512 \<Longrightarrow> child m p i = None" "tset m n p = {p}" "tree_ok m n p" "leaf m n p va = 0"
proof -
  have e: "entry m p i = 0" if "i < 512" for i
  proof -
    have "in_page p (pte_at p i + of_nat k)" if "k < 8" for k
      using aligned_word_in_page[of p "pte_at p i" k] pte_in_page[OF \<open>i < 512\<close>] pte_aligned[OF assms(1) \<open>i < 512\<close>]
        page_ok_bounds(1)[OF assms(1)] that by simp
    then show ?thesis unfolding entry_def using z by (intro load64_zero) blast
  qed
  have c: "child m p i = None" if "i < 512" for i
    using e[OF that] by (simp add: child_def valid_def)
  show "entry m p i = 0 \<or> \<not> i < 512" using e by blast
  show "i < 512 \<Longrightarrow> child m p i = None" by (rule c)
  show "tset m n p = {p}" using c by (cases n) (auto simp: tset.simps(2))
  show "tree_ok m n p" using c assms(1) by (cases n) (auto simp: tree_ok.simps(2))
  show "leaf m n p va = 0" using c e by (cases n) (auto simp: valid_def)
qed

subsection \<open>Frames and page table entries\<close>

lemma same_pages_refl [simp]: "same_pages T m m"
  by (simp add: same_pages_def)

lemma same_outside_refl [simp]: "same_outside T m m"
  by (simp add: same_outside_def)

lemma same_outside_trans:
  "same_outside T m m1 \<Longrightarrow> same_outside U m1 m2 \<Longrightarrow> T \<union> U \<subseteq> V \<Longrightarrow> same_outside V m m2"
  unfolding same_outside_def by (metis Un_iff subsetD)

lemma same_outside_mono: "same_outside T m m' \<Longrightarrow> T \<subseteq> V \<Longrightarrow> same_outside V m m'"
  unfolding same_outside_def by blast

lemma same_pages_trans: "same_pages T m m1 \<Longrightarrow> same_pages T m1 m2 \<Longrightarrow> same_pages T m m2"
  by (auto simp: same_pages_def)

lemma outside_same:
  assumes "same_outside T m m'" and "\<And>q. q \<in> T \<Longrightarrow> page_ok q" and "\<And>q. q \<in> U \<Longrightarrow> page_ok q" and "T \<inter> U = {}"
  shows "same_pages U m m'"
proof -
  have "\<not> in_page r a" if "q \<in> U" "in_page q a" "r \<in> T" for q a r
    using page_ok_disjoint[of r q a] assms that by blast
  then show ?thesis using assms(1) by (simp add: same_pages_def same_outside_def)
qed

text \<open>PTE arithmetic.\<close>

lemma bit_PA2PTE: "bit (PA2PTE pa) k = (10 \<le> k \<and> k < 64 \<and> bit pa (k + 2))"
proof -
  have "12 + (k - 10) = k + 2" if "10 \<le> k" using that by simp
  then show ?thesis by (auto simp: PA2PTE_def bit_simps)
qed

lemma bit_PTE2PA: "bit (PTE2PA v) k = (12 \<le> k \<and> k < 64 \<and> bit v (k - 2))"
proof -
  have "10 + (k - 12) = k - 2" if "12 \<le> k" using that by simp
  then show ?thesis by (auto simp: PTE2PA_def bit_simps)
qed

definition flag_bits :: "uint64 \<Rightarrow> bool" where
  "flag_bits f = (f AND 0x3FF = f)"

lemma mask10: "(0x3FF :: uint64) = mask 10"
  by (simp add: mask_eq_exp_minus_1)

lemma flag_bits_high:
  assumes "flag_bits f" and "10 \<le> k"
  shows "\<not> bit f k"
proof
  assume b: "bit f k"
  have "f = f AND mask 10" using assms(1) by (simp add: flag_bits_def mask10)
  then have "bit f k = bit (f AND mask 10) k" by simp
  then show False using b assms(2) by (simp add: bit_simps)
qed

lemma bit_high:
  assumes "unat (x :: uint64) < 2 ^ n" and "n \<le> k"
  shows "\<not> bit x k"
proof -
  have "take_bit n x = x"
    using assms(1) by (simp add: word_unat_eq_iff unsigned_take_bit_eq take_bit_nat_eq_self)
  then have "bit x k = bit (take_bit n x) k" by (simp only:)
  then show ?thesis using assms(2) by (simp add: bit_take_bit_iff)
qed

lemma page_aligned_bits: "page_aligned p \<Longrightarrow> k < 12 \<Longrightarrow> \<not> bit p k"
proof -
  assume "page_aligned p" "k < 12"
  then have "take_bit 12 p = 0" by (simp add: page_aligned_def PGSIZE_def take_bit_eq_mod)
  moreover have "bit (take_bit 12 p) k = (k < 12 \<and> bit p k)" by (simp add: bit_take_bit_iff)
  ultimately show ?thesis using \<open>k < 12\<close> by simp
qed

lemma PTE2PA_PA2PTE:
  assumes "page_aligned p" and "flag_bits f"
  shows "PTE2PA (PA2PTE p OR f) = p"
proof (rule bit_word_eqI)
  fix k assume k: "k < LENGTH(64)"
  show "bit (PTE2PA (PA2PTE p OR f)) k = bit p k"
  proof (cases "k < 12")
    case True
    then show ?thesis using page_aligned_bits[OF assms(1)] by (simp add: bit_PTE2PA)
  next
    case False
    then have "Suc (Suc (k - 2)) = k" by simp
    then show ?thesis
      using False k flag_bits_high[OF assms(2), of "k - 2"] by (auto simp: bit_PTE2PA bit_PA2PTE bit_or_iff)
  qed
qed

lemma PTE_FLAGS_PA2PTE:
  assumes "flag_bits f"
  shows "PTE_FLAGS (PA2PTE p OR f) = f"
proof (rule bit_word_eqI)
  fix k assume k: "k < LENGTH(64)"
  show "bit (PTE_FLAGS (PA2PTE p OR f)) k = bit f k"
    using flag_bits_high[OF assms, of k] k
    by (cases "k < 10") (auto simp: PTE_FLAGS_def mask10 bit_simps bit_PA2PTE)
qed

lemma flag_bits_simps [simp]:
  "flag_bits PTE_V" "flag_bits PTE_R" "flag_bits PTE_W" "flag_bits PTE_X" "flag_bits PTE_U" "flag_bits 0"
  by (simp_all add: flag_bits_def PTE_V_def PTE_R_def PTE_W_def PTE_X_def PTE_U_def)

lemma flag_bits_or [simp]: "flag_bits f \<Longrightarrow> flag_bits g \<Longrightarrow> flag_bits (f OR g)"
  by (simp add: flag_bits_def bit.conj_disj_distrib2)

lemma flag_bits_flags [simp]: "flag_bits (PTE_FLAGS v)"
  by (simp add: flag_bits_def PTE_FLAGS_def and.assoc)

lemma PTE_and: "valid (v OR PTE_V)" "valid (PA2PTE p OR f) = valid f"
  by (simp_all add: PTE_bits bit_or_iff bit_PA2PTE PTE_V_def bit_1_iff)

lemma interior: "(PA2PTE p OR PTE_V) AND (PTE_R OR PTE_W OR PTE_X) = 0"
proof -
  have "(PTE_R OR PTE_W OR PTE_X :: uint64) = 14" by (simp add: PTE_R_def PTE_W_def PTE_X_def)
  moreover have "PA2PTE p AND 14 = 0"
  proof (rule bit_word_eqI)
    fix k assume "k < LENGTH(64)"
    have "(14 :: uint64) = 14 AND mask 10" by (simp add: mask_eq_exp_minus_1)
    then have "bit (14 :: uint64) k = (bit (14 :: uint64) k \<and> k < 10)" 
      by (metis bit_and_iff bit_mask_iff)
    then show "bit (PA2PTE p AND 14) k = bit (0 :: uint64) k" by (auto simp: bit_and_iff bit_PA2PTE)
  qed
  ultimately show ?thesis by (simp add: bit.conj_disj_distrib2 PTE_V_def)
qed


subsection \<open>Walking with allocation\<close>

definition mem_only :: "nat \<Rightarrow> 'a kmem_scheme \<Rightarrow> 'a kmem_scheme \<Rightarrow> bool" where
  "mem_only c s s' = (settle c s' = (settle c s)\<lparr>ram := ram s', freelist := freelist s'\<rparr>)"

lemma settle_mem [simp]:
  "settle c (s\<lparr>ram := m\<rparr>) = (settle c s)\<lparr>ram := m\<rparr>" "settle c (s\<lparr>freelist := f\<rparr>) = (settle c s)\<lparr>freelist := f\<rparr>"
  "ram (settle c s) = ram s" "freelist (settle c s) = freelist s"
  by (simp_all add: settle_def upd_cpu_def)

lemma mem_only_refl [simp]: "mem_only c s s"
proof -
  have "(settle c s)\<lparr>ram := ram (settle c s), freelist := freelist (settle c s)\<rparr> = settle c s" by simp
  then show ?thesis by (simp add: mem_only_def)
qed

lemma mem_only_trans: "mem_only c s s1 \<Longrightarrow> mem_only c s1 s2 \<Longrightarrow> mem_only c s s2"
proof -
  assume a: "mem_only c s s1" "mem_only c s1 s2"
  have "settle c s2 = ((settle c s)\<lparr>ram := ram s1, freelist := freelist s1\<rparr>)\<lparr>ram := ram s2, freelist := freelist s2\<rparr>"
    using a(2) unfolding mem_only_def a(1)[unfolded mem_only_def] .
  moreover have "\<dots> = (settle c s)\<lparr>ram := ram s2, freelist := freelist s2\<rparr>" by (cases "settle c s") simp
  ultimately show ?thesis by (simp only: mem_only_def)
qed

lemma mem_only_upd:
  "mem_only c s (s\<lparr>ram := m\<rparr>)" "mem_only c s (s\<lparr>freelist := f\<rparr>)" "mem_only c s (settle c s)"
proof -
  have r: "r\<lparr>ram := m, freelist := freelist r\<rparr> = r\<lparr>ram := m\<rparr>" "r\<lparr>ram := ram r, freelist := f\<rparr> = r\<lparr>freelist := f\<rparr>"
    "r\<lparr>ram := ram r, freelist := freelist r\<rparr> = r"
    for r :: "'a kmem_scheme" by simp_all
  have e: "ram (s\<lparr>ram := m\<rparr>) = m" "freelist (s\<lparr>ram := m\<rparr>) = freelist s"
    "ram (s\<lparr>freelist := f\<rparr>) = ram s" "freelist (s\<lparr>freelist := f\<rparr>) = f" by simp_all
  show "mem_only c s (s\<lparr>ram := m\<rparr>)" "mem_only c s (s\<lparr>freelist := f\<rparr>)" "mem_only c s (settle c s)"
    using r(1)[of "settle c s"] r(2)[of "settle c s"] r(3)[of "settle c s"]
    by (simp_all only: mem_only_def settle_mem settle_idem e)
qed

lemma mem_only_ram: "mem_only c s s' \<Longrightarrow> mem_only c s (s'\<lparr>ram := m\<rparr>)"
  using mem_only_upd(1) mem_only_trans by blast

lemma mem_only_freelist: "mem_only c s s' \<Longrightarrow> mem_only c s (s'\<lparr>freelist := f\<rparr>)"
  using mem_only_upd(2) mem_only_trans by blast

lemma mem_only_settle: "mem_only c s (settle c s)"
  by (rule mem_only_upd(3))

lemma mem_only_procs: "mem_only c s s' \<Longrightarrow> procs s' = procs s"
proof -
  assume "mem_only c s s'"
  then have "procs (settle c s') = procs ((settle c s)\<lparr>ram := ram s', freelist := freelist s'\<rparr>)"
    by (simp only: mem_only_def)
  then show ?thesis by simp
qed

lemma kmem_ok_ram:
  assumes "kmem_ok c s ps" and "same_pages (set ps) (ram s) m"
  shows "kmem_ok c (s\<lparr>ram := m\<rparr>) ps"
proof -
  have "chain m (freelist s) ps"
  proof (rule chain_cong[of "ram s"])
    show "chain (ram s) (freelist s) ps" "list_all page_ok ps"
      using assms(1) by (simp_all add: kmem_ok_def free_pages_def)
    show "m a = ram s a" if "q \<in> set ps" "in_page q a" for q a
      using same_pagesD[OF assms(2) that] .
  qed
  then show ?thesis using assms(1) by (simp add: kmem_ok_def free_pages_def lock_free_def cpu_sane_def)
qed


text \<open>What \<open>walk\<close> does to the memory when it may allocate tables.\<close>

definition walk_effect :: "nat \<Rightarrow> nat \<Rightarrow> uint64 \<Rightarrow> uint64 list \<Rightarrow> 'a kmem_scheme \<Rightarrow> nat \<Rightarrow> 'a kmem_scheme \<Rightarrow> bool" where
  "walk_effect c n pt ps s k s' = (k \<le> n \<and> k \<le> length ps \<and> kmem_ok c s' (drop k ps) \<and> tree_ok (ram s') n pt \<and>
     tset (ram s') n pt = tset (ram s) n pt \<union> set (take k ps) \<and>
     leaf (ram s') n pt = leaf (ram s) n pt \<and>
     same_outside (tset (ram s) n pt \<union> set (take k ps)) (ram s) (ram s') \<and> mem_only c s s')"

lemma kmem_ok_pages: "kmem_ok c s ps \<Longrightarrow> p \<in> set ps \<Longrightarrow> page_ok p"
  by (simp add: kmem_ok_def free_pages_def list_all_iff)

lemma tset_split:
  assumes "i < 512" and "child m pt i = Some q"
  shows "x \<in> tset m (Suc n) pt \<longleftrightarrow> x = pt \<or> x \<in> tset m n q \<or>
    (\<exists>j r. j < 512 \<and> j \<noteq> i \<and> child m pt j = Some r \<and> x \<in> tset m n r)"
proof
  assume "x \<in> tset m (Suc n) pt"
  then consider "x = pt" | j r where "j < 512" "child m pt j = Some r" "x \<in> tset m n r"
    unfolding tset_Suc by blast
  then show "x = pt \<or> x \<in> tset m n q \<or> (\<exists>j r. j < 512 \<and> j \<noteq> i \<and> child m pt j = Some r \<and> x \<in> tset m n r)"
  proof cases
    case (2 j r)
    then show ?thesis using assms(2) by (cases "j = i") auto
  qed simp
next
  assume "x = pt \<or> x \<in> tset m n q \<or> (\<exists>j r. j < 512 \<and> j \<noteq> i \<and> child m pt j = Some r \<and> x \<in> tset m n r)"
  then show "x \<in> tset m (Suc n) pt" unfolding tset_Suc using assms by blast
qed

lemma walk_levels_valid:
  assumes t: "tree_ok (ram s) (Suc n) pt" and ps: "kmem_ok c s ps" and d: "set ps \<inter> tset (ram s) (Suc n) pt = {}"
    and q: "child (ram s) pt (PX (Suc n) va) = Some q"
    and w: "walk_effect c n q ps s k s'"
  shows "walk_effect c (Suc n) pt ps s k s'" "child (ram s') pt (PX (Suc n) va) = Some q"
proof -
  let ?i = "PX (Suc n) va" and ?m = "ram s" and ?m' = "ram s'"
  let ?T = "tset ?m n q \<union> set (take k ps)"
  note w' = w[unfolded walk_effect_def]
  have so: "same_outside ?T ?m ?m'" using w' by simp
  have ok: "page_ok x" if "x \<in> ?T" for x
    using that tree_ok_pages[OF tree_okD(1)[OF t PX_less q]] kmem_ok_pages[OF ps] in_set_takeD[of x k ps] by blast
  have tk: "set (take k ps) \<inter> tset ?m (Suc n) pt = {}" using d set_take_subset[of k ps] by blast
  have ptT: "pt \<notin> ?T" using tree_okD(2)[OF t PX_less q] tk tset_root[of pt] by blast
  have pg: "same_pages {pt} ?m ?m'"
    by (rule outside_same[OF so ok]) (use tree_ok_root[OF t] ptT in simp_all)
  have e: "entry ?m' pt j = entry ?m pt j" "child ?m' pt j = child ?m pt j" if "j < 512" for j
    by (rule child_cong[OF tree_ok_root[OF t] that pg]; simp)+
  then show ch: "child ?m' pt ?i = Some q" using q by simp
  have disj: "?T \<inter> tset ?m n r = {}" if "j < 512" "j \<noteq> ?i" "child ?m pt j = Some r" for j r
  proof -
    have "tset ?m n q \<inter> tset ?m n r = {}" using tree_sep[OF t PX_less that(1) that(2)[symmetric] q that(3)] .
    moreover have "tset ?m n r \<subseteq> tset ?m (Suc n) pt" using tset_child[OF that(1,3)] .
    ultimately show ?thesis using tk by blast
  qed
  have wt: "tset ?m' n q = ?T" using w' by simp
  have sub: "same_pages (tset ?m n r) ?m ?m' \<and> tset ?m' n q \<inter> tset ?m n r = {}"
    if "j < 512" "j \<noteq> ?i" "child ?m pt j = Some r" for j r
    using outside_same[OF so ok tree_ok_pages[OF tree_okD(1)[OF t that(1,3)]] disj[OF that]] disj[OF that] wt by simp
  have q': "entry ?m' pt ?i AND (PTE_R OR PTE_W OR PTE_X) = 0" "tree_ok ?m' n q" "pt \<notin> tset ?m' n q"
    using e(1)[OF PX_less] tree_okD(3)[OF t PX_less q] w' ptT by simp_all
  have eo: "entry ?m' pt j = entry ?m pt j" if "j < 512" "j \<noteq> ?i" for j using e(1)[OF that(1)] .
  note g = tree_graft[OF t PX_less ch q' eo sub]
  have leaf: "leaf ?m' (Suc n) pt = leaf ?m (Suc n) pt"
  proof
    show "leaf ?m' (Suc n) pt va' = leaf ?m (Suc n) pt va'" for va'
      using g(2)[where va = va'] w' q by (simp split: option.splits)
  qed
  have ts: "tset ?m' (Suc n) pt = tset ?m (Suc n) pt \<union> set (take k ps)"
  proof (rule set_eqI)
    fix x
    have "x \<in> tset ?m' (Suc n) pt \<longleftrightarrow> x = pt \<or> x \<in> ?T \<or>
        (\<exists>j r. j < 512 \<and> j \<noteq> ?i \<and> child ?m pt j = Some r \<and> x \<in> tset ?m n r)"
      using g(3)[where x = x] w' by simp
    also have "\<dots> \<longleftrightarrow> x \<in> tset ?m (Suc n) pt \<union> set (take k ps)"
      using tset_split[OF PX_less q, of x n] by blast
    finally show "x \<in> tset ?m' (Suc n) pt \<longleftrightarrow> x \<in> tset ?m (Suc n) pt \<union> set (take k ps)" .
  qed
  have "same_outside (tset ?m (Suc n) pt \<union> set (take k ps)) ?m ?m'"
    using same_outside_mono[OF so] tset_child[OF PX_less q, of n] by blast
  then show "walk_effect c (Suc n) pt ps s k s'"
    using g(1) w' leaf ts unfolding walk_effect_def by simp
qed


text \<open>A table allocated by \<open>walk\<close>: page \<open>p\<close>, zeroed, linked from entry \<open>i\<close> of \<open>pt\<close>.\<close>

definition link_table :: "uint64 \<Rightarrow> uint64 \<Rightarrow> uint64 \<Rightarrow> 'a kmem_scheme \<Rightarrow> 'a kmem_scheme" where
  "link_table pt i p s = set_pte (pte_at pt i) (PA2PTE p OR PTE_V) (zero_page p s)"

lemma link_table_frame:
  fixes s :: "'a kmem_scheme"
  assumes ok: "page_ok pt" "page_ok p" "i < 512" "pt \<noteq> p"
  defines "m' \<equiv> ram (link_table pt i p s)"
  shows "same_outside {p, pt} (ram s) m'" "entry m' pt i = PA2PTE p OR PTE_V"
    "j < 512 \<Longrightarrow> j \<noteq> i \<Longrightarrow> entry m' pt j = entry (ram s) pt j" "in_page p a \<Longrightarrow> m' a = 0"
    "mem_only c s (link_table pt i p s)"
proof -
  let ?z = "memset p 0 4096 (ram s)"
  have m': "m' = store64 (pte_at pt i) (PA2PTE p OR PTE_V) ?z"
    by (simp add: m'_def link_table_def set_pte_def zero_page_def)
  have z: "?z a = (if in_page p a then 0 else ram s a)" for a
    using page_ok_bounds(2)[OF ok(2)] by (simp add: memset_page)
  have st: "m' a = ?z a" if "\<not> in_page pt a" for a
    unfolding m'
  proof (rule store64_other, rule ccontr)
    assume "\<not> 8 \<le> a - pte_at pt i"
    then have "unat (a - pte_at pt i) < 8" by (simp add: word_le_nat_alt)
    then have "in_page pt (pte_at pt i + of_nat (unat (a - pte_at pt i)))"
      using aligned_word_in_page[OF page_ok_bounds(1)[OF ok(1)] pte_in_page[OF ok(3)] pte_aligned[OF ok(1,3)]] by blast
    then show False using that by simp
  qed
  show "same_outside {p, pt} (ram s) m'" using st z by (simp add: same_outside_def)
  have e: "entry m' pt j = (if j = i then PA2PTE p OR PTE_V else entry ?z pt j)" if "j < 512" for j
    unfolding m' using entry_store[OF ok(1) ok(1) ok(3) that] by simp
  show "entry m' pt i = PA2PTE p OR PTE_V" using e[OF ok(3)] by simp
  have "entry ?z pt j = entry (ram s) pt j" if "j < 512" for j
    by (rule entry_cong[OF ok(1) that]) (use z page_ok_disjoint[OF ok(2) ok(1) ok(4)] in auto)
  then show "entry m' pt j = entry (ram s) pt j" if "j < 512" "j \<noteq> i" using e that by simp
  show "m' a = 0" if "in_page p a"
    using st[of a] z[of a] that page_ok_disjoint[OF ok(1) ok(2) ok(4)[symmetric]] by auto
  show "mem_only c s (link_table pt i p s)"
    unfolding link_table_def set_pte_def zero_page_def by (intro mem_only_ram mem_only_refl)
qed

lemma kalloc_page:
  assumes "kmem_ok c s (p # ps)"
  obtains s1 where "kalloc c s = Inr (p, s1)" "kmem_ok c s1 ps" "same_outside {p} (ram s) (ram s1)" "mem_only c s s1"
    "page_ok p" "p \<noteq> 0" "p \<notin> set ps"
proof -
  let ?s = "(settle c s)\<lparr>freelist := load64 (ram s) p, ram := memset p 5 4096 (ram s)\<rparr>"
  have ok: "page_ok p" "p \<notin> set ps" using assms by (simp_all add: kmem_ok_def free_pages_def)
  have "same_outside {p} (ram s) (ram ?s)"
    using page_ok_bounds(2)[OF ok(1)] by (simp add: same_outside_def memset_page)
  moreover have "mem_only c s ?s" by (intro mem_only_ram mem_only_freelist mem_only_settle)
  ultimately show ?thesis
    using that[OF kalloc_cons[OF assms] alloc_keeps[OF assms]] ok page_ok_bounds(3)[OF ok(1)] by blast
qed

text \<open>The step of \<open>walk\<close> that allocates a table.\<close>

lemma walk_levels_fresh:
  assumes t: "tree_ok (ram s) (Suc n) pt" and ps: "kmem_ok c s (p # ps)"
    and d: "set (p # ps) \<inter> tset (ram s) (Suc n) pt = {}"
    and nochild: "child (ram s) pt (PX (Suc n) va) = None"
    and s1: "kmem_ok c s1 ps" "same_outside {p} (ram s) (ram s1)" "mem_only c s s1"
    and w: "walk_effect c n p ps (link_table pt (PX (Suc n) va) p s1) k s'"
  shows "walk_effect c (Suc n) pt (p # ps) s (Suc k) s'" "child (ram s') pt (PX (Suc n) va) = Some p"
proof -
  let ?i = "PX (Suc n) va" and ?m = "ram s" and ?m' = "ram s'" and ?m2 = "ram (link_table pt (PX (Suc n) va) p s1)"
  let ?N = "set (take (Suc k) (p # ps))"
  note w' = w[unfolded walk_effect_def]
  have pok: "page_ok p" "page_ok pt" using kmem_ok_pages[OF ps, of p] tree_ok_root[OF t] by simp_all
  have pt: "pt \<noteq> p" "pt \<notin> set ps" using d tset_root[of pt ?m "Suc n"] by auto
  have tk: "set (take k ps) \<subseteq> set ps" by (rule set_take_subset)
  note lt = link_table_frame[OF pok(2,1) PX_less pt(1), where s = s1]
  have z: "tset ?m2 n p = {p}" "leaf ?m2 n p va' = 0" for va'
    using zero_table[OF pok(1), of ?m2] lt(4) by blast+
  have w2: "same_outside ?N ?m2 ?m'" using w' z(1) by simp
  have ts': "tset ?m' n p = ?N" using w' z(1) by simp
  have Nok: "page_ok x" if "x \<in> ?N" for x
    using that tk kmem_ok_pages[OF ps, of x] by auto
  have Nsub: "?N \<subseteq> set (p # ps)" using tk by auto
  have so: "same_outside (insert pt ?N) ?m ?m'"
    by (rule same_outside_trans[OF same_outside_trans[OF s1(2) lt(1) subset_refl] w2]) auto
  have ptN: "pt \<notin> ?N" using pt tk by auto
  have keep: "same_pages {pt} ?m2 ?m'" 
    by (rule outside_same[OF w2 Nok]) (use pok ptN in simp_all)
  have e2: "entry ?m' pt j = entry ?m2 pt j" if "j < 512" for j
    using child_cong(1)[OF pok(2) that keep] by simp
  have s1pt: "same_pages {pt} ?m (ram s1)"
    by (rule outside_same[OF s1(2)]) (use pok pt in auto)
  have e1: "entry (ram s1) pt j = entry ?m pt j" if "j < 512" for j
    using child_cong(1)[OF pok(2) that s1pt] by simp
  have eo: "entry ?m' pt j = entry ?m pt j" if "j < 512" "j \<noteq> ?i" for j
    using e2[OF that(1)] lt(3)[OF that] e1[OF that(1)] by simp
  have ei: "entry ?m' pt ?i = PA2PTE p OR PTE_V" using e2[OF PX_less] lt(2) by simp
  then show ch: "child ?m' pt ?i = Some p"
    using PTE2PA_PA2PTE[OF page_ok_bounds(1)[OF pok(1)], of PTE_V] by (simp add: child_def PTE_and)
  have disj: "insert pt ?N \<inter> tset ?m n r = {}" if "j < 512" "child ?m pt j = Some r" for j r
    using tset_child[OF that, of n] tree_okD(2)[OF t that] d Nsub by blast
  have sub: "same_pages (tset ?m n r) ?m ?m' \<and> tset ?m' n p \<inter> tset ?m n r = {}"
    if "j < 512" "j \<noteq> ?i" "child ?m pt j = Some r" for j r
  proof
    show "same_pages (tset ?m n r) ?m ?m'"
      using outside_same[OF so _ tree_ok_pages[OF tree_okD(1)[OF t that(1,3)]] disj[OF that(1,3)]] Nok pok(2) by blast
    show "tset ?m' n p \<inter> tset ?m n r = {}" using disj[OF that(1,3)] ts' by blast
  qed
  have q': "entry ?m' pt ?i AND (PTE_R OR PTE_W OR PTE_X) = 0" "tree_ok ?m' n p" "pt \<notin> tset ?m' n p"
    using ei interior w' ptN ts' by simp_all
  note g = tree_graft[OF t PX_less ch q' eo sub]
  have leaf: "leaf ?m' (Suc n) pt = leaf ?m (Suc n) pt"
  proof
    show "leaf ?m' (Suc n) pt va' = leaf ?m (Suc n) pt va'" for va'
      using g(2)[where va = va'] w' z(2)[of va'] nochild by (simp split: option.splits)
  qed
  have ts: "tset ?m' (Suc n) pt = tset ?m (Suc n) pt \<union> ?N"
  proof (rule set_eqI)
    fix x
    have "x \<in> tset ?m' (Suc n) pt \<longleftrightarrow> x = pt \<or> x \<in> ?N \<or>
        (\<exists>j r. j < 512 \<and> j \<noteq> ?i \<and> child ?m pt j = Some r \<and> x \<in> tset ?m n r)"
      using g(3)[where x = x] ts' by simp
    also have "\<dots> \<longleftrightarrow> x \<in> tset ?m (Suc n) pt \<union> ?N"
      unfolding Un_iff tset_Suc using nochild by (metis option.distinct(1))
    finally show "x \<in> tset ?m' (Suc n) pt \<longleftrightarrow> x \<in> tset ?m (Suc n) pt \<union> ?N" .
  qed
  have "same_outside (tset ?m (Suc n) pt \<union> ?N) ?m ?m'"
    by (rule same_outside_mono[OF so]) (use tset_root in blast)
  moreover have "mem_only c s s'"
    using mem_only_trans[OF mem_only_trans[OF s1(3) lt(5)]] w' by blast
  ultimately show "walk_effect c (Suc n) pt (p # ps) s (Suc k) s'"
    using g(1) w' leaf ts unfolding walk_effect_def by simp
qed

lemma kmem_ok_settle: "kmem_ok c s ps \<Longrightarrow> kmem_ok c (settle c s) ps"
  by (simp add: kmem_ok_frame)

lemma walk_levels_alloc:
  "tree_ok (ram s) n pt \<Longrightarrow> kmem_ok c s ps \<Longrightarrow> set ps \<inter> tset (ram s) n pt = {} \<Longrightarrow>
    \<exists>t s' k. walk_levels c (levels n) pt va True s = Inr (t, s') \<and> walk_effect c n pt ps s k s' \<and>
      t = table_of (ram s') n pt va \<and> (t = None \<longrightarrow> k = length ps)"
proof (induction n arbitrary: pt s ps)
  case 0
  then show ?case by (intro exI[of _ "Some pt"] exI[of _ s] exI[of _ 0]) (simp add: walk_effect_def)
next
  case (Suc n)
  let ?i = "PX (Suc n) va"
  show ?case
  proof (cases "child (ram s) pt ?i")
    case (Some q)
    have v: "load64 (ram s) (pte_at pt ?i) AND PTE_V \<noteq> 0" "PTE2PA (load64 (ram s) (pte_at pt ?i)) = q"
      using Some by (auto simp: child_def valid_def entry_def split: if_splits)
    have "set ps \<inter> tset (ram s) n q = {}" using Suc.prems(3) tset_child[OF PX_less Some, of n] by blast
    from Suc.IH[OF tree_okD(1)[OF Suc.prems(1) PX_less Some] Suc.prems(2) this]
    obtain t s' k where w: "walk_levels c (levels n) q va True s = Inr (t, s')" "walk_effect c n q ps s k s'"
      "t = table_of (ram s') n q va" "t = None \<longrightarrow> k = length ps" by auto
    note wv = walk_levels_valid[OF Suc.prems Some w(2)]
    have "walk_levels c (levels (Suc n)) pt va True s = Inr (t, s')" using w(1) v by (simp add: Let_def)
    moreover have "t = table_of (ram s') (Suc n) pt va" using w(3) wv(2) by simp
    ultimately show ?thesis using wv(1) w(4) by (intro exI conjI) assumption+
  next
    case None
    then have v: "load64 (ram s) (pte_at pt ?i) AND PTE_V = 0"
      by (simp add: child_def valid_def entry_def split: if_splits)
    show ?thesis
    proof (cases ps)
      case Nil
      have "walk_levels c (levels (Suc n)) pt va True s = Inr (None, settle c s)"
        using v kalloc_empty[of c s] Suc.prems(2) Nil by (simp add: Let_def)
      moreover have "walk_effect c (Suc n) pt ps s 0 (settle c s)"
        using Suc.prems kmem_ok_settle[OF Suc.prems(2)] mem_only_settle by (simp add: walk_effect_def)
      moreover have "table_of (ram (settle c s)) (Suc n) pt va = None" using None by simp
      ultimately show ?thesis using Nil by (intro exI[of _ None] exI[of _ "settle c s"] exI[of _ 0]) simp
    next
      case (Cons p ps')
      note ps = Suc.prems(2)[unfolded Cons] and d = Suc.prems(3)[unfolded Cons]
      obtain s1 where s1: "kalloc c s = Inr (p, s1)" "kmem_ok c s1 ps'" "same_outside {p} (ram s) (ram s1)"
        "mem_only c s s1" "page_ok p" "p \<noteq> 0" "p \<notin> set ps'" using kalloc_page[OF ps] by blast
      let ?s2 = "link_table pt ?i p s1"
      have ptp: "pt \<noteq> p" "pt \<notin> set ps'" using d tset_root[of pt "ram s" "Suc n"] by auto
      note lt = link_table_frame[OF tree_ok_root[OF Suc.prems(1)] s1(5) PX_less ptp(1), where s = s1]
      have k2: "kmem_ok c ?s2 ps'"
      proof -
        have "same_pages (set ps') (ram s1) (ram ?s2)"
          by (rule outside_same[OF lt(1)])
            (use s1(5,7) ptp tree_ok_root[OF Suc.prems(1)] kmem_ok_pages[OF s1(2)] in auto)
        from kmem_ok_ram[OF s1(2) this] show ?thesis
          by (simp add: link_table_def set_pte_def zero_page_def)
      qed
      have z: "tree_ok (ram ?s2) n p" "tset (ram ?s2) n p = {p}"
        using zero_table[OF s1(5), of "ram ?s2"] lt(4) by blast+
      from Suc.IH[OF z(1) k2] z(2) s1(7)
      obtain t s' k where w: "walk_levels c (levels n) p va True ?s2 = Inr (t, s')" "walk_effect c n p ps' ?s2 k s'"
        "t = table_of (ram s') n p va" "t = None \<longrightarrow> k = length ps'" by auto
      note wf = walk_levels_fresh[OF Suc.prems(1) ps d None s1(2,3,4) w(2)]
      have "walk_levels c (levels (Suc n)) pt va True s = Inr (t, s')"
        using w(1) v s1(1,6) by (simp add: Let_def link_table_def)
      moreover have "t = table_of (ram s') (Suc n) pt va" using w(3) wf(2) by simp
      ultimately show ?thesis using wf(1) w(4) unfolding Cons
        by (intro exI[of _ t] exI[of _ s'] exI[of _ "Suc k"] conjI) (assumption | simp)+
    qed
  qed
qed

subsection \<open>Leaf entries\<close>

lemma table_of_tset: "tree_ok m n pt \<Longrightarrow> table_of m n pt va = Some t \<Longrightarrow> t \<in> tset m n pt"
proof (induction n arbitrary: pt)
  case (Suc n)
  then obtain q where q: "child m pt (PX (Suc n) va) = Some q" "table_of m n q va = Some t"
    by (auto split: option.splits)
  then show ?case using Suc.IH[OF tree_okD(1)[OF Suc.prems(1) PX_less q(1)] q(2)] tset_child[OF PX_less q(1), of n] by blast
qed simp

lemma leaf_table: "leaf m n pt va = (case table_of m n pt va of None \<Rightarrow> 0
    | Some t \<Rightarrow> if valid (entry m t (PX 0 va)) then entry m t (PX 0 va) else 0)"
  by (induction n arbitrary: pt) (auto split: option.splits)

definition same_path :: "nat \<Rightarrow> uint64 \<Rightarrow> uint64 \<Rightarrow> bool" where
  "same_path n va va' = (\<forall>l\<le>n. PX l va' = PX l va)"

lemma same_path_Suc: "same_path (Suc n) va va' \<longleftrightarrow> PX (Suc n) va' = PX (Suc n) va \<and> same_path n va va'"
  by (auto simp: same_path_def le_Suc_eq)

lemma store_page:
  assumes "page_ok t" and "i < 512"
  shows "same_outside {t} m (store64 (pte_at t i) v m)"
proof -
  have "store64 (pte_at t i) v m a = m a" if "\<not> in_page t a" for a
  proof (rule store64_other, rule ccontr)
    assume "\<not> 8 \<le> a - pte_at t i"
    then have "unat (a - pte_at t i) < 8" by (simp add: word_le_nat_alt)
    then have "in_page t (pte_at t i + of_nat (unat (a - pte_at t i)))"
      using aligned_word_in_page[OF page_ok_bounds(1)[OF assms(1)] pte_in_page[OF assms(2)] pte_aligned[OF assms]] by blast
    then show False using that by simp
  qed
  then show ?thesis by (simp add: same_outside_def)
qed

lemma leaf_store:
  fixes v :: uint64
  assumes "tree_ok m n pt" and "table_of m n pt va = Some t"
  defines "m' \<equiv> store64 (pte_at t (PX 0 va)) v m"
  shows "tree_ok m' n pt \<and> tset m' n pt = tset m n pt \<and> table_of m' n pt va = Some t \<and>
    (\<forall>va'. leaf m' n pt va' = (if same_path n va va' then (if valid v then v else 0) else leaf m n pt va'))"
  using assms(1,2)
proof (induction n arbitrary: pt)
  case 0
  then have "t = pt" "page_ok pt" by simp_all
  then show ?case
    using entry_store[OF \<open>page_ok pt\<close> \<open>page_ok pt\<close> PX_less PX_less, of 0 va v m] 0
    by (simp add: m'_def same_path_def)
next
  case (Suc n)
  let ?i = "PX (Suc n) va"
  obtain q where q: "child m pt ?i = Some q" "table_of m n q va = Some t"
    using Suc.prems(2) by (auto split: option.splits)
  note tq = tree_okD[OF Suc.prems(1) PX_less q(1)]
  have IH: "tree_ok m' n q" "tset m' n q = tset m n q" "table_of m' n q va = Some t"
    "leaf m' n q va' = (if same_path n va va' then (if valid v then v else 0) else leaf m n q va')" for va'
    using Suc.IH[OF tq(1) q(2)] by simp_all
  have t: "t \<in> tset m n q" using table_of_tset[OF tq(1) q(2)] .
  have tok: "page_ok t" using tree_ok_pages[OF tq(1) t] .
  have so: "same_outside {t} m m'" unfolding m'_def by (rule store_page[OF tok PX_less])
  have "same_pages {pt} m m'"
    by (rule outside_same[OF so]) (use tok tree_ok_root[OF Suc.prems(1)] t tq(2) in auto)
  then have e: "entry m' pt j = entry m pt j" "child m' pt j = child m pt j" if "j < 512" for j
    using child_cong[OF tree_ok_root[OF Suc.prems(1)] that] by simp_all
  have eo: "entry m' pt j = entry m pt j" if "j < 512" "j \<noteq> ?i" for j using e(1)[OF that(1)] .
  have ch: "child m' pt ?i = Some q" using e(2)[OF PX_less] q(1) by simp
  have sub: "same_pages (tset m n r) m m' \<and> tset m' n q \<inter> tset m n r = {}"
    if "j < 512" "j \<noteq> ?i" "child m pt j = Some r" for j r
  proof
    have sep: "tset m n q \<inter> tset m n r = {}" using tree_sep[OF Suc.prems(1) PX_less that(1) that(2)[symmetric] q(1) that(3)] .
    then show "tset m' n q \<inter> tset m n r = {}" using IH(2) by simp
    show "same_pages (tset m n r) m m'"
      by (rule outside_same[OF so]) (use tok tree_ok_pages[OF tree_okD(1)[OF Suc.prems(1) that(1,3)]] sep t in auto)
  qed
  have q': "entry m' pt ?i AND (PTE_R OR PTE_W OR PTE_X) = 0" "tree_ok m' n q" "pt \<notin> tset m' n q"
    using e(1)[OF PX_less] tq(2,3) IH(1,2) by simp_all
  note g = tree_graft[OF Suc.prems(1) PX_less ch q' eo sub]
  have "tset m' (Suc n) pt = tset m (Suc n) pt"
  proof (rule set_eqI)
    show "x \<in> tset m' (Suc n) pt \<longleftrightarrow> x \<in> tset m (Suc n) pt" for x
      using g(3)[where x = x] IH(2) unfolding tset_split[OF PX_less q(1), of x n] by simp
  qed
  moreover have "leaf m' (Suc n) pt va' = (if same_path (Suc n) va va' then (if valid v then v else 0) else leaf m (Suc n) pt va')" for va'
    using g(2)[where va = va'] IH(4)[of va'] q(1) by (simp add: same_path_Suc split: option.splits)
  ultimately show ?case using g(1) IH(3) ch by simp
qed

lemma bit_PX: "bit (PX l x) k = (k < 9 \<and> bit x (12 + 9 * l + k))"
proof -
  have "PX l x = drop_bit (12 + 9 * l) x AND mask 9" by (simp add: PX_def mask_eq_exp_minus_1)
  then show ?thesis by (auto simp only: bit_and_iff bit_mask_iff bit_drop_bit_eq o_def) simp
qed

lemma bit_PGROUNDDOWN: "bit (PGROUNDDOWN x) k = (12 \<le> k \<and> k < 64 \<and> bit x k)"
proof -
  have "PGROUNDDOWN x = x AND NOT (mask 12)" by (simp add: PGROUNDDOWN_def PGSIZE_def mask_eq_exp_minus_1)
  then show ?thesis using bit_imp_le_length[of x k] by (auto simp: bit_and_iff bit_not_iff bit_mask_iff)
qed

lemma MAXVA_high: "x < MAXVA \<Longrightarrow> 38 \<le> k \<Longrightarrow> \<not> bit x k"
  by (rule bit_high[of x 38]) (simp_all add: MAXVA_def word_less_nat_alt)

lemma PX_path_bits:
  assumes "same_path 2 va va'" and "12 \<le> k" and "k < 39"
  shows "bit va' k = bit va k"
proof -
  obtain l r where k: "l \<le> 2" "r < 9" "k = 12 + 9 * l + r"
  proof
    show "(k - 12) div 9 \<le> 2" "(k - 12) mod 9 < 9" using assms(3) by simp_all
    show "k = 12 + 9 * ((k - 12) div 9) + (k - 12) mod 9" 
      using assms(2) mult_div_mod_eq[of 9 "k - 12"] by linarith
  qed
  then have "PX l va' = PX l va" using assms(1) unfolding same_path_def by blast
  then have "bit (PX l va') r = bit (PX l va) r" by (simp only:)
  then show ?thesis unfolding bit_PX k(3) using k(2) by blast
qed

lemma PX_PGROUNDDOWN:
  assumes "va < MAXVA" and "va' < MAXVA"
  shows "same_path 2 va va' \<longleftrightarrow> PGROUNDDOWN va' = PGROUNDDOWN va"
proof
  assume p: "same_path 2 va va'"
  show "PGROUNDDOWN va' = PGROUNDDOWN va"
  proof (rule bit_word_eqI)
    fix k assume "k < LENGTH(64)"
    show "bit (PGROUNDDOWN va') k = bit (PGROUNDDOWN va) k"
    proof (cases "k < 39")
      case True
      then show ?thesis using PX_path_bits[OF p _ True] unfolding bit_PGROUNDDOWN by blast
    next
      case False
      then have "38 \<le> k" by simp
      then show ?thesis
        using MAXVA_high[OF assms(1)] MAXVA_high[OF assms(2)] unfolding bit_PGROUNDDOWN by blast
    qed
  qed
next
  assume p: "PGROUNDDOWN va' = PGROUNDDOWN va"
  have b: "bit va' k = bit va k" if "12 \<le> k" "k < 64" for k
  proof -
    have "bit (PGROUNDDOWN va') k = bit (PGROUNDDOWN va) k" by (simp only: p)
    then show ?thesis using that by (simp only: bit_PGROUNDDOWN simp_thms)
  qed
  show "same_path 2 va va'"
    unfolding same_path_def
  proof (intro allI impI bit_word_eqI)
    fix l k :: nat assume l: "l \<le> 2"
    have "bit va' (12 + 9 * l + k) = bit va (12 + 9 * l + k)" if "k < 9"
      by (rule b) (use l that in simp_all)
    then show "bit (PX l va') k = bit (PX l va) k" unfolding bit_PX by blast
  qed
qed

subsection \<open>Address spaces\<close>

definition lookup :: "bytemem \<Rightarrow> uint64 \<Rightarrow> uint64 \<Rightarrow> uint64" where
  "lookup m pt va = leaf m 2 pt va"

definition space :: "nat \<Rightarrow> 'a kmem_scheme \<Rightarrow> uint64 \<Rightarrow> uint64 list \<Rightarrow> bool" where
  "space c s pt ps = (tree_ok (ram s) 2 pt \<and> kmem_ok c s ps \<and> set ps \<inter> tset (ram s) 2 pt = {})"

definition space_effect :: "nat \<Rightarrow> uint64 \<Rightarrow> uint64 list \<Rightarrow> 'a kmem_scheme \<Rightarrow> nat \<Rightarrow> 'a kmem_scheme \<Rightarrow> bool" where
  "space_effect c pt ps s k s' = (k \<le> length ps \<and> space c s' pt (drop k ps) \<and>
     tset (ram s') 2 pt = tset (ram s) 2 pt \<union> set (take k ps) \<and>
     same_outside (tset (ram s) 2 pt \<union> set (take k ps)) (ram s) (ram s') \<and> mem_only c s s')"

lemma space_effect_refl: "space c s pt ps \<Longrightarrow> space_effect c pt ps s 0 s"
  by (simp add: space_effect_def)

lemma space_effect_trans:
  assumes "space_effect c pt ps s k s1" and "space_effect c pt (drop k ps) s1 j s2"
  shows "space_effect c pt ps s (k + j) s2"
proof -
  have t: "set (take (k + j) ps) = set (take k ps) \<union> set (take j (drop k ps))" by (simp add: take_add)
  have ts: "tset (ram s2) 2 pt = tset (ram s) 2 pt \<union> set (take (k + j) ps)"
    using assms unfolding space_effect_def t by (simp add: Un_assoc)
  have so: "same_outside (tset (ram s) 2 pt \<union> set (take (k + j) ps)) (ram s) (ram s2)"
    by (rule same_outside_trans[of "tset (ram s) 2 pt \<union> set (take k ps)" _ "ram s1" "tset (ram s1) 2 pt \<union> set (take j (drop k ps))"])
      (use assms t in \<open>auto simp: space_effect_def\<close>)
  have "mem_only c s s2" using assms mem_only_trans unfolding space_effect_def by blast
  moreover have "k + j \<le> length ps" using assms by (auto simp: space_effect_def)
  ultimately show ?thesis
    using assms ts so unfolding space_effect_def by (simp add: add.commute)
qed

lemma free_distinct: "kmem_ok c s ps \<Longrightarrow> distinct ps"
  by (simp add: kmem_ok_def free_pages_def)

lemma walk_space_effect:
  assumes "space c s pt ps" and "walk_effect c 2 pt ps s k s'"
  shows "space_effect c pt ps s k s'"
proof -
  have "distinct (take k ps @ drop k ps)" using assms(1) free_distinct[of c s ps] by (simp add: space_def)
  then have "set (drop k ps) \<inter> set (take k ps) = {}" by (simp only: distinct_append Int_commute)
  moreover have "set (drop k ps) \<inter> tset (ram s) 2 pt = {}"
    using assms(1) set_drop_subset[of k ps] by (auto simp: space_def)
  ultimately have "space c s' pt (drop k ps)"
    using assms(2) unfolding space_def walk_effect_def by auto
  then show ?thesis using assms(2) by (simp add: space_effect_def walk_effect_def)
qed

lemma pte_nonzero:
  assumes "page_ok t" and "i < 512"
  shows "pte_at t i \<noteq> 0"
proof -
  have "\<not> in_page t 0"
  proof
    assume "in_page t 0"
    then obtain i where i: "i < 4096" "0 = t + of_nat i" by (auto simp: in_page_ex)
    then have "unat (t + of_nat i) = unat t + i" using page_ok_bounds(2)[OF assms(1)] by (intro unat_plus_of_nat) simp
    then show False using i(2) page_ok_bounds(3)[OF assms(1)] by (metis add_is_0 unat_0 unat_eq_zero)
  qed
  then show ?thesis using pte_in_page[OF assms(2), of t] by metis
qed

lemma levels_2: "levels 2 = [2, 1]"
  by (simp add: numeral_2_eq_2)

lemma walk_alloc:
  assumes "space c s pt ps" and "va < MAXVA"
  obtains pte s' k where "walk c pt va True s = Inr (pte, s')" "space_effect c pt ps s k s'"
    "leaf (ram s') 2 pt = leaf (ram s) 2 pt"
    "pte = 0 \<and> k = length ps \<or>
     (\<exists>t. table_of (ram s') 2 pt va = Some t \<and> pte = pte_at t (PX 0 va) \<and> pte \<noteq> 0 \<and> page_ok t \<and> t \<in> tset (ram s') 2 pt)"
proof -
  obtain t s' k where w: "walk_levels c (levels 2) pt va True s = Inr (t, s')" "walk_effect c 2 pt ps s k s'"
    "t = table_of (ram s') 2 pt va" "t = None \<longrightarrow> k = length ps"
    using walk_levels_alloc[of s 2 pt c ps va] assms(1) unfolding space_def by auto
  let ?pte = "case t of None \<Rightarrow> 0 | Some t \<Rightarrow> pte_at t (PX 0 va)"
  have "walk c pt va True s = Inr (?pte, s')" using w(1) assms(2) by (simp add: walk_def levels_2 not_le[symmetric])
  moreover have "?pte = 0 \<and> k = length ps \<or>
     (\<exists>t. table_of (ram s') 2 pt va = Some t \<and> ?pte = pte_at t (PX 0 va) \<and> ?pte \<noteq> 0 \<and> page_ok t \<and> t \<in> tset (ram s') 2 pt)"
  proof (cases t)
    case (Some q)
    have tr: "tree_ok (ram s') 2 pt" using w(2) by (simp add: walk_effect_def)
    have "q \<in> tset (ram s') 2 pt" using table_of_tset[OF tr, of va q] w(3) Some by simp
    then show ?thesis using Some w(3) tree_ok_pages[OF tr] pte_nonzero[of q "PX 0 va"] by simp
  qed (use w(4) in simp)
  ultimately show ?thesis
    using that walk_space_effect[OF assms(1) w(2)] w(2) by (simp add: walk_effect_def)
qed

lemma walk_levels_lookup:
  "tree_ok (ram s) n pt \<Longrightarrow> walk_levels c (levels n) pt va False s = Inr (table_of (ram s) n pt va, s)"
proof (induction n arbitrary: pt)
  case (Suc n)
  show ?case
  proof (cases "child (ram s) pt (PX (Suc n) va)")
    case (Some q)
    then have "load64 (ram s) (pte_at pt (PX (Suc n) va)) AND PTE_V \<noteq> 0" "PTE2PA (load64 (ram s) (pte_at pt (PX (Suc n) va))) = q"
      by (auto simp: child_def valid_def entry_def split: if_splits)
    then show ?thesis using Some Suc.IH[OF tree_okD(1)[OF Suc.prems PX_less Some]] by (simp add: Let_def)
  next
    case None
    then have "load64 (ram s) (pte_at pt (PX (Suc n) va)) AND PTE_V = 0"
      by (simp add: child_def valid_def entry_def split: if_splits)
    then show ?thesis using None by (simp add: Let_def)
  qed
qed simp

definition pte_ptr :: "bytemem \<Rightarrow> uint64 \<Rightarrow> uint64 \<Rightarrow> uint64" where
  "pte_ptr m pt va = (case table_of m 2 pt va of None \<Rightarrow> 0 | Some t \<Rightarrow> pte_at t (PX 0 va))"

lemma walk_lookup:
  assumes "tree_ok (ram s) 2 pt" and "va < MAXVA"
  shows "walk c pt va False s = Inr (pte_ptr (ram s) pt va, s)"
  using walk_levels_lookup[OF assms(1), of c va] assms(2)
  by (simp add: walk_def pte_ptr_def levels_2 not_le[symmetric])

lemma valid_nonzero: "valid v \<Longrightarrow> v \<noteq> 0"
  by (auto simp: valid_def)

lemma lookup_pte:
  assumes "tree_ok m 2 pt"
  shows "pte_ptr m pt va = 0 \<Longrightarrow> lookup m pt va = 0"
    and "pte_ptr m pt va \<noteq> 0 \<Longrightarrow> lookup m pt va = (if load64 m (pte_ptr m pt va) AND PTE_V \<noteq> 0 then load64 m (pte_ptr m pt va) else 0)"
proof -
  show "pte_ptr m pt va = 0 \<Longrightarrow> lookup m pt va = 0"
    using pte_nonzero[OF tree_ok_pages[OF assms table_of_tset[OF assms]], of va _ "PX 0 va"]
    by (auto simp: pte_ptr_def lookup_def leaf_table split: option.splits)
  show "pte_ptr m pt va \<noteq> 0 \<Longrightarrow> lookup m pt va = (if load64 m (pte_ptr m pt va) AND PTE_V \<noteq> 0 then load64 m (pte_ptr m pt va) else 0)"
    by (auto simp: pte_ptr_def lookup_def leaf_table valid_def entry_def split: option.splits)
qed

lemma lookup_0: "lookup m pt va \<noteq> 0 \<Longrightarrow> valid (lookup m pt va)"
  by (auto simp: lookup_def leaf_table split: option.splits if_splits)

lemma walkaddr_lookup:
  assumes "tree_ok (ram s) 2 pt" and "va < MAXVA"
  shows "walkaddr c pt va s = Inr (if lookup (ram s) pt va AND PTE_U = 0 then 0 else PTE2PA (lookup (ram s) pt va), s)"
  using walk_lookup[OF assms, of c] lookup_pte[OF assms(1), of va] assms(2)
  by (auto simp: walkaddr_def Let_def not_le[symmetric])

lemma set_leaf:
  fixes v :: uint64
  assumes sp: "space c s pt ps" and va: "va < MAXVA" and t: "table_of (ram s) 2 pt va = Some t"
  defines "s' \<equiv> set_pte (pte_at t (PX 0 va)) v s"
  shows "space_effect c pt ps s 0 s'"
    and "va' < MAXVA \<Longrightarrow> lookup (ram s') pt va' =
      (if PGROUNDDOWN va' = PGROUNDDOWN va then (if valid v then v else 0) else lookup (ram s) pt va')"
proof -
  have tr: "tree_ok (ram s) 2 pt" using sp by (simp add: space_def)
  note ls = leaf_store[OF tr t, of v]
  have r: "ram s' = store64 (pte_at t (PX 0 va)) v (ram s)" by (simp add: s'_def set_pte_def)
  have tt: "t \<in> tset (ram s) 2 pt" "page_ok t" using table_of_tset[OF tr t] tree_ok_pages[OF tr] by auto
  have so: "same_outside {t} (ram s) (ram s')" unfolding r by (rule store_page[OF tt(2) PX_less])
  have "same_pages (set ps) (ram s) (ram s')"
    by (rule outside_same[OF so]) (use tt sp kmem_ok_pages[of c s ps] in \<open>auto simp: space_def\<close>)
  then have "kmem_ok c s' ps" using kmem_ok_ram[of c s ps] sp r by (simp add: space_def s'_def set_pte_def)
  moreover have "mem_only c s s'" unfolding s'_def set_pte_def by (intro mem_only_ram mem_only_refl)
  moreover have "same_outside (tset (ram s) 2 pt) (ram s) (ram s')" 
    by (rule same_outside_mono[OF so]) (use tt in simp)
  ultimately show "space_effect c pt ps s 0 s'"
    using ls sp by (simp add: space_effect_def space_def r)
  show "lookup (ram s') pt va' = (if PGROUNDDOWN va' = PGROUNDDOWN va then (if valid v then v else 0) else lookup (ram s) pt va')"
    if "va' < MAXVA"
    using ls PX_PGROUNDDOWN[OF va that] by (simp add: lookup_def r)
qed

subsection \<open>Mapping pages\<close>

lemma PGROUNDDOWN_id: "page_aligned a \<Longrightarrow> PGROUNDDOWN a = a"
  by (simp add: page_aligned_def PGROUNDDOWN_eq)

lemma page_offset:
  assumes "page_aligned a" and "unat a + 4096 * n < 2 ^ 64"
  shows "unat (a + of_nat (4096 * n)) = unat a + 4096 * n" "page_aligned (a + of_nat (4096 * n))"
proof -
  show u: "unat (a + of_nat (4096 * n)) = unat a + 4096 * n" using assms(2) by (rule unat_plus_of_nat)
  show "page_aligned (a + of_nat (4096 * n))"
    unfolding page_aligned_unat u using assms(1) by (simp add: page_aligned_unat)
qed

lemma MAXVA_unat: "a < MAXVA \<longleftrightarrow> unat a < 2 ^ 38"
  by (simp add: MAXVA_def word_less_nat_alt)

definition pages_from :: "uint64 \<Rightarrow> nat \<Rightarrow> uint64 \<Rightarrow> bool" where
  "pages_from va n va' = (unat (PGROUNDDOWN va' - va) < 4096 * n)"

lemma pages_from_Suc:
  assumes "page_aligned va"
  shows "pages_from va (Suc n) va' \<longleftrightarrow> PGROUNDDOWN va' = va \<or> (PGROUNDDOWN va' \<noteq> va \<and> pages_from (va + PGSIZE) n va')"
proof (cases "PGROUNDDOWN va' = va")
  case False
  let ?x = "PGROUNDDOWN va'"
  let ?d = "unat (?x - va)"
  have "unat ?x mod 4096 = 0" "unat va mod 4096 = 0"
    using assms PGROUNDDOWN_aligned[of va'] by (simp_all only: page_aligned_unat)
  moreover have "unat ?x = (unat va + ?d) mod 2 ^ 64"
    using unat_word_ariths(1)[of va "?x - va"] by simp
  ultimately have "(unat va + ?d) mod 4096 = 0"
    using mod_mod_cancel[of 4096 "2 ^ 64" "unat va + ?d"] by (simp add: dvd_def)
  then have "4096 dvd ?d"
    using \<open>unat va mod 4096 = 0\<close> dvd_add_right_iff[of 4096 "unat va" ?d] by (simp only: dvd_eq_mod_eq_0)
  moreover have "0 < ?d" using False by (simp add: unat_gt_0)
  ultimately have "4096 \<le> ?d" by (rule dvd_imp_le)
  then have "unat (?x - va - PGSIZE) = ?d - 4096"
    by (subst unat_sub) (simp_all add: PGSIZE_def word_le_nat_alt)
  then show ?thesis using \<open>4096 \<le> ?d\<close> False by (auto simp: pages_from_def diff_diff_eq)
qed (simp add: pages_from_def)

lemma set_pte_entry:
  assumes "tree_ok m 2 pt" and "table_of m 2 pt va = Some t"
  shows "(load64 m (pte_at t (PX 0 va)) AND PTE_V = 0) = (lookup m pt va = 0)"
  using assms valid_nonzero by (auto simp: lookup_def leaf_table valid_def entry_def)

lemma map_step:
  assumes sp: "space c s pt ps" and va: "va < MAXVA" "page_aligned va" and free: "lookup (ram s) pt va = 0"
  obtains (fail) s' where "mappages_loop c pt va lst pa perm s = Inr (-1, s')" "space_effect c pt ps s (length ps) s'"
      "\<And>va'. lookup (ram s') pt va' = lookup (ram s) pt va'"
  | (mapped) s' k where "mappages_loop c pt va lst pa perm s =
        (if va = lst then Inr (0, s') else mappages_loop c pt (va + PGSIZE) lst (pa + PGSIZE) perm s')"
      "space_effect c pt ps s k s'"
      "\<And>va'. va' < MAXVA \<Longrightarrow> lookup (ram s') pt va' =
        (if PGROUNDDOWN va' = va then PA2PTE pa OR perm OR PTE_V else lookup (ram s) pt va')"
proof -
  obtain pte s1 k where w: "walk c pt va True s = Inr (pte, s1)" "space_effect c pt ps s k s1"
    "leaf (ram s1) 2 pt = leaf (ram s) 2 pt"
    "pte = 0 \<and> k = length ps \<or>
     (\<exists>t. table_of (ram s1) 2 pt va = Some t \<and> pte = pte_at t (PX 0 va) \<and> pte \<noteq> 0 \<and> page_ok t \<and> t \<in> tset (ram s1) 2 pt)"
    using walk_alloc[OF sp va(1)] by blast
  have l1: "lookup (ram s1) pt va' = lookup (ram s) pt va'" for va' using w(3) by (simp add: lookup_def)
  from w(4) show ?thesis
  proof (elim disjE conjE exE)
    assume "pte = 0" "k = length ps"
    then have "mappages_loop c pt va lst pa perm s = Inr (-1, s1)" using w(1) by (subst mappages_loop.simps) simp
    then show ?thesis using fail w(2) l1 \<open>k = length ps\<close> by blast
  next
    fix t assume t: "table_of (ram s1) 2 pt va = Some t" "pte = pte_at t (PX 0 va)" "pte \<noteq> 0"
    let ?v = "PA2PTE pa OR perm OR PTE_V"
    let ?s2 = "set_pte pte ?v s1"
    have sp1: "space c s1 pt (drop k ps)" using w(2) by (simp add: space_effect_def)
    have tr: "tree_ok (ram s1) 2 pt" using sp1 by (simp add: space_def)
    have "load64 (ram s1) pte AND PTE_V = 0" using set_pte_entry[OF tr t(1)] l1 free t(2) by simp
    then have "mappages_loop c pt va lst pa perm s =
        (if va = lst then Inr (0, ?s2) else mappages_loop c pt (va + PGSIZE) lst (pa + PGSIZE) perm ?s2)"
      using w(1) t(3) by (subst mappages_loop.simps) (simp add: Let_def)
    moreover have "space_effect c pt ps s (k + 0) ?s2"
      using space_effect_trans[OF w(2) set_leaf(1)[OF sp1 va(1) t(1), of ?v]] t(2) by simp
    moreover have "valid ?v" using PTE_and(1)[of "PA2PTE pa OR perm"] by (simp add: or.assoc)
    then have "lookup (ram ?s2) pt va' = (if PGROUNDDOWN va' = va then ?v else lookup (ram s) pt va')" if "va' < MAXVA" for va'
      using set_leaf(2)[OF sp1 va(1) t(1) that, of ?v] t(2) l1 PGROUNDDOWN_id[OF va(2)] by simp
    ultimately show ?thesis using mapped by simp
  qed
qed

lemma mappages_loop_spec:
  assumes "space c s pt ps" and "unat va + 4096 * Suc n \<le> 2 ^ 38" and "page_aligned va"
    and "\<And>i. i \<le> n \<Longrightarrow> lookup (ram s) pt (va + of_nat (4096 * i)) = 0"
  shows "\<exists>r s' k n'. mappages_loop c pt va (va + of_nat (4096 * n)) pa perm s = Inr (r, s') \<and>
    space_effect c pt ps s k s' \<and> (r = 0 \<and> n' = Suc n \<or> r = -1 \<and> n' \<le> n \<and> k = length ps) \<and>
    (\<forall>va'<MAXVA. lookup (ram s') pt va' = (if pages_from va n' va' then PA2PTE (pa + (PGROUNDDOWN va' - va)) OR perm OR PTE_V
        else lookup (ram s) pt va'))"
  using assms
proof (induction n arbitrary: va pa s ps)
  case (0 va pa s ps)
  have va: "va < MAXVA" using 0(2) by (simp add: MAXVA_unat)
  have free: "lookup (ram s) pt va = 0" using 0(4)[of 0] by simp
  show ?case
  proof (cases rule: map_step[OF 0(1) va 0(3) free, where lst = va and pa = pa and perm = perm])
    case fail: (1 s')
    then show ?thesis by (intro exI[of _ "-1"] exI[of _ s'] exI[of _ "length ps"] exI[of _ 0]) (simp add: pages_from_def)
  next
    case mapped: (2 s' k)
    then show ?thesis
      using pages_from_Suc[OF 0(3), of 0]
      by (intro exI[of _ 0] exI[of _ s'] exI[of _ k] exI[of _ 1]) (auto simp: pages_from_def)
  qed
next
  case (Suc n)
  have va: "va < MAXVA" using Suc.prems(2) by (simp add: MAXVA_unat)
  have "lookup (ram s) pt va = 0" using Suc.prems(4)[of 0] by simp
  let ?last = "va + of_nat (4096 * Suc n)"
  have next_va: "unat (va + PGSIZE) = unat va + 4096" "page_aligned (va + PGSIZE)"
    using page_offset[OF Suc.prems(3), of 1] Suc.prems(2) by (simp_all add: PGSIZE_def)
  have "unat ?last = unat va + 4096 * Suc n" using page_offset(1)[OF Suc.prems(3), of "Suc n"] Suc.prems(2) by simp
  then have ne: "va \<noteq> ?last" by (metis add_cancel_right_right mult_is_0 nat.distinct(1) zero_neq_numeral)
  show ?case
  proof (cases rule: map_step[OF Suc.prems(1) va Suc.prems(3) \<open>lookup (ram s) pt va = 0\<close>, where lst = ?last and pa = pa and perm = perm])
    case fail: (1 s')
    then show ?thesis by (intro exI[of _ "-1"] exI[of _ s'] exI[of _ "length ps"] exI[of _ 0]) (simp add: pages_from_def)
  next
    case mapped: (2 s1 k)
    have sp1: "space c s1 pt (drop k ps)" using mapped(2) by (simp add: space_effect_def)
    have l1: "lookup (ram s1) pt (va + PGSIZE + of_nat (4096 * i)) = 0" if "i \<le> n" for i
    proof -
      let ?a = "va + of_nat (4096 * Suc i)"
      have a: "unat ?a = unat va + 4096 * Suc i" "page_aligned ?a"
        using page_offset[OF Suc.prems(3), of "Suc i"] Suc.prems(2) that by simp_all
      then have "PGROUNDDOWN ?a \<noteq> va" unfolding PGROUNDDOWN_id[OF a(2)] by (metis add_cancel_right_right mult_is_0 nat.distinct(1) zero_neq_numeral)
      moreover have "?a < MAXVA" using a(1) Suc.prems(2) that by (simp add: MAXVA_unat)
      ultimately have "lookup (ram s1) pt ?a = 0" using mapped(3) Suc.prems(4)[of "Suc i"] that by simp
      then show ?thesis by (simp add: PGSIZE_def add.assoc)
    qed
    have "va + PGSIZE + of_nat (4096 * n) = ?last" by (simp add: PGSIZE_def add.assoc)
    with Suc.IH[OF sp1 _ next_va(2) l1, of "pa + PGSIZE"] next_va(1) Suc.prems(2)
    obtain r s' j n' where IH: "mappages_loop c pt (va + PGSIZE) ?last (pa + PGSIZE) perm s1 = Inr (r, s')"
      "space_effect c pt (drop k ps) s1 j s'" "r = 0 \<and> n' = Suc n \<or> r = -1 \<and> n' \<le> n \<and> j = length (drop k ps)"
      "\<And>va'. va'<MAXVA \<Longrightarrow> lookup (ram s') pt va' = (if pages_from (va + PGSIZE) n' va'
         then PA2PTE (pa + PGSIZE + (PGROUNDDOWN va' - (va + PGSIZE))) OR perm OR PTE_V else lookup (ram s1) pt va')"
      by (auto simp del: of_nat_mult)
    have k: "k \<le> length ps" using mapped(2) by (simp add: space_effect_def)
    have "lookup (ram s') pt va' = (if pages_from va (Suc n') va' then PA2PTE (pa + (PGROUNDDOWN va' - va)) OR perm OR PTE_V
        else lookup (ram s) pt va')" if "va' < MAXVA" for va'
    proof (cases "PGROUNDDOWN va' = va")
      case True
      have "n' \<le> Suc n" using IH(3) by auto
      then have "\<not> pages_from (va + PGSIZE) n' va'" using Suc.prems(2) True by (simp add: pages_from_def PGSIZE_def)
      then show ?thesis using IH(4)[OF that] mapped(3)[OF that] True pages_from_Suc[OF Suc.prems(3), of n' va'] by simp
    next
      case False
      have "pa + PGSIZE + (PGROUNDDOWN va' - (va + PGSIZE)) = pa + (PGROUNDDOWN va' - va)" by simp
      then show ?thesis using IH(4)[OF that] mapped(3)[OF that] False pages_from_Suc[OF Suc.prems(3), of n' va'] by simp
    qed
    moreover have "r = 0 \<and> Suc n' = Suc (Suc n) \<or> r = -1 \<and> Suc n' \<le> Suc n \<and> k + j = length ps"
      using IH(3) k by auto
    moreover have "mappages_loop c pt va ?last pa perm s = Inr (r, s')" using mapped(1) IH(1) ne by simp
    ultimately show ?thesis using space_effect_trans[OF mapped(2) IH(2)] by blast
  qed
qed


lemma mappages_spec:
  assumes "space c s pt ps" and "unat va + 4096 * Suc n \<le> 2 ^ 38" and "page_aligned va"
    and "\<And>i. i \<le> n \<Longrightarrow> lookup (ram s) pt (va + of_nat (4096 * i)) = 0"
  obtains (mapped) s' k where "mappages c pt va (of_nat (4096 * Suc n)) pa perm s = Inr (0, s')" "space_effect c pt ps s k s'"
      "\<And>va'. va' < MAXVA \<Longrightarrow> lookup (ram s') pt va' =
        (if pages_from va (Suc n) va' then PA2PTE (pa + (PGROUNDDOWN va' - va)) OR perm OR PTE_V else lookup (ram s) pt va')"
  | (out_of_memory) s' n' where "mappages c pt va (of_nat (4096 * Suc n)) pa perm s = Inr (-1, s')" "n' \<le> n"
      "space_effect c pt ps s (length ps) s'"
      "\<And>va'. va' < MAXVA \<Longrightarrow> lookup (ram s') pt va' =
        (if pages_from va n' va' then PA2PTE (pa + (PGROUNDDOWN va' - va)) OR perm OR PTE_V else lookup (ram s) pt va')"
proof -
  have u: "unat (of_nat (4096 * Suc n) :: uint64) = 4096 * Suc n"
    using assms(2) by (simp only: unat_of_nat) simp
  have n: "of_nat (4096 * Suc n) mod PGSIZE = (0 :: uint64)" "of_nat (4096 * Suc n) \<noteq> (0 :: uint64)"
    by (simp_all only: word_unat_eq_iff unat_mod u) (simp_all add: PGSIZE_def)
  have l: "va + of_nat (4096 * Suc n) - PGSIZE = va + of_nat (4096 * n)" by (simp add: PGSIZE_def)
  have "mappages c pt va (of_nat (4096 * Suc n)) pa perm s = mappages_loop c pt va (va + of_nat (4096 * n)) pa perm s"
    using assms(3) n unfolding mappages_def l by (simp only: page_aligned_def simp_thms if_False)
  moreover obtain r s' k n' where "mappages_loop c pt va (va + of_nat (4096 * n)) pa perm s = Inr (r, s')"
    "space_effect c pt ps s k s'" "r = 0 \<and> n' = Suc n \<or> r = -1 \<and> n' \<le> n \<and> k = length ps"
    "\<And>va'. va' < MAXVA \<Longrightarrow> lookup (ram s') pt va' =
       (if pages_from va n' va' then PA2PTE (pa + (PGROUNDDOWN va' - va)) OR perm OR PTE_V else lookup (ram s) pt va')"
    using mappages_loop_spec[OF assms(1-3), of pa perm] assms(4) by auto
  ultimately show ?thesis using mapped[of s' k] out_of_memory[of s' n'] by auto
qed

end
