(* ===== verification/UserMem.thy ===== *)
theory UserMem
  imports PageTable
begin

unbundle bit_operations_syntax

text \<open>
  User memory seen through a page table: \<open>uaddr\<close> translates a user address, \<open>ubyte\<close> reads it.
  \<open>copyin\<close> reads the user range, \<open>copyout\<close> writes it and nothing else, also across page borders.
\<close>

subsection \<open>User memory\<close>

lemma leaf_path: "same_path n va va' \<Longrightarrow> leaf m n pt va' = leaf m n pt va"
  by (induction n arbitrary: pt) (auto simp: same_path_Suc same_path_def split: option.splits)

lemma PGROUNDDOWN_le: "PGROUNDDOWN va \<le> va"
  by (simp add: word_le_nat_alt PGROUNDDOWN_unat)

lemma PGROUNDDOWN_idem [simp]: "PGROUNDDOWN (PGROUNDDOWN va) = PGROUNDDOWN va"
  by (simp add: PGROUNDDOWN_id)

lemma lookup_page:
  assumes "va < MAXVA"
  shows "lookup m pt (PGROUNDDOWN va) = lookup m pt va"
proof -
  have "PGROUNDDOWN va < MAXVA" using PGROUNDDOWN_le assms by (rule order_le_less_trans)
  then show ?thesis using PX_PGROUNDDOWN[OF assms, of "PGROUNDDOWN va"] leaf_path[of 2 va "PGROUNDDOWN va"]
    by (simp add: lookup_def)
qed

text \<open>The physical address of a user address, and the byte there.\<close>

definition uaddr :: "bytemem \<Rightarrow> uint64 \<Rightarrow> uint64 \<Rightarrow> uint64" where
  "uaddr m pt va = PTE2PA (lookup m pt va) + (va - PGROUNDDOWN va)"

definition ubyte :: "bytemem \<Rightarrow> uint64 \<Rightarrow> uint64 \<Rightarrow> uint8" where
  "ubyte m pt va = m (uaddr m pt va)"

text \<open>User addresses that are mapped for the user to a real page.\<close>

definition umapped :: "bytemem \<Rightarrow> uint64 \<Rightarrow> uint64 \<Rightarrow> bool" where
  "umapped m pt va = (va < MAXVA \<and> lookup m pt va AND PTE_U \<noteq> 0 \<and> page_ok (PTE2PA (lookup m pt va)))"

definition urange :: "(uint64 \<Rightarrow> bool) \<Rightarrow> uint64 \<Rightarrow> nat \<Rightarrow> bool" where
  "urange P va n = (unat va + n \<le> 2 ^ 38 \<and> (\<forall>i<n. P (va + of_nat i)))"

lemma load_bytes_nth: "load_bytes m a n = map (\<lambda>i. m (a + of_nat i)) [0..<n]"
proof (induction n arbitrary: a)
  case (Suc n)
  then show ?case by (simp add: map_upt_Suc add.assoc del: upt_Suc)
qed simp

text \<open>The part of a range that lies in its first page.\<close>

lemma first_chunk:
  assumes "i < unat (PGSIZE - (va - PGROUNDDOWN va))"
  shows "PGROUNDDOWN (va + of_nat i) = PGROUNDDOWN va"
proof -
  obtain j where j: "j < 4096" "va = PGROUNDDOWN va + of_nat j" using PGROUNDDOWN_page[of va] unfolding in_page_ex by blast
  then have "va - PGROUNDDOWN va = of_nat j" by (metis add_diff_cancel_left')
  moreover have "unat (PGSIZE - of_nat j) = 4096 - j"
    using j(1) by (subst unat_sub) (simp_all add: PGSIZE_def word_le_nat_alt)
  ultimately have i: "j + i < 4096" using assms by simp
  have "va + of_nat i = PGROUNDDOWN va + of_nat j + of_nat i" using arg_cong[OF j(2), of "\<lambda>x. x + of_nat i"] .
  also have "\<dots> = PGROUNDDOWN va + of_nat (j + i)" by (simp add: add.assoc)
  finally have "in_page (PGROUNDDOWN va) (va + of_nat i)" using i unfolding in_page_ex by blast
  from pages_disjoint[OF PGROUNDDOWN_aligned PGROUNDDOWN_aligned PGROUNDDOWN_page this] show ?thesis .
qed

lemma next_page:
  "PGROUNDDOWN va + PGSIZE = va + of_nat (unat (PGSIZE - (va - PGROUNDDOWN va)))"
  by simp

lemma urange_split:
  assumes "urange P va (k + n)"
  shows "urange P va k" "urange P (va + of_nat k) n"
proof -
  show "urange P va k" using assms by (simp add: urange_def)
  have "unat (va + of_nat k) = unat va + k"
    using assms by (intro unat_plus_of_nat) (simp add: urange_def)
  moreover have "P (va + of_nat k + of_nat i)" if "i < n" for i
  proof -
    have "P (va + of_nat (k + i))" using assms that by (simp add: urange_def del: of_nat_add)
    then show ?thesis by (simp add: add.assoc)
  qed
  ultimately show "urange P (va + of_nat k) n" using assms by (simp add: urange_def)
qed

lemma uaddr_chunk:
  assumes "urange (umapped m pt) va n" and "i < unat (PGSIZE - (va - PGROUNDDOWN va))" and "i < n"
  shows "uaddr m pt (va + of_nat i) = PTE2PA (lookup m pt (PGROUNDDOWN va)) + (va - PGROUNDDOWN va) + of_nat i"
proof -
  have u: "umapped m pt (va + of_nat i)" using assms(1,3) by (simp add: urange_def)
  have "lookup m pt (va + of_nat i) = lookup m pt (PGROUNDDOWN va)"
    using lookup_page[of "va + of_nat i" m pt] u first_chunk[OF assms(2)] by (simp add: umapped_def)
  then show ?thesis using first_chunk[OF assms(2)] by (simp add: uaddr_def)
qed

lemma umapped_walkaddr:
  assumes "tree_ok (ram s) 2 pt" and "umapped (ram s) pt va"
  shows "walkaddr c pt (PGROUNDDOWN va) s = Inr (PTE2PA (lookup (ram s) pt (PGROUNDDOWN va)), s)"
    and "PTE2PA (lookup (ram s) pt (PGROUNDDOWN va)) \<noteq> 0" "PGROUNDDOWN va < MAXVA"
proof -
  have va: "va < MAXVA" using assms(2) by (simp add: umapped_def)
  show lt: "PGROUNDDOWN va < MAXVA" using PGROUNDDOWN_le va by (rule order_le_less_trans)
  show "walkaddr c pt (PGROUNDDOWN va) s = Inr (PTE2PA (lookup (ram s) pt (PGROUNDDOWN va)), s)"
    using walkaddr_lookup[OF assms(1) lt] assms(2) lookup_page[OF va] by (simp add: umapped_def)
  show "PTE2PA (lookup (ram s) pt (PGROUNDDOWN va)) \<noteq> 0"
    using page_ok_bounds(3) assms(2) lookup_page[OF va] by (simp add: umapped_def)
qed

lemma upt_split: "k \<le> n \<Longrightarrow> [0..<n] = [0..<k] @ map (\<lambda>i. k + i) [0..<n - k]"
  by (rule nth_equalityI) (auto simp: nth_append)

lemma copyin_loop_spec:
  "tree_ok (ram s) 2 pt \<Longrightarrow> urange (umapped (ram s) pt) va n \<Longrightarrow>
    copyin_loop c pt dst va n s = Inr ((0, dst @ map (\<lambda>i. ubyte (ram s) pt (va + of_nat i)) [0..<n]), s)"
proof (induction n arbitrary: va dst rule: less_induct)
  case (less n)
  show ?case
  proof (cases "n = 0")
    case True
    then show ?thesis by (subst copyin_loop.simps) simp
  next
    case False
    let ?k = "min (unat (PGSIZE - (va - PGROUNDDOWN va))) n"
    let ?pa = "PTE2PA (lookup (ram s) pt (PGROUNDDOWN va))"
    have k: "0 < ?k" "?k \<le> n" using PGROUNDDOWN_chunk[of va] False by simp_all
    have "umapped (ram s) pt (va + of_nat 0)" using less.prems(2) False unfolding urange_def by blast
    then have um: "umapped (ram s) pt va" by simp
    note w = umapped_walkaddr[OF less.prems(1) um]
    have bytes: "load_bytes (ram s) (?pa + (va - PGROUNDDOWN va)) ?k = map (\<lambda>i. ubyte (ram s) pt (va + of_nat i)) [0..<?k]"
      unfolding load_bytes_nth ubyte_def using uaddr_chunk[OF less.prems(2)] by (intro map_cong) auto
    have step: "copyin_loop c pt dst va n s = copyin_loop c pt (dst @ load_bytes (ram s) (?pa + (va - PGROUNDDOWN va)) ?k) (PGROUNDDOWN va + PGSIZE) (n - ?k) s"
      using w False by (subst copyin_loop.simps) (simp add: Let_def)
    show ?thesis
    proof (cases "?k = n")
      case True
      have "copyin_loop c pt d x 0 s = Inr ((0, d), s)" for d x by (subst copyin_loop.simps) simp
      then show ?thesis using step bytes True by simp
    next
      case False
      then have kk: "?k = unat (PGSIZE - (va - PGROUNDDOWN va))" by simp
      have r: "urange (umapped (ram s) pt) (va + of_nat ?k) (n - ?k)"
        using urange_split(2)[of _ va ?k "n - ?k"] less.prems(2) k(2) by simp
      have nx: "PGROUNDDOWN va + PGSIZE = va + of_nat ?k" unfolding kk by (rule next_page)
      have "copyin_loop c pt d (PGROUNDDOWN va + PGSIZE) (n - ?k) s =
          Inr ((0, d @ map (\<lambda>i. ubyte (ram s) pt (va + of_nat ?k + of_nat i)) [0..<n - ?k]), s)" for d
        unfolding nx by (rule less.IH[OF _ less.prems(1) r]) (use k in simp)
      moreover have "[0..<n] = [0..<?k] @ map (\<lambda>i. ?k + i) [0..<n - ?k]"
        by (rule upt_split[OF k(2)])
      ultimately show ?thesis using step bytes by (simp add: add.assoc o_def)
    qed
  qed
qed


text \<open>
  Address spaces in which the user pages are pages of their own: two addresses of different pages
  have different frames, and no frame is a page table.
\<close>

definition user_ok :: "bytemem \<Rightarrow> uint64 \<Rightarrow> bool" where
  "user_ok m pt = (tree_ok m 2 pt \<and> (\<forall>va. umapped m pt va \<longrightarrow> PTE2PA (lookup m pt va) \<notin> tset m 2 pt \<and>
     (\<forall>va'. umapped m pt va' \<longrightarrow> PTE2PA (lookup m pt va') = PTE2PA (lookup m pt va) \<longrightarrow> PGROUNDDOWN va' = PGROUNDDOWN va)))"

lemma user_ok_frame: "user_ok m pt \<Longrightarrow> umapped m pt va \<Longrightarrow> PTE2PA (lookup m pt va) \<notin> tset m 2 pt"
  unfolding user_ok_def by blast

lemma user_ok_tree: "user_ok m pt \<Longrightarrow> tree_ok m 2 pt"
  unfolding user_ok_def by blast

definition uwritable :: "bytemem \<Rightarrow> uint64 \<Rightarrow> uint64 \<Rightarrow> bool" where
  "uwritable m pt va = (umapped m pt va \<and> lookup m pt va AND PTE_W \<noteq> 0)"

lemma uaddr_in_page: "umapped m pt va \<Longrightarrow> in_page (PTE2PA (lookup m pt va)) (uaddr m pt va)"
  using PGROUNDDOWN_page[of va] by (simp add: in_page_def uaddr_def)

lemma uaddr_inj:
  assumes "user_ok m pt" and "umapped m pt va" and "umapped m pt va'" and "uaddr m pt va = uaddr m pt va'"
  shows "va = va'"
proof -
  have pg: "PTE2PA (lookup m pt va) = PTE2PA (lookup m pt va')"
    using pages_disjoint[of "PTE2PA (lookup m pt va)" "PTE2PA (lookup m pt va')" "uaddr m pt va"]
      uaddr_in_page[OF assms(2)] uaddr_in_page[OF assms(3)] assms page_ok_bounds(1) by (simp add: umapped_def)
  then have "PGROUNDDOWN va = PGROUNDDOWN va'" using assms(1-3) unfolding user_ok_def by blast
  then show ?thesis using assms(4) pg by (simp add: uaddr_def)
qed

text \<open>A store to a user page changes no page table.\<close>

lemma user_store:
  assumes ok: "user_ok m pt" and so: "\<forall>a. m' a \<noteq> m a \<longrightarrow> (\<exists>va. umapped m pt va \<and> a = uaddr m pt va)"
  shows "tset m' 2 pt = tset m 2 pt" "tree_ok m' 2 pt" "lookup m' pt = lookup m pt" "user_ok m' pt"
    "umapped m' pt = umapped m pt" "uaddr m' pt = uaddr m pt" "uwritable m' pt = uwritable m pt" "pte_ptr m' pt = pte_ptr m pt"
    "t \<in> tset m 2 pt \<Longrightarrow> in_page t a \<Longrightarrow> m' a = m a"
proof -
  have tr: "tree_ok m 2 pt" using user_ok_tree[OF ok] .
  have same: "m' a = m a" if "t \<in> tset m 2 pt" "in_page t a" for t a
  proof (rule ccontr)
    assume "m' a \<noteq> m a"
    then obtain va where va: "umapped m pt va" "a = uaddr m pt va" using so by blast
    have "PTE2PA (lookup m pt va) = t"
      using pages_disjoint[of "PTE2PA (lookup m pt va)" t a] uaddr_in_page[OF va(1)] va that
        page_ok_bounds(1) tree_ok_pages[OF tr that(1)] by (simp add: umapped_def)
    then show False using user_ok_frame[OF ok va(1)] that(1) by simp
  qed
  then have "same_pages (tset m 2 pt) m m'" by (simp add: same_pages_def)
  note fr = tree_frame[OF tr this]
  show ts: "tset m' 2 pt = tset m 2 pt" "tree_ok m' 2 pt" using fr by blast+
  show lk: "lookup m' pt = lookup m pt" using fr by (auto simp: lookup_def)
  then show um: "umapped m' pt = umapped m pt" "uaddr m' pt = uaddr m pt"
    by (auto simp: umapped_def uaddr_def)
  then show "uwritable m' pt = uwritable m pt" using lk by (auto simp: uwritable_def)
  show "pte_ptr m' pt = pte_ptr m pt" using fr by (auto simp: pte_ptr_def)
  show "user_ok m' pt" using ok ts(2) unfolding user_ok_def ts(1) lk um by blast
  show "m' a = m a" if "t \<in> tset m 2 pt" "in_page t a" using same[OF that] .
qed


lemma store_bytes_spec:
  "length xs \<le> 4096 \<Longrightarrow> store_bytes a xs m x = (if unat (x - a) < length xs then xs ! unat (x - a) else m x)"
proof (induction xs arbitrary: a m)
  case (Cons y ys)
  show ?case
  proof (cases "x = a")
    case True
    have "unat (x - (a + 1)) = 2 ^ 64 - 1" unfolding True by (simp add: unsigned_minus_1_eq_mask mask_eq_exp_minus_1)
    then show ?thesis using Cons True by simp
  next
    case False
    then have "0 < unat (x - a)" by (simp add: unat_gt_0)
    moreover from this have "unat (x - a - 1) = unat (x - a) - 1" by (subst unat_sub) (simp_all add: word_le_nat_alt)
    ultimately show ?thesis using Cons False by (auto simp: nth_Cons' diff_diff_eq)
  qed
qed simp

lemma uwritable_pte:
  assumes "tree_ok (ram s) 2 pt" and "uwritable (ram s) pt va"
  shows "pte_ptr (ram s) pt (PGROUNDDOWN va) \<noteq> 0"
    "load64 (ram s) (pte_ptr (ram s) pt (PGROUNDDOWN va)) AND PTE_W \<noteq> 0"
proof -
  have va: "va < MAXVA" using assms(2) by (simp add: uwritable_def umapped_def)
  have l: "lookup (ram s) pt (PGROUNDDOWN va) AND PTE_W \<noteq> 0" using assms(2) lookup_page[OF va] by (simp add: uwritable_def)
  then have "lookup (ram s) pt (PGROUNDDOWN va) \<noteq> 0" by auto
  then show p: "pte_ptr (ram s) pt (PGROUNDDOWN va) \<noteq> 0" using lookup_pte(1)[OF assms(1)] by blast
  show "load64 (ram s) (pte_ptr (ram s) pt (PGROUNDDOWN va)) AND PTE_W \<noteq> 0"
    using l lookup_pte(2)[OF assms(1) p] by (auto split: if_splits)
qed

lemma urange_0: "urange P va n \<Longrightarrow> 0 < n \<Longrightarrow> P va"
proof -
  assume "urange P va n" "0 < n"
  then have "P (va + of_nat 0)" unfolding urange_def by blast
  then show ?thesis by simp
qed

lemma urange_mono: "urange P va n \<Longrightarrow> (\<And>x. P x \<Longrightarrow> Q x) \<Longrightarrow> urange Q va n"
  by (simp add: urange_def)

lemma uaddr_range_inj:
  assumes "user_ok m pt" and "urange (umapped m pt) va n" and "i < n" and "j < n"
    and "uaddr m pt (va + of_nat i) = uaddr m pt (va + of_nat j)"
  shows "i = j"
proof -
  have um: "umapped m pt (va + of_nat i)" "umapped m pt (va + of_nat j)" using assms(2-4) by (simp_all add: urange_def)
  have b: "unat va + n \<le> 2 ^ 38" using assms(2) by (simp only: urange_def)
  have "unat (va + of_nat i) = unat va + i" "unat (va + of_nat j) = unat va + j"
    by (rule unat_plus_of_nat, use b assms(3,4) in simp)+
  moreover have "va + of_nat i = va + of_nat j" by (rule uaddr_inj[OF assms(1) um assms(5)])
  ultimately have "unat va + i = unat va + j" by (simp only:)
  then show ?thesis by (simp only: add_left_cancel)
qed

text \<open>One page of \<open>copyout\<close>.\<close>

lemma store_chunk:
  assumes ok: "user_ok m pt" and r: "urange (umapped m pt) va n" and n: "n \<le> unat (PGSIZE - (va - PGROUNDDOWN va))"
    and len: "length xs = n"
  defines "m' \<equiv> store_bytes (PTE2PA (lookup m pt (PGROUNDDOWN va)) + (va - PGROUNDDOWN va)) xs m"
  shows "m' a \<noteq> m a \<Longrightarrow> \<exists>i<n. a = uaddr m pt (va + of_nat i)"
    and "i < n \<Longrightarrow> m' (uaddr m pt (va + of_nat i)) = xs ! i"
proof -
  let ?b = "PTE2PA (lookup m pt (PGROUNDDOWN va)) + (va - PGROUNDDOWN va)"
  have "unat (PGSIZE - (va - PGROUNDDOWN va)) \<le> 4096"
  proof -
    have "va - PGROUNDDOWN va \<le> PGSIZE" using PGROUNDDOWN_page[of va] by (simp add: in_page_def)
    then show ?thesis by (simp add: unat_sub PGSIZE_def)
  qed
  then have n': "length xs \<le> 4096" using n len by simp
  have m': "m' x = (if unat (x - ?b) < n then xs ! unat (x - ?b) else m x)" for x
    unfolding m'_def using store_bytes_spec[OF n'] len by simp
  have ua: "uaddr m pt (va + of_nat i) = ?b + of_nat i" if "i < n" for i
    using uaddr_chunk[OF r _ that] n that by simp
  show "\<exists>i<n. a = uaddr m pt (va + of_nat i)" if "m' a \<noteq> m a"
  proof -
    have "unat (a - ?b) < n" using m'[of a] that by (auto split: if_splits)
    then show ?thesis using ua[of "unat (a - ?b)"] by (intro exI[of _ "unat (a - ?b)"]) simp
  qed
  show "m' (uaddr m pt (va + of_nat i)) = xs ! i" if "i < n"
    using m'[of "?b + of_nat i"] ua[OF that] that n' len by simp
qed

lemma copyout_Nil: "copyout c pt va [] s = Inr (0, s)"
  by (subst copyout.simps) simp

lemma copyout_step:
  assumes ok: "user_ok (ram s) pt" and r: "urange (uwritable (ram s) pt) va (length src)" and ne: "src \<noteq> []"
  defines "k \<equiv> min (unat (PGSIZE - (va - PGROUNDDOWN va))) (length src)"
  obtains m' where "copyout c pt va src s = copyout c pt (PGROUNDDOWN va + PGSIZE) (drop k src) (s\<lparr>ram := m'\<rparr>)"
    "\<And>a. m' a \<noteq> ram s a \<Longrightarrow> \<exists>i<k. a = uaddr (ram s) pt (va + of_nat i)"
    "\<And>i. i < k \<Longrightarrow> m' (uaddr (ram s) pt (va + of_nat i)) = src ! i"
proof -
  let ?pa = "PTE2PA (lookup (ram s) pt (PGROUNDDOWN va))"
  let ?m = "store_bytes (?pa + (va - PGROUNDDOWN va)) (take k src) (ram s)"
  have tr: "tree_ok (ram s) 2 pt" using user_ok_tree[OF ok] .
  have wr: "uwritable (ram s) pt va" using urange_0[OF r] ne by simp
  have um: "umapped (ram s) pt va" using wr by (simp add: uwritable_def)
  have rk: "urange (umapped (ram s) pt) va k"
  proof -
    have "urange (uwritable (ram s) pt) va k"
      using urange_split(1)[of _ va k "length src - k"] r by (simp add: k_def)
    then show ?thesis by (rule urange_mono) (simp add: uwritable_def)
  qed
  have kle: "k \<le> unat (PGSIZE - (va - PGROUNDDOWN va))" "length (take k src) = k" by (simp_all add: k_def)
  note ch = store_chunk[OF ok rk kle]
  note w = umapped_walkaddr[OF tr um]
  have "copyout c pt va src s = copyout c pt (PGROUNDDOWN va + PGSIZE) (drop k src) (s\<lparr>ram := ?m\<rparr>)"
    using w uwritable_pte[OF tr wr] walk_lookup[OF tr w(3), of c] ne
    by (subst copyout.simps) (simp add: Let_def k_def not_le[symmetric])
  then show ?thesis
  proof (rule that)
    show "\<exists>i<k. a = uaddr (ram s) pt (va + of_nat i)" if "?m a \<noteq> ram s a" for a using ch(1)[OF that] .
    show "?m (uaddr (ram s) pt (va + of_nat i)) = src ! i" if "i < k" for i using ch(2)[OF that] that by simp
  qed
qed

lemma copyout_spec:
  "user_ok (ram s) pt \<Longrightarrow> urange (uwritable (ram s) pt) va (length src) \<Longrightarrow>
    \<exists>m'. copyout c pt va src s = Inr (0, s\<lparr>ram := m'\<rparr>) \<and>
      (\<forall>a. m' a \<noteq> ram s a \<longrightarrow> (\<exists>i<length src. a = uaddr (ram s) pt (va + of_nat i))) \<and>
      (\<forall>i<length src. m' (uaddr (ram s) pt (va + of_nat i)) = src ! i)"
proof (induction src arbitrary: va s rule: length_induct)
  case (1 src)
  show ?case
  proof (cases "src = []")
    case True
    then show ?thesis by (intro exI[of _ "ram s"]) (simp add: copyout_Nil)
  next
    case False
    define k where "k = min (unat (PGSIZE - (va - PGROUNDDOWN va))) (length src)"
    obtain m1 where m1: "copyout c pt va src s = copyout c pt (PGROUNDDOWN va + PGSIZE) (drop k src) (s\<lparr>ram := m1\<rparr>)"
      "\<And>a. m1 a \<noteq> ram s a \<Longrightarrow> \<exists>i<k. a = uaddr (ram s) pt (va + of_nat i)"
      "\<And>i. i < k \<Longrightarrow> m1 (uaddr (ram s) pt (va + of_nat i)) = src ! i"
      using copyout_step[OF 1(2,3) False] unfolding k_def by blast
    have k: "0 < k" "k \<le> length src" using PGROUNDDOWN_chunk[of va] False by (simp_all add: k_def)
    have um: "umapped (ram s) pt (va + of_nat i)" if "i < length src" for i
      using 1(3) that by (simp add: urange_def uwritable_def)
    have so: "\<forall>a. m1 a \<noteq> ram s a \<longrightarrow> (\<exists>v. umapped (ram s) pt v \<and> a = uaddr (ram s) pt v)"
    proof (intro allI impI)
      fix a assume d: "m1 a \<noteq> ram s a"
      obtain i where i: "i < k" "a = uaddr (ram s) pt (va + of_nat i)" using m1(2)[OF d] by blast
      then have "umapped (ram s) pt (va + of_nat i)" using um k(2) by simp
      then show "\<exists>v. umapped (ram s) pt v \<and> a = uaddr (ram s) pt v" using i(2) by blast
    qed
    note u1 = user_store[where m' = m1, OF 1(2) so]
    show ?thesis
    proof (cases "k = length src")
      case True
      then show ?thesis using m1 copyout_Nil by (intro exI[of _ m1]) simp
    next
      case False
      then have kk: "k = unat (PGSIZE - (va - PGROUNDDOWN va))" by (simp add: k_def)
      have nx: "PGROUNDDOWN va + PGSIZE = va + of_nat k" unfolding kk by (rule next_page)
      let ?s = "s\<lparr>ram := m1\<rparr>"
      have w1: "uwritable (ram ?s) pt = uwritable (ram s) pt" "user_ok (ram ?s) pt" "uaddr (ram ?s) pt = uaddr (ram s) pt" "ram ?s = m1"
        using u1(4,6,7) by simp_all
      have "urange (uwritable (ram s) pt) va (k + (length src - k))" using 1(3) k(2) by simp
      then have r: "urange (uwritable (ram ?s) pt) (va + of_nat k) (length (drop k src))"
        unfolding w1(1) length_drop by (rule urange_split(2))
      have "length (drop k src) < length src" using k by simp
      from 1(1)[rule_format, OF this w1(2) r]
      obtain m' where "copyout c pt (va + of_nat k) (drop k src) ?s = Inr (0, ?s\<lparr>ram := m'\<rparr>)"
        "\<And>a. m' a \<noteq> ram ?s a \<Longrightarrow> \<exists>i<length (drop k src). a = uaddr (ram ?s) pt (va + of_nat k + of_nat i)"
        "\<And>i. i < length (drop k src) \<Longrightarrow> m' (uaddr (ram ?s) pt (va + of_nat k + of_nat i)) = drop k src ! i" by blast
      note m' = this[unfolded w1(3), unfolded w1(4) length_drop]
      have sh: "va + of_nat k + of_nat i = va + of_nat (k + i)" for i by (simp add: add.assoc)
      have umr: "urange (umapped (ram s) pt) va (length src)" using 1(3) by (rule urange_mono) (simp add: uwritable_def)
      have "\<exists>i<length src. a = uaddr (ram s) pt (va + of_nat i)" if d: "m' a \<noteq> ram s a" for a
      proof (cases "m' a = m1 a")
        case True
        then obtain i where "i < k" "a = uaddr (ram s) pt (va + of_nat i)" using m1(2)[of a] d by auto
        then show ?thesis using k(2) by (intro exI[of _ i]) simp
      next
        case False
        then obtain i where "i < length src - k" "a = uaddr (ram s) pt (va + of_nat (k + i))" using m'(2)[OF False] unfolding sh by auto
        then show ?thesis by (intro exI[of _ "k + i"]) simp
      qed
      moreover have "m' (uaddr (ram s) pt (va + of_nat i)) = src ! i" if "i < length src" for i
      proof (cases "i < k")
        case True
        have "m' (uaddr (ram s) pt (va + of_nat i)) = m1 (uaddr (ram s) pt (va + of_nat i))"
        proof (rule ccontr)
          assume "m' (uaddr (ram s) pt (va + of_nat i)) \<noteq> m1 (uaddr (ram s) pt (va + of_nat i))"
          from m'(2)[OF this] obtain j where j: "j < length src - k" "uaddr (ram s) pt (va + of_nat i) = uaddr (ram s) pt (va + of_nat (k + j))"
            unfolding sh by blast
          then have "k + j < length src" by linarith
          then show False using uaddr_range_inj[OF 1(2) umr that _ j(2)] True by simp
        qed
        then show ?thesis using m1(3)[OF True] by simp
      next
        case False
        then show ?thesis using m'(3)[of "i - k"] that unfolding sh by simp
      qed
      moreover have "copyout c pt va src s = Inr (0, s\<lparr>ram := m'\<rparr>)" using m1(1) m'(1) unfolding nx by simp
      ultimately show ?thesis by blast
    qed
  qed
qed


text \<open>
  C7. Copying to user space and back is the identity.  In an address space whose user pages are
  pages of their own, with the range mapped writable for the user, \<open>copyout\<close> succeeds, \<open>copyin\<close>
  of the same range then returns the bytes written, and no byte of another mapped user address
  has changed.
\<close>

theorem copyout_copyin:
  assumes "user_ok (ram s) pt" and "urange (uwritable (ram s) pt) va (length src)"
  shows "\<exists>s'. copyout c pt va src s = Inr (0, s') \<and> copyin c pt va (length src) s' = Inr ((0, src), s') \<and>
    (\<forall>va'. umapped (ram s) pt va' \<and> (\<forall>i<length src. va' \<noteq> va + of_nat i) \<longrightarrow>
       ubyte (ram s') pt va' = ubyte (ram s) pt va')"
proof -
  obtain m' where m': "copyout c pt va src s = Inr (0, s\<lparr>ram := m'\<rparr>)"
    "\<And>a. m' a \<noteq> ram s a \<Longrightarrow> \<exists>i<length src. a = uaddr (ram s) pt (va + of_nat i)"
    "\<And>i. i < length src \<Longrightarrow> m' (uaddr (ram s) pt (va + of_nat i)) = src ! i"
    using copyout_spec[OF assms, of c] by blast
  have um: "umapped (ram s) pt (va + of_nat i)" if "i < length src" for i
    using assms(2) that by (simp add: urange_def uwritable_def)
  have so: "\<forall>a. m' a \<noteq> ram s a \<longrightarrow> (\<exists>v. umapped (ram s) pt v \<and> a = uaddr (ram s) pt v)"
    using m'(2) um by blast
  note u = user_store[where m' = m', OF assms(1) so]
  have "urange (umapped (ram s) pt) va (length src)"
    using assms(2) by (rule urange_mono) (simp add: uwritable_def)
  then have r: "urange (umapped m' pt) va (length src)" by (simp only: u(5))
  have "map (\<lambda>i. ubyte m' pt (va + of_nat i)) [0..<length src] = src"
    using m'(3) by (intro nth_equalityI) (simp_all add: ubyte_def u(6))
  then have "copyin c pt va (length src) (s\<lparr>ram := m'\<rparr>) = Inr ((0, src), s\<lparr>ram := m'\<rparr>)"
    using copyin_loop_spec[of "s\<lparr>ram := m'\<rparr>" pt va "length src" c "[]"] u(2) r by (simp add: copyin_def)
  moreover have "ubyte m' pt va' = ubyte (ram s) pt va'"
    if v: "umapped (ram s) pt va'" "\<forall>i<length src. va' \<noteq> va + of_nat i" for va'
  proof (rule ccontr)
    assume "ubyte m' pt va' \<noteq> ubyte (ram s) pt va'"
    then have "m' (uaddr (ram s) pt va') \<noteq> ram s (uaddr (ram s) pt va')" by (simp add: ubyte_def u(6))
    then obtain i where "i < length src" "uaddr (ram s) pt va' = uaddr (ram s) pt (va + of_nat i)" using m'(2) by blast
    then show False using uaddr_inj[OF assms(1) v(1) um] v(2) by blast
  qed
  then have "\<forall>va'. umapped (ram s) pt va' \<and> (\<forall>i<length src. va' \<noteq> va + of_nat i) \<longrightarrow>
      ubyte (ram (s\<lparr>ram := m'\<rparr>)) pt va' = ubyte (ram s) pt va'" by simp
  ultimately show ?thesis using m'(1) by blast
qed

text \<open>A machine with one page table of three levels that maps the page 0 of user memory.\<close>

definition one_user_page :: kmem where
  "one_user_page = two_pages\<lparr>ram :=
     store64 0x87FFA000 (PA2PTE 0x87FF9000 OR (PTE_R OR PTE_W OR PTE_U OR PTE_V))
      (store64 0x87FFB000 (PA2PTE 0x87FFA000 OR PTE_V)
        (store64 0x87FFC000 (PA2PTE 0x87FFB000 OR PTE_V) (\<lambda>_. 0)))\<rparr>"

lemma demo_pages:
  "page_ok 0x87FFC000" "page_ok 0x87FFB000" "page_ok 0x87FFA000" "page_ok 0x87FF9000" "page_ok 0x87FFD000"
  by (simp_all add: page_ok_def page_aligned_def PGSIZE_def kend_def PHYSTOP_def KERNBASE_def)

lemma one_user_page_entry:
  assumes "page_ok p" and "i < 512"
  shows "entry (ram one_user_page) p i =
    (if i \<noteq> 0 then 0 else if p = 0x87FFA000 then PA2PTE 0x87FF9000 OR (PTE_R OR PTE_W OR PTE_U OR PTE_V)
     else if p = 0x87FFB000 then PA2PTE 0x87FFA000 OR PTE_V
     else if p = 0x87FFC000 then PA2PTE 0x87FFB000 OR PTE_V else 0)"
proof -
  have z: "entry (\<lambda>_. 0) p i = 0" for p i by (simp add: entry_def load64_zero)
  have p: "(0x87FFA000 :: uint64) = pte_at 0x87FFA000 0" "(0x87FFB000 :: uint64) = pte_at 0x87FFB000 0"
    "(0x87FFC000 :: uint64) = pte_at 0x87FFC000 0" by (simp_all add: pte_at_def)
  have "ram one_user_page = store64 (pte_at 0x87FFA000 0) (PA2PTE 0x87FF9000 OR (PTE_R OR PTE_W OR PTE_U OR PTE_V))
      (store64 (pte_at 0x87FFB000 0) (PA2PTE 0x87FFA000 OR PTE_V)
        (store64 (pte_at 0x87FFC000 0) (PA2PTE 0x87FFB000 OR PTE_V) (\<lambda>_. 0)))"
    by (simp add: one_user_page_def pte_at_def)
  then show ?thesis using assms demo_pages z by (simp add: entry_store)
qed

lemma one_user_page_child:
  assumes "i < 512"
  shows "child (ram one_user_page) 0x87FFC000 i = (if i = 0 then Some 0x87FFB000 else None)"
    and "child (ram one_user_page) 0x87FFB000 i = (if i = 0 then Some 0x87FFA000 else None)"
  using assms demo_pages
  by (simp_all add: child_def one_user_page_entry PTE_and PTE2PA_PA2PTE page_ok_bounds(1))
    (simp_all add: valid_def PTE_V_def)

lemma single_child:
  assumes "page_ok pt" and "\<And>i. i < 512 \<Longrightarrow> child m pt i = (if i = 0 then Some q else None)"
    and "entry m pt 0 AND (PTE_R OR PTE_W OR PTE_X) = 0" and "tree_ok m n q" and "pt \<notin> tset m n q"
  shows "tset m (Suc n) pt = insert pt (tset m n q)" "tree_ok m (Suc n) pt"
proof -
  have "x \<in> tset m (Suc n) pt \<longleftrightarrow> x \<in> insert pt (tset m n q)" for x
    unfolding tset_Suc using assms(2) by (auto split: if_splits)
  then show "tset m (Suc n) pt = insert pt (tset m n q)" by blast
  show "tree_ok m (Suc n) pt"
    unfolding tree_ok.simps(2) using assms by (auto split: if_splits)
qed

lemma one_user_page_tree:
  "tset (ram one_user_page) 2 0x87FFC000 = {0x87FFC000, 0x87FFB000, 0x87FFA000}"
  "tree_ok (ram one_user_page) 2 0x87FFC000"
proof -
  let ?m = "ram one_user_page"
  have e: "entry ?m 0x87FFB000 0 = PA2PTE 0x87FFA000 OR PTE_V" "entry ?m 0x87FFC000 0 = PA2PTE 0x87FFB000 OR PTE_V"
    using demo_pages by (simp_all add: one_user_page_entry)
  note t1 = single_child[OF demo_pages(2) one_user_page_child(2), of 0, unfolded e, OF _ interior]
  have t1: "tset ?m (Suc 0) 0x87FFB000 = {0x87FFB000, 0x87FFA000}" "tree_ok ?m (Suc 0) 0x87FFB000"
    by (simp_all add: t1 demo_pages)
  have "tset ?m (Suc (Suc 0)) 0x87FFC000 = {0x87FFC000, 0x87FFB000, 0x87FFA000}" "tree_ok ?m (Suc (Suc 0)) 0x87FFC000"
    using single_child[OF demo_pages(1) one_user_page_child(1), of "Suc 0"] t1 e interior by simp_all
  then show "tset ?m 2 0x87FFC000 = {0x87FFC000, 0x87FFB000, 0x87FFA000}" "tree_ok ?m 2 0x87FFC000"
    by (simp_all only: numeral_2_eq_2)
qed

lemma same_path_2: "same_path 2 va va' \<longleftrightarrow> PX 2 va' = PX 2 va \<and> PX 1 va' = PX 1 va \<and> PX 0 va' = PX 0 va"
proof -
  have "same_path 0 va va' \<longleftrightarrow> PX 0 va' = PX 0 va" by (simp add: same_path_def)
  then show ?thesis using same_path_Suc[of 1 va va'] same_path_Suc[of 0 va va'] by (simp add: numeral_2_eq_2)
qed

lemma one_user_page_lookup:
  assumes "va < MAXVA"
  shows "lookup (ram one_user_page) 0x87FFC000 va =
    (if PGROUNDDOWN va = 0 then PA2PTE 0x87FF9000 OR (PTE_R OR PTE_W OR PTE_U OR PTE_V) else 0)"
proof -
  have "PX l 0 = 0" "PGROUNDDOWN 0 = 0" for l by (simp_all add: PX_def PGROUNDDOWN_def)
  then have "PGROUNDDOWN va = 0 \<longleftrightarrow> PX 2 va = 0 \<and> PX 1 va = 0 \<and> PX 0 va = 0"
    using PX_PGROUNDDOWN[of 0 va] assms same_path_2[of 0 va] by (simp add: MAXVA_unat)
  moreover have "valid (PA2PTE 0x87FF9000 OR (PTE_R OR PTE_W OR PTE_U OR PTE_V))"
    using PTE_and(1)[of "PA2PTE 0x87FF9000 OR (PTE_R OR PTE_W OR PTE_U)"] by (simp add: or.assoc)
  ultimately show ?thesis
    using demo_pages by (simp add: lookup_def numeral_2_eq_2 one_user_page_child one_user_page_entry)
      (simp add: valid_def one_user_page_child one_user_page_entry)
qed

lemma one_user_page_mapped:
  "umapped (ram one_user_page) 0x87FFC000 va \<longleftrightarrow> PGROUNDDOWN va = 0"
  "uwritable (ram one_user_page) 0x87FFC000 va \<longleftrightarrow> PGROUNDDOWN va = 0"
proof -
  let ?v = "PA2PTE 0x87FF9000 OR (PTE_R OR PTE_W OR PTE_U OR PTE_V)"
  have v: "?v AND PTE_U \<noteq> 0" "?v AND PTE_W \<noteq> 0"
    by (simp_all add: PA2PTE_def PTE_R_def PTE_W_def PTE_U_def PTE_V_def)
  have pa: "PTE2PA ?v = 0x87FF9000" using demo_pages(4) by (intro PTE2PA_PA2PTE) (simp_all add: page_ok_bounds(1))
  have small: "va < MAXVA" if "PGROUNDDOWN va = 0"
  proof -
    have "va < PGSIZE" using PGROUNDDOWN_page[of va] that by (simp add: in_page_def)
    then show ?thesis by (simp add: PGSIZE_def MAXVA_def word_less_nat_alt)
  qed
  show "umapped (ram one_user_page) 0x87FFC000 va \<longleftrightarrow> PGROUNDDOWN va = 0"
    using v pa demo_pages(4) small one_user_page_lookup by (auto simp: umapped_def split: if_splits)
  then show "uwritable (ram one_user_page) 0x87FFC000 va \<longleftrightarrow> PGROUNDDOWN va = 0"
    using v small one_user_page_lookup by (auto simp: uwritable_def)
qed

lemma one_user_page_ok: "user_ok (ram one_user_page) 0x87FFC000"
proof -
  have "PTE2PA (lookup (ram one_user_page) 0x87FFC000 va) = 0x87FF9000" if "umapped (ram one_user_page) 0x87FFC000 va" for va
  proof -
    have "va < MAXVA" using that by (simp add: umapped_def)
    moreover have "PGROUNDDOWN va = 0" using that one_user_page_mapped(1) by blast
    ultimately show ?thesis
      using one_user_page_lookup[of va] PTE2PA_PA2PTE[OF page_ok_bounds(1)[OF demo_pages(4)]] by simp
  qed
  then show ?thesis
    unfolding user_ok_def using one_user_page_tree by (auto simp: one_user_page_mapped)
qed

theorem copyout_copyin_witness:
  "\<exists>s'. copyout 0 0x87FFC000 7 [1, 2, 3] one_user_page = Inr (0, s') \<and>
     copyin 0 0x87FFC000 7 3 s' = Inr ((0, [1, 2, 3]), s')"
proof -
  have "PGROUNDDOWN (7 + of_nat i) = 0" if "i < 3" for i
  proof -
    have "i = 0 \<or> i = 1 \<or> i = 2" using that by linarith
    then show ?thesis by (auto simp: PGROUNDDOWN_def PGSIZE_def)
  qed
  then have "urange (uwritable (ram one_user_page) 0x87FFC000) 7 (length [1, 2, 3 :: uint8])"
    by (simp add: urange_def one_user_page_mapped)
  from copyout_copyin[OF one_user_page_ok this, of 0] show ?thesis by (auto simp: numeral_3_eq_3)
qed

lemma page_aligned_add: "page_aligned a \<Longrightarrow> page_aligned b \<Longrightarrow> page_aligned (a + b)"
proof -
  assume "page_aligned a" "page_aligned b"
  then have "(unat a + unat b) mod 4096 = 0" by (simp add: page_aligned_unat mod_add_eq[symmetric])
  then show ?thesis using unat_add_mod[of 4096 a b] by (simp add: page_aligned_unat)
qed

lemma page_aligned_diff: "page_aligned a \<Longrightarrow> page_aligned b \<Longrightarrow> page_aligned (a - b)"
proof -
  assume a: "page_aligned a" "page_aligned b"
  then have "4096 dvd unat (b + (a - b))" "4096 dvd unat b" by (simp_all add: page_aligned_unat dvd_eq_mod_eq_0)
  then have "4096 dvd unat b + unat (a - b)" using unat_add_mod[of 4096 b "a - b"] by (simp add: dvd_eq_mod_eq_0)
  then show ?thesis using \<open>4096 dvd unat b\<close> dvd_add_right_iff by (auto simp: page_aligned_unat dvd_eq_mod_eq_0[symmetric])
qed

text \<open>
  C6. Mapping a range and translating through it.  In an address space with none of the pages
  mapped, \<open>mappages\<close> either succeeds, and then \<open>walkaddr\<close> takes every address of the range to the
  corresponding frame and every other address to what it was before; or it reports failure, and
  then the allocator has no page left.
\<close>

theorem mappages_translates:
  assumes sp: "space c s pt ps" and range: "unat va + 4096 * Suc n \<le> 2 ^ 38" and al: "page_aligned va" "page_aligned pa"
    and free: "\<And>i. i \<le> n \<Longrightarrow> lookup (ram s) pt (va + of_nat (4096 * i)) = 0"
    and perm: "flag_bits perm" "perm AND PTE_U \<noteq> 0"
  shows "\<exists>r s'. mappages c pt va (of_nat (4096 * Suc n)) pa perm s = Inr (r, s') \<and>
    (r = 0 \<and> (\<forall>va'<MAXVA. \<exists>old. walkaddr c pt va' s = Inr (old, s) \<and>
        walkaddr c pt va' s' = Inr (if pages_from va (Suc n) va' then pa + (PGROUNDDOWN va' - va) else old, s')) \<or>
     r = -1 \<and> kmem_ok c s' [])"
proof (cases rule: mappages_spec[OF sp range al(1) free, where pa = pa and perm = perm])
  case mapped: (2 s' k)
  have "tree_ok (ram s) 2 pt" "tree_ok (ram s') 2 pt" using sp mapped(2) by (simp_all add: space_def space_effect_def)
  note w = walkaddr_lookup[OF this(1), of _ c] walkaddr_lookup[OF this(2), of _ c]
  have frame: "PTE2PA (PA2PTE (pa + (PGROUNDDOWN va' - va)) OR perm OR PTE_V) = pa + (PGROUNDDOWN va' - va)"
    "(PA2PTE (pa + (PGROUNDDOWN va' - va)) OR perm OR PTE_V) AND PTE_U \<noteq> 0" for va'
  proof -
    have "page_aligned (pa + (PGROUNDDOWN va' - va))"
      using al PGROUNDDOWN_aligned[of va'] by (intro page_aligned_add page_aligned_diff)
    then show "PTE2PA (PA2PTE (pa + (PGROUNDDOWN va' - va)) OR perm OR PTE_V) = pa + (PGROUNDDOWN va' - va)"
      using perm(1) by (intro PTE2PA_PA2PTE) simp_all
    obtain k where "bit perm k" "bit PTE_U k" using perm(2) by (auto simp: bit_eq_iff bit_and_iff)
    then have "bit ((PA2PTE (pa + (PGROUNDDOWN va' - va)) OR perm OR PTE_V) AND PTE_U) k" by (simp add: bit_and_iff bit_or_iff)
    then show "(PA2PTE (pa + (PGROUNDDOWN va' - va)) OR perm OR PTE_V) AND PTE_U \<noteq> 0" by (metis bit_0_eq bot_apply bot_bool_def)
  qed
  have "walkaddr c pt va' s' = Inr (if pages_from va (Suc n) va' then pa + (PGROUNDDOWN va' - va)
      else if lookup (ram s) pt va' AND PTE_U = 0 then 0 else PTE2PA (lookup (ram s) pt va'), s')" if "va' < MAXVA" for va'
    using w(2)[OF that] mapped(3)[OF that] frame[of va'] by simp
  then show ?thesis using mapped(1) w(1) by blast
next
  case nomem: (3 s' n')
  have "kmem_ok c s' []" using nomem(3) by (simp add: space_effect_def space_def)
  then show ?thesis using nomem(1) by blast
qed simp

theorem mappages_translates_witness:
  "\<exists>r s'. mappages 0 0x87FFD000 0x3000 (of_nat (4096 * Suc 0)) 0x87FF9000 (PTE_R OR PTE_U) two_pages = Inr (r, s') \<and>
    (r = 0 \<and> walkaddr 0 0x87FFD000 0x3004 s' = Inr (0x87FF9000, s') \<or> r = -1 \<and> kmem_ok 0 s' [])"
proof -
  let ?r = "0x87FFD000 :: uint64"
  have z: "ram two_pages a = 0" if "in_page ?r a" for a
  proof -
    have "8 \<le> a - 0x87FFE000" "8 \<le> a - 0x87FFF000"
      using that page_ok_disjoint[of _ ?r a] demo_pages(5) kmem_ok_pages[OF two_pages_ok]
      by (auto intro!: not_in_page_8)
    then show ?thesis by (simp add: two_pages_def store64_other)
  qed
  note zt = zero_table[OF demo_pages(5) z]
  have sp: "space 0 two_pages ?r [0x87FFF000, 0x87FFE000]"
    using two_pages_ok[of 0] zt(3,4) by (simp add: space_def)
  have "page_aligned 0x3000" "page_aligned 0x87FF9000" "flag_bits (PTE_R OR PTE_U)" "(PTE_R OR PTE_U) AND PTE_U \<noteq> 0"
    by (simp_all add: page_aligned_def PGSIZE_def) (simp add: PTE_R_def PTE_U_def)
  moreover have "lookup (ram two_pages) ?r va = 0" for va using zt(5) by (simp add: lookup_def)
  ultimately obtain r s' where "mappages 0 ?r 0x3000 (of_nat (4096 * Suc 0)) 0x87FF9000 (PTE_R OR PTE_U) two_pages = Inr (r, s')"
    and d: "r = 0 \<and> (\<forall>va'<MAXVA. \<exists>old. walkaddr 0 ?r va' two_pages = Inr (old, two_pages) \<and>
        walkaddr 0 ?r va' s' = Inr (if pages_from 0x3000 (Suc 0) va' then 0x87FF9000 + (PGROUNDDOWN va' - 0x3000) else old, s')) \<or>
     r = -1 \<and> kmem_ok 0 s' []"
    using mappages_translates[OF sp, of "0x3000" 0 "0x87FF9000" "PTE_R OR PTE_U"] by auto
  moreover have "(0x3004 :: uint64) < MAXVA" "PGROUNDDOWN 0x3004 = 0x3000" by (simp_all add: MAXVA_def PGROUNDDOWN_def PGSIZE_def)
  then have "r = 0 \<and> walkaddr 0 ?r 0x3004 s' = Inr (0x87FF9000, s') \<or> r = -1 \<and> kmem_ok 0 s' []"
    using d by (auto simp: pages_from_def dest!: spec[of _ "0x3004"])
  ultimately show ?thesis by blast
qed

end
