(* ===== verification/Pipe.thy ===== *)
theory Pipe
  imports UserMem
begin

text \<open>
  Pipes, \<^verbatim>\<open>kernel/pipe.c\<close>.

  A pipe occupies a page of the allocator; \<open>pipes\<close> holds the structure behind each page address.
  \<open>pipewrite\<close> and \<open>piperead\<close> are loops that may leave the CPU in \<open>sleep\<close>: their result is the
  return value, or the place at which the process sleeps.  The lock is Peterson's algorithm on the
  fields \<open>flag\<close> and \<open>turn\<close> of the pipe, with identity 0 for every writer and 1 for every reader.  The
  operations run as one CPU sees them; the last part is about the lock on several CPUs.
\<close>

definition PIPESIZE :: nat where "PIPESIZE = 512"

record pipe =
  pdata :: "nat \<Rightarrow> uint8"
  nread :: uint32
  nwrite :: uint32
  readopen :: bool
  writeopen :: bool
  pflag :: "int \<Rightarrow> int"
  turn :: int

record kpipe = kmem +
  pipes :: "uint64 \<Rightarrow> pipe"

definition upd_pipe :: "uint64 \<Rightarrow> (pipe \<Rightarrow> pipe) \<Rightarrow> 'a kpipe_scheme \<Rightarrow> 'a kpipe_scheme" where
  "upd_pipe pi f s = s\<lparr>pipes := (pipes s)(pi := f (pipes s pi))\<rparr>"

text \<open>
  The two stores of \<open>peterson_enter\<close>, then the busy wait: it goes on while the other side has its
  flag up and the turn, which cannot change without another CPU.
\<close>

definition peterson_enter :: "uint64 \<Rightarrow> int \<Rightarrow> 'a kpipe_scheme \<Rightarrow> 'a kpipe_scheme res" where
  "peterson_enter pi thread_id s =
     (let other = 1 - thread_id;
          s = upd_pipe pi (\<lambda>p. p\<lparr>pflag := (pflag p)(thread_id := 1)\<rparr>) s;
          s = upd_pipe pi (turn_update (\<lambda>_. other)) s
      in if pflag (pipes s pi) other = 1 \<and> turn (pipes s pi) = other then Inl (Spin ''peterson_enter'') else Inr s)"

definition peterson_exit :: "uint64 \<Rightarrow> int \<Rightarrow> 'a kpipe_scheme \<Rightarrow> 'a kpipe_scheme" where
  "peterson_exit pi thread_id s = upd_pipe pi (\<lambda>p. p\<lparr>pflag := (pflag p)(thread_id := 0)\<rparr>) s"

abbreviation ch_nread :: "uint64 \<Rightarrow> chan" where "ch_nread pi \<equiv> ChPipeRead (unat pi)"
abbreviation ch_nwrite :: "uint64 \<Rightarrow> chan" where "ch_nwrite pi \<equiv> ChPipeWrite (unat pi)"

text \<open>The fields set by \<open>pipealloc\<close>; the rest of the page keeps what \<open>kalloc\<close> left there.\<close>

definition pipe_init :: "pipe \<Rightarrow> pipe" where
  "pipe_init p = p\<lparr>readopen := True, writeopen := True, nwrite := 0, nread := 0,
     pflag := (pflag p)(0 := 0, 1 := 0), turn := 0\<rparr>"

definition pipeclose :: "nat \<Rightarrow> uint64 \<Rightarrow> bool \<Rightarrow> 'a kpipe_scheme \<Rightarrow> 'a kpipe_scheme res" where
  "pipeclose c pi writable s =
     (let tid = (if writable then 0 else 1) in
      bindE (peterson_enter pi tid s) (\<lambda>s.
      bindE (if writable
             then wakeup c (Some (ch_nread pi)) (upd_pipe pi (writeopen_update (\<lambda>_. False)) s)
             else wakeup c (Some (ch_nwrite pi)) (upd_pipe pi (readopen_update (\<lambda>_. False)) s)) (\<lambda>s.
      if \<not> readopen (pipes s pi) \<and> \<not> writeopen (pipes s pi)
      then kfree c pi (peterson_exit pi tid s)
      else Inr (peterson_exit pi tid s))))"

text \<open>
  The result of a pipe operation: the value it returns, or the loop variable and the saved
  interrupt flag of a process that left the CPU in \<open>sleep\<close>.
\<close>

datatype pipe_result = PDone int | PSleep int bool

definition pipe_full :: "pipe \<Rightarrow> bool" where
  "pipe_full p = (nwrite p = nread p + of_nat PIPESIZE)"

definition pipe_empty :: "pipe \<Rightarrow> bool" where
  "pipe_empty p = (nread p = nwrite p)"

definition pipe_put :: "uint8 \<Rightarrow> pipe \<Rightarrow> pipe" where
  "pipe_put ch p = p\<lparr>pdata := (pdata p)(unat (nwrite p) mod PIPESIZE := ch), nwrite := nwrite p + 1\<rparr>"

definition pipe_front :: "pipe \<Rightarrow> uint8" where
  "pipe_front p = pdata p (unat (nread p) mod PIPESIZE)"

definition pipe_drop :: "pipe \<Rightarrow> pipe" where
  "pipe_drop p = p\<lparr>nread := nread p + 1\<rparr>"

definition pipewrite_end :: "nat \<Rightarrow> uint64 \<Rightarrow> int \<Rightarrow> 'a kpipe_scheme \<Rightarrow> (pipe_result \<times> 'a kpipe_scheme) res" where
  "pipewrite_end c pi i s =
     bindE (wakeup c (Some (ch_nread pi)) s) (\<lambda>s. Inr (PDone i, peterson_exit pi 0 s))"

function pipewrite_loop :: "nat \<Rightarrow> nat \<Rightarrow> uint64 \<Rightarrow> uint64 \<Rightarrow> int \<Rightarrow> int \<Rightarrow> 'a kpipe_scheme
    \<Rightarrow> (pipe_result \<times> 'a kpipe_scheme) res" where
  "pipewrite_loop c pr pi addr n i s =
     (if i < n then
        bindE (if \<not> readopen (pipes s pi) then Inr (True, s) else killed c pr s) (\<lambda>(stop, s).
        if stop then Inr (PDone (-1), peterson_exit pi 0 s)
        else if pipe_full (pipes s pi) then
          bindE (wakeup c (Some (ch_nread pi)) s) (\<lambda>s.
          bindE (sleep_leave c (ch_nwrite pi) None s) (\<lambda>(saved, s). Inr (PSleep i saved, s)))
        else
          bindE (copyin c (pagetable (procs s pr)) (addr + of_int i) 1 s) (\<lambda>((r, ch), s).
          if r = -1 then pipewrite_end c pi i s
          else pipewrite_loop c pr pi addr n (i + 1) (upd_pipe pi (pipe_put (hd ch)) s)))
      else pipewrite_end c pi i s)"
  by pat_completeness auto
termination
  by (relation "measure (\<lambda>(c, pr, pi, addr, n, i, s). nat (n - i))") auto

declare pipewrite_loop.simps [simp del]

definition pipewrite :: "nat \<Rightarrow> uint64 \<Rightarrow> uint64 \<Rightarrow> int \<Rightarrow> 'a kpipe_scheme \<Rightarrow> (pipe_result \<times> 'a kpipe_scheme) res" where
  "pipewrite c pi addr n s =
     bindE (myproc c s) (\<lambda>(pr, s).
     bindE (peterson_enter pi 0 s) (\<lambda>s.
     case pr of None \<Rightarrow> Inl (Fault ''pipewrite: no process'')
     | Some pr \<Rightarrow> pipewrite_loop c pr pi addr n 0 s))"

function piperead_copy :: "nat \<Rightarrow> nat \<Rightarrow> uint64 \<Rightarrow> uint64 \<Rightarrow> int \<Rightarrow> int \<Rightarrow> 'a kpipe_scheme
    \<Rightarrow> (int \<times> 'a kpipe_scheme) res" where
  "piperead_copy c pr pi addr n i s =
     (if i < n then
        if pipe_empty (pipes s pi) then Inr (i, s)
        else
          let ch = pipe_front (pipes s pi) in
          bindE (copyout c (pagetable (procs s pr)) (addr + of_int i) [ch] s) (\<lambda>(r, s).
          if r = -1 then Inr (if i = 0 then -1 else i, s)
          else piperead_copy c pr pi addr n (i + 1) (upd_pipe pi pipe_drop s))
      else Inr (i, s))"
  by pat_completeness auto
termination
  by (relation "measure (\<lambda>(c, pr, pi, addr, n, i, s). nat (n - i))") auto

declare piperead_copy.simps [simp del]

text \<open>The waiting loop of \<open>piperead\<close> from its test on; after a wakeup it is entered here again.\<close>

definition piperead_wait :: "nat \<Rightarrow> nat \<Rightarrow> uint64 \<Rightarrow> uint64 \<Rightarrow> int \<Rightarrow> 'a kpipe_scheme
    \<Rightarrow> (pipe_result \<times> 'a kpipe_scheme) res" where
  "piperead_wait c pr pi addr n s =
     (if pipe_empty (pipes s pi) \<and> writeopen (pipes s pi) then
        bindE (killed c pr s) (\<lambda>(k, s).
        if k then Inr (PDone (-1), peterson_exit pi 1 s)
        else bindE (sleep_leave c (ch_nread pi) None s) (\<lambda>(saved, s). Inr (PSleep 0 saved, s)))
      else
        bindE (piperead_copy c pr pi addr n 0 s) (\<lambda>(i, s).
        bindE (wakeup c (Some (ch_nwrite pi)) s) (\<lambda>s. Inr (PDone i, peterson_exit pi 1 s))))"

definition piperead :: "nat \<Rightarrow> uint64 \<Rightarrow> uint64 \<Rightarrow> int \<Rightarrow> 'a kpipe_scheme \<Rightarrow> (pipe_result \<times> 'a kpipe_scheme) res" where
  "piperead c pi addr n s =
     bindE (myproc c s) (\<lambda>(pr, s).
     bindE (peterson_enter pi 1 s) (\<lambda>s.
     case pr of None \<Rightarrow> Inl (Fault ''piperead: no process'')
     | Some pr \<Rightarrow> piperead_wait c pr pi addr n s))"

text \<open>What a sleeper of either kind does when it is scheduled again.\<close>

definition pipewrite_wake :: "nat \<Rightarrow> nat \<Rightarrow> uint64 \<Rightarrow> uint64 \<Rightarrow> int \<Rightarrow> int \<Rightarrow> bool \<Rightarrow> 'a kpipe_scheme
    \<Rightarrow> (pipe_result \<times> 'a kpipe_scheme) res" where
  "pipewrite_wake c pr pi addr n i saved s =
     bindE (sleep_return c pr None saved s) (pipewrite_loop c pr pi addr n i)"

definition piperead_wake :: "nat \<Rightarrow> nat \<Rightarrow> uint64 \<Rightarrow> uint64 \<Rightarrow> int \<Rightarrow> bool \<Rightarrow> 'a kpipe_scheme
    \<Rightarrow> (pipe_result \<times> 'a kpipe_scheme) res" where
  "piperead_wake c pr pi addr n saved s =
     bindE (sleep_return c pr None saved s) (piperead_wait c pr pi addr n)"

subsection \<open>The ring buffer\<close>

definition pipe_contents :: "pipe \<Rightarrow> uint8 list" where
  "pipe_contents p = map (\<lambda>k. pdata p (unat (nread p + of_nat k) mod PIPESIZE)) [0..<unat (nwrite p - nread p)]"

definition pipe_ok :: "pipe \<Rightarrow> bool" where
  "pipe_ok p = (unat (nwrite p - nread p) \<le> PIPESIZE)"

lemma ring_index: "unat (a + of_nat k :: uint32) mod PIPESIZE = (unat a + k) mod PIPESIZE"
proof -
  have "unat (a + of_nat k) mod PIPESIZE = (unat a + k mod 2 ^ 32) mod 2 ^ 32 mod PIPESIZE"
    by (simp add: unat_word_ariths(1) unat_of_nat)
  also have "\<dots> = (unat a + k mod 2 ^ 32) mod PIPESIZE" by (rule mod_mod_cancel) (simp add: PIPESIZE_def)
  also have "\<dots> = (unat a + k mod 2 ^ 32 mod PIPESIZE) mod PIPESIZE" by (simp add: mod_add_right_eq)
  also have "k mod 2 ^ 32 mod PIPESIZE = k mod PIPESIZE" by (rule mod_mod_cancel) (simp add: PIPESIZE_def)
  finally show ?thesis by (simp add: mod_add_right_eq)
qed

lemma ring_index_inj:
  fixes a :: nat
  assumes "(a + j) mod m = (a + k) mod m" and "j < m" and "k < m"
  shows "j = k"
proof -
  have *: "j = k" if "j \<le> k" "(a + k) mod m = (a + j) mod m" "k < m" for j k
  proof -
    have "m dvd k - j" using that mod_eq_dvd_iff_nat[of "a + j" "a + k" m] by simp
    then have "k - j = 0" using that(3) by (metis dvd_imp_le less_imp_diff_less not_gr_zero not_le)
    then show ?thesis using that(1) by simp
  qed
  show ?thesis using *[of j k] *[of k j] assms by (cases "j \<le> k") auto
qed

interpretation pring: bounded_queue pipe_put pipe_front pipe_drop pipe_full pipe_empty pipe_contents pipe_ok PIPESIZE
proof
  fix q :: pipe and x :: uint8
  assume ok: "pipe_ok q"
  show "length (pipe_contents q) \<le> PIPESIZE" using ok by (simp add: pipe_contents_def pipe_ok_def)
  show full: "pipe_full q \<longleftrightarrow> length (pipe_contents q) = PIPESIZE"
  proof -
    have "nwrite q = nread q + of_nat PIPESIZE \<longleftrightarrow> nwrite q - nread q = of_nat PIPESIZE" by (auto simp: algebra_simps)
    also have "\<dots> \<longleftrightarrow> unat (nwrite q - nread q) = PIPESIZE" by (simp add: word_unat_eq_iff PIPESIZE_def)
    finally show ?thesis by (simp add: pipe_full_def pipe_contents_def)
  qed
  show empty: "pipe_empty q \<longleftrightarrow> pipe_contents q = []"
    by (auto simp: pipe_empty_def pipe_contents_def unat_eq_zero)
  {
    assume nf: "\<not> pipe_full q"
    let ?d = "unat (nwrite q - nread q)"
    have d: "?d < PIPESIZE" using nf full ok by (simp add: pipe_contents_def pipe_ok_def)
    have "unat (nwrite q + 1 - nread q) = unat ((nwrite q - nread q) + of_nat 1)" by (simp add: algebra_simps)
    also have "\<dots> = ?d + 1" using d by (simp add: unat_word_ariths(1) PIPESIZE_def)
    finally have d1: "unat (nwrite q + 1 - nread q) = Suc ?d" by simp
    show "pipe_ok (pipe_put x q)" using d d1 by (simp add: pipe_ok_def pipe_put_def)
    have nw: "unat (nwrite q) mod PIPESIZE = (unat (nread q) + ?d) mod PIPESIZE"
      using ring_index[of "nread q" ?d] by simp
    have "(unat (nread q) + k) mod PIPESIZE \<noteq> unat (nwrite q) mod PIPESIZE" if "k < ?d" for k
      using ring_index_inj[of "unat (nread q)" k PIPESIZE ?d] that d nw by auto
    then show "pipe_contents (pipe_put x q) = pipe_contents q @ [x]"
      using nw unfolding pipe_contents_def ring_index by (simp add: pipe_put_def d1)
  }
  {
    assume ne: "\<not> pipe_empty q"
    let ?d = "unat (nwrite q - nread q)"
    have d: "0 < ?d" using ne empty by (simp add: pipe_contents_def)
    have d1: "unat (nwrite q - (nread q + 1)) = ?d - 1"
    proof -
      have "nwrite q - (nread q + 1) = nwrite q - nread q - 1" by simp
      then show ?thesis using d by (simp only:) (subst unat_sub, simp_all add: word_le_nat_alt)
    qed
    show "pipe_ok (pipe_drop q)" using d1 ok by (simp add: pipe_ok_def pipe_drop_def)
    have "[0..<?d] = 0 # map Suc [0..<?d - 1]" using d by (simp add: map_Suc_upt upt_conv_Cons)
    then show "pipe_contents q = pipe_front q # pipe_contents (pipe_drop q)"
      using d1 unfolding pipe_contents_def
      by (simp add: pipe_front_def pipe_drop_def add.assoc del: upt_Suc)
  }
qed

subsection \<open>Reading and writing\<close>

lemma upd_pipe_frame [simp]:
  "procs (upd_pipe pi f s) = procs s" "ram (upd_pipe pi f s) = ram s" "cpus (upd_pipe pi f s) = cpus s"
  "locks (upd_pipe pi f s) = locks s" "pipes (upd_pipe pi f s) q = (if q = pi then f (pipes s pi) else pipes s q)"
  "procs_free c (upd_pipe pi f s) = procs_free c s"
  by (simp_all add: upd_pipe_def procs_free_def lock_free_def cpu_sane_def)

lemma settle_pipe [simp]: "settle c (upd_pipe pi f s) = upd_pipe pi f (settle c s)" "pipes (settle c s) = pipes s"
  "procs_free c (settle c s) = procs_free c s"
  by (simp_all add: settle_def upd_cpu_def upd_pipe_def procs_free_def lock_free_def cpu_sane_def)

lemma upd_pipe_upd [simp]: "upd_pipe pi f (upd_pipe pi g s) = upd_pipe pi (\<lambda>p. f (g p)) s"
  by (simp add: upd_pipe_def)

lemma upd_pipe_id [simp]: "upd_pipe pi (\<lambda>p. p) s = s" "upd_pipe pi id s = s"
  by (simp_all add: upd_pipe_def)

lemma map_procs_pipes [simp]: "pipes (map_procs h s) = pipes s" "ram (map_procs h s) = ram s"
  by (simp_all add: map_procs_def)

lemma copyin_byte:
  assumes "tree_ok (ram s) 2 pt" and "umapped (ram s) pt va"
  shows "copyin c pt va 1 s = Inr ((0, [ubyte (ram s) pt va]), s)"
proof -
  have "unat va < 2 ^ 38" using assms(2) by (simp add: umapped_def MAXVA_unat)
  then have "urange (umapped (ram s) pt) va 1" using assms(2) by (simp add: urange_def)
  from copyin_loop_spec[OF assms(1) this] show ?thesis by (simp add: copyin_def)
qed

lemma pipewrite_loop_spec:
  assumes "procs_free c s" and "settle c s = s" and "\<not> pkilled (procs s pr)" and "readopen (pipes s pi)"
    and "tree_ok (ram s) 2 (pagetable (procs s pr))"
    and "pipe_ok (pipes s pi)" and "length (pipe_contents (pipes s pi)) + k \<le> PIPESIZE"
    and "\<And>j. j < k \<Longrightarrow> umapped (ram s) (pagetable (procs s pr)) (addr + of_int i + of_nat j)"
  shows "pipewrite_loop c pr pi addr (i + int k) i s = pipewrite_end c pi (i + int k)
    (upd_pipe pi (fold pipe_put (map (\<lambda>j. ubyte (ram s) (pagetable (procs s pr)) (addr + of_int i + of_nat j)) [0..<k])) s)"
  using assms
proof (induction k arbitrary: i s)
  case 0
  then show ?case by (subst pipewrite_loop.simps) simp
next
  case (Suc k)
  let ?pt = "pagetable (procs s pr)" and ?p = "pipes s pi"
  let ?b = "ubyte (ram s) ?pt (addr + of_int i)"
  let ?s = "upd_pipe pi (pipe_put ?b) s"
  have nf: "\<not> pipe_full ?p" using Suc.prems(6,7) pring.full_iff by simp
  have um: "umapped (ram s) ?pt (addr + of_int i)" using Suc.prems(8)[of 0] by simp
  have ro: "readopen (pipe_put x q) = readopen q" for x q by (simp add: pipe_put_def)
  have step: "pipewrite_loop c pr pi addr (i + int (Suc k)) i s = pipewrite_loop c pr pi addr (i + int (Suc k)) (i + 1) ?s"
    using Suc.prems(1-4) nf copyin_byte[OF Suc.prems(5) um, of c]
    by (subst pipewrite_loop.simps) (simp add: killed_spec)
  have "pipewrite_loop c pr pi addr ((i + 1) + int k) (i + 1) ?s = pipewrite_end c pi ((i + 1) + int k)
     (upd_pipe pi (fold pipe_put (map (\<lambda>j. ubyte (ram ?s) (pagetable (procs ?s pr)) (addr + of_int (i + 1) + of_nat j)) [0..<k])) ?s)"
  proof (rule Suc.IH)
    show "length (pipe_contents (pipes ?s pi)) + k \<le> PIPESIZE"
      using Suc.prems(6,7) nf pring.put_contents by simp
    show "pipe_ok (pipes ?s pi)" using Suc.prems(6) nf pring.put_good by simp
    show "umapped (ram ?s) (pagetable (procs ?s pr)) (addr + of_int (i + 1) + of_nat j)" if "j < k" for j
      using Suc.prems(8)[of "Suc j"] that by (simp add: algebra_simps)
  qed (use Suc.prems ro in simp_all)
  moreover have "map (\<lambda>j. ubyte (ram s) ?pt (addr + of_int i + of_nat j)) [0..<Suc k] =
      ?b # map (\<lambda>j. ubyte (ram s) ?pt (addr + of_int (i + 1) + of_nat j)) [0..<k]"
    by (simp add: map_upt_Suc algebra_simps del: upt_Suc)
  ultimately show ?case using step by (simp add: algebra_simps o_def)
qed


text \<open>What \<open>peterson_enter\<close> writes when the other side is out.\<close>

definition pet_up :: "int \<Rightarrow> pipe \<Rightarrow> pipe" where
  "pet_up tid p = p\<lparr>pflag := (pflag p)(tid := 1), turn := 1 - tid\<rparr>"

definition pet_down :: "int \<Rightarrow> pipe \<Rightarrow> pipe" where
  "pet_down tid p = p\<lparr>pflag := (pflag p)(tid := 0)\<rparr>"

lemma peterson_enter_ok:
  "pflag (pipes s pi) (1 - tid) \<noteq> 1 \<Longrightarrow> tid \<noteq> 1 - tid \<Longrightarrow> peterson_enter pi tid s = Inr (upd_pipe pi (pet_up tid) s)"
  by (simp add: peterson_enter_def Let_def pet_up_def[abs_def])

lemma pet_simps [simp]:
  "pipe_ok (pet_up t p) = pipe_ok p" "pipe_contents (pet_up t p) = pipe_contents p" "readopen (pet_up t p) = readopen p"
  "writeopen (pet_up t p) = writeopen p" "pipe_full (pet_up t p) = pipe_full p" "pipe_empty (pet_up t p) = pipe_empty p"
  "pipe_ok (pet_down t p) = pipe_ok p" "pipe_contents (pet_down t p) = pipe_contents p" "pflag (pet_down t p) t = 0"
  by (simp_all add: pet_up_def pet_down_def pipe_ok_def pipe_contents_def pipe_full_def pipe_empty_def)

lemma peterson_exit_eq: "peterson_exit pi tid s = upd_pipe pi (pet_down tid) s"
  by (simp add: peterson_exit_def pet_down_def[abs_def])

text \<open>The situation of a process that calls into a pipe: it runs on this CPU and holds no lock.\<close>

definition caller :: "nat \<Rightarrow> nat \<Rightarrow> 'a ptable_scheme \<Rightarrow> bool" where
  "caller c pr s = (procs_free c s \<and> cproc (cpus s c) = Some pr \<and> \<not> pkilled (procs s pr))"

text \<open>
  C14. A write to a pipe with room appends the caller's bytes.  It returns the count, the bytes of
  the caller's memory follow the earlier contents in order, memory is unchanged, every sleeping
  reader of the pipe is made runnable, and the writer's flag is down again.
\<close>

theorem pipewrite_appends:
  assumes "caller c pr s" and "readopen (pipes s pi)" and "pflag (pipes s pi) 1 \<noteq> 1"
    and "tree_ok (ram s) 2 (pagetable (procs s pr))" and "urange (umapped (ram s) (pagetable (procs s pr))) addr n"
    and "pipe_ok (pipes s pi)" and "length (pipe_contents (pipes s pi)) + n \<le> PIPESIZE"
  shows "\<exists>s'. pipewrite c pi addr (int n) s = Inr (PDone (int n), s') \<and> pipe_ok (pipes s' pi) \<and>
    pipe_contents (pipes s' pi) = pipe_contents (pipes s pi) @
      map (\<lambda>i. ubyte (ram s) (pagetable (procs s pr)) (addr + of_nat i)) [0..<n] \<and>
    ram s' = ram s \<and> pflag (pipes s' pi) 0 = 0 \<and>
    (\<forall>i<NPROC. i \<noteq> pr \<longrightarrow> procs s' i = wake_one (Some (ch_nread pi)) (procs s i))"
proof -
  let ?bytes = "map (\<lambda>j. ubyte (ram s) (pagetable (procs s pr)) (addr + of_nat j)) [0..<n]"
  let ?s0 = "upd_pipe pi (pet_up 0) (settle c s)"
  let ?s1 = "upd_pipe pi (fold pipe_put ?bytes) ?s0"
  let ?h = "\<lambda>i p. if cproc (cpus s c) = Some i then p else wake_one (Some (ch_nread pi)) p"
  have pf: "procs_free c s" "cproc (cpus s c) = Some pr" "\<not> pkilled (procs s pr)" using assms(1) by (simp_all add: caller_def)
  have my: "myproc c s = Inr (Some pr, settle c s)" using pf by (simp add: myproc_ok procs_free_def)
  have en: "peterson_enter pi 0 (settle c s) = Inr ?s0" using assms(3) by (simp add: peterson_enter_ok)
  have loop: "pipewrite_loop c pr pi addr (0 + int n) 0 ?s0 = pipewrite_end c pi (0 + int n) ?s1"
    using pipewrite_loop_spec[of c ?s0 pr pi n addr 0] pf assms(2,4-7) by (simp add: urange_def)
  have wk: "wakeup c (Some (ch_nread pi)) ?s1 = Inr (map_procs ?h ?s1)"
    using wakeup_spec[of c ?s1] pf by (simp add: frame_simps)
  let ?s' = "peterson_exit pi 0 (map_procs ?h ?s1)"
  have put: "pipe_ok (fold pipe_put ?bytes (pet_up 0 (pipes s pi)))"
    "pipe_contents (fold pipe_put ?bytes (pet_up 0 (pipes s pi))) = pipe_contents (pipes s pi) @ ?bytes"
    using pring.put_many[of "pet_up 0 (pipes s pi)" ?bytes] assms(6,7) by simp_all
  have "pipewrite c pi addr (int n) s = Inr (PDone (int n), ?s')"
    using my en loop wk by (simp add: pipewrite_def pipewrite_end_def)
  moreover have "\<forall>i<NPROC. i \<noteq> pr \<longrightarrow> procs ?s' i = wake_one (Some (ch_nread pi)) (procs s i)"
    using pf(2) by (simp add: peterson_exit_eq procs_map_procs)
  ultimately show ?thesis using put by (intro exI[of _ ?s']) (simp add: peterson_exit_eq)
qed

text \<open>
  C17. A blocking pipe operation brings the kernel down.  A write to a full pipe with a reader, and
  a read from an empty pipe with a writer, call \<open>sleep\<close> with a null lock; the kernel then faults in
  \<open>release\<close>.
\<close>

theorem blocking_pipe_faults:
  assumes "caller c pr s" and "0 < n"
  shows "(readopen (pipes s pi) \<and> pipe_full (pipes s pi) \<and> pflag (pipes s pi) 1 \<noteq> 1 \<longrightarrow>
      pipewrite c pi addr n s = Inl (Fault ''release'')) \<and>
    (writeopen (pipes s pi) \<and> pipe_empty (pipes s pi) \<and> pflag (pipes s pi) 0 \<noteq> 1 \<longrightarrow>
      piperead c pi addr n s = Inl (Fault ''release''))"
proof -
  have pf: "procs_free c s" "cproc (cpus s c) = Some pr" "\<not> pkilled (procs s pr)" using assms(1) by (simp_all add: caller_def)
  have my: "myproc c s = Inr (Some pr, settle c s)" using pf by (simp add: myproc_ok procs_free_def)
  have "pipewrite c pi addr n s = Inl (Fault ''release'')"
    if a: "readopen (pipes s pi)" "pipe_full (pipes s pi)" "pflag (pipes s pi) 1 \<noteq> 1"
  proof -
    let ?s0 = "upd_pipe pi (pet_up 0) (settle c s)"
    have en: "peterson_enter pi 0 (settle c s) = Inr ?s0" using a(3) by (simp add: peterson_enter_ok)
    obtain t where t: "wakeup c (Some (ch_nread pi)) ?s0 = Inr t" "procs_free c t" "cproc (cpus t c) = Some pr"
      using wakeup_spec[of c ?s0 "Some (ch_nread pi)"] pf by (simp add: frame_simps)
    have "pipewrite_loop c pr pi addr n 0 ?s0 = Inl (Fault ''release'')"
      using assms(2) a pf t by (subst pipewrite_loop.simps) (simp add: killed_spec sleep_null_faults)
    then show ?thesis using my en by (simp add: pipewrite_def)
  qed
  moreover have "piperead c pi addr n s = Inl (Fault ''release'')"
    if a: "writeopen (pipes s pi)" "pipe_empty (pipes s pi)" "pflag (pipes s pi) 0 \<noteq> 1"
  proof -
    let ?s0 = "upd_pipe pi (pet_up 1) (settle c s)"
    have en: "peterson_enter pi 1 (settle c s) = Inr ?s0" using a(3) by (simp add: peterson_enter_ok)
    have "sleep_leave c (ch_nread pi) None ?s0 = Inl (Fault ''release'')"
      using sleep_null_faults[of c ?s0 pr] pf by (simp add: frame_simps)
    then have "piperead_wait c pr pi addr n ?s0 = Inl (Fault ''release'')"
      using a pf by (simp add: piperead_wait_def killed_spec)
    then show ?thesis using my en by (simp add: piperead_def)
  qed
  ultimately show ?thesis by blast
qed

lemma pipe_ram [simp]:
  "pipes (s\<lparr>ram := m\<rparr>) = pipes s" "upd_pipe pi f (s\<lparr>ram := m\<rparr>) = (upd_pipe pi f s)\<lparr>ram := m\<rparr>"
  by (simp_all add: upd_pipe_def)

lemma urange_Suc: "urange P va (Suc k) \<Longrightarrow> urange P va 1 \<and> urange P (va + 1) k"
  using urange_split[of P va 1 k] by simp

lemma piperead_copy_spec:
  assumes "user_ok (ram s) (pagetable (procs s pr))" and "pipe_ok (pipes s pi)"
    and "k = min (nat (n - i)) (length (pipe_contents (pipes s pi)))"
    and "urange (uwritable (ram s) (pagetable (procs s pr))) (addr + of_int i) k" and "0 \<le> i"
  shows "\<exists>m'. piperead_copy c pr pi addr n i s = Inr (i + int k, (upd_pipe pi (pipe_drop ^^ k) s)\<lparr>ram := m'\<rparr>) \<and>
    (\<forall>j<k. m' (uaddr (ram s) (pagetable (procs s pr)) (addr + of_int i + of_nat j)) = pipe_contents (pipes s pi) ! j) \<and>
    (\<forall>a. m' a \<noteq> ram s a \<longrightarrow> (\<exists>j<k. a = uaddr (ram s) (pagetable (procs s pr)) (addr + of_int i + of_nat j)))"
  using assms
proof (induction k arbitrary: i s)
  case 0
  have "\<not> i < n \<or> pipe_contents (pipes s pi) = []" using 0(3) by (auto simp: min_def split: if_splits)
  then have "piperead_copy c pr pi addr n i s = Inr (i, s)"
    using pring.empty_iff[OF 0(2)] by (subst piperead_copy.simps) auto
  then show ?case by (intro exI[of _ "ram s"]) simp
next
  case (Suc k)
  let ?pt = "pagetable (procs s pr)" and ?p = "pipes s pi" and ?va = "addr + of_int i"
  have i: "i < n" and ne: "pipe_contents ?p \<noteq> []" using Suc.prems(3) by auto
  then have nemp: "\<not> pipe_empty ?p" using pring.empty_iff[OF Suc.prems(2)] by simp
  have cont: "pipe_contents ?p = pipe_front ?p # pipe_contents (pipe_drop ?p)" using pring.pop_contents[OF Suc.prems(2) nemp] .
  have ur: "urange (uwritable (ram s) ?pt) ?va (length [pipe_front ?p])" "urange (uwritable (ram s) ?pt) (?va + 1) k"
    using urange_Suc[OF Suc.prems(4)] by simp_all
  obtain m1 where m1: "copyout c ?pt ?va [pipe_front ?p] s = Inr (0, s\<lparr>ram := m1\<rparr>)"
    "\<And>a. m1 a \<noteq> ram s a \<Longrightarrow> \<exists>j<1. a = uaddr (ram s) ?pt (?va + of_nat j)"
    "\<And>j. j < 1 \<Longrightarrow> m1 (uaddr (ram s) ?pt (?va + of_nat j)) = [pipe_front ?p] ! j"
    using copyout_spec[OF Suc.prems(1) ur(1), of c] by auto
  have um: "umapped (ram s) ?pt ?va" using urange_0[OF ur(1)] by (simp add: uwritable_def)
  have so: "\<forall>a. m1 a \<noteq> ram s a \<longrightarrow> (\<exists>v. umapped (ram s) ?pt v \<and> a = uaddr (ram s) ?pt v)"
    using m1(2) um by fastforce
  note u1 = user_store[where m' = m1, OF Suc.prems(1) so]
  let ?s = "upd_pipe pi pipe_drop (s\<lparr>ram := m1\<rparr>)"
  have step: "piperead_copy c pr pi addr n i s = piperead_copy c pr pi addr n (i + 1) ?s"
    using i nemp m1(1) by (subst piperead_copy.simps) (simp add: Let_def)
  have w: "uwritable (ram ?s) ?pt = uwritable (ram s) ?pt" "user_ok (ram ?s) ?pt" "uaddr (ram ?s) ?pt = uaddr (ram s) ?pt"
    "pagetable (procs ?s pr) = ?pt" "ram ?s = m1" using u1(4,6,7) by simp_all
  have "\<exists>m'. piperead_copy c pr pi addr n (i + 1) ?s = Inr ((i + 1) + int k, (upd_pipe pi (pipe_drop ^^ k) ?s)\<lparr>ram := m'\<rparr>) \<and>
    (\<forall>j<k. m' (uaddr (ram ?s) (pagetable (procs ?s pr)) (addr + of_int (i + 1) + of_nat j)) = pipe_contents (pipes ?s pi) ! j) \<and>
    (\<forall>a. m' a \<noteq> ram ?s a \<longrightarrow> (\<exists>j<k. a = uaddr (ram ?s) (pagetable (procs ?s pr)) (addr + of_int (i + 1) + of_nat j)))"
  proof (rule Suc.IH)
    show "pipe_ok (pipes ?s pi)" using pring.pop_good[OF Suc.prems(2) nemp] by simp
    show "k = min (nat (n - (i + 1))) (length (pipe_contents (pipes ?s pi)))"
      using Suc.prems(3) cont i by (auto simp: min_def split: if_splits)
    show "urange (uwritable (ram ?s) (pagetable (procs ?s pr))) (addr + of_int (i + 1)) k"
      using ur(2) unfolding w(4) w(1) by (simp add: algebra_simps)
    show "user_ok (ram ?s) (pagetable (procs ?s pr))" using w(2,4) by simp
    show "0 \<le> i + 1" using Suc.prems(5) by simp
  qed
  then obtain m' where IH: "piperead_copy c pr pi addr n (i + 1) ?s = Inr ((i + 1) + int k, (upd_pipe pi (pipe_drop ^^ k) ?s)\<lparr>ram := m'\<rparr>)"
    "\<And>j. j < k \<Longrightarrow> m' (uaddr (ram s) ?pt (addr + of_int (i + 1) + of_nat j)) = pipe_contents (pipe_drop ?p) ! j"
    "\<And>a. m' a \<noteq> m1 a \<Longrightarrow> \<exists>j<k. a = uaddr (ram s) ?pt (addr + of_int (i + 1) + of_nat j)"
    unfolding w(4) w(5) u1(6) by auto
  have sh: "addr + of_int (i + 1) + of_nat j = ?va + of_nat (Suc j)" for j by (simp add: algebra_simps)
  note IH' = IH(2,3)[unfolded sh]
  have umr: "urange (umapped (ram s) ?pt) ?va (Suc k)" using Suc.prems(4) by (rule urange_mono) (simp add: uwritable_def)
  have "m' (uaddr (ram s) ?pt (?va + of_nat j)) = pipe_contents ?p ! j" if j: "j < Suc k" for j
  proof (cases j)
    case 0
    have "m' (uaddr (ram s) ?pt ?va) = m1 (uaddr (ram s) ?pt ?va)"
    proof (rule ccontr)
      assume "m' (uaddr (ram s) ?pt ?va) \<noteq> m1 (uaddr (ram s) ?pt ?va)"
      from IH'(2)[OF this] obtain l where l: "l < k" "uaddr (ram s) ?pt (?va + of_nat 0) = uaddr (ram s) ?pt (?va + of_nat (Suc l))" by auto
      show False using uaddr_range_inj[OF Suc.prems(1) umr _ _ l(2)] l(1) by simp
    qed
    then show ?thesis using m1(3)[of 0] 0 cont by simp
  next
    case (Suc l)
    then show ?thesis using IH'(1)[of l] j cont by simp
  qed
  moreover have "\<exists>j<Suc k. a = uaddr (ram s) ?pt (?va + of_nat j)" if d: "m' a \<noteq> ram s a" for a
  proof (cases "m' a = m1 a")
    case True
    then show ?thesis using m1(2)[of a] d by (intro exI[of _ 0]) auto
  next
    case False
    then obtain l where "l < k" "a = uaddr (ram s) ?pt (?va + of_nat (Suc l))" using IH'(2) by blast
    then show ?thesis by (intro exI[of _ "Suc l"]) simp
  qed
  moreover have "piperead_copy c pr pi addr n i s = Inr (i + int (Suc k), (upd_pipe pi (pipe_drop ^^ Suc k) s)\<lparr>ram := m'\<rparr>)"
    using step IH(1) by (simp add: funpow_swap1 o_def algebra_simps)
  ultimately show ?case by blast
qed


text \<open>
  C15. A read from a pipe that is not empty delivers its oldest bytes.  It returns the smaller of
  the request and the fill level, these bytes are in the caller's memory in order and are gone
  from the pipe, no other mapped byte of the caller changes, and every sleeping writer of the pipe is
  made runnable.
\<close>

theorem piperead_delivers:
  assumes "caller c pr s" and "pflag (pipes s pi) 0 \<noteq> 1" and "pipe_ok (pipes s pi)" and "\<not> pipe_empty (pipes s pi)"
    and "user_ok (ram s) (pagetable (procs s pr))"
    and "k = min n (length (pipe_contents (pipes s pi)))"
    and "urange (uwritable (ram s) (pagetable (procs s pr))) addr k"
  shows "\<exists>s'. piperead c pi addr (int n) s = Inr (PDone (int k), s') \<and> pipe_ok (pipes s' pi) \<and>
    pipe_contents (pipes s' pi) = drop k (pipe_contents (pipes s pi)) \<and>
    (\<forall>j<k. ubyte (ram s') (pagetable (procs s pr)) (addr + of_nat j) = pipe_contents (pipes s pi) ! j) \<and>
    (\<forall>va. umapped (ram s) (pagetable (procs s pr)) va \<and> (\<forall>j<k. va \<noteq> addr + of_nat j) \<longrightarrow>
       ubyte (ram s') (pagetable (procs s pr)) va = ubyte (ram s) (pagetable (procs s pr)) va) \<and>
    (\<forall>i<NPROC. i \<noteq> pr \<longrightarrow> procs s' i = wake_one (Some (ch_nwrite pi)) (procs s i))"
proof -
  let ?pt = "pagetable (procs s pr)" and ?s0 = "upd_pipe pi (pet_up 1) (settle c s)"
  let ?h = "\<lambda>i p. if cproc (cpus s c) = Some i then p else wake_one (Some (ch_nwrite pi)) p"
  have pf: "procs_free c s" "cproc (cpus s c) = Some pr" "\<not> pkilled (procs s pr)" using assms(1) by (simp_all add: caller_def)
  have my: "myproc c s = Inr (Some pr, settle c s)" using pf by (simp add: myproc_ok procs_free_def)
  have en: "peterson_enter pi 1 (settle c s) = Inr ?s0" using assms(2) by (simp add: peterson_enter_ok)
  obtain m' where m': "piperead_copy c pr pi addr (int n) 0 ?s0 = Inr (int k, (upd_pipe pi (pipe_drop ^^ k) ?s0)\<lparr>ram := m'\<rparr>)"
    "\<And>j. j < k \<Longrightarrow> m' (uaddr (ram s) ?pt (addr + of_nat j)) = pipe_contents (pipes s pi) ! j"
    "\<And>a. m' a \<noteq> ram s a \<Longrightarrow> \<exists>j<k. a = uaddr (ram s) ?pt (addr + of_nat j)"
    using piperead_copy_spec[of ?s0 pr pi k "int n" 0 addr c] assms(3,5,6,7) by auto
  let ?s1 = "(upd_pipe pi (pipe_drop ^^ k) ?s0)\<lparr>ram := m'\<rparr>"
  have pf1: "procs_free c ?s1" using pf(1) by (simp add: procs_free_def lock_free_def cpu_sane_def frame_simps)
  have wk: "wakeup c (Some (ch_nwrite pi)) ?s1 = Inr (map_procs ?h ?s1)"
    using wakeup_spec[OF pf1] by (simp add: frame_simps)
  let ?s' = "peterson_exit pi 1 (map_procs ?h ?s1)"
  have "piperead c pi addr (int n) s = Inr (PDone (int k), ?s')"
    using my en m'(1) wk assms(4) by (simp add: piperead_def piperead_wait_def)
  moreover have "k \<le> length (pipe_contents (pet_up 1 (pipes s pi)))" using assms(6) by simp
  then have "pipe_ok ((pipe_drop ^^ k) (pet_up 1 (pipes s pi)))"
    "pipe_contents ((pipe_drop ^^ k) (pet_up 1 (pipes s pi))) = drop k (pipe_contents (pipes s pi))"
    using pring.pop_many[of "pet_up 1 (pipes s pi)" k] assms(3) by simp_all
  then have "pipe_ok (pipes ?s' pi)" "pipe_contents (pipes ?s' pi) = drop k (pipe_contents (pipes s pi))"
    by (simp_all add: peterson_exit_eq)
  moreover have um: "umapped (ram s) ?pt (addr + of_nat j)" if "j < k" for j
    using assms(7) that by (simp add: urange_def uwritable_def)
  have so: "\<forall>a. m' a \<noteq> ram s a \<longrightarrow> (\<exists>v. umapped (ram s) ?pt v \<and> a = uaddr (ram s) ?pt v)"
    using m'(3) um by blast
  note u = user_store[where m' = m', OF assms(5) so]
  have r: "ram ?s' = m'" by (simp add: peterson_exit_eq)
  have "ubyte (ram ?s') ?pt (addr + of_nat j) = pipe_contents (pipes s pi) ! j" if "j < k" for j
    unfolding r ubyte_def u(6) using m'(2)[OF that] .
  moreover have "ubyte (ram ?s') ?pt va = ubyte (ram s) ?pt va"
    if v: "umapped (ram s) ?pt va" "\<forall>j<k. va \<noteq> addr + of_nat j" for va
  proof (rule ccontr)
    assume "ubyte (ram ?s') ?pt va \<noteq> ubyte (ram s) ?pt va"
    then have "m' (uaddr (ram s) ?pt va) \<noteq> ram s (uaddr (ram s) ?pt va)" unfolding r ubyte_def u(6) .
    then obtain j where j: "j < k" "uaddr (ram s) ?pt va = uaddr (ram s) ?pt (addr + of_nat j)" using m'(3) by blast
    show False using uaddr_inj[OF assms(5) v(1) um[OF j(1)] j(2)] v(2) j(1) by blast
  qed
  moreover have "\<forall>i<NPROC. i \<noteq> pr \<longrightarrow> procs ?s' i = wake_one (Some (ch_nwrite pi)) (procs s i)"
    using pf(2) by (simp add: peterson_exit_eq procs_map_procs)
  ultimately show ?thesis by blast
qed

subsection \<open>Witness states\<close>

text \<open>Process 0 runs on CPU 0 with one user page; the pipe at \<open>0x87FF8000\<close> holds the given bytes.\<close>

definition pipe_state :: "pipe \<Rightarrow> kpipe" where
  "pipe_state p = kmem.extend
     (one_user_page\<lparr>cpus := (\<lambda>_. \<lparr>cproc = Some 0, noff = 0, intena = False, sie = True\<rparr>),
        procs := (\<lambda>_. demo_proc\<lparr>pagetable := 0x87FFC000, pkilled := False\<rparr>)\<rparr>) \<lparr>pipes = (\<lambda>_. p)\<rparr>"

definition fresh_pipe :: pipe where
  "fresh_pipe = \<lparr>pdata = (\<lambda>_. 0), nread = 0, nwrite = 0, readopen = True, writeopen = True, pflag = (\<lambda>_. 0), turn = 0\<rparr>"

lemma pipe_state_caller: "caller 0 0 (pipe_state p)"
  by (simp add: caller_def procs_free_def lock_free_def cpu_sane_def pipe_state_def kmem.extend_def one_user_page_def two_pages_def)

lemma pipe_state_mem: "ram (pipe_state p) = ram one_user_page" "pipes (pipe_state p) q = p"
  "pagetable (procs (pipe_state p) 0) = 0x87FFC000"
  by (simp_all add: pipe_state_def kmem.extend_def one_user_page_def two_pages_def)

lemma low_page: "i < 4096 \<Longrightarrow> PGROUNDDOWN (of_nat i) = 0"
proof -
  assume "i < 4096"
  then have "in_page 0 (of_nat i)" using in_page_off[of i 0] by simp
  then show ?thesis
    using pages_disjoint[OF _ PGROUNDDOWN_aligned _ PGROUNDDOWN_page, of 0 "of_nat i"] by (simp add: page_aligned_def)
qed

lemma fresh_pipe_simps:
  "pipe_ok fresh_pipe" "pipe_contents fresh_pipe = []" "\<not> pipe_full fresh_pipe" "readopen fresh_pipe" "pflag fresh_pipe i = 0"
  by (simp_all add: fresh_pipe_def pipe_ok_def pipe_contents_def pipe_full_def PIPESIZE_def)

theorem pipewrite_appends_witness:
  "\<exists>s'. pipewrite 0 0x87FF8000 0 2 (pipe_state fresh_pipe) = Inr (PDone 2, s') \<and>
    length (pipe_contents (pipes s' 0x87FF8000)) = 2"
proof -
  have "urange (umapped (ram one_user_page) 0x87FFC000) 0 2"
    using low_page by (simp add: urange_def one_user_page_mapped)
  then show ?thesis
    using pipewrite_appends[OF pipe_state_caller, of fresh_pipe "0x87FF8000" 0 2] one_user_page_tree(2)
    by (auto simp: pipe_state_mem fresh_pipe_simps PIPESIZE_def)
qed

theorem blocking_pipe_faults_witness:
  "piperead 0 0x87FF8000 0 1 (pipe_state fresh_pipe) = Inl (Fault ''release'') \<and>
   pipewrite 0 0x87FF8000 0 1 (pipe_state (fresh_pipe\<lparr>nwrite := 512\<rparr>)) = Inl (Fault ''release'')"
  using blocking_pipe_faults[OF pipe_state_caller, of 1 fresh_pipe "0x87FF8000" 0]
    blocking_pipe_faults[OF pipe_state_caller, of 1 "fresh_pipe\<lparr>nwrite := 512\<rparr>" "0x87FF8000" 0]
  by (simp add: pipe_state_mem fresh_pipe_def pipe_empty_def pipe_full_def PIPESIZE_def)

theorem piperead_delivers_witness:
  "\<exists>s'. piperead 0 0x87FF8000 0 9 (pipe_state (pipe_put 7 fresh_pipe)) = Inr (PDone 1, s') \<and>
    ubyte (ram s') 0x87FFC000 0 = 7 \<and> pipe_contents (pipes s' 0x87FF8000) = []"
proof -
  have p: "pipe_ok (pipe_put 7 fresh_pipe)" "pipe_contents (pipe_put 7 fresh_pipe) = [7]"
    using pring.put_good pring.put_contents by (simp_all add: fresh_pipe_simps)
  then have e: "\<not> pipe_empty (pipe_put 7 fresh_pipe)" using pring.empty_iff by simp
  have fl: "pflag (pipe_put 7 fresh_pipe) 0 = 0" by (simp add: pipe_put_def fresh_pipe_def)
  have "urange (uwritable (ram one_user_page) 0x87FFC000) 0 1"
    using low_page[of 0] by (simp add: urange_def one_user_page_mapped)
  then show ?thesis
    using piperead_delivers[OF pipe_state_caller, of "pipe_put 7 fresh_pipe" "0x87FF8000" 1 9 0] p e fl one_user_page_ok
    by (auto simp: pipe_state_mem)
qed


subsection \<open>Peterson's algorithm, instruction by instruction\<close>

text \<open>
  A thread goes through the four memory operations of \<open>peterson_enter\<close> one at a time: it raises its
  flag, gives the turn away, and then tests the other flag and the turn until one of them lets it
  in.  \<open>tid\<close> gives the identity each thread uses.  In \<open>pet_step\<close> every operation is seen by all CPUs in
  the order in which they are done; the code, which has no fence and no volatile access, does not ask
  for that, and \<open>pet_bstep\<close> below drops it.
\<close>

datatype pet_pc = Out | Raised | TestFlag | TestTurn | Inside

record 't pet =
  pet_flag :: "int \<Rightarrow> int"
  pet_turn :: int
  pet_pc :: "'t \<Rightarrow> pet_pc"

inductive pet_step :: "('t \<Rightarrow> int) \<Rightarrow> 't pet \<Rightarrow> 't pet \<Rightarrow> bool" for tid where
  raise: "pet_pc s t = Out \<Longrightarrow>
     pet_step tid s (s\<lparr>pet_flag := (pet_flag s)(tid t := 1), pet_pc := (pet_pc s)(t := Raised)\<rparr>)"
| give: "pet_pc s t = Raised \<Longrightarrow>
     pet_step tid s (s\<lparr>pet_turn := 1 - tid t, pet_pc := (pet_pc s)(t := TestFlag)\<rparr>)"
| flag_down: "pet_pc s t = TestFlag \<Longrightarrow> pet_flag s (1 - tid t) \<noteq> 1 \<Longrightarrow>
     pet_step tid s (s\<lparr>pet_pc := (pet_pc s)(t := Inside)\<rparr>)"
| flag_up: "pet_pc s t = TestFlag \<Longrightarrow> pet_flag s (1 - tid t) = 1 \<Longrightarrow>
     pet_step tid s (s\<lparr>pet_pc := (pet_pc s)(t := TestTurn)\<rparr>)"
| turn_mine: "pet_pc s t = TestTurn \<Longrightarrow> pet_turn s \<noteq> 1 - tid t \<Longrightarrow>
     pet_step tid s (s\<lparr>pet_pc := (pet_pc s)(t := Inside)\<rparr>)"
| turn_other: "pet_pc s t = TestTurn \<Longrightarrow> pet_turn s = 1 - tid t \<Longrightarrow>
     pet_step tid s (s\<lparr>pet_pc := (pet_pc s)(t := TestFlag)\<rparr>)"
| leave: "pet_pc s t = Inside \<Longrightarrow>
     pet_step tid s (s\<lparr>pet_flag := (pet_flag s)(tid t := 0), pet_pc := (pet_pc s)(t := Out)\<rparr>)"

definition pet_init :: "'t pet \<Rightarrow> bool" where
  "pet_init s = ((\<forall>i. pet_flag s i = 0) \<and> pet_turn s = 0 \<and> (\<forall>t. pet_pc s t = Out))"

text \<open>One writer, thread \<open>False\<close>, and one reader, thread \<open>True\<close>.\<close>

definition writer_reader :: "bool \<Rightarrow> int" where "writer_reader t = (if t then 1 else 0)"

definition pet_inv :: "bool pet \<Rightarrow> bool" where
  "pet_inv s = ((\<exists>t. pet_turn s = writer_reader t) \<and> (\<forall>t. (pet_flag s (writer_reader t) = 1) = (pet_pc s t \<noteq> Out)) \<and>
     (\<forall>t. pet_pc s t = Inside \<longrightarrow> pet_pc s (\<not> t) = Out \<or> pet_pc s (\<not> t) = Raised \<or>
        pet_pc s (\<not> t) \<noteq> Inside \<and> pet_turn s = writer_reader t))"

lemma pet_inv_step:
  assumes "pet_inv s" and "pet_step writer_reader s s'"
  shows "pet_inv s'"
proof -
  have wr: "1 - writer_reader t = writer_reader (\<not> t)" "writer_reader t = writer_reader u \<longleftrightarrow> t = u" for t u
    by (auto simp: writer_reader_def)
  have nu: "u = t \<or> u = (\<not> t)" for u t by blast
  note inv = assms(1)[unfolded pet_inv_def]
  from assms(2) show ?thesis
  proof cases
    case (raise t)
    then show ?thesis using inv nu[of _ t] by (auto simp: pet_inv_def wr)
  next
    case (give t)
    then show ?thesis using inv nu[of _ t] by (auto simp: pet_inv_def wr)
  next
    case (flag_down t)
    then show ?thesis using inv nu[of _ t] by (auto simp: pet_inv_def wr)
  next
    case (flag_up t)
    then show ?thesis using inv nu[of _ t] by (auto simp: pet_inv_def wr)
  next
    case (turn_mine t)
    obtain u where u: "pet_turn s = writer_reader u" using inv by blast
    then have "u = t" using turn_mine(3) nu[of u t] by (auto simp: wr)
    then have tu: "pet_turn s = writer_reader t" using u by simp
    have other: "pet_pc s (\<not> t) \<noteq> Inside"
    proof
      assume "pet_pc s (\<not> t) = Inside"
      then have "pet_turn s = writer_reader (\<not> t)"
        using inv[THEN conjunct2, THEN conjunct2, rule_format, of "\<not> t"] turn_mine(2) by simp
      then show False using turn_mine(3) by (simp add: wr)
    qed
    have "(pet_flag s' (writer_reader v) = 1) = (pet_pc s' v \<noteq> Out)" for v
      using inv turn_mine by simp
    moreover have "pet_pc s' v = Inside \<Longrightarrow> pet_pc s' (\<not> v) \<noteq> Inside \<and> pet_turn s' = writer_reader v" for v
      using turn_mine(1) tu other nu[of v t] by auto
    ultimately show ?thesis unfolding pet_inv_def using turn_mine(1) u by auto
  next
    case (turn_other t)
    then show ?thesis using inv nu[of _ t] by (auto simp: pet_inv_def wr)
  next
    case (leave t)
    then show ?thesis using inv nu[of _ t] by (auto simp: pet_inv_def wr)
  qed
qed

interpretation peterson: invariant pet_init "pet_step writer_reader" pet_inv
proof
  show "pet_inv s" if "pet_init s" for s
    using that by (auto simp: pet_init_def pet_inv_def writer_reader_def)
qed (rule pet_inv_step)

lemma peterson_in_order:
  "reach pet_init (pet_step writer_reader) s \<Longrightarrow> \<not> (pet_pc s False = Inside \<and> pet_pc s True = Inside)"
  by (drule peterson.inv_reach) (auto simp: pet_inv_def)

definition pet_start :: "'t pet" where
  "pet_start = \<lparr>pet_flag = (\<lambda>_. 0), pet_turn = 0, pet_pc = (\<lambda>_. Out)\<rparr>"

lemma pet_start_init: "pet_init pet_start"
  by (simp add: pet_init_def pet_start_def)

text \<open>
  The same operations with a store buffer per CPU: a store waits in the buffer of its CPU and reaches the
  memory later, in order; a load sees the stores of its own CPU, and otherwise the memory.  The RISC-V
  memory model allows this, and more, between plain stores and loads without a fence.
\<close>

datatype pet_loc = LFlag int | LTurn

record 't petb = "'t pet" +
  pet_buf :: "'t \<Rightarrow> (pet_loc \<times> int) list"

definition pet_load :: "'t petb \<Rightarrow> 't \<Rightarrow> pet_loc \<Rightarrow> int" where
  "pet_load s t l = (case map_of (rev (pet_buf s t)) l of
       Some v \<Rightarrow> v
     | None \<Rightarrow> (case l of LFlag i \<Rightarrow> pet_flag s i | LTurn \<Rightarrow> pet_turn s))"

definition pet_store :: "'t petb \<Rightarrow> 't \<Rightarrow> pet_loc \<Rightarrow> int \<Rightarrow> 't petb" where
  "pet_store s t l v = s\<lparr>pet_buf := (pet_buf s)(t := pet_buf s t @ [(l, v)])\<rparr>"

fun pet_commit :: "pet_loc \<times> int \<Rightarrow> 't petb \<Rightarrow> 't petb" where
  "pet_commit (LFlag i, v) s = s\<lparr>pet_flag := (pet_flag s)(i := v)\<rparr>"
| "pet_commit (LTurn, v) s = s\<lparr>pet_turn := v\<rparr>"

definition pet_goto :: "'t \<Rightarrow> pet_pc \<Rightarrow> 't petb \<Rightarrow> 't petb" where
  "pet_goto t p s = s\<lparr>pet_pc := (pet_pc s)(t := p)\<rparr>"

inductive pet_bstep :: "('t \<Rightarrow> int) \<Rightarrow> 't petb \<Rightarrow> 't petb \<Rightarrow> bool" for tid where
  b_raise: "pet_pc s t = Out \<Longrightarrow> pet_bstep tid s (pet_goto t Raised (pet_store s t (LFlag (tid t)) 1))"
| b_give: "pet_pc s t = Raised \<Longrightarrow> pet_bstep tid s (pet_goto t TestFlag (pet_store s t LTurn (1 - tid t)))"
| b_flag: "pet_pc s t = TestFlag \<Longrightarrow>
     pet_bstep tid s (pet_goto t (if pet_load s t (LFlag (1 - tid t)) = 1 then TestTurn else Inside) s)"
| b_turn: "pet_pc s t = TestTurn \<Longrightarrow>
     pet_bstep tid s (pet_goto t (if pet_load s t LTurn = 1 - tid t then TestFlag else Inside) s)"
| b_leave: "pet_pc s t = Inside \<Longrightarrow> pet_bstep tid s (pet_goto t Out (pet_store s t (LFlag (tid t)) 0))"
| b_drain: "pet_buf s t = x # xs \<Longrightarrow> pet_bstep tid s (pet_commit x (s\<lparr>pet_buf := (pet_buf s)(t := xs)\<rparr>))"

definition pet_binit :: "'t petb \<Rightarrow> bool" where
  "pet_binit s = ((\<forall>i. pet_flag s i = 0) \<and> pet_turn s = 0 \<and> (\<forall>t. pet_pc s t = Out \<and> pet_buf s t = []))"

text \<open>A thread that is out enters when the other flag is down in the memory, whatever waits in the buffers.\<close>

lemma buffered_enter:
  fixes s :: "bool petb"
  assumes "reach pet_binit (pet_bstep writer_reader) s" "pet_pc s t = Out" "pet_buf s t = []" "pet_flag s (writer_reader (\<not> t)) = 0"
  obtains s' where "reach pet_binit (pet_bstep writer_reader) s'" "pet_pc s' t = Inside"
    "pet_pc s' (\<not> t) = pet_pc s (\<not> t)" "pet_buf s' (\<not> t) = pet_buf s (\<not> t)" "pet_flag s' = pet_flag s"
proof -
  let ?R = "reach pet_binit (pet_bstep writer_reader)"
  let ?s1 = "pet_goto t Raised (pet_store s t (LFlag (writer_reader t)) 1)"
  let ?s2 = "pet_goto t TestFlag (pet_store ?s1 t LTurn (1 - writer_reader t))"
  let ?s3 = "pet_goto t Inside ?s2"
  have "?R ?s1" using assms(1,2) by (blast intro: reach_step b_raise)
  moreover have "pet_pc ?s1 t = Raised" by (simp add: pet_goto_def)
  ultimately have r2: "?R ?s2" by (blast intro: reach_step b_give)
  have "1 - writer_reader t = writer_reader (\<not> t)" "writer_reader (\<not> t) \<noteq> writer_reader t" by (auto simp: writer_reader_def)
  then have "pet_load ?s2 t (LFlag (1 - writer_reader t)) = 0"
    using assms(3,4) by (simp add: pet_load_def pet_goto_def pet_store_def)
  then have "pet_bstep writer_reader ?s2 ?s3" using b_flag[of ?s2 t writer_reader] by (simp add: pet_goto_def)
  with r2 have "?R ?s3" by (rule reach_step)
  then show ?thesis by (rule that) (simp_all add: pet_goto_def pet_store_def)
qed

text \<open>
  C16. The Peterson lock needs its stores to be seen in order, and nothing in the code asks for it.  Where
  every memory operation is seen by all CPUs in the order in which they are done, one writer and one reader
  are never inside together; with a store buffer per CPU there is an execution from a fresh pipe after which both are.
\<close>

theorem peterson_needs_store_order:
  "(\<forall>s. reach pet_init (pet_step writer_reader) s \<longrightarrow> \<not> (pet_pc s False = Inside \<and> pet_pc s True = Inside)) \<and>
   (\<exists>s. reach pet_binit (pet_bstep writer_reader) s \<and> pet_pc s False = Inside \<and> pet_pc s True = Inside)"
proof
  let ?s = "\<lparr>pet_flag = (\<lambda>_. 0), pet_turn = 0, pet_pc = (\<lambda>_. Out), pet_buf = (\<lambda>_. [])\<rparr> :: bool petb"
  have s0: "reach pet_binit (pet_bstep writer_reader) ?s" by (rule reach_init) (simp add: pet_binit_def)
  obtain s1 where s1: "reach pet_binit (pet_bstep writer_reader) s1" "pet_pc s1 False = Inside"
    "pet_pc s1 True = Out" "pet_buf s1 True = []" "pet_flag s1 = pet_flag ?s"
    by (rule buffered_enter[OF s0, of False]) auto
  obtain s2 where "reach pet_binit (pet_bstep writer_reader) s2" "pet_pc s2 True = Inside" "pet_pc s2 False = pet_pc s1 False"
    by (rule buffered_enter[OF s1(1), of True]) (use s1 in auto)
  then show "\<exists>s. reach pet_binit (pet_bstep writer_reader) s \<and> pet_pc s False = Inside \<and> pet_pc s True = Inside"
    using s1(2) by auto
qed (use peterson_in_order in blast)

theorem peterson_needs_store_order_witness:
  "reach pet_init (pet_step writer_reader) (pet_start\<lparr>pet_flag := (\<lambda>_. 0)(0 := 1), pet_pc := (\<lambda>_. Out)(False := Raised)\<rparr>) \<and>
   \<not> (pet_pc (pet_start\<lparr>pet_flag := (\<lambda>_. 0)(0 := 1), pet_pc := (\<lambda>_. Out)(False := Raised)\<rparr>) False = Inside \<and>
      pet_pc (pet_start\<lparr>pet_flag := (\<lambda>_. 0)(0 := 1), pet_pc := (\<lambda>_. Out)(False := Raised)\<rparr>) True = Inside)"
proof -
  let ?s = "pet_start\<lparr>pet_flag := (\<lambda>_. 0)(0 := 1), pet_pc := (\<lambda>_. Out)(False := Raised)\<rparr> :: bool pet"
  have "pet_step writer_reader pet_start ?s"
    using pet_step.raise[of pet_start False writer_reader] by (simp add: pet_start_def writer_reader_def)
  then have "reach pet_init (pet_step writer_reader) ?s" using pet_start_init by (blast intro: reach.intros)
  then show ?thesis using peterson_needs_store_order by blast
qed

text \<open>
  C18. Two writers are not excluded.  Every writer uses identity 0; with a second writer in place of
  the reader there is an execution from a fresh pipe after which both are inside.
\<close>

theorem two_writers_collide:
  "\<exists>s. reach pet_init (pet_step (\<lambda>_::bool. 0)) s \<and> pet_pc s False = Inside \<and> pet_pc s True = Inside"
proof -
  let ?R = "reach pet_init (pet_step (\<lambda>_::bool. 0))"
  let ?up = "\<lambda>t s. s\<lparr>pet_flag := (pet_flag s)(0 := 1), pet_pc := (pet_pc s)(t := Raised)\<rparr>"
  let ?give = "\<lambda>t s. s\<lparr>pet_turn := 1 - 0, pet_pc := (pet_pc s)(t := TestFlag)\<rparr>"
  let ?in = "\<lambda>t s. s\<lparr>pet_pc := (pet_pc s)(t := Inside)\<rparr>"
  have enter: "?R (?in t (?give t (?up t s)))" if "?R s" "pet_pc s t = Out" "pet_flag s 1 = 0" for t and s :: "bool pet"
  proof -
    have "?R (?up t s)" using that(1) pet_step.raise[OF that(2), of "\<lambda>_. 0"] by (rule reach_step)
    then have "?R (?give t (?up t s))" using pet_step.give[of "?up t s" t "\<lambda>_. 0"] by (auto intro: reach_step)
    then show ?thesis
      using pet_step.flag_down[of "?give t (?up t s)" t "\<lambda>_. 0"] that(3) by (auto intro: reach_step)
  qed
  let ?s1 = "?in False (?give False (?up False pet_start))"
  have "?R pet_start" using pet_start_init by (rule reach_init)
  then have r1: "?R ?s1" by (rule enter) (simp_all add: pet_start_def)
  then have "?R (?in True (?give True (?up True ?s1)))" by (rule enter) (simp_all add: pet_start_def)
  then show ?thesis by (intro exI conjI) (assumption, simp_all)
qed

end
