(* ===== verification/Sleeplock.thy ===== *)
theory Sleeplock
  imports Pipe
begin

text \<open>
  Sleep locks, \<^verbatim>\<open>kernel/sleeplock.c\<close>.

  A sleep lock is named by the spin lock inside it; \<open>slocks\<close> holds its other fields.  From here
  on the operations are runs of one process: a call that goes to sleep leaves the CPU through
  \<open>sleep_leave\<close>, whose panics it keeps, and does not come back in the run, which is the result
  \<open>Spin\<close>.
\<close>

record sleeplock =
  slocked :: bool
  slname :: string
  slpid :: int

record ksleep = kpipe +
  slocks :: "lockid \<Rightarrow> sleeplock"

definition upd_slock :: "lockid \<Rightarrow> (sleeplock \<Rightarrow> sleeplock) \<Rightarrow> 'a ksleep_scheme \<Rightarrow> 'a ksleep_scheme" where
  "upd_slock l f s = s\<lparr>slocks := (slocks s)(l := f (slocks s l))\<rparr>"

text \<open>A call to \<open>sleep\<close> in a run of one process.\<close>

definition sleeps :: "nat \<Rightarrow> chan \<Rightarrow> lockid \<Rightarrow> 'a ptable_scheme \<Rightarrow> 'b res" where
  "sleeps c ch l s = bindE (sleep_leave c ch (Some l) s) (\<lambda>_. Inl (Spin ''sleep''))"

text \<open>The address of a sleep lock as a wait channel.\<close>

definition sl_chan :: "lockid \<Rightarrow> chan" where
  "sl_chan l = (case l of BufLock b \<Rightarrow> ChSleepBuf b | InodeLock i \<Rightarrow> ChSleepInode i | _ \<Rightarrow> ChLog)"

text \<open>\<^verbatim>\<open>myproc()->pid\<close>.\<close>

definition mypid :: "nat \<Rightarrow> 'a ptable_scheme \<Rightarrow> (int \<times> 'a ptable_scheme) res" where
  "mypid c s = bindE (myproc c s) (\<lambda>(p, s).
     case p of None \<Rightarrow> Inl (Fault ''myproc()->pid'') | Some p \<Rightarrow> Inr (pid (procs s p), s))"

definition initsleeplock :: "lockid \<Rightarrow> string \<Rightarrow> 'a ksleep_scheme \<Rightarrow> 'a ksleep_scheme" where
  "initsleeplock l nm s =
     upd_slock l (\<lambda>k. k\<lparr>slname := nm, slocked := False, slpid := 0\<rparr>) (initlock l ''sleep lock'' s)"

definition acquiresleep :: "nat \<Rightarrow> lockid \<Rightarrow> 'a ksleep_scheme \<Rightarrow> 'a ksleep_scheme res" where
  "acquiresleep c l s =
     bindE (acquire c l s) (\<lambda>s.
     if slocked (slocks s l) then sleeps c (sl_chan l) l s
     else bindE (mypid c (upd_slock l (slocked_update (\<lambda>_. True)) s)) (\<lambda>(n, s).
          release c l (upd_slock l (slpid_update (\<lambda>_. n)) s)))"

definition releasesleep :: "nat \<Rightarrow> lockid \<Rightarrow> 'a ksleep_scheme \<Rightarrow> 'a ksleep_scheme res" where
  "releasesleep c l s =
     bindE (acquire c l s) (\<lambda>s.
     bindE (wakeup c (Some (sl_chan l)) (upd_slock l (\<lambda>k. k\<lparr>slocked := False, slpid := 0\<rparr>) s)) (\<lambda>s.
     release c l s))"

definition holdingsleep :: "nat \<Rightarrow> lockid \<Rightarrow> 'a ksleep_scheme \<Rightarrow> (bool \<times> 'a ksleep_scheme) res" where
  "holdingsleep c l s =
     bindE (acquire c l s) (\<lambda>s.
     bindE (if slocked (slocks s l)
            then bindE (mypid c s) (\<lambda>(n, s). Inr (slpid (slocks s l) = n, s))
            else Inr (False, s)) (\<lambda>(r, s).
     bindE (release c l s) (\<lambda>s. Inr (r, s))))"

end
