(* ===== verification/Console.thy ===== *)
theory Console
  imports Sleeplock
begin

text \<open>
  The console, \<^verbatim>\<open>kernel/console.c\<close>, the interrupt-driven half of the serial line driver,
  \<^verbatim>\<open>kernel/uart.c\<close>, and the copies between user or kernel memory and a kernel buffer,
  \<open>either_copyout\<close> and \<open>either_copyin\<close> of \<^verbatim>\<open>kernel/proc.c\<close>.

  The kernel address of a copy is either memory of the allocator (\<open>ToKern\<close>, \<open>FromKern\<close>) or a variable
  of the caller (\<open>ToVar\<close>, \<open>FromVar\<close>), whose bytes are passed as values.  The line device is its
  register contents, arguments of \<open>uartintr\<close>: whether the transmitter is idle, and the characters
  that have arrived.  A thread that waits in \<open>uartwrite\<close> gives up the lock until the interrupt of
  the idle transmitter.
\<close>

unbundle bit_operations_syntax

datatype dest = ToUser uint64 | ToKern uint64 | ToVar
datatype source = FromUser uint64 | FromKern uint64 | FromVar "uint8 list"

definition mytable :: "nat \<Rightarrow> 'a kmem_scheme \<Rightarrow> (uint64 \<times> 'a kmem_scheme) res" where
  "mytable c s = bindE (myproc c s) (\<lambda>(p, s).
     case p of None \<Rightarrow> Inl (Fault ''p->pagetable'') | Some p \<Rightarrow> Inr (pagetable (procs s p), s))"

definition either_copyout :: "nat \<Rightarrow> dest \<Rightarrow> uint8 list \<Rightarrow> 'a kmem_scheme \<Rightarrow> (int \<times> 'a kmem_scheme) res" where
  "either_copyout c dst src s =
     (case dst of
       ToUser va \<Rightarrow> bindE (mytable c s) (\<lambda>(pt, s). copyout c pt va src s)
     | ToKern a \<Rightarrow> bindE (myproc c s) (\<lambda>(_, s). Inr (0, s\<lparr>ram := store_bytes a src (ram s)\<rparr>))
     | ToVar \<Rightarrow> bindE (myproc c s) (\<lambda>(_, s). Inr (0, s)))"

definition either_copyin :: "nat \<Rightarrow> source \<Rightarrow> nat \<Rightarrow> 'a kmem_scheme \<Rightarrow> ((int \<times> uint8 list) \<times> 'a kmem_scheme) res" where
  "either_copyin c src len s =
     (case src of
       FromUser va \<Rightarrow> bindE (mytable c s) (\<lambda>(pt, s). copyin c pt va len s)
     | FromKern a \<Rightarrow> bindE (myproc c s) (\<lambda>(_, s). Inr ((0, load_bytes (ram s) a len), s))
     | FromVar bs \<Rightarrow> bindE (myproc c s) (\<lambda>(_, s). Inr ((0, take len bs), s)))"

definition dest_add :: "dest \<Rightarrow> nat \<Rightarrow> dest" where
  "dest_add d m = (case d of ToUser a \<Rightarrow> ToUser (a + of_nat m) | ToKern a \<Rightarrow> ToKern (a + of_nat m) | ToVar \<Rightarrow> ToVar)"

definition source_add :: "source \<Rightarrow> nat \<Rightarrow> source" where
  "source_add x m = (case x of FromUser a \<Rightarrow> FromUser (a + of_nat m) | FromKern a \<Rightarrow> FromKern (a + of_nat m)
     | FromVar bs \<Rightarrow> FromVar (drop m bs))"

subsection \<open>The serial line\<close>

definition INPUT_BUF_SIZE :: nat where "INPUT_BUF_SIZE = 128"

record cons =
  c_buf :: "nat \<Rightarrow> uint8"
  c_r :: uint32
  c_w :: uint32
  c_e :: uint32

record kcons = ksleep +
  cons :: cons
  tx_busy :: bool
  uart_regs :: "(nat \<times> uint8) list"
  devsw :: "nat \<Rightarrow> bool"

definition upd_cons :: "(cons \<Rightarrow> cons) \<Rightarrow> 'a kcons_scheme \<Rightarrow> 'a kcons_scheme" where
  "upd_cons f s = s\<lparr>cons := f (cons s)\<rparr>"

definition WriteReg :: "nat \<Rightarrow> uint8 \<Rightarrow> 'a kcons_scheme \<Rightarrow> 'a kcons_scheme" where
  "WriteReg r v s = s\<lparr>uart_regs := uart_regs s @ [(r, v)]\<rparr>"

definition uartinit :: "'a kcons_scheme \<Rightarrow> 'a kcons_scheme" where
  "uartinit s = initlock TxLock ''uart'' (fold (\<lambda>(r, v). WriteReg r v)
     [(1, 0), (3, 0x80), (0, 3), (1, 0), (3, 3), (2, 7), (1, 3)] s)"

text \<open>The loop of the kill character over the \<open>n\<close> characters between the write and edit indices.\<close>

fun kill_loop :: "nat \<Rightarrow> nat \<Rightarrow> 'a kcons_scheme \<Rightarrow> 'a kcons_scheme res" where
  "kill_loop 0 c s = Inr s"
| "kill_loop (Suc n) c s =
     (if c_e (cons s) \<noteq> c_w (cons s) \<and> c_buf (cons s) (unat (c_e (cons s) - 1) mod INPUT_BUF_SIZE) \<noteq> 10
      then bindE (consputc c BACKSPACE (upd_cons (c_e_update (\<lambda>e. e - 1)) s)) (kill_loop n c)
      else Inr s)"

text \<open>The default case of \<open>consoleintr\<close>: a character is stored in the ring and echoed.\<close>

definition cons_store :: "uint8 \<Rightarrow> cons \<Rightarrow> cons" where
  "cons_store x k = k\<lparr>c_buf := (c_buf k)(unat (c_e k) mod INPUT_BUF_SIZE := x), c_e := c_e k + 1\<rparr>"

definition cons_input :: "nat \<Rightarrow> uint8 \<Rightarrow> 'a kcons_scheme \<Rightarrow> 'a kcons_scheme res" where
  "cons_input c x s =
     (if x \<noteq> 0 \<and> c_e (cons s) - c_r (cons s) < of_nat INPUT_BUF_SIZE then
        let x = (if x = 13 then 10 else x) in
        bindE (consputc c (unat x) s) (\<lambda>s.
        let s = upd_cons (cons_store x) s in
        if x = 10 \<or> x = 4 \<or> c_e (cons s) - c_r (cons s) = of_nat INPUT_BUF_SIZE
        then wakeup c (Some ChCons) (upd_cons (\<lambda>k. k\<lparr>c_w := c_e k\<rparr>) s)
        else Inr s)
      else Inr s)"

definition consoleintr :: "nat \<Rightarrow> uint8 \<Rightarrow> 'a kcons_scheme \<Rightarrow> 'a kcons_scheme res" where
  "consoleintr c x s =
     bindE (acquire c ConsLock s) (\<lambda>s.
     bindE (if x = 16 then procdump c s
            else if x = 21 then kill_loop (unat (c_e (cons s) - c_w (cons s))) c s
            else if x = 8 \<or> x = 127 then
              (if c_e (cons s) \<noteq> c_w (cons s)
               then consputc c BACKSPACE (upd_cons (c_e_update (\<lambda>e. e - 1)) s)
               else Inr s)
            else cons_input c x s) (\<lambda>s.
     release c ConsLock s))"

definition uartintr :: "nat \<Rightarrow> bool \<Rightarrow> uint8 list \<Rightarrow> 'a kcons_scheme \<Rightarrow> 'a kcons_scheme res" where
  "uartintr c idle input s =
     bindE (acquire c TxLock s) (\<lambda>s.
     bindE (if idle then wakeup c (Some ChTx) (s\<lparr>tx_busy := False\<rparr>) else Inr s) (\<lambda>s.
     bindE (release c TxLock s) (\<lambda>s.
     for_each (consoleintr c) input s)))"

fun uartwrite_loop :: "nat \<Rightarrow> uint8 list \<Rightarrow> 'a kcons_scheme \<Rightarrow> 'a kcons_scheme res" where
  "uartwrite_loop c [] s = Inr s"
| "uartwrite_loop c (x # xs) s =
     bindE (if tx_busy s then
              bindE (release c TxLock s) (\<lambda>s.
              bindE (uartintr c True [] s) (\<lambda>s.
              acquire c TxLock s))
            else Inr s) (\<lambda>s.
     uartwrite_loop c xs (s\<lparr>uart_out := uart_out s @ [char_of (unat x)], tx_busy := True\<rparr>))"

definition uartwrite :: "nat \<Rightarrow> uint8 list \<Rightarrow> 'a kcons_scheme \<Rightarrow> 'a kcons_scheme res" where
  "uartwrite c buf s =
     bindE (acquire c TxLock s) (\<lambda>s.
     bindE (uartwrite_loop c buf s) (\<lambda>s.
     release c TxLock s))"

subsection \<open>The console device\<close>

function consolewrite :: "nat \<Rightarrow> source \<Rightarrow> nat \<Rightarrow> nat \<Rightarrow> 'a kcons_scheme \<Rightarrow> (int \<times> 'a kcons_scheme) res" where
  "consolewrite c src n i s =
     (if i < n then
        let nn = min 32 (n - i) in
        bindE (either_copyin c (source_add src i) nn s) (\<lambda>((r, buf), s).
        if r = -1 then Inr (int i, s)
        else bindE (uartwrite c buf s) (\<lambda>s. consolewrite c src n (i + nn) s))
      else Inr (int i, s))"
  by pat_completeness auto
termination
  by (relation "measure (\<lambda>(c, src, n, i, s). n - i)") auto

declare consolewrite.simps [simp del]

text \<open>The loop of \<open>consoleread\<close>; \<open>target\<close> is the number of bytes asked for, \<open>n\<close> those still wanted.\<close>

fun consoleread_loop :: "nat \<Rightarrow> nat \<Rightarrow> dest \<Rightarrow> nat \<Rightarrow> nat \<Rightarrow> 'a kcons_scheme \<Rightarrow> (int \<times> 'a kcons_scheme) res" where
  "consoleread_loop c p dst target 0 s = bindE (release c ConsLock s) (\<lambda>s. Inr (int target, s))"
| "consoleread_loop c p dst target (Suc n) s =
     (if c_r (cons s) = c_w (cons s) then
        bindE (killed c p s) (\<lambda>(k, s).
        if k then bindE (release c ConsLock s) (\<lambda>s. Inr (-1, s))
        else sleeps c ChCons ConsLock s)
      else
        let x = c_buf (cons s) (unat (c_r (cons s)) mod INPUT_BUF_SIZE);
            s = upd_cons (c_r_update (\<lambda>r. r + 1)) s;
            fin = (\<lambda>n s. bindE (release c ConsLock s) (\<lambda>s. Inr (int target - int n, s)))
        in
        if x = 4 then fin (Suc n) (if Suc n < target then upd_cons (c_r_update (\<lambda>r. r - 1)) s else s)
        else
          bindE (either_copyout c dst [x] s) (\<lambda>(r, s).
          if r = -1 then fin (Suc n) s
          else if x = 10 then fin n s
          else consoleread_loop c p (dest_add dst 1) target n s))"

definition consoleread :: "nat \<Rightarrow> dest \<Rightarrow> int \<Rightarrow> 'a kcons_scheme \<Rightarrow> (int \<times> 'a kcons_scheme) res" where
  "consoleread c dst n s =
     bindE (acquire c ConsLock s) (\<lambda>s.
     case cproc (cpus s c) of
       None \<Rightarrow> Inl (Fault ''consoleread'')
     | Some p \<Rightarrow>
         if n > 0 then consoleread_loop c p dst (nat n) (nat n) s
         else bindE (release c ConsLock s) (\<lambda>s. Inr (0, s)))"

definition CONSOLE :: nat where "CONSOLE = 1"

definition consoleinit :: "'a kcons_scheme \<Rightarrow> 'a kcons_scheme" where
  "consoleinit s =
     (let s = uartinit (initlock ConsLock ''cons'' s) in s\<lparr>devsw := (devsw s)(CONSOLE := True)\<rparr>)"

end
