(* ===== verification/Virtio.thy ===== *)
theory Virtio
  imports Console
begin

text \<open>
  The disk driver, \<^verbatim>\<open>kernel/virtio_disk.c\<close>, with the structures of \<^verbatim>\<open>kernel/virtio.h\<close>
  and the buffer of \<^verbatim>\<open>kernel/buf.h\<close>.

  The descriptors and rings shared with the device are the record \<open>vdisk\<close>; a descriptor's address
  is a \<open>dma\<close> value naming the object it points to.  The device itself is no code of the system:
  \<open>dv\<close> is an argument, the work it does on the queue, the buffers' data and the sectors of the
  disk between the notification and the interrupt, and \<open>regs\<close> what its registers read after the
  writes made so far.
\<close>

unbundle bit_operations_syntax

definition NUM :: nat where "NUM = 8"
definition BSIZE :: nat where "BSIZE = 1024"
definition NBUF :: nat where "NBUF = 30"

definition VRING_DESC_F_NEXT :: uint16 where "VRING_DESC_F_NEXT = 1"
definition VRING_DESC_F_WRITE :: uint16 where "VRING_DESC_F_WRITE = 2"
definition VIRTIO_BLK_T_IN :: uint32 where "VIRTIO_BLK_T_IN = 0"
definition VIRTIO_BLK_T_OUT :: uint32 where "VIRTIO_BLK_T_OUT = 1"

datatype dma = DmaNull | DmaReq nat | DmaData nat | DmaStatus nat

record virtq_desc =
  d_addr :: dma
  d_len :: uint32
  d_flags :: uint16
  d_next :: uint16

record virtio_blk_req =
  rq_type :: uint32
  rq_reserved :: uint32
  rq_sector :: uint64

record vdisk =
  desc :: "nat \<Rightarrow> virtq_desc"
  avail_idx :: uint16
  avail_ring :: "nat \<Rightarrow> uint16"
  used_didx :: uint16
  used_ring :: "nat \<Rightarrow> uint32"
  dfree :: "nat \<Rightarrow> bool"
  used_idx :: uint16
  info_b :: "nat \<Rightarrow> nat option"
  info_status :: "nat \<Rightarrow> uint8"
  ops :: "nat \<Rightarrow> virtio_blk_req"

record buf =
  bvalid :: bool
  bdisk :: bool
  bdev :: uint32
  bblockno :: uint32
  brefcnt :: uint32
  bprev :: nat
  bnext :: nat
  bdata :: "uint8 list"

record kdisk = kcons +
  vdisk :: vdisk
  mmio :: "(nat \<times> uint32) list"
  bufs :: "nat \<Rightarrow> buf"
  sectors :: "nat \<Rightarrow> uint8 list"

type_synonym device = "vdisk \<Rightarrow> (nat \<Rightarrow> uint8 list) \<Rightarrow> (nat \<Rightarrow> uint8 list)
  \<Rightarrow> vdisk \<times> (nat \<Rightarrow> uint8 list) \<times> (nat \<Rightarrow> uint8 list)"

definition upd_vdisk :: "(vdisk \<Rightarrow> vdisk) \<Rightarrow> 'a kdisk_scheme \<Rightarrow> 'a kdisk_scheme" where
  "upd_vdisk f s = s\<lparr>vdisk := f (vdisk s)\<rparr>"

definition upd_buf :: "nat \<Rightarrow> (buf \<Rightarrow> buf) \<Rightarrow> 'a kdisk_scheme \<Rightarrow> 'a kdisk_scheme" where
  "upd_buf b f s = s\<lparr>bufs := (bufs s)(b := f (bufs s b))\<rparr>"

subsection \<open>Initialisation\<close>

definition VIRTIO_MMIO_MAGIC_VALUE :: nat where "VIRTIO_MMIO_MAGIC_VALUE = 0x000"
definition VIRTIO_MMIO_VERSION :: nat where "VIRTIO_MMIO_VERSION = 0x004"
definition VIRTIO_MMIO_DEVICE_ID :: nat where "VIRTIO_MMIO_DEVICE_ID = 0x008"
definition VIRTIO_MMIO_VENDOR_ID :: nat where "VIRTIO_MMIO_VENDOR_ID = 0x00c"
definition VIRTIO_MMIO_DEVICE_FEATURES :: nat where "VIRTIO_MMIO_DEVICE_FEATURES = 0x010"
definition VIRTIO_MMIO_DRIVER_FEATURES :: nat where "VIRTIO_MMIO_DRIVER_FEATURES = 0x020"
definition VIRTIO_MMIO_QUEUE_SEL :: nat where "VIRTIO_MMIO_QUEUE_SEL = 0x030"
definition VIRTIO_MMIO_QUEUE_NUM_MAX :: nat where "VIRTIO_MMIO_QUEUE_NUM_MAX = 0x034"
definition VIRTIO_MMIO_QUEUE_NUM :: nat where "VIRTIO_MMIO_QUEUE_NUM = 0x038"
definition VIRTIO_MMIO_QUEUE_READY :: nat where "VIRTIO_MMIO_QUEUE_READY = 0x044"
definition VIRTIO_MMIO_QUEUE_NOTIFY :: nat where "VIRTIO_MMIO_QUEUE_NOTIFY = 0x050"
definition VIRTIO_MMIO_INTERRUPT_STATUS :: nat where "VIRTIO_MMIO_INTERRUPT_STATUS = 0x060"
definition VIRTIO_MMIO_INTERRUPT_ACK :: nat where "VIRTIO_MMIO_INTERRUPT_ACK = 0x064"
definition VIRTIO_MMIO_STATUS :: nat where "VIRTIO_MMIO_STATUS = 0x070"
definition VIRTIO_MMIO_QUEUE_DESC_LOW :: nat where "VIRTIO_MMIO_QUEUE_DESC_LOW = 0x080"
definition VIRTIO_MMIO_QUEUE_DESC_HIGH :: nat where "VIRTIO_MMIO_QUEUE_DESC_HIGH = 0x084"
definition VIRTIO_MMIO_DRIVER_DESC_LOW :: nat where "VIRTIO_MMIO_DRIVER_DESC_LOW = 0x090"
definition VIRTIO_MMIO_DRIVER_DESC_HIGH :: nat where "VIRTIO_MMIO_DRIVER_DESC_HIGH = 0x094"
definition VIRTIO_MMIO_DEVICE_DESC_LOW :: nat where "VIRTIO_MMIO_DEVICE_DESC_LOW = 0x0a0"
definition VIRTIO_MMIO_DEVICE_DESC_HIGH :: nat where "VIRTIO_MMIO_DEVICE_DESC_HIGH = 0x0a4"

definition mmio_write :: "nat \<Rightarrow> uint32 \<Rightarrow> 'a kdisk_scheme \<Rightarrow> 'a kdisk_scheme" where
  "mmio_write r v s = s\<lparr>mmio := mmio s @ [(r, v)]\<rparr>"

text \<open>
  The feature mask of the driver: \<^verbatim>\<open>~(1 << k)\<close> is an \<^verbatim>\<open>int\<close>, sign extended to the 64 bits
  of \<^verbatim>\<open>features\<close>, of which the register takes the low 32.
\<close>

definition driver_features :: "uint32 \<Rightarrow> uint32" where
  "driver_features f = fold (\<lambda>k f. f AND NOT (push_bit k 1)) [5, 7, 11, 12, 27, 29, 28] f"

text \<open>The status writes and checks of \<open>virtio_disk_init\<close>, lines 75 to 118.\<close>

definition virtio_negotiate :: "((nat \<times> uint32) list \<Rightarrow> nat \<Rightarrow> uint32) \<Rightarrow> 'a kdisk_scheme
    \<Rightarrow> (uint32 \<times> 'a kdisk_scheme) res" where
  "virtio_negotiate regs s =
     (let s = mmio_write VIRTIO_MMIO_STATUS 0 s;
          s = mmio_write VIRTIO_MMIO_STATUS 1 s;
          s = mmio_write VIRTIO_MMIO_STATUS 3 s;
          s = mmio_write VIRTIO_MMIO_DRIVER_FEATURES (driver_features (regs (mmio s) VIRTIO_MMIO_DEVICE_FEATURES)) s;
          s = mmio_write VIRTIO_MMIO_STATUS 11 s;
          status = regs (mmio s) VIRTIO_MMIO_STATUS
      in if status AND 8 = 0 then Inl (Panic ''virtio disk FEATURES_OK unset'')
      else let s = mmio_write VIRTIO_MMIO_QUEUE_SEL 0 s in
      if regs (mmio s) VIRTIO_MMIO_QUEUE_READY \<noteq> 0 then Inl (Panic ''virtio disk should not be ready'')
      else let m = regs (mmio s) VIRTIO_MMIO_QUEUE_NUM_MAX in
      if m = 0 then Inl (Panic ''virtio disk has no queue 0'')
      else if m < of_nat NUM then Inl (Panic ''virtio disk max queue too short'')
      else Inr (status, s))"

definition zero_desc :: virtq_desc where
  "zero_desc = \<lparr>d_addr = DmaNull, d_len = 0, d_flags = 0, d_next = 0\<rparr>"

definition virtio_disk_init :: "((nat \<times> uint32) list \<Rightarrow> nat \<Rightarrow> uint32) \<Rightarrow> nat \<Rightarrow> 'a kdisk_scheme
    \<Rightarrow> 'a kdisk_scheme res" where
  "virtio_disk_init regs c s =
     (let s = initlock VdiskLock ''virtio_disk'' s in
      if regs (mmio s) VIRTIO_MMIO_MAGIC_VALUE \<noteq> 0x74726976 \<or> regs (mmio s) VIRTIO_MMIO_VERSION \<noteq> 2
         \<or> regs (mmio s) VIRTIO_MMIO_DEVICE_ID \<noteq> 2 \<or> regs (mmio s) VIRTIO_MMIO_VENDOR_ID \<noteq> 0x554d4551
      then Inl (Panic ''could not find virtio disk'')
      else
      bindE (virtio_negotiate regs s) (\<lambda>(status, s).
      bindE (kalloc c s) (\<lambda>(d, s).
      bindE (kalloc c s) (\<lambda>(a, s).
      bindE (kalloc c s) (\<lambda>(u, s).
      if d = 0 \<or> a = 0 \<or> u = 0 then Inl (Panic ''virtio disk kalloc'')
      else
        let s = zero_page u (zero_page a (zero_page d s));
            s = upd_vdisk (\<lambda>v. v\<lparr>desc := (\<lambda>_. zero_desc), avail_idx := 0, avail_ring := (\<lambda>_. 0),
                               used_didx := 0, used_ring := (\<lambda>_. 0)\<rparr>) s;
            s = mmio_write VIRTIO_MMIO_QUEUE_NUM (of_nat NUM) s;
            s = mmio_write VIRTIO_MMIO_QUEUE_DESC_LOW (ucast d) s;
            s = mmio_write VIRTIO_MMIO_QUEUE_DESC_HIGH (ucast (drop_bit 32 d)) s;
            s = mmio_write VIRTIO_MMIO_DRIVER_DESC_LOW (ucast a) s;
            s = mmio_write VIRTIO_MMIO_DRIVER_DESC_HIGH (ucast (drop_bit 32 a)) s;
            s = mmio_write VIRTIO_MMIO_DEVICE_DESC_LOW (ucast u) s;
            s = mmio_write VIRTIO_MMIO_DEVICE_DESC_HIGH (ucast (drop_bit 32 u)) s;
            s = mmio_write VIRTIO_MMIO_QUEUE_READY 1 s;
            s = upd_vdisk (\<lambda>v. v\<lparr>dfree := (\<lambda>i. if i < NUM then True else dfree v i)\<rparr>) s
        in Inr (mmio_write VIRTIO_MMIO_STATUS (status OR 4) s))))))"

subsection \<open>Descriptors\<close>

text \<open>\<open>None\<close> is the result \<^verbatim>\<open>-1\<close>.\<close>

definition alloc_desc :: "vdisk \<Rightarrow> nat option \<times> vdisk" where
  "alloc_desc v = (case find (dfree v) [0..<NUM] of
     None \<Rightarrow> (None, v) | Some i \<Rightarrow> (Some i, v\<lparr>dfree := (dfree v)(i := False)\<rparr>))"

definition free_desc :: "nat \<Rightarrow> nat \<Rightarrow> 'a kdisk_scheme \<Rightarrow> 'a kdisk_scheme res" where
  "free_desc c i s =
     (if i \<ge> NUM then Inl (Panic ''free_desc 1'')
      else if dfree (vdisk s) i then Inl (Panic ''free_desc 2'')
      else wakeup c (Some ChDiskFree)
        (upd_vdisk (\<lambda>v. v\<lparr>desc := (desc v)(i := zero_desc), dfree := (dfree v)(i := True)\<rparr>) s))"

text \<open>
  A chain is freed until a descriptor without the next flag; no descriptor is freed twice, so more
  than \<open>NUM\<close> rounds panic, and the loop ends.
\<close>

definition busy :: "vdisk \<Rightarrow> nat set" where "busy v = {i. i < NUM \<and> \<not> dfree v i}"

fun free_chain_loop :: "nat \<Rightarrow> nat \<Rightarrow> nat \<Rightarrow> 'a kdisk_scheme \<Rightarrow> 'a kdisk_scheme res" where
  "free_chain_loop 0 c i s = Inl (Spin ''free_chain'')"
| "free_chain_loop (Suc n) c i s =
     (let flag = d_flags (desc (vdisk s) i); nxt = unat (d_next (desc (vdisk s) i)) in
      bindE (free_desc c i s) (\<lambda>s.
      if flag AND VRING_DESC_F_NEXT \<noteq> 0 then free_chain_loop n c nxt s else Inr s))"

definition free_chain :: "nat \<Rightarrow> nat \<Rightarrow> 'a kdisk_scheme \<Rightarrow> 'a kdisk_scheme res" where
  "free_chain = free_chain_loop (Suc NUM)"

definition alloc3_desc :: "nat \<Rightarrow> 'a kdisk_scheme \<Rightarrow> ((nat \<times> nat \<times> nat) option \<times> 'a kdisk_scheme) res" where
  "alloc3_desc c s =
     (case alloc_desc (vdisk s) of
       (None, v) \<Rightarrow> Inr (None, s\<lparr>vdisk := v\<rparr>)
     | (Some i0, v) \<Rightarrow>
         (case alloc_desc v of
           (None, v) \<Rightarrow> bindE (free_desc c i0 (s\<lparr>vdisk := v\<rparr>)) (\<lambda>s. Inr (None, s))
         | (Some i1, v) \<Rightarrow>
             (case alloc_desc v of
               (None, v) \<Rightarrow> bindE (free_desc c i0 (s\<lparr>vdisk := v\<rparr>)) (\<lambda>s.
                            bindE (free_desc c i1 s) (\<lambda>s. Inr (None, s)))
             | (Some i2, v) \<Rightarrow> Inr (Some (i0, i1, i2), s\<lparr>vdisk := v\<rparr>))))"

subsection \<open>Requests\<close>

text \<open>Lines 238 to 277 of \<open>virtio_disk_rw\<close>: the request in the queue.\<close>

definition virtio_enqueue :: "nat \<Rightarrow> bool \<Rightarrow> nat \<times> nat \<times> nat \<Rightarrow> 'a kdisk_scheme \<Rightarrow> 'a kdisk_scheme" where
  "virtio_enqueue b write idx s = (case idx of (i0, i1, i2) \<Rightarrow>
     let sector = ucast (bblockno (bufs s b) * of_nat (BSIZE div 512)) :: uint64;
         s = upd_vdisk (\<lambda>v. v\<lparr>ops := (ops v)(i0 := \<lparr>rq_type = if write then VIRTIO_BLK_T_OUT else VIRTIO_BLK_T_IN,
               rq_reserved = 0, rq_sector = sector\<rparr>)\<rparr>) s;
         s = upd_vdisk (\<lambda>v. v\<lparr>desc := (desc v)(i0 := \<lparr>d_addr = DmaReq i0, d_len = 16,
               d_flags = VRING_DESC_F_NEXT, d_next = of_nat i1\<rparr>)\<rparr>) s;
         s = upd_vdisk (\<lambda>v. v\<lparr>desc := (desc v)(i1 := \<lparr>d_addr = DmaData b, d_len = of_nat BSIZE,
               d_flags = (if write then 0 else VRING_DESC_F_WRITE) OR VRING_DESC_F_NEXT,
               d_next = of_nat i2\<rparr>)\<rparr>) s;
         s = upd_vdisk (\<lambda>v. v\<lparr>info_status := (info_status v)(i0 := 0xff),
               desc := (desc v)(i2 := \<lparr>d_addr = DmaStatus i0, d_len = 1, d_flags = VRING_DESC_F_WRITE, d_next = 0\<rparr>)\<rparr>) s;
         s = upd_buf b (bdisk_update (\<lambda>_. True)) s;
         s = upd_vdisk (\<lambda>v. v\<lparr>info_b := (info_b v)(i0 := Some b)\<rparr>) s;
         s = upd_vdisk (\<lambda>v. v\<lparr>avail_ring := (avail_ring v)(unat (avail_idx v) mod NUM := of_nat i0)\<rparr>) s
     in upd_vdisk (avail_idx_update (\<lambda>n. n + 1)) s)"

text \<open>The device at work on the shared memory and the disk.\<close>

definition device_step :: "device \<Rightarrow> 'a kdisk_scheme \<Rightarrow> 'a kdisk_scheme" where
  "device_step dv s = (case dv (vdisk s) (\<lambda>b. bdata (bufs s b)) (sectors s) of (v, dat, sec) \<Rightarrow>
     s\<lparr>vdisk := v, bufs := (\<lambda>b. (bufs s b)\<lparr>bdata := dat b\<rparr>), sectors := sec\<rparr>)"

text \<open>
  The loop of the interrupt handler over the completed requests; the device adds none while the
  handler runs, so the distance of the two counters bounds its rounds.
\<close>

fun intr_loop :: "nat \<Rightarrow> nat \<Rightarrow> 'a kdisk_scheme \<Rightarrow> 'a kdisk_scheme res" where
  "intr_loop 0 c s = Inl (Spin ''virtio_disk_intr'')"
| "intr_loop (Suc n) c s =
     (if used_idx (vdisk s) \<noteq> used_didx (vdisk s) then
        let i = unat (used_ring (vdisk s) (unat (used_idx (vdisk s)) mod NUM)) in
        if info_status (vdisk s) i \<noteq> 0 then Inl (Panic ''virtio_disk_intr status'')
        else (case info_b (vdisk s) i of
            None \<Rightarrow> Inl (Fault ''virtio_disk_intr'')
          | Some b \<Rightarrow>
              bindE (wakeup c (Some (ChBuf b)) (upd_buf b (bdisk_update (\<lambda>_. False)) s)) (\<lambda>s.
              intr_loop n c (upd_vdisk (used_idx_update (\<lambda>n. n + 1)) s)))
      else Inr s)"

definition virtio_disk_intr :: "((nat \<times> uint32) list \<Rightarrow> nat \<Rightarrow> uint32) \<Rightarrow> nat \<Rightarrow> 'a kdisk_scheme
    \<Rightarrow> 'a kdisk_scheme res" where
  "virtio_disk_intr regs c s =
     bindE (acquire c VdiskLock s) (\<lambda>s.
     let s = mmio_write VIRTIO_MMIO_INTERRUPT_ACK (regs (mmio s) VIRTIO_MMIO_INTERRUPT_STATUS AND 3) s in
     bindE (intr_loop (Suc (unat (used_didx (vdisk s) - used_idx (vdisk s)))) c s) (\<lambda>s.
     release c VdiskLock s))"

text \<open>
  \<open>virtio_disk_rw\<close> up to the notification, with the lock held; with no three free descriptors the
  caller sleeps.
\<close>

definition virtio_submit :: "nat \<Rightarrow> nat \<Rightarrow> bool \<Rightarrow> 'a kdisk_scheme \<Rightarrow> (nat \<times> 'a kdisk_scheme) res" where
  "virtio_submit c b write s =
     bindE (acquire c VdiskLock s) (\<lambda>s.
     bindE (alloc3_desc c s) (\<lambda>(idx, s).
     case idx of
       None \<Rightarrow> sleeps c ChDiskFree VdiskLock s
     | Some idx \<Rightarrow> Inr (fst idx, mmio_write VIRTIO_MMIO_QUEUE_NOTIFY 0 (virtio_enqueue b write idx s))))"

definition virtio_finish :: "nat \<Rightarrow> nat \<Rightarrow> 'a kdisk_scheme \<Rightarrow> 'a kdisk_scheme res" where
  "virtio_finish c i s =
     bindE (free_chain c i (upd_vdisk (\<lambda>v. v\<lparr>info_b := (info_b v)(i := None)\<rparr>) s)) (\<lambda>s.
     release c VdiskLock s)"

text \<open>
  The hardware of the disk: its work on the queue, and the value of its registers after the writes
  made so far.
\<close>

record hardware =
  hw_serve :: device
  hw_regs :: "(nat \<times> uint32) list \<Rightarrow> nat \<Rightarrow> uint32"

text \<open>
  \<open>sleep\<close> releases the lock for as long as the caller waits, and takes it back when the caller
  runs again.  In between the device does its work and the interrupt handler runs.
\<close>

definition virtio_wait :: "hardware \<Rightarrow> nat \<Rightarrow> nat \<Rightarrow> 'a kdisk_scheme \<Rightarrow> 'a kdisk_scheme res" where
  "virtio_wait h c b s =
     (if bdisk (bufs s b) then
        bindE (release c VdiskLock s) (\<lambda>s.
        bindE (virtio_disk_intr (hw_regs h) c (device_step (hw_serve h) s)) (\<lambda>s.
        bindE (acquire c VdiskLock s) (\<lambda>s.
        if bdisk (bufs s b) then sleeps c (ChBuf b) VdiskLock s else Inr s)))
      else Inr s)"

definition virtio_disk_rw :: "hardware \<Rightarrow> nat \<Rightarrow> nat \<Rightarrow> bool \<Rightarrow> 'a kdisk_scheme \<Rightarrow> 'a kdisk_scheme res" where
  "virtio_disk_rw h c b write s =
     bindE (virtio_submit c b write s) (\<lambda>(i, s).
     bindE (virtio_wait h c b s) (\<lambda>s.
     virtio_finish c i s))"

end
