(* ===== verification/Bio.thy ===== *)
theory Bio
  imports Virtio
begin

text \<open>
  The buffer cache, \<^verbatim>\<open>kernel/bio.c\<close>.

  The buffers are numbered; \<open>BHEAD\<close> is the number of \<^verbatim>\<open>bcache.head\<close>, whose \<open>bprev\<close> and \<open>bnext\<close>
  close the doubly linked list.  The two searches of \<open>bget\<close> follow the links; the list has \<open>NBUF\<close>
  elements, so \<open>NBUF + 1\<close> steps reach the head.
\<close>

definition BHEAD :: nat where "BHEAD = NBUF"

definition set_next :: "nat \<Rightarrow> nat \<Rightarrow> 'a kdisk_scheme \<Rightarrow> 'a kdisk_scheme" where
  "set_next b x s = upd_buf b (bnext_update (\<lambda>_. x)) s"

definition set_prev :: "nat \<Rightarrow> nat \<Rightarrow> 'a kdisk_scheme \<Rightarrow> 'a kdisk_scheme" where
  "set_prev b x s = upd_buf b (bprev_update (\<lambda>_. x)) s"

text \<open>The insertion at the head that \<open>binit\<close> and \<open>brelse\<close> share.\<close>

definition lru_push :: "nat \<Rightarrow> 'a kdisk_scheme \<Rightarrow> 'a kdisk_scheme" where
  "lru_push b s =
     (let s = set_next b (bnext (bufs s BHEAD)) s;
          s = set_prev b BHEAD s;
          s = set_prev (bnext (bufs s BHEAD)) b s
      in set_next BHEAD b s)"

definition lru_unlink :: "nat \<Rightarrow> 'a kdisk_scheme \<Rightarrow> 'a kdisk_scheme" where
  "lru_unlink b s =
     (let s = set_prev (bnext (bufs s b)) (bprev (bufs s b)) s
      in set_next (bprev (bufs s b)) (bnext (bufs s b)) s)"

definition binit :: "'a kdisk_scheme \<Rightarrow> 'a kdisk_scheme" where
  "binit s =
     (let s = initlock BcacheLock ''bcache'' s;
          s = set_next BHEAD BHEAD (set_prev BHEAD BHEAD s)
      in fold (\<lambda>b s. lru_push b (initsleeplock (BufLock b) ''buffer'' s)) [0..<NBUF] s)"

fun scan_next :: "nat \<Rightarrow> (buf \<Rightarrow> bool) \<Rightarrow> nat \<Rightarrow> 'a kdisk_scheme \<Rightarrow> nat option res" where
  "scan_next 0 P b s = Inl (Spin ''bget'')"
| "scan_next (Suc n) P b s =
     (if b = BHEAD then Inr None
      else if P (bufs s b) then Inr (Some b)
      else scan_next n P (bnext (bufs s b)) s)"

fun scan_prev :: "nat \<Rightarrow> (buf \<Rightarrow> bool) \<Rightarrow> nat \<Rightarrow> 'a kdisk_scheme \<Rightarrow> nat option res" where
  "scan_prev 0 P b s = Inl (Spin ''bget'')"
| "scan_prev (Suc n) P b s =
     (if b = BHEAD then Inr None
      else if P (bufs s b) then Inr (Some b)
      else scan_prev n P (bprev (bufs s b)) s)"

definition bget :: "nat \<Rightarrow> uint32 \<Rightarrow> uint32 \<Rightarrow> 'a kdisk_scheme \<Rightarrow> (nat \<times> 'a kdisk_scheme) res" where
  "bget c dev blockno s =
     bindE (acquire c BcacheLock s) (\<lambda>s.
     bindE (scan_next (Suc NBUF) (\<lambda>b. bdev b = dev \<and> bblockno b = blockno) (bnext (bufs s BHEAD)) s) (\<lambda>hit.
     case hit of
       Some b \<Rightarrow>
         bindE (release c BcacheLock (upd_buf b (brefcnt_update (\<lambda>n. n + 1)) s)) (\<lambda>s.
         bindE (acquiresleep c (BufLock b) s) (\<lambda>s. Inr (b, s)))
     | None \<Rightarrow>
         bindE (scan_prev (Suc NBUF) (\<lambda>b. brefcnt b = 0) (bprev (bufs s BHEAD)) s) (\<lambda>idle.
         case idle of
           Some b \<Rightarrow>
             bindE (release c BcacheLock
               (upd_buf b (\<lambda>x. x\<lparr>bdev := dev, bblockno := blockno, bvalid := False, brefcnt := 1\<rparr>) s)) (\<lambda>s.
             bindE (acquiresleep c (BufLock b) s) (\<lambda>s. Inr (b, s)))
         | None \<Rightarrow> Inl (Panic ''bget: no buffers''))))"

definition bread :: "hardware \<Rightarrow> nat \<Rightarrow> uint32 \<Rightarrow> uint32 \<Rightarrow> 'a kdisk_scheme \<Rightarrow> (nat \<times> 'a kdisk_scheme) res" where
  "bread h c dev blockno s =
     bindE (bget c dev blockno s) (\<lambda>(b, s).
     if \<not> bvalid (bufs s b) then
       bindE (virtio_disk_rw h c b False s) (\<lambda>s. Inr (b, upd_buf b (bvalid_update (\<lambda>_. True)) s))
     else Inr (b, s))"

definition bwrite :: "hardware \<Rightarrow> nat \<Rightarrow> nat \<Rightarrow> 'a kdisk_scheme \<Rightarrow> 'a kdisk_scheme res" where
  "bwrite h c b s =
     bindE (holdingsleep c (BufLock b) s) (\<lambda>(held, s).
     if \<not> held then Inl (Panic ''bwrite'') else virtio_disk_rw h c b True s)"

definition brelse :: "nat \<Rightarrow> nat \<Rightarrow> 'a kdisk_scheme \<Rightarrow> 'a kdisk_scheme res" where
  "brelse c b s =
     bindE (holdingsleep c (BufLock b) s) (\<lambda>(held, s).
     if \<not> held then Inl (Panic ''brelse'')
     else
       bindE (releasesleep c (BufLock b) s) (\<lambda>s.
       with_lock c BcacheLock (\<lambda>s.
         let s = upd_buf b (brefcnt_update (\<lambda>n. n - 1)) s in
         if brefcnt (bufs s b) = 0 then lru_push b (lru_unlink b s) else s) s))"

definition bpin :: "nat \<Rightarrow> nat \<Rightarrow> 'a kdisk_scheme \<Rightarrow> 'a kdisk_scheme res" where
  "bpin c b = with_lock c BcacheLock (upd_buf b (brefcnt_update (\<lambda>n. n + 1)))"

definition bunpin :: "nat \<Rightarrow> nat \<Rightarrow> 'a kdisk_scheme \<Rightarrow> 'a kdisk_scheme res" where
  "bunpin c b = with_lock c BcacheLock (upd_buf b (brefcnt_update (\<lambda>n. n - 1)))"

end
