(* ===== verification/Log.thy ===== *)
theory Log
  imports Bio
begin

text \<open>
  The write-ahead log, \<^verbatim>\<open>kernel/log.c\<close>.

  The header block on the disk is read and written as the little-endian words of its buffer.
  \<open>begin_op\<close> sleeps while a commit runs or the log may be too small; its caller then does not come
  back in the run.
\<close>

definition MAXOPBLOCKS :: nat where "MAXOPBLOCKS = 10"
definition LOGBLOCKS :: nat where "LOGBLOCKS = MAXOPBLOCKS * 3"

record logheader =
  lh_n :: int
  lh_block :: "nat \<Rightarrow> int"

record log =
  lg_start :: int
  lg_outstanding :: int
  lg_committing :: bool
  lg_dev :: int
  lg_lh :: logheader

record klog = kdisk +
  klog :: log

definition upd_log :: "(log \<Rightarrow> log) \<Rightarrow> 'a klog_scheme \<Rightarrow> 'a klog_scheme" where
  "upd_log f s = s\<lparr>klog := f (klog s)\<rparr>"

definition upd_lh :: "(logheader \<Rightarrow> logheader) \<Rightarrow> 'a klog_scheme \<Rightarrow> 'a klog_scheme" where
  "upd_lh f = upd_log (lg_lh_update f)"

text \<open>Little-endian words in the bytes of a buffer.\<close>

definition get32 :: "uint8 list \<Rightarrow> nat \<Rightarrow> uint32" where
  "get32 d k = foldr (\<lambda>b w. ucast b + 256 * w) (take 4 (drop k d)) 0"

definition put32 :: "nat \<Rightarrow> uint32 \<Rightarrow> uint8 list \<Rightarrow> uint8 list" where
  "put32 k w d = take k d @ map (\<lambda>i. ucast (drop_bit (8 * i) w)) [0..<4] @ drop (k + 4) d"

definition get16 :: "uint8 list \<Rightarrow> nat \<Rightarrow> uint16" where
  "get16 d k = foldr (\<lambda>b w. ucast b + 256 * w) (take 2 (drop k d)) 0"

definition put16 :: "nat \<Rightarrow> uint16 \<Rightarrow> uint8 list \<Rightarrow> uint8 list" where
  "put16 k w d = take k d @ map (\<lambda>i. ucast (drop_bit (8 * i) w)) [0..<2] @ drop (k + 2) d"

definition upd_data :: "nat \<Rightarrow> (uint8 list \<Rightarrow> uint8 list) \<Rightarrow> 'a kdisk_scheme \<Rightarrow> 'a kdisk_scheme" where
  "upd_data b f = upd_buf b (bdata_update f)"

text \<open>The copy loops between the header block's bytes and the header in memory.\<close>

definition get_header :: "uint8 list \<Rightarrow> logheader \<Rightarrow> logheader" where
  "get_header d lh =
     (let n = sint (get32 d 0) in
      lh\<lparr>lh_n := n, lh_block := (\<lambda>i. if int i < n then sint (get32 d (4 + 4 * i)) else lh_block lh i)\<rparr>)"

definition put_header :: "logheader \<Rightarrow> uint8 list \<Rightarrow> uint8 list" where
  "put_header lh d =
     fold (\<lambda>i d. put32 (4 + 4 * i) (of_int (lh_block lh i)) d) [0..<nat (lh_n lh)]
       (put32 0 (of_int (lh_n lh)) d)"

definition install_one :: "hardware \<Rightarrow> nat \<Rightarrow> bool \<Rightarrow> nat \<Rightarrow> 'a klog_scheme \<Rightarrow> 'a klog_scheme res" where
  "install_one h c recovering tail s =
     bindE (if recovering
            then printf c (''recovering tail %d dst %d'' @ [char_of (10::nat)]) [VaInt (int tail), VaInt (lh_block (lg_lh (klog s)) tail)] s
            else Inr s) (\<lambda>s.
     bindE (bread h c (of_int (lg_dev (klog s))) (of_int (lg_start (klog s) + int tail + 1)) s) (\<lambda>(lbuf, s).
     bindE (bread h c (of_int (lg_dev (klog s))) (of_int (lh_block (lg_lh (klog s)) tail)) s) (\<lambda>(dbuf, s).
     bindE (bwrite h c dbuf (upd_data dbuf (\<lambda>_. bdata (bufs s lbuf)) s)) (\<lambda>s.
     bindE (if \<not> recovering then bunpin c dbuf s else Inr s) (\<lambda>s.
     bindE (brelse c lbuf s) (\<lambda>s.
     brelse c dbuf s))))))"

definition install_trans :: "hardware \<Rightarrow> nat \<Rightarrow> bool \<Rightarrow> 'a klog_scheme \<Rightarrow> 'a klog_scheme res" where
  "install_trans h c recovering s =
     for_each (install_one h c recovering) [0..<nat (lh_n (lg_lh (klog s)))] s"

text \<open>A header with more than \<open>LOGBLOCKS\<close> entries would be copied past the end of \<^verbatim>\<open>log.lh\<close>.\<close>

definition read_head :: "hardware \<Rightarrow> nat \<Rightarrow> 'a klog_scheme \<Rightarrow> 'a klog_scheme res" where
  "read_head h c s =
     bindE (bread h c (of_int (lg_dev (klog s))) (of_int (lg_start (klog s))) s) (\<lambda>(b, s).
     if sint (get32 (bdata (bufs s b)) 0) > int LOGBLOCKS then Inl (Fault ''read_head: lh.block'')
     else brelse c b (upd_lh (get_header (bdata (bufs s b))) s))"

definition write_head :: "hardware \<Rightarrow> nat \<Rightarrow> 'a klog_scheme \<Rightarrow> 'a klog_scheme res" where
  "write_head h c s =
     bindE (bread h c (of_int (lg_dev (klog s))) (of_int (lg_start (klog s))) s) (\<lambda>(b, s).
     bindE (bwrite h c b (upd_data b (put_header (lg_lh (klog s))) s)) (\<lambda>s.
     brelse c b s))"

definition recover_from_log :: "hardware \<Rightarrow> nat \<Rightarrow> 'a klog_scheme \<Rightarrow> 'a klog_scheme res" where
  "recover_from_log h c s =
     bindE (read_head h c s) (\<lambda>s.
     bindE (install_trans h c True s) (\<lambda>s.
     write_head h c (upd_lh (lh_n_update (\<lambda>_. 0)) s)))"

text \<open>The header has 124 bytes, so the size check of \<open>initlog\<close> never fires.\<close>

definition initlog :: "hardware \<Rightarrow> nat \<Rightarrow> int \<Rightarrow> uint32 \<Rightarrow> 'a klog_scheme \<Rightarrow> 'a klog_scheme res" where
  "initlog h c dev logstart s =
     (if 4 + 4 * LOGBLOCKS \<ge> BSIZE then Inl (Panic ''initlog: too big logheader'')
      else let s = initlock LogLock ''log'' s
           in recover_from_log h c (upd_log (\<lambda>l. l\<lparr>lg_start := sint logstart, lg_dev := dev\<rparr>) s))"

definition begin_op :: "nat \<Rightarrow> 'a klog_scheme \<Rightarrow> 'a klog_scheme res" where
  "begin_op c s =
     bindE (acquire c LogLock s) (\<lambda>s.
     let l = klog s in
     if lg_committing l then sleeps c ChLog LogLock s
     else if lh_n (lg_lh l) + (lg_outstanding l + 1) * int MAXOPBLOCKS > int LOGBLOCKS
       then sleeps c ChLog LogLock s
     else release c LogLock (upd_log (lg_outstanding_update (\<lambda>n. n + 1)) s))"

definition write_one :: "hardware \<Rightarrow> nat \<Rightarrow> nat \<Rightarrow> 'a klog_scheme \<Rightarrow> 'a klog_scheme res" where
  "write_one h c tail s =
     bindE (bread h c (of_int (lg_dev (klog s))) (of_int (lg_start (klog s) + int tail + 1)) s) (\<lambda>(to, s).
     bindE (bread h c (of_int (lg_dev (klog s))) (of_int (lh_block (lg_lh (klog s)) tail)) s) (\<lambda>(frm, s).
     bindE (bwrite h c to (upd_data to (\<lambda>_. bdata (bufs s frm)) s)) (\<lambda>s.
     bindE (brelse c frm s) (\<lambda>s.
     brelse c to s))))"

definition write_log :: "hardware \<Rightarrow> nat \<Rightarrow> 'a klog_scheme \<Rightarrow> 'a klog_scheme res" where
  "write_log h c s = for_each (write_one h c) [0..<nat (lh_n (lg_lh (klog s)))] s"

definition commit :: "hardware \<Rightarrow> nat \<Rightarrow> 'a klog_scheme \<Rightarrow> 'a klog_scheme res" where
  "commit h c s =
     (if lh_n (lg_lh (klog s)) > 0 then
        bindE (write_log h c s) (\<lambda>s.
        bindE (write_head h c s) (\<lambda>s.
        bindE (install_trans h c False s) (\<lambda>s.
        write_head h c (upd_lh (lh_n_update (\<lambda>_. 0)) s))))
      else Inr s)"

definition end_op :: "hardware \<Rightarrow> nat \<Rightarrow> 'a klog_scheme \<Rightarrow> 'a klog_scheme res" where
  "end_op h c s =
     bindE (acquire c LogLock s) (\<lambda>s.
     let s = upd_log (lg_outstanding_update (\<lambda>n. n - 1)) s in
     if lg_committing (klog s) then Inl (Panic ''log.committing'')
     else if lg_outstanding (klog s) = 0 then
       bindE (release c LogLock (upd_log (lg_committing_update (\<lambda>_. True)) s)) (\<lambda>s.
       bindE (commit h c s) (\<lambda>s.
       bindE (acquire c LogLock s) (\<lambda>s.
       bindE (wakeup c (Some ChLog) (upd_log (lg_committing_update (\<lambda>_. False)) s)) (\<lambda>s.
       release c LogLock s))))
     else
       bindE (wakeup c (Some ChLog) s) (\<lambda>s. release c LogLock s))"

text \<open>The search of \<open>log_write\<close> for the block: its place in the header, or the first free one.\<close>

definition log_slot :: "int \<Rightarrow> logheader \<Rightarrow> nat" where
  "log_slot b lh = (case find (\<lambda>i. lh_block lh i = b) [0..<nat (lh_n lh)] of
     Some i \<Rightarrow> i | None \<Rightarrow> nat (lh_n lh))"

definition log_write :: "nat \<Rightarrow> nat \<Rightarrow> 'a klog_scheme \<Rightarrow> 'a klog_scheme res" where
  "log_write c b s =
     bindE (acquire c LogLock s) (\<lambda>s.
     if lh_n (lg_lh (klog s)) \<ge> int LOGBLOCKS then Inl (Panic ''too big a transaction'')
     else if lg_outstanding (klog s) < 1 then Inl (Panic ''log_write outside of trans'')
     else
       let bn = sint (bblockno (bufs s b));
           i = log_slot bn (lg_lh (klog s));
           new = (int i = lh_n (lg_lh (klog s)));
           s = upd_lh (\<lambda>lh. lh\<lparr>lh_block := (lh_block lh)(i := bn)\<rparr>) s in
       bindE (if new then bindE (bpin c b s) (\<lambda>s. Inr (upd_lh (lh_n_update (\<lambda>n. n + 1)) s)) else Inr s)
         (release c LogLock))"

subsection \<open>Words in a buffer\<close>

unbundle bit_operations_syntax

lemma foldr_le_bits:
  "k < 8 * length bs \<Longrightarrow> k < LENGTH('w) \<Longrightarrow>
    bit (foldr (\<lambda>b w. ucast b + 256 * w) (bs::uint8 list) (0::'w::len word)) k = bit (bs ! (k div 8)) (k mod 8)"
proof (induction bs arbitrary: k)
  case (Cons b bs)
  let ?w = "foldr (\<lambda>b w. ucast b + 256 * w) bs (0::'w word)"
  have "ucast b + 256 * ?w = (ucast b OR push_bit 8 ?w :: 'w word)"
  proof -
    have p: "256 * ?w = push_bit 8 ?w" by (simp add: push_bit_eq_mult mult.commute)
    have "ucast b AND push_bit 8 ?w = (0::'w word)"
      by (rule bit_word_eqI) (auto simp: bit_and_iff bit_ucast_iff bit_push_bit_iff dest: bit_imp_le_length)
    then show ?thesis unfolding p by (simp add: disjunctive_add_eq_or)
  qed
  then have e: "bit (foldr (\<lambda>b w. ucast b + 256 * w) (b # bs) (0::'w word)) k
      = (bit b k \<or> 8 \<le> k \<and> bit ?w (k - 8))"
    using Cons.prems by (simp add: bit_or_iff bit_ucast_iff bit_push_bit_iff)
  show ?case
  proof (cases "k < 8")
    case True then show ?thesis using e by simp
  next
    case False
    then have "\<not> bit b k" by (auto dest: bit_imp_le_length)
    moreover have "bit ?w (k - 8) = bit (bs ! ((k - 8) div 8)) ((k - 8) mod 8)"
      using Cons.prems False by (intro Cons.IH) auto
    moreover have "(k - 8) mod 8 = k mod 8" "k div 8 = Suc ((k - 8) div 8)"
      using False by (simp_all add: le_mod_geq le_div_geq)
    ultimately show ?thesis using e False by simp
  qed
qed simp


text \<open>A window of a list into which a piece has been written.\<close>

lemma window_same: "k + length bs \<le> length d \<Longrightarrow>
    take (length bs) (drop k (take k d @ bs @ drop (k + length bs) d)) = bs"
  by simp

lemma window_other:
  assumes "k + length bs \<le> length d" "j + n \<le> k \<or> k + length bs \<le> j"
  shows "take n (drop j (take k d @ bs @ drop (k + length bs) d)) = take n (drop j d)"
  using assms(2)
proof
  assume "j + n \<le> k"
  then show ?thesis using assms(1) by (intro nth_equalityI) (auto simp: nth_append)
next
  assume a: "k + length bs \<le> j"
  then have "drop j (take k d @ bs @ drop (k + length bs) d) = drop j d"
    using assms(1) by (simp add: add.commute)
  then show ?thesis by simp
qed

lemma le_map_bits: "n \<le> LENGTH('w) div 8 \<Longrightarrow> LENGTH('w::len) = 8 * n \<Longrightarrow>
    foldr (\<lambda>b w. ucast b + 256 * w) (map (\<lambda>i. ucast (drop_bit (8 * i) w) :: uint8) [0..<n]) 0 = (w::'w word)"
proof (rule bit_word_eqI)
  fix k assume n: "LENGTH('w) = 8 * n" and k: "k < LENGTH('w)"
  let ?bs = "map (\<lambda>i. ucast (drop_bit (8 * i) w) :: uint8) [0..<n]"
  have "k div 8 < n" using n k by simp
  then have "bit (?bs ! (k div 8)) (k mod 8) = bit w (8 * (k div 8) + k mod 8)"
    by (simp add: bit_ucast_iff bit_drop_bit_eq)
  then show "bit (foldr (\<lambda>b w. ucast b + 256 * w) ?bs (0::'w word)) k = bit w k"
    using foldr_le_bits[of k ?bs, where 'w = 'w] n k by simp
qed

lemma put32_splice: "put32 k w d = take k d @ map (\<lambda>i. ucast (drop_bit (8 * i) w)) [0..<4] @
    drop (k + length (map (\<lambda>i. ucast (drop_bit (8 * i) w) :: uint8) [0..<4])) d"
  by (simp add: put32_def)

lemma put16_splice: "put16 k w d = take k d @ map (\<lambda>i. ucast (drop_bit (8 * i) w)) [0..<2] @
    drop (k + length (map (\<lambda>i. ucast (drop_bit (8 * i) w) :: uint8) [0..<2])) d"
  by (simp add: put16_def)

lemma length_put [simp]: "k + 4 \<le> length d \<Longrightarrow> length (put32 k w d) = length d"
    "k + 2 \<le> length d \<Longrightarrow> length (put16 k v d) = length d"
  by (simp_all add: put32_def put16_def)

lemma get32_put32 [simp]: "k + 4 \<le> length d \<Longrightarrow> get32 (put32 k w d) k = w"
  using window_same[of k "map (\<lambda>i. ucast (drop_bit (8 * i) w) :: uint8) [0..<4]" d]
    le_map_bits[of 4 w]
  unfolding get32_def put32_splice by simp

lemma get16_put16 [simp]: "k + 2 \<le> length d \<Longrightarrow> get16 (put16 k w d) k = w"
  using window_same[of k "map (\<lambda>i. ucast (drop_bit (8 * i) w) :: uint8) [0..<2]" d]
    le_map_bits[of 2 w]
  unfolding get16_def put16_splice by simp

lemma put32_window: "k + 4 \<le> length d \<Longrightarrow> j + n \<le> k \<or> k + 4 \<le> j \<Longrightarrow>
    take n (drop j (put32 k w d)) = take n (drop j d)"
  unfolding put32_splice by (rule window_other) simp_all

lemma put16_window: "k + 2 \<le> length d \<Longrightarrow> j + n \<le> k \<or> k + 2 \<le> j \<Longrightarrow>
    take n (drop j (put16 k w d)) = take n (drop j d)"
  unfolding put16_splice by (rule window_other) simp_all

lemma get_put_other [simp]:
  "k + 4 \<le> length d \<Longrightarrow> j + 4 \<le> k \<or> k + 4 \<le> j \<Longrightarrow> get32 (put32 k w d) j = get32 d j"
  "k + 4 \<le> length d \<Longrightarrow> j + 2 \<le> k \<or> k + 4 \<le> j \<Longrightarrow> get16 (put32 k w d) j = get16 d j"
  "k + 2 \<le> length d \<Longrightarrow> j + 4 \<le> k \<or> k + 2 \<le> j \<Longrightarrow> get32 (put16 k v d) j = get32 d j"
  "k + 2 \<le> length d \<Longrightarrow> j + 2 \<le> k \<or> k + 2 \<le> j \<Longrightarrow> get16 (put16 k v d) j = get16 d j"
  unfolding get32_def get16_def by (simp_all add: put32_window put16_window)

text \<open>Writing a row of words.\<close>

lemma put_row_length: "k + 4 * n \<le> length d \<Longrightarrow>
    length (fold (\<lambda>i d. put32 (k + 4 * i) (f i) d) [0..<n] d) = length d"
  by (induction n) simp_all

lemma put_row_get: "k + 4 * n \<le> length d \<Longrightarrow> i < n \<Longrightarrow>
    get32 (fold (\<lambda>i d. put32 (k + 4 * i) (f i) d) [0..<n] d) (k + 4 * i) = f i"
proof (induction n)
  case (Suc n)
  then show ?case by (cases "i = n") (simp_all add: put_row_length)
qed simp

lemma put_row_window: "k + 4 * n \<le> length d \<Longrightarrow> j + m \<le> k \<or> k + 4 * n \<le> j \<Longrightarrow>
    take m (drop j (fold (\<lambda>i d. put32 (k + 4 * i) (f i) d) [0..<n] d)) = take m (drop j d)"
  by (induction n) (auto simp: put32_window put_row_length)

end
