(* ===== verification/Fs.thy ===== *)
theory Fs
  imports Log
begin

text \<open>
  The file system, \<^verbatim>\<open>kernel/fs.c\<close>: super block, block allocation and inodes.

  Structures on the disk are read and written as the little-endian words of a buffer.  An inode of
  the table is named by its index, and a null pointer is \<open>None\<close>.
\<close>

unbundle bit_operations_syntax

definition ROOTDEV :: uint32 where "ROOTDEV = 1"
definition ROOTINO :: uint32 where "ROOTINO = 1"
definition NINODE :: nat where "NINODE = 50"
definition NDIRECT :: nat where "NDIRECT = 12"
definition NINDIRECT :: nat where "NINDIRECT = BSIZE div 4"
definition MAXFILE :: nat where "MAXFILE = NDIRECT + NINDIRECT"
definition IPB :: nat where "IPB = BSIZE div 64"
definition BPB :: nat where "BPB = BSIZE * 8"
definition DIRSIZ :: nat where "DIRSIZ = 14"
definition FSMAGIC :: uint32 where "FSMAGIC = 0x10203040"
definition T_DIR :: int where "T_DIR = 1"
definition T_FILE :: int where "T_FILE = 2"
definition T_DEVICE :: int where "T_DEVICE = 3"

record superblock =
  sb_magic :: uint32
  sb_size :: uint32
  sb_nblocks :: uint32
  sb_ninodes :: uint32
  sb_nlog :: uint32
  sb_logstart :: uint32
  sb_inodestart :: uint32
  sb_bmapstart :: uint32

record dinode =
  di_type :: int
  di_major :: int
  di_minor :: int
  di_nlink :: int
  di_size :: uint32
  di_addrs :: "nat \<Rightarrow> uint32"

record inode =
  i_dev :: uint32
  i_inum :: uint32
  i_ref :: int
  i_valid :: bool
  i_din :: dinode

record kfs = klog +
  sb :: superblock
  inodes :: "nat \<Rightarrow> inode"

definition upd_inode :: "nat \<Rightarrow> (inode \<Rightarrow> inode) \<Rightarrow> 'a kfs_scheme \<Rightarrow> 'a kfs_scheme" where
  "upd_inode i f s = s\<lparr>inodes := (inodes s)(i := f (inodes s i))\<rparr>"

definition upd_din :: "nat \<Rightarrow> (dinode \<Rightarrow> dinode) \<Rightarrow> 'a kfs_scheme \<Rightarrow> 'a kfs_scheme" where
  "upd_din i f = upd_inode i (i_din_update f)"

abbreviation din :: "'a kfs_scheme \<Rightarrow> nat \<Rightarrow> dinode" where "din s ip \<equiv> i_din (inodes s ip)"

definition IBLOCK :: "uint32 \<Rightarrow> superblock \<Rightarrow> uint32" where
  "IBLOCK i spb = i div of_nat IPB + sb_inodestart spb"

definition BBLOCK :: "uint32 \<Rightarrow> superblock \<Rightarrow> uint32" where
  "BBLOCK b spb = b div of_nat BPB + sb_bmapstart spb"

text \<open>The on-disk inode at byte \<open>k\<close> of a buffer.\<close>

definition get_dinode :: "uint8 list \<Rightarrow> nat \<Rightarrow> dinode" where
  "get_dinode d k = \<lparr>di_type = sint (get16 d k), di_major = sint (get16 d (k + 2)),
     di_minor = sint (get16 d (k + 4)), di_nlink = sint (get16 d (k + 6)),
     di_size = get32 d (k + 8), di_addrs = (\<lambda>i. if i \<le> NDIRECT then get32 d (k + 12 + 4 * i) else 0)\<rparr>"

definition put_dinode :: "nat \<Rightarrow> dinode \<Rightarrow> uint8 list \<Rightarrow> uint8 list" where
  "put_dinode k di d =
     (let d = put16 k (of_int (di_type di)) d;
          d = put16 (k + 2) (of_int (di_major di)) d;
          d = put16 (k + 4) (of_int (di_minor di)) d;
          d = put16 (k + 6) (of_int (di_nlink di)) d;
          d = put32 (k + 8) (di_size di) d
      in fold (\<lambda>i d. put32 (k + 12 + 4 * i) (di_addrs di i) d) [0..<Suc NDIRECT] d)"

abbreviation ioff :: "uint32 \<Rightarrow> nat" where "ioff inum \<equiv> 64 * (unat inum mod IPB)"

subsection \<open>Super block and blocks\<close>

definition readsb :: "hardware \<Rightarrow> nat \<Rightarrow> uint32 \<Rightarrow> 'a kfs_scheme \<Rightarrow> 'a kfs_scheme res" where
  "readsb h c dev s =
     bindE (bread h c dev 1 s) (\<lambda>(b, s).
     let d = bdata (bufs s b) in
     brelse c b (s\<lparr>sb := \<lparr>sb_magic = get32 d 0, sb_size = get32 d 4, sb_nblocks = get32 d 8,
       sb_ninodes = get32 d 12, sb_nlog = get32 d 16, sb_logstart = get32 d 20,
       sb_inodestart = get32 d 24, sb_bmapstart = get32 d 28\<rparr>\<rparr>))"

definition bzero :: "hardware \<Rightarrow> nat \<Rightarrow> uint32 \<Rightarrow> uint32 \<Rightarrow> 'a kfs_scheme \<Rightarrow> 'a kfs_scheme res" where
  "bzero h c dev bno s =
     bindE (bread h c dev bno s) (\<lambda>(b, s).
     bindE (log_write c b (upd_data b (\<lambda>_. replicate BSIZE 0) s)) (\<lambda>s.
     brelse c b s))"

text \<open>The bit of block \<open>b + bi\<close> in the bitmap block, and the inner loop of \<open>balloc\<close>.\<close>

definition bmask :: "nat \<Rightarrow> uint8" where "bmask bi = push_bit (bi mod 8) 1"

definition balloc_find :: "uint8 list \<Rightarrow> nat \<Rightarrow> uint32 \<Rightarrow> nat option" where
  "balloc_find d b sz =
     find (\<lambda>bi. d ! (bi div 8) AND bmask bi = 0) (filter (\<lambda>bi. b + bi < unat sz) [0..<BPB])"

definition balloc_in :: "hardware \<Rightarrow> nat \<Rightarrow> uint32 \<Rightarrow> nat \<Rightarrow> 'a kfs_scheme \<Rightarrow> (uint32 option \<times> 'a kfs_scheme) res" where
  "balloc_in h c dev b s =
     bindE (bread h c dev (BBLOCK (of_nat b) (sb s)) s) (\<lambda>(bp, s).
     case balloc_find (bdata (bufs s bp)) b (sb_size (sb s)) of
       Some bi \<Rightarrow>
         bindE (log_write c bp (upd_data bp (\<lambda>d. d[bi div 8 := d ! (bi div 8) OR bmask bi]) s)) (\<lambda>s.
         bindE (brelse c bp s) (\<lambda>s.
         bindE (bzero h c dev (of_nat (b + bi)) s) (\<lambda>s.
         Inr (Some (of_nat (b + bi)), s))))
     | None \<Rightarrow> bindE (brelse c bp s) (\<lambda>s. Inr (None, s)))"

definition balloc :: "hardware \<Rightarrow> nat \<Rightarrow> uint32 \<Rightarrow> 'a kfs_scheme \<Rightarrow> (uint32 \<times> 'a kfs_scheme) res" where
  "balloc h c dev s =
     bindE (find_loop (balloc_in h c dev)
        (map ((*) BPB) [0..<(unat (sb_size (sb s)) + BPB - 1) div BPB]) s) (\<lambda>(r, s).
     case r of
       Some b \<Rightarrow> Inr (b, s)
     | None \<Rightarrow> bindE (printf c (''balloc: out of blocks'' @ [char_of (10::nat)]) [] s) (\<lambda>s. Inr (0, s)))"

definition bfree :: "hardware \<Rightarrow> nat \<Rightarrow> uint32 \<Rightarrow> uint32 \<Rightarrow> 'a kfs_scheme \<Rightarrow> 'a kfs_scheme res" where
  "bfree h c dev b s =
     bindE (bread h c dev (BBLOCK b (sb s)) s) (\<lambda>(bp, s).
     let bi = unat b mod BPB; d = bdata (bufs s bp) in
     if d ! (bi div 8) AND bmask bi = 0 then Inl (Panic ''freeing free block'')
     else
       bindE (log_write c bp (upd_data bp (\<lambda>d. d[bi div 8 := d ! (bi div 8) AND NOT (bmask bi)]) s)) (\<lambda>s.
       brelse c bp s))"

subsection \<open>Inodes\<close>

definition iinit :: "'a kfs_scheme \<Rightarrow> 'a kfs_scheme" where
  "iinit s = fold (\<lambda>i. initsleeplock (InodeLock i) ''inode'') [0..<NINODE] (initlock ItableLock ''itable'' s)"

definition iget :: "nat \<Rightarrow> uint32 \<Rightarrow> uint32 \<Rightarrow> 'a kfs_scheme \<Rightarrow> (nat \<times> 'a kfs_scheme) res" where
  "iget c dev inum s =
     bindE (acquire c ItableLock s) (\<lambda>s.
     case find (\<lambda>i. i_ref (inodes s i) > 0 \<and> i_dev (inodes s i) = dev \<and> i_inum (inodes s i) = inum) [0..<NINODE] of
       Some ip \<Rightarrow>
         bindE (release c ItableLock (upd_inode ip (i_ref_update (\<lambda>n. n + 1)) s)) (\<lambda>s. Inr (ip, s))
     | None \<Rightarrow>
         (case find (\<lambda>i. i_ref (inodes s i) = 0) [0..<NINODE] of
           None \<Rightarrow> Inl (Panic ''iget: no inodes'')
         | Some ip \<Rightarrow>
             bindE (release c ItableLock
               (upd_inode ip (\<lambda>i. i\<lparr>i_dev := dev, i_inum := inum, i_ref := 1, i_valid := False\<rparr>) s)) (\<lambda>s.
             Inr (ip, s))))"

definition ialloc_at :: "hardware \<Rightarrow> nat \<Rightarrow> uint32 \<Rightarrow> int \<Rightarrow> nat \<Rightarrow> 'a kfs_scheme \<Rightarrow> (nat option \<times> 'a kfs_scheme) res" where
  "ialloc_at h c dev type inum s =
     bindE (bread h c dev (IBLOCK (of_nat inum) (sb s)) s) (\<lambda>(bp, s).
     let k = ioff (of_nat inum) in
     if di_type (get_dinode (bdata (bufs s bp)) k) = 0 then
       bindE (log_write c bp (upd_data bp (put_dinode k
         \<lparr>di_type = type, di_major = 0, di_minor = 0, di_nlink = 0, di_size = 0, di_addrs = (\<lambda>_. 0)\<rparr>) s)) (\<lambda>s.
       bindE (brelse c bp s) (\<lambda>s.
       bindE (iget c dev (of_nat inum) s) (\<lambda>(ip, s). Inr (Some ip, s))))
     else bindE (brelse c bp s) (\<lambda>s. Inr (None, s)))"

definition ialloc :: "hardware \<Rightarrow> nat \<Rightarrow> uint32 \<Rightarrow> int \<Rightarrow> 'a kfs_scheme \<Rightarrow> (nat option \<times> 'a kfs_scheme) res" where
  "ialloc h c dev type s =
     bindE (find_loop (ialloc_at h c dev type) [1..<unat (sb_ninodes (sb s))] s) (\<lambda>(r, s).
     case r of
       Some ip \<Rightarrow> Inr (Some ip, s)
     | None \<Rightarrow> bindE (printf c (''ialloc: no inodes'' @ [char_of (10::nat)]) [] s) (\<lambda>s. Inr (None, s)))"

definition iupdate :: "hardware \<Rightarrow> nat \<Rightarrow> nat \<Rightarrow> 'a kfs_scheme \<Rightarrow> 'a kfs_scheme res" where
  "iupdate h c ip s =
     bindE (bread h c (i_dev (inodes s ip)) (IBLOCK (i_inum (inodes s ip)) (sb s)) s) (\<lambda>(bp, s).
     bindE (log_write c bp (upd_data bp (put_dinode (ioff (i_inum (inodes s ip))) (din s ip)) s)) (\<lambda>s.
     brelse c bp s))"

definition idup :: "nat \<Rightarrow> nat \<Rightarrow> 'a kfs_scheme \<Rightarrow> 'a kfs_scheme res" where
  "idup c ip = with_lock c ItableLock (upd_inode ip (i_ref_update (\<lambda>n. n + 1)))"

definition ilock :: "hardware \<Rightarrow> nat \<Rightarrow> nat option \<Rightarrow> 'a kfs_scheme \<Rightarrow> 'a kfs_scheme res" where
  "ilock h c ipp s = (case ipp of None \<Rightarrow> Inl (Panic ''ilock'') | Some ip \<Rightarrow>
     if i_ref (inodes s ip) < 1 then Inl (Panic ''ilock'')
     else
       bindE (acquiresleep c (InodeLock ip) s) (\<lambda>s.
       if \<not> i_valid (inodes s ip) then
         bindE (bread h c (i_dev (inodes s ip)) (IBLOCK (i_inum (inodes s ip)) (sb s)) s) (\<lambda>(bp, s).
         let di = get_dinode (bdata (bufs s bp)) (ioff (i_inum (inodes s ip))) in
         bindE (brelse c bp (upd_din ip (\<lambda>_. di) s)) (\<lambda>s.
         let s = upd_inode ip (i_valid_update (\<lambda>_. True)) s in
         if di_type (din s ip) = 0 then Inl (Panic ''ilock: no type'') else Inr s))
       else Inr s))"

definition iunlock :: "nat \<Rightarrow> nat option \<Rightarrow> 'a kfs_scheme \<Rightarrow> 'a kfs_scheme res" where
  "iunlock c ipp s = (case ipp of None \<Rightarrow> Inl (Panic ''iunlock'') | Some ip \<Rightarrow>
     bindE (holdingsleep c (InodeLock ip) s) (\<lambda>(held, s).
     if \<not> held \<or> i_ref (inodes s ip) < 1 then Inl (Panic ''iunlock'')
     else releasesleep c (InodeLock ip) s))"

text \<open>The two loops of \<open>itrunc\<close>.\<close>

definition itrunc_direct :: "hardware \<Rightarrow> nat \<Rightarrow> nat \<Rightarrow> nat \<Rightarrow> 'a kfs_scheme \<Rightarrow> 'a kfs_scheme res" where
  "itrunc_direct h c ip i s =
     (let a = di_addrs (din s ip) i in
      if a \<noteq> 0 then
        bindE (bfree h c (i_dev (inodes s ip)) a s) (\<lambda>s.
        Inr (upd_din ip (\<lambda>d. d\<lparr>di_addrs := (di_addrs d)(i := 0)\<rparr>) s))
      else Inr s)"

definition itrunc_indirect :: "hardware \<Rightarrow> nat \<Rightarrow> nat \<Rightarrow> nat \<Rightarrow> nat \<Rightarrow> 'a kfs_scheme \<Rightarrow> 'a kfs_scheme res" where
  "itrunc_indirect h c ip bp j s =
     (let a = get32 (bdata (bufs s bp)) (4 * j) in
      if a \<noteq> 0 then bfree h c (i_dev (inodes s ip)) a s else Inr s)"

definition itrunc :: "hardware \<Rightarrow> nat \<Rightarrow> nat \<Rightarrow> 'a kfs_scheme \<Rightarrow> 'a kfs_scheme res" where
  "itrunc h c ip s =
     bindE (for_each (itrunc_direct h c ip) [0..<NDIRECT] s) (\<lambda>s.
     bindE (if di_addrs (din s ip) NDIRECT \<noteq> 0 then
              bindE (bread h c (i_dev (inodes s ip)) (di_addrs (din s ip) NDIRECT) s) (\<lambda>(bp, s).
              bindE (for_each (itrunc_indirect h c ip bp) [0..<NINDIRECT] s) (\<lambda>s.
              bindE (brelse c bp s) (\<lambda>s.
              bindE (bfree h c (i_dev (inodes s ip)) (di_addrs (din s ip) NDIRECT) s) (\<lambda>s.
              Inr (upd_din ip (\<lambda>d. d\<lparr>di_addrs := (di_addrs d)(NDIRECT := 0)\<rparr>) s)))))
            else Inr s) (\<lambda>s.
     iupdate h c ip (upd_din ip (di_size_update (\<lambda>_. 0)) s)))"

definition iput :: "hardware \<Rightarrow> nat \<Rightarrow> nat \<Rightarrow> 'a kfs_scheme \<Rightarrow> 'a kfs_scheme res" where
  "iput h c ip s =
     bindE (acquire c ItableLock s) (\<lambda>s.
     bindE (if i_ref (inodes s ip) = 1 \<and> i_valid (inodes s ip) \<and> di_nlink (din s ip) = 0 then
              bindE (acquiresleep c (InodeLock ip) s) (\<lambda>s.
              bindE (release c ItableLock s) (\<lambda>s.
              bindE (itrunc h c ip s) (\<lambda>s.
              bindE (iupdate h c ip (upd_din ip (di_type_update (\<lambda>_. 0)) s)) (\<lambda>s.
              bindE (releasesleep c (InodeLock ip) (upd_inode ip (i_valid_update (\<lambda>_. False)) s)) (\<lambda>s.
              acquire c ItableLock s)))))
            else Inr s) (\<lambda>s.
     release c ItableLock (upd_inode ip (i_ref_update (\<lambda>n. n - 1)) s)))"

definition iunlockput :: "hardware \<Rightarrow> nat \<Rightarrow> nat \<Rightarrow> 'a kfs_scheme \<Rightarrow> 'a kfs_scheme res" where
  "iunlockput h c ip s = bindE (iunlock c (Some ip) s) (\<lambda>s. iput h c ip s)"

definition ireclaim_at :: "hardware \<Rightarrow> nat \<Rightarrow> uint32 \<Rightarrow> nat \<Rightarrow> 'a kfs_scheme \<Rightarrow> 'a kfs_scheme res" where
  "ireclaim_at h c dev inum s =
     bindE (bread h c dev (IBLOCK (of_nat inum) (sb s)) s) (\<lambda>(bp, s).
     let di = get_dinode (bdata (bufs s bp)) (ioff (of_nat inum)) in
     bindE (if di_type di \<noteq> 0 \<and> di_nlink di = 0 then
              bindE (printf c (''ireclaim: orphaned inode %d'' @ [char_of (10::nat)]) [VaInt (int inum)] s) (\<lambda>s.
              bindE (iget c dev (of_nat inum) s) (\<lambda>(ip, s). Inr (Some ip, s)))
            else Inr (None, s)) (\<lambda>(ipp, s).
     bindE (brelse c bp s) (\<lambda>s.
     case ipp of None \<Rightarrow> Inr s | Some ip \<Rightarrow>
       bindE (begin_op c s) (\<lambda>s.
       bindE (ilock h c ipp s) (\<lambda>s.
       bindE (iunlock c ipp s) (\<lambda>s.
       bindE (iput h c ip s) (\<lambda>s.
       end_op h c s)))))))"

definition ireclaim :: "hardware \<Rightarrow> nat \<Rightarrow> uint32 \<Rightarrow> 'a kfs_scheme \<Rightarrow> 'a kfs_scheme res" where
  "ireclaim h c dev s = for_each (ireclaim_at h c dev) [1..<unat (sb_ninodes (sb s))] s"

definition fsinit :: "hardware \<Rightarrow> nat \<Rightarrow> uint32 \<Rightarrow> 'a kfs_scheme \<Rightarrow> 'a kfs_scheme res" where
  "fsinit h c dev s =
     bindE (readsb h c dev s) (\<lambda>s.
     if sb_magic (sb s) \<noteq> FSMAGIC then Inl (Panic ''invalid file system'')
     else bindE (initlog h c (sint dev) (sb_logstart (sb s)) s) (\<lambda>s.
          ireclaim h c dev s))"

subsection \<open>Inodes in a block\<close>

text \<open>An inode on the disk holds 16-bit signed numbers; the values of the kernel are such numbers.\<close>

definition dinode_ok :: "dinode \<Rightarrow> bool" where
  "dinode_ok di = ((\<forall>f\<in>{di_type di, di_major di, di_minor di, di_nlink di}. - 32768 \<le> f \<and> f < 32768)
     \<and> (\<forall>i > NDIRECT. di_addrs di i = 0))"

lemma sint_of_int16: "- 32768 \<le> x \<Longrightarrow> x < 32768 \<Longrightarrow> sint (of_int x :: uint16) = x"
  by (simp add: int_word_sint)

lemma put_dinode_length: "k + 64 \<le> length d \<Longrightarrow> length (put_dinode k di d) = length d"
  by (simp add: put_dinode_def Let_def put_row_length NDIRECT_def del: upt_Suc)

lemma dinode_put_get:
  assumes "k + 64 \<le> length d" "dinode_ok di"
  shows "get_dinode (put_dinode k di d) k = di
    \<and> (\<forall>j n. j + n \<le> k \<or> k + 64 \<le> j \<longrightarrow> take n (drop j (put_dinode k di d)) = take n (drop j d))"
proof -
  define d0 where "d0 = put32 (k + 8) (di_size di) (put16 (k + 6) (of_int (di_nlink di))
     (put16 (k + 4) (of_int (di_minor di)) (put16 (k + 2) (of_int (di_major di))
     (put16 k (of_int (di_type di)) d))))"
  have l0: "length d0 = length d" using assms(1) by (simp add: d0_def)
  let ?p = "fold (\<lambda>i d. put32 (k + 12 + 4 * i) (di_addrs di i) d) [0..<13] d0"
  have p: "put_dinode k di d = ?p"
    by (simp add: put_dinode_def Let_def d0_def NDIRECT_def del: upt_Suc)
  have w: "take n (drop j ?p) = take n (drop j d0)" if "j + n \<le> k + 12 \<or> k + 64 \<le> j" for j n
    using put_row_window[of "k + 12" 13 d0 j n "di_addrs di"] that assms(1) l0 by linarith
  have w0: "take n (drop j d0) = take n (drop j d)" if "j + n \<le> k \<or> k + 64 \<le> j" for j n
    using that assms(1) unfolding d0_def by (elim disjE) (simp_all add: put32_window put16_window)
  have g16: "get16 ?p j = get16 d0 j" if "j + 2 \<le> k + 12" for j
    using w[of j 2] that by (simp add: get16_def)
  have g32: "get32 ?p j = get32 d0 j" if "j + 4 \<le> k + 12" for j
    using w[of j 4] that by (simp add: get32_def)
  have row: "get32 ?p (k + 12 + 4 * i) = di_addrs di i" if "i \<le> NDIRECT" for i
    using put_row_get[of "k + 12" 13 d0 i "di_addrs di"] that assms(1) l0 by (simp add: NDIRECT_def)
  have f0: "get16 d0 k = of_int (di_type di)" "get16 d0 (k + 2) = of_int (di_major di)"
    "get16 d0 (k + 4) = of_int (di_minor di)" "get16 d0 (k + 6) = of_int (di_nlink di)"
    "get32 d0 (k + 8) = di_size di"
    using assms(1) unfolding d0_def by simp_all
  have f: "get16 ?p k = of_int (di_type di)" "get16 ?p (k + 2) = of_int (di_major di)"
    "get16 ?p (k + 4) = of_int (di_minor di)" "get16 ?p (k + 6) = of_int (di_nlink di)"
    "get32 ?p (k + 8) = di_size di"
    using f0 g16[of k] g16[of "k + 2"] g16[of "k + 4"] g16[of "k + 6"] g32[of "k + 8"] by simp_all
  have ok: "sint (of_int (di_type di) :: uint16) = di_type di" "sint (of_int (di_major di) :: uint16) = di_major di"
    "sint (of_int (di_minor di) :: uint16) = di_minor di" "sint (of_int (di_nlink di) :: uint16) = di_nlink di"
    using assms(2) by (simp_all add: dinode_ok_def sint_of_int16)
  have ad: "(\<lambda>i. if i \<le> NDIRECT then get32 ?p (k + 12 + 4 * i) else 0) = di_addrs di"
    using row assms(2) by (auto simp: dinode_ok_def not_le)
  have "get_dinode ?p k = di"
    unfolding get_dinode_def f ok ad by simp
  then show ?thesis using p w w0 by auto
qed

text \<open>
  C29.  Writing an inode into a block and reading it back gives the inode, and the bytes of the other
  inodes of the block are left alone.
\<close>

theorem dinode_roundtrip:
  assumes "k + 64 \<le> length d" "dinode_ok di"
  shows "get_dinode (put_dinode k di d) k = di
    \<and> (\<forall>j n. j + n \<le> k \<or> k + 64 \<le> j \<longrightarrow> take n (drop j (put_dinode k di d)) = take n (drop j d))"
  by (rule dinode_put_get[OF assms])

theorem dinode_roundtrip_witness:
  "get_dinode (put_dinode 64 \<lparr>di_type = 2, di_major = 0, di_minor = 0, di_nlink = 1, di_size = 5,
      di_addrs = (\<lambda>i. if i = 0 then 46 else 0)\<rparr> (replicate 1024 7)) 64
    = \<lparr>di_type = 2, di_major = 0, di_minor = 0, di_nlink = 1, di_size = 5, di_addrs = (\<lambda>i. if i = 0 then 46 else 0)\<rparr>"
  using dinode_roundtrip[of 64 "replicate 1024 7" "\<lparr>di_type = 2, di_major = 0, di_minor = 0,
      di_nlink = 1, di_size = 5, di_addrs = (\<lambda>i. if i = 0 then 46 else 0)\<rparr>"]
  by (simp add: dinode_ok_def NDIRECT_def)

end
