(* ===== verification/Dir.thy ===== *)
theory Dir
  imports Fs
begin

text \<open>
  File contents, directories and path names, the second half of \<^verbatim>\<open>kernel/fs.c\<close>, and what \<open>readi\<close> and \<open>writei\<close>
  do for them.  \<open>readi\<close> returns with its result the bytes it put into a variable of the caller.
\<close>

subsection \<open>Inode contents\<close>

definition bmap :: "hardware \<Rightarrow> nat \<Rightarrow> nat \<Rightarrow> nat \<Rightarrow> 'a kfs_scheme \<Rightarrow> (uint32 \<times> 'a kfs_scheme) res" where
  "bmap h c ip bn s =
     (if bn < NDIRECT then
        let addr = di_addrs (din s ip) bn in
        if addr = 0 then
          bindE (balloc h c (i_dev (inodes s ip)) s) (\<lambda>(addr, s).
          if addr = 0 then Inr (0, s)
          else Inr (addr, upd_din ip (\<lambda>d. d\<lparr>di_addrs := (di_addrs d)(bn := addr)\<rparr>) s))
        else Inr (addr, s)
      else let bn = bn - NDIRECT in
      if bn < NINDIRECT then
        bindE (let addr = di_addrs (din s ip) NDIRECT in
               if addr = 0 then
                 bindE (balloc h c (i_dev (inodes s ip)) s) (\<lambda>(addr, s).
                 if addr = 0 then Inr (0, s)
                 else Inr (addr, upd_din ip (\<lambda>d. d\<lparr>di_addrs := (di_addrs d)(NDIRECT := addr)\<rparr>) s))
               else Inr (addr, s)) (\<lambda>(addr, s).
        if addr = 0 then Inr (0, s)
        else
          bindE (bread h c (i_dev (inodes s ip)) addr s) (\<lambda>(bp, s).
          let a = get32 (bdata (bufs s bp)) (4 * bn) in
          bindE (if a = 0 then
                   bindE (balloc h c (i_dev (inodes s ip)) s) (\<lambda>(a, s).
                   if a \<noteq> 0 then
                     bindE (log_write c bp (upd_data bp (put32 (4 * bn) a) s)) (\<lambda>s. Inr (a, s))
                   else Inr (a, s))
                 else Inr (a, s)) (\<lambda>(a, s).
          bindE (brelse c bp s) (\<lambda>s. Inr (a, s)))))
      else Inl (Panic ''bmap: out of range''))"

record stat =
  st_dev :: int
  st_ino :: uint32
  st_type :: int
  st_nlink :: int
  st_size :: uint64

definition stati :: "inode \<Rightarrow> stat" where
  "stati i = \<lparr>st_dev = sint (i_dev i), st_ino = i_inum i, st_type = di_type (i_din i),
     st_nlink = di_nlink (i_din i), st_size = ucast (di_size (i_din i))\<rparr>"

text \<open>
  The loop of \<open>readi\<close>: \<open>n\<close> bytes in all, of which \<open>tot\<close> are copied.  The result of a failed copy
  is \<^verbatim>\<open>-1\<close>.
\<close>

definition chunk :: "nat \<Rightarrow> nat \<Rightarrow> nat \<Rightarrow> nat" where
  "chunk n tot off = min (n - tot) (BSIZE - off mod BSIZE)"

lemma chunk_pos: "tot < n \<Longrightarrow> 0 < chunk n tot off"
  by (simp add: chunk_def BSIZE_def)

function readi_loop :: "hardware \<Rightarrow> nat \<Rightarrow> nat \<Rightarrow> dest \<Rightarrow> nat \<Rightarrow> nat \<Rightarrow> nat \<Rightarrow> uint8 list \<Rightarrow> 'a kfs_scheme
    \<Rightarrow> ((int \<times> uint8 list) \<times> 'a kfs_scheme) res" where
  "readi_loop h c ip dst off n tot got s =
     (if tot < n then
        bindE (bmap h c ip (off div BSIZE) s) (\<lambda>(addr, s).
        if addr = 0 then Inr ((int tot, got), s)
        else
          bindE (bread h c (i_dev (inodes s ip)) addr s) (\<lambda>(bp, s).
          let m = chunk n tot off; bs = take m (drop (off mod BSIZE) (bdata (bufs s bp))) in
          bindE (either_copyout c dst bs s) (\<lambda>(r, s).
          bindE (brelse c bp s) (\<lambda>s.
          if r = -1 then Inr ((-1, got), s)
          else readi_loop h c ip (dest_add dst m) (off + m) n (tot + m)
                 (if dst = ToVar then got @ bs else got) s))))
      else Inr ((int tot, got), s))"
  by pat_completeness auto
termination
  by (relation "measure (\<lambda>(h, c, ip, dst, off, n, tot, got, s). n - tot)")
    (auto intro!: diff_less_mono2 simp: chunk_pos)

declare readi_loop.simps [simp del]

text \<open>\<open>off\<close> and \<open>n\<close> are 32-bit numbers; their sum may wrap around, which ends the call.\<close>

definition readi :: "hardware \<Rightarrow> nat \<Rightarrow> nat \<Rightarrow> dest \<Rightarrow> uint32 \<Rightarrow> uint32 \<Rightarrow> 'a kfs_scheme
    \<Rightarrow> ((int \<times> uint8 list) \<times> 'a kfs_scheme) res" where
  "readi h c ip dst off n s =
     (let size = di_size (din s ip) in
      if off > size \<or> off + n < off then Inr ((0, []), s)
      else let n = (if off + n > size then size - off else n) in
      readi_loop h c ip dst (unat off) (unat n) 0 [] s)"

definition splice :: "nat \<Rightarrow> uint8 list \<Rightarrow> uint8 list \<Rightarrow> uint8 list" where
  "splice k bs d = take k d @ bs @ drop (k + length bs) d"

text \<open>
  The loop of \<open>writei\<close>, which ends with the offset and the count reached.  A failed copy from user
  memory may have written its first pages into the buffer.
\<close>

function writei_loop :: "hardware \<Rightarrow> nat \<Rightarrow> nat \<Rightarrow> source \<Rightarrow> nat \<Rightarrow> nat \<Rightarrow> nat \<Rightarrow> 'a kfs_scheme
    \<Rightarrow> ((nat \<times> nat) \<times> 'a kfs_scheme) res" where
  "writei_loop h c ip src off n tot s =
     (if tot < n then
        bindE (bmap h c ip (off div BSIZE) s) (\<lambda>(addr, s).
        if addr = 0 then Inr ((off, tot), s)
        else
          bindE (bread h c (i_dev (inodes s ip)) addr s) (\<lambda>(bp, s).
          let m = chunk n tot off in
          bindE (either_copyin c src m s) (\<lambda>((r, bs), s).
          let s = upd_data bp (splice (off mod BSIZE) bs) s in
          if r = -1 then bindE (brelse c bp s) (\<lambda>s. Inr ((off, tot), s))
          else
            bindE (log_write c bp s) (\<lambda>s.
            bindE (brelse c bp s) (\<lambda>s.
            writei_loop h c ip (source_add src m) (off + m) n (tot + m) s)))))
      else Inr ((off, tot), s))"
  by pat_completeness auto
termination
  by (relation "measure (\<lambda>(h, c, ip, src, off, n, tot, s). n - tot)")
    (auto intro!: diff_less_mono2 simp: chunk_pos)

declare writei_loop.simps [simp del]

definition writei :: "hardware \<Rightarrow> nat \<Rightarrow> nat \<Rightarrow> source \<Rightarrow> uint32 \<Rightarrow> uint32 \<Rightarrow> 'a kfs_scheme
    \<Rightarrow> (int \<times> 'a kfs_scheme) res" where
  "writei h c ip src off n s =
     (if off > di_size (din s ip) \<or> off + n < off then Inr (-1, s)
      else if unat (off + n) > MAXFILE * BSIZE then Inr (-1, s)
      else
        bindE (writei_loop h c ip src (unat off) (unat n) 0 s) (\<lambda>((off, tot), s).
        let s = (if off > unat (di_size (din s ip)) then upd_din ip (di_size_update (\<lambda>_. of_nat off)) s else s) in
        bindE (iupdate h c ip s) (\<lambda>s. Inr (int tot, s))))"

subsection \<open>Directories\<close>

definition namecmp :: "string \<Rightarrow> string \<Rightarrow> int" where
  "namecmp x y = strncmp x y DIRSIZ"

text \<open>A directory entry: the inode number and the name, which may fill its 14 bytes.\<close>

definition de_inum :: "uint8 list \<Rightarrow> uint16" where "de_inum d = get16 d 0"

definition de_name :: "uint8 list \<Rightarrow> string" where
  "de_name d = cstr (map (\<lambda>b. char_of (unat b)) (take DIRSIZ (drop 2 d)))"

definition mk_dirent :: "string \<Rightarrow> uint16 \<Rightarrow> uint8 list" where
  "mk_dirent name inum = map (\<lambda>i. ucast (drop_bit (8 * i) inum)) [0..<2] @ map of_char (strncpy name DIRSIZ)"

definition entry_offsets :: "nat \<Rightarrow> uint32 \<Rightarrow> nat list" where
  "entry_offsets k0 sz = map (\<lambda>k. 16 * k) [k0..<(unat sz + 15) div 16]"

definition read_entry :: "hardware \<Rightarrow> nat \<Rightarrow> string \<Rightarrow> nat \<Rightarrow> nat \<Rightarrow> 'a kfs_scheme \<Rightarrow> (uint8 list \<times> 'a kfs_scheme) res" where
  "read_entry h c msg dp off s =
     bindE (readi h c dp ToVar (of_nat off) 16 s) (\<lambda>((r, de), s).
     if r \<noteq> 16 then Inl (Panic msg) else Inr (de, s))"

definition dirlookup :: "hardware \<Rightarrow> nat \<Rightarrow> nat \<Rightarrow> string \<Rightarrow> 'a kfs_scheme \<Rightarrow> ((nat \<times> nat) option \<times> 'a kfs_scheme) res" where
  "dirlookup h c dp name s =
     (if di_type (din s dp) \<noteq> T_DIR then Inl (Panic ''dirlookup not DIR'')
      else find_loop (\<lambda>off s.
        bindE (read_entry h c ''dirlookup read'' dp off s) (\<lambda>(de, s).
        if de_inum de = 0 then Inr (None, s)
        else if namecmp name (de_name de) = 0 then
          bindE (iget c (i_dev (inodes s dp)) (ucast (de_inum de)) s) (\<lambda>(ip, s). Inr (Some (ip, off), s))
        else Inr (None, s))) (entry_offsets 0 (di_size (din s dp))) s)"

definition dirlink :: "hardware \<Rightarrow> nat \<Rightarrow> nat \<Rightarrow> string \<Rightarrow> uint32 \<Rightarrow> 'a kfs_scheme \<Rightarrow> (int \<times> 'a kfs_scheme) res" where
  "dirlink h c dp name inum s =
     bindE (dirlookup h c dp name s) (\<lambda>(found, s).
     case found of
       Some (ip, _) \<Rightarrow> bindE (iput h c ip s) (\<lambda>s. Inr (-1, s))
     | None \<Rightarrow>
         bindE (find_loop (\<lambda>off s.
           bindE (read_entry h c ''dirlink read'' dp off s) (\<lambda>(de, s).
           Inr (if de_inum de = 0 then Some off else None, s)))
           (entry_offsets 0 (di_size (din s dp))) s) (\<lambda>(slot, s).
         let off = (case slot of Some off \<Rightarrow> off | None \<Rightarrow> 16 * ((unat (di_size (din s dp)) + 15) div 16)) in
         bindE (writei h c dp (FromVar (mk_dirent name (ucast inum))) (of_nat off) 16 s) (\<lambda>(r, s).
         Inr (if r \<noteq> 16 then -1 else 0, s))))"

subsection \<open>Path names\<close>

abbreviation slash :: char where "slash \<equiv> CHR ''/''"

text \<open>
  The next element, in a buffer of \<open>DIRSIZ\<close> bytes that is read up to its first NUL, and the rest of
  the path.
\<close>

definition skipelem :: "string \<Rightarrow> (string \<times> string) option" where
  "skipelem path =
     (let path = dropWhile (\<lambda>x. x = slash) path in
      if path = [] then None
      else let name = takeWhile (\<lambda>x. x \<noteq> slash) path;
               path = dropWhile (\<lambda>x. x \<noteq> slash) path
           in Some (take DIRSIZ name, dropWhile (\<lambda>x. x = slash) path))"

lemma skipelem_shorter: "skipelem path = Some (name, rest) \<Longrightarrow> length rest < length path"
proof -
  assume a: "skipelem path = Some (name, rest)"
  let ?p = "dropWhile (\<lambda>x. x = slash) path"
  from a have ne: "?p \<noteq> []"
    and r: "rest = dropWhile (\<lambda>x. x = slash) (dropWhile (\<lambda>x. x \<noteq> slash) ?p)"
    by (auto simp: skipelem_def Let_def split: if_splits)
  obtain x xs where p: "?p = x # xs" using ne by (cases ?p) auto
  have "x \<noteq> slash" using hd_dropWhile[OF ne] p by simp
  then have "length rest \<le> length xs"
    unfolding r p using length_dropWhile_le[of "\<lambda>x. x = slash" "dropWhile (\<lambda>x. x \<noteq> slash) xs"]
      length_dropWhile_le[of "\<lambda>x. x \<noteq> slash" xs] by simp
  then show ?thesis using length_dropWhile_le[of "\<lambda>x. x = slash" path] p by simp
qed

text \<open>The loop of \<open>namex\<close>; with \<open>par\<close> it stops at the parent, and the last element is the result.\<close>

function namex_loop :: "hardware \<Rightarrow> nat \<Rightarrow> bool \<Rightarrow> nat \<Rightarrow> string \<Rightarrow> 'a kfs_scheme
    \<Rightarrow> ((nat \<times> string) option \<times> 'a kfs_scheme) res" where
  "namex_loop h c par ip path s =
     (case skipelem path of
       None \<Rightarrow> if par then bindE (iput h c ip s) (\<lambda>s. Inr (None, s)) else Inr (Some (ip, []), s)
     | Some (name, path) \<Rightarrow>
         bindE (ilock h c (Some ip) s) (\<lambda>s.
         if di_type (din s ip) \<noteq> T_DIR then bindE (iunlockput h c ip s) (\<lambda>s. Inr (None, s))
         else if par \<and> path = [] then bindE (iunlock c (Some ip) s) (\<lambda>s. Inr (Some (ip, name), s))
         else
           bindE (dirlookup h c ip name s) (\<lambda>(nxt, s).
           case nxt of
             None \<Rightarrow> bindE (iunlockput h c ip s) (\<lambda>s. Inr (None, s))
           | Some (nxt, _) \<Rightarrow> bindE (iunlockput h c ip s) (\<lambda>s. namex_loop h c par nxt path s))))"
  by pat_completeness auto
termination
  by (relation "measure (\<lambda>(h, c, par, ip, path, s). length path)") (auto dest: skipelem_shorter)

declare namex_loop.simps [simp del]

definition namex :: "hardware \<Rightarrow> nat \<Rightarrow> bool \<Rightarrow> string \<Rightarrow> 'a kfs_scheme \<Rightarrow> ((nat \<times> string) option \<times> 'a kfs_scheme) res" where
  "namex h c par path s =
     bindE (if path \<noteq> [] \<and> hd path = slash then iget c ROOTDEV ROOTINO s
            else bindE (myproc c s) (\<lambda>(p, s).
              case p of None \<Rightarrow> Inl (Fault ''namex'') | Some p \<Rightarrow>
              (case cwd (procs s p) of None \<Rightarrow> Inl (Fault ''idup'') | Some ip \<Rightarrow>
                bindE (idup c ip s) (\<lambda>s. Inr (ip, s))))) (\<lambda>(ip, s).
     namex_loop h c par ip path s)"

definition namei :: "hardware \<Rightarrow> nat \<Rightarrow> string \<Rightarrow> 'a kfs_scheme \<Rightarrow> (nat option \<times> 'a kfs_scheme) res" where
  "namei h c path s = bindE (namex h c False path s) (\<lambda>(r, s). Inr (map_option fst r, s))"

definition nameiparent :: "hardware \<Rightarrow> nat \<Rightarrow> string \<Rightarrow> 'a kfs_scheme \<Rightarrow> ((nat \<times> string) option \<times> 'a kfs_scheme) res" where
  "nameiparent h c path = namex h c True path"

end
