(* ===== verification/File.thy ===== *)
theory File
  imports Dir
begin

text \<open>
  The table of open files, \<^verbatim>\<open>kernel/file.c\<close>, and \<open>pipealloc\<close> of \<^verbatim>\<open>kernel/pipe.c\<close>.

  A file is named by its index in the table.  A pipe operation that goes to sleep does not come
  back in the run.  The structure copied out by \<open>filestat\<close> has four bytes of padding before its
  size; \<open>st_pad\<close> is what the stack held there.
\<close>

definition NFILE :: nat where "NFILE = 100"
definition NDEV :: int where "NDEV = 10"

datatype ftype = FD_NONE | FD_PIPE | FD_INODE | FD_DEVICE

record open_file =
  f_type :: ftype
  f_ref :: int
  f_readable :: bool
  f_writable :: bool
  f_pipe :: uint64
  f_ip :: "nat option"
  f_off :: uint32
  f_major :: int

record kfile = kfs +
  files :: "nat \<Rightarrow> open_file"
  st_pad :: "uint8 list"

definition upd_file :: "nat \<Rightarrow> (open_file \<Rightarrow> open_file) \<Rightarrow> 'a kfile_scheme \<Rightarrow> 'a kfile_scheme" where
  "upd_file f g s = s\<lparr>files := (files s)(f := g (files s f))\<rparr>"

definition fileinit :: "'a kfile_scheme \<Rightarrow> 'a kfile_scheme" where
  "fileinit s = initlock FtableLock ''ftable'' s"

definition filealloc :: "nat \<Rightarrow> 'a kfile_scheme \<Rightarrow> (nat option \<times> 'a kfile_scheme) res" where
  "filealloc c = with_lock_ret c FtableLock (\<lambda>s.
     case find (\<lambda>f. f_ref (files s f) = 0) [0..<NFILE] of
       Some f \<Rightarrow> (Some f, upd_file f (f_ref_update (\<lambda>_. 1)) s)
     | None \<Rightarrow> (None, s))"

definition filedup :: "nat \<Rightarrow> nat \<Rightarrow> 'a kfile_scheme \<Rightarrow> 'a kfile_scheme res" where
  "filedup c f s =
     bindE (acquire c FtableLock s) (\<lambda>s.
     if f_ref (files s f) < 1 then Inl (Panic ''filedup'')
     else release c FtableLock (upd_file f (f_ref_update (\<lambda>n. n + 1)) s))"

definition fileclose :: "hardware \<Rightarrow> nat \<Rightarrow> nat \<Rightarrow> 'a kfile_scheme \<Rightarrow> 'a kfile_scheme res" where
  "fileclose h c f s =
     bindE (acquire c FtableLock s) (\<lambda>s.
     if f_ref (files s f) < 1 then Inl (Panic ''fileclose'')
     else let s = upd_file f (f_ref_update (\<lambda>n. n - 1)) s in
     if f_ref (files s f) > 0 then release c FtableLock s
     else
       let ff = files s f in
       bindE (release c FtableLock (upd_file f (\<lambda>x. x\<lparr>f_ref := 0, f_type := FD_NONE\<rparr>) s)) (\<lambda>s.
       case f_type ff of
         FD_PIPE \<Rightarrow> pipeclose c (f_pipe ff) (f_writable ff) s
       | FD_NONE \<Rightarrow> Inr s
       | _ \<Rightarrow>
           bindE (begin_op c s) (\<lambda>s.
           bindE (case f_ip ff of None \<Rightarrow> Inl (Fault ''iput'') | Some ip \<Rightarrow> iput h c ip s) (\<lambda>s.
           end_op h c s))))"

definition le_bytes :: "nat \<Rightarrow> 'w::len word \<Rightarrow> uint8 list" where
  "le_bytes n w = map (\<lambda>i. ucast (drop_bit (8 * i) w)) [0..<n]"

definition stat_bytes :: "uint8 list \<Rightarrow> stat \<Rightarrow> uint8 list" where
  "stat_bytes pad st = le_bytes 4 (of_int (st_dev st) :: uint32) @ le_bytes 4 (st_ino st)
     @ le_bytes 2 (of_int (st_type st) :: uint16) @ le_bytes 2 (of_int (st_nlink st) :: uint16)
     @ pad @ le_bytes 8 (st_size st)"

definition filestat :: "hardware \<Rightarrow> nat \<Rightarrow> nat \<Rightarrow> uint64 \<Rightarrow> 'a kfile_scheme \<Rightarrow> (int \<times> 'a kfile_scheme) res" where
  "filestat h c f addr s =
     bindE (mytable c s) (\<lambda>(pt, s).
     if f_type (files s f) = FD_INODE \<or> f_type (files s f) = FD_DEVICE then
       let ipp = f_ip (files s f) in
       bindE (ilock h c ipp s) (\<lambda>s.
       let st = stati (inodes s (the ipp)) in
       bindE (iunlock c ipp s) (\<lambda>s.
       bindE (copyout c pt addr (stat_bytes (st_pad s) st) s) (\<lambda>(r, s).
       Inr (if r < 0 then -1 else 0, s))))
     else Inr (-1, s))"

definition pipe_return :: "(pipe_result \<times> 's) res \<Rightarrow> (int \<times> 's) res" where
  "pipe_return r = bindE r (\<lambda>(x, s). case x of PDone n \<Rightarrow> Inr (n, s) | PSleep _ _ \<Rightarrow> Inl (Spin ''sleep''))"

definition has_device :: "int \<Rightarrow> 'a kfile_scheme \<Rightarrow> bool" where
  "has_device m s = (0 \<le> m \<and> m < NDEV \<and> devsw s (nat m))"

text \<open>The only entries of \<open>devsw\<close> are those of the console.\<close>

definition fileread :: "hardware \<Rightarrow> nat \<Rightarrow> nat \<Rightarrow> uint64 \<Rightarrow> int \<Rightarrow> 'a kfile_scheme \<Rightarrow> (int \<times> 'a kfile_scheme) res" where
  "fileread h c f addr n s =
     (if \<not> f_readable (files s f) then Inr (-1, s)
      else case f_type (files s f) of
        FD_PIPE \<Rightarrow> pipe_return (piperead c (f_pipe (files s f)) addr n s)
      | FD_DEVICE \<Rightarrow>
          if \<not> has_device (f_major (files s f)) s then Inr (-1, s)
          else consoleread c (ToUser addr) n s
      | FD_INODE \<Rightarrow>
          (let ipp = f_ip (files s f) in
           bindE (ilock h c ipp s) (\<lambda>s.
           bindE (readi h c (the ipp) (ToUser addr) (f_off (files s f)) (of_int n) s) (\<lambda>((r, _), s).
           let s = (if r > 0 then upd_file f (f_off_update (\<lambda>x. x + of_int r)) s else s) in
           bindE (iunlock c ipp s) (\<lambda>s. Inr (r, s)))))
      | FD_NONE \<Rightarrow> Inl (Panic ''fileread''))"

definition FW_MAX :: int where "FW_MAX = int (((MAXOPBLOCKS - 1 - 1 - 2) div 2) * BSIZE)"

function filewrite_loop :: "hardware \<Rightarrow> nat \<Rightarrow> nat \<Rightarrow> uint64 \<Rightarrow> int \<Rightarrow> int \<Rightarrow> 'a kfile_scheme \<Rightarrow> (int \<times> 'a kfile_scheme) res" where
  "filewrite_loop h c f addr n i s =
     (if i < n then
        let n1 = min (n - i) FW_MAX; ipp = f_ip (files s f) in
        bindE (begin_op c s) (\<lambda>s.
        bindE (ilock h c ipp s) (\<lambda>s.
        bindE (writei h c (the ipp) (FromUser (addr + of_int i)) (f_off (files s f)) (of_int n1) s) (\<lambda>(r, s).
        let s = (if r > 0 then upd_file f (f_off_update (\<lambda>x. x + of_int r)) s else s) in
        bindE (iunlock c ipp s) (\<lambda>s.
        bindE (end_op h c s) (\<lambda>s.
        if r \<noteq> n1 then Inr (i, s)
        else filewrite_loop h c f addr n (i + n1) s)))))
      else Inr (i, s))"
  by pat_completeness auto
termination
  by (relation "measure (\<lambda>(h, c, f, addr, n, i, s). nat (n - i))")
    (auto simp: FW_MAX_def MAXOPBLOCKS_def BSIZE_def)

declare filewrite_loop.simps [simp del]

definition filewrite :: "hardware \<Rightarrow> nat \<Rightarrow> nat \<Rightarrow> uint64 \<Rightarrow> int \<Rightarrow> 'a kfile_scheme \<Rightarrow> (int \<times> 'a kfile_scheme) res" where
  "filewrite h c f addr n s =
     (if \<not> f_writable (files s f) then Inr (-1, s)
      else case f_type (files s f) of
        FD_PIPE \<Rightarrow> pipe_return (pipewrite c (f_pipe (files s f)) addr n s)
      | FD_DEVICE \<Rightarrow>
          if \<not> has_device (f_major (files s f)) s then Inr (-1, s)
          else consolewrite c (FromUser addr) (nat n) 0 s
      | FD_INODE \<Rightarrow>
          bindE (filewrite_loop h c f addr n 0 s) (\<lambda>(i, s). Inr (if i = n then n else -1, s))
      | FD_NONE \<Rightarrow> Inl (Panic ''filewrite''))"

text \<open>The error exit of \<open>pipealloc\<close> closes the files it had got; without them there is no pipe.\<close>

definition close_opt :: "hardware \<Rightarrow> nat \<Rightarrow> nat option \<Rightarrow> 'a kfile_scheme \<Rightarrow> 'a kfile_scheme res" where
  "close_opt h c f s = (case f of None \<Rightarrow> Inr s | Some f \<Rightarrow> fileclose h c f s)"

definition pipealloc :: "hardware \<Rightarrow> nat \<Rightarrow> 'a kfile_scheme \<Rightarrow> ((nat \<times> nat) option \<times> 'a kfile_scheme) res" where
  "pipealloc h c s =
     (let bad = (\<lambda>f0 f1 s. bindE (close_opt h c f0 s) (\<lambda>s. bindE (close_opt h c f1 s) (\<lambda>s. Inr (None, s)))) in
      bindE (filealloc c s) (\<lambda>(f0, s).
      case f0 of None \<Rightarrow> bad None None s | Some f0 \<Rightarrow>
      bindE (filealloc c s) (\<lambda>(f1, s).
      case f1 of None \<Rightarrow> bad (Some f0) None s | Some f1 \<Rightarrow>
      bindE (kalloc c s) (\<lambda>(pi, s).
      if pi = 0 then bad (Some f0) (Some f1) s
      else
        let s = upd_pipe pi pipe_init s;
            s = upd_file f0 (\<lambda>x. x\<lparr>f_type := FD_PIPE, f_readable := True, f_writable := False, f_pipe := pi\<rparr>) s;
            s = upd_file f1 (\<lambda>x. x\<lparr>f_type := FD_PIPE, f_readable := False, f_writable := True, f_pipe := pi\<rparr>) s
        in Inr (Some (f0, f1), s)))))"

end
