(* ===== verification/ProcLife.thy ===== *)
theory ProcLife
  imports File
begin

text \<open>
  The life of a process, \<^verbatim>\<open>kernel/proc.c\<close>: allocation of its slot and pages, fork, exit, wait and the
  size of its memory; the whole functions, of which \<^verbatim>\<open>ProcTable\<close> has the parts on the table alone.

  The trap frame is the page at \<open>trapframe\<close>, read and written as the 64-bit words of \<open>ram\<close> at the
  offsets of \<^verbatim>\<open>struct trapframe\<close>.  \<open>forkret_addr\<close> is the address of \<open>forkret\<close> in the kernel image.
\<close>

unbundle bit_operations_syntax

record kproc = kfile +
  ticks :: uint32
  forkret_addr :: uint64

abbreviation TF_EPC :: uint64 where "TF_EPC \<equiv> 24"
abbreviation TF_SP :: uint64 where "TF_SP \<equiv> 48"
abbreviation TF_A0 :: uint64 where "TF_A0 \<equiv> 112"
abbreviation TF_A1 :: uint64 where "TF_A1 \<equiv> 120"
abbreviation TF_A7 :: uint64 where "TF_A7 \<equiv> 168"
abbreviation TF_SIZE :: nat where "TF_SIZE \<equiv> 288"

definition tf_get :: "nat \<Rightarrow> uint64 \<Rightarrow> 'a kmem_scheme \<Rightarrow> uint64" where
  "tf_get p off s = load64 (ram s) (trapframe (procs s p) + off)"

definition tf_set :: "nat \<Rightarrow> uint64 \<Rightarrow> uint64 \<Rightarrow> 'a kmem_scheme \<Rightarrow> 'a kmem_scheme" where
  "tf_set p off v s = s\<lparr>ram := store64 (trapframe (procs s p) + off) v (ram s)\<rparr>"

definition current :: "nat \<Rightarrow> string \<Rightarrow> 'a machine_scheme \<Rightarrow> (nat \<times> 'a machine_scheme) res" where
  "current c msg s = bindE (myproc c s) (\<lambda>(p, s).
     case p of None \<Rightarrow> Inl (Fault msg) | Some p \<Rightarrow> Inr (p, s))"

subsection \<open>Pages and slots\<close>

definition proc_pagetable :: "nat \<Rightarrow> nat \<Rightarrow> 'a kmem_scheme \<Rightarrow> (uint64 \<times> 'a kmem_scheme) res" where
  "proc_pagetable c p s =
     bindE (uvmcreate c s) (\<lambda>(pt, s).
     if pt = 0 then Inr (0, s)
     else
       bindE (mappages c pt TRAMPOLINE PGSIZE trampoline (PTE_R OR PTE_X) s) (\<lambda>(r, s).
       if r < 0 then bindE (uvmfree c pt 0 s) (\<lambda>s. Inr (0, s))
       else
         bindE (mappages c pt TRAPFRAME PGSIZE (trapframe (procs s p)) (PTE_R OR PTE_W) s) (\<lambda>(r, s).
         if r < 0 then
           bindE (uvmunmap c pt TRAMPOLINE 1 False s) (\<lambda>s.
           bindE (uvmfree c pt 0 s) (\<lambda>s. Inr (0, s)))
         else Inr (pt, s))))"

definition proc_freepagetable :: "nat \<Rightarrow> uint64 \<Rightarrow> uint64 \<Rightarrow> 'a kmem_scheme \<Rightarrow> 'a kmem_scheme res" where
  "proc_freepagetable c pt sz s =
     bindE (uvmunmap c pt TRAMPOLINE 1 False s) (\<lambda>s.
     bindE (uvmunmap c pt TRAPFRAME 1 False s) (\<lambda>s.
     uvmfree c pt sz s))"

definition freeproc :: "nat \<Rightarrow> nat \<Rightarrow> 'a kmem_scheme \<Rightarrow> 'a kmem_scheme res" where
  "freeproc c p s =
     bindE (if trapframe (procs s p) \<noteq> 0 then kfree c (trapframe (procs s p)) s else Inr s) (\<lambda>s.
     let s = upd_proc p (trapframe_update (\<lambda>_. 0)) s in
     bindE (if pagetable (procs s p) \<noteq> 0
            then proc_freepagetable c (pagetable (procs s p)) (psz (procs s p)) s else Inr s) (\<lambda>s.
     let s = upd_proc p (pagetable_update (\<lambda>_. 0)) s in
     Inr (freeproc_reset p s)))"

definition allocproc :: "nat \<Rightarrow> 'a kproc_scheme \<Rightarrow> (nat option \<times> 'a kproc_scheme) res" where
  "allocproc c s =
     bindE (allocproc_find c s) (\<lambda>(found, s).
     case found of None \<Rightarrow> Inr (None, s) | Some p \<Rightarrow>
       let bad = (\<lambda>s. bindE (freeproc c p s) (\<lambda>s. bindE (release c (ProcLock p) s) (\<lambda>s. Inr (None, s)))) in
       bindE (allocproc_claim c p s) (\<lambda>s.
       bindE (kalloc c s) (\<lambda>(tf, s).
       let s = upd_proc p (trapframe_update (\<lambda>_. tf)) s in
       if tf = 0 then bad s
       else
         bindE (proc_pagetable c p s) (\<lambda>(pt, s).
         let s = upd_proc p (pagetable_update (\<lambda>_. pt)) s in
         if pt = 0 then bad s
         else Inr (Some p, upd_proc p (\<lambda>q. q\<lparr>pcontext := \<lparr>ctx_ra = forkret_addr s,
                ctx_sp = kstack q + PGSIZE, ctx_s = (\<lambda>_. 0)\<rparr>\<rparr>) s)))))"

definition userinit :: "hardware \<Rightarrow> nat \<Rightarrow> 'a kproc_scheme \<Rightarrow> 'a kproc_scheme res" where
  "userinit h c s =
     bindE (allocproc c s) (\<lambda>(p, s).
     let s = s\<lparr>initproc := p\<rparr> in
     bindE (namei h c ''/'' s) (\<lambda>(ip, s).
     case p of None \<Rightarrow> Inl (Fault ''userinit'') | Some p \<Rightarrow>
     release c (ProcLock p) (upd_proc p (\<lambda>q. q\<lparr>cwd := ip, pstate := RUNNABLE\<rparr>) s)))"

definition growproc :: "nat \<Rightarrow> int \<Rightarrow> 'a kmem_scheme \<Rightarrow> (int \<times> 'a kmem_scheme) res" where
  "growproc c n s =
     bindE (current c ''growproc'' s) (\<lambda>(p, s).
     let sz = psz (procs s p); pt = pagetable (procs s p) in
     if n > 0 then
       if sz + of_int n > TRAPFRAME then Inr (-1, s)
       else
         bindE (uvmalloc c pt sz (sz + of_int n) PTE_W s) (\<lambda>(sz, s).
         if sz = 0 then Inr (-1, s) else Inr (0, upd_proc p (psz_update (\<lambda>_. sz)) s))
     else if n < 0 then
       bindE (uvmdealloc c pt sz (sz + of_int n) s) (\<lambda>(sz, s).
       Inr (0, upd_proc p (psz_update (\<lambda>_. sz)) s))
     else Inr (0, upd_proc p (psz_update (\<lambda>_. sz)) s))"

subsection \<open>Fork\<close>

text \<open>The loop over the open files; a child's slot keeps what it held where the parent has none.\<close>

definition dup_files :: "nat \<Rightarrow> nat \<Rightarrow> nat \<Rightarrow> 'a kfile_scheme \<Rightarrow> 'a kfile_scheme res" where
  "dup_files c p np = for_each (\<lambda>i s.
     case ofile (procs s p) i of
       None \<Rightarrow> Inr s
     | Some f \<Rightarrow> bindE (filedup c f s) (\<lambda>s.
         Inr (upd_proc np (\<lambda>q. q\<lparr>ofile := (ofile q)(i := Some f)\<rparr>) s))) [0..<NOFILE]"

definition kfork :: "nat \<Rightarrow> 'a kproc_scheme \<Rightarrow> (int \<times> 'a kproc_scheme) res" where
  "kfork c s =
     bindE (current c ''kfork'' s) (\<lambda>(p, s).
     bindE (allocproc c s) (\<lambda>(np, s).
     case np of None \<Rightarrow> Inr (-1, s) | Some np \<Rightarrow>
     bindE (uvmcopy c (pagetable (procs s p)) (pagetable (procs s np)) (psz (procs s p)) s) (\<lambda>(r, s).
     if r < 0 then
       bindE (freeproc c np s) (\<lambda>s.
       bindE (release c (ProcLock np) s) (\<lambda>s. Inr (-1, s)))
     else
       let s = upd_proc np (psz_update (\<lambda>_. psz (procs s p))) s;
           s = s\<lparr>ram := store_bytes (trapframe (procs s np))
                  (load_bytes (ram s) (trapframe (procs s p)) TF_SIZE) (ram s)\<rparr>;
           s = tf_set np TF_A0 0 s
       in
       bindE (dup_files c p np s) (\<lambda>s.
       case cwd (procs s p) of None \<Rightarrow> Inl (Fault ''idup'') | Some ip \<Rightarrow>
       bindE (idup c ip s) (\<lambda>s.
       let s = upd_proc np (\<lambda>q. q\<lparr>cwd := Some ip, pname := cstr (safestrcpy (pname (procs s p)) 16)\<rparr>) s
       in kfork_publish c p np s)))))"

subsection \<open>Exit and wait\<close>

definition close_files :: "hardware \<Rightarrow> nat \<Rightarrow> nat \<Rightarrow> 'a kfile_scheme \<Rightarrow> 'a kfile_scheme res" where
  "close_files h c p = for_each (\<lambda>fd s.
     case ofile (procs s p) fd of
       None \<Rightarrow> Inr s
     | Some f \<Rightarrow> bindE (fileclose h c f s) (\<lambda>s.
         Inr (upd_proc p (\<lambda>q. q\<lparr>ofile := (ofile q)(fd := None)\<rparr>) s))) [0..<NOFILE]"

text \<open>Up to the switch to the scheduler; a run of \<open>kexit\<close> never comes back from it.\<close>

definition kexit :: "hardware \<Rightarrow> nat \<Rightarrow> int \<Rightarrow> 'a kproc_scheme \<Rightarrow> (bool \<times> 'a kproc_scheme) res" where
  "kexit h c status s =
     bindE (current c ''kexit'' s) (\<lambda>(p, s).
     if Some p = initproc s then Inl (Panic ''init exiting'')
     else
       bindE (close_files h c p s) (\<lambda>s.
       bindE (begin_op c s) (\<lambda>s.
       case cwd (procs s p) of None \<Rightarrow> Inl (Fault ''iput'') | Some ip \<Rightarrow>
       bindE (iput h c ip s) (\<lambda>s.
       bindE (end_op h c s) (\<lambda>s.
       kexit_leave c p status (upd_proc p (cwd_update (\<lambda>_. None)) s))))))"

text \<open>
  One pass of \<open>kwait\<close> over the table, with the flag \<open>havekids\<close>; the value of a child found dead
  ends the call.
\<close>

definition kwait_child :: "nat \<Rightarrow> nat \<Rightarrow> uint64 \<Rightarrow> nat \<Rightarrow> bool \<times> 'a kproc_scheme
    \<Rightarrow> (int option \<times> bool \<times> 'a kproc_scheme) res" where
  "kwait_child c p addr pp = (\<lambda>(havekids, s).
     if parent (procs s pp) = Some p then
       bindE (acquire c (ProcLock pp) s) (\<lambda>s.
       if pstate (procs s pp) = ZOMBIE then
         let n = pid (procs s pp) in
         bindE (if addr \<noteq> 0
                then copyout c (pagetable (procs s p)) addr (le_bytes 4 (of_int (xstate (procs s pp)) :: uint32)) s
                else Inr (0, s)) (\<lambda>(r, s).
         bindE (if r < 0 then Inr s else freeproc c pp s) (\<lambda>s.
         bindE (release c (ProcLock pp) s) (\<lambda>s.
         bindE (release c WaitLock s) (\<lambda>s.
         Inr (Some (if r < 0 then -1 else n), True, s)))))
       else bindE (release c (ProcLock pp) s) (\<lambda>s. Inr (None, True, s)))
     else Inr (None, havekids, s))"

definition kwait :: "nat \<Rightarrow> uint64 \<Rightarrow> 'a kproc_scheme \<Rightarrow> (int \<times> 'a kproc_scheme) res" where
  "kwait c addr s =
     bindE (current c ''kwait'' s) (\<lambda>(p, s).
     bindE (acquire c WaitLock s) (\<lambda>s.
     bindE (find_loop (kwait_child c p addr) [0..<NPROC] (False, s)) (\<lambda>(r, havekids, s).
     case r of Some n \<Rightarrow> Inr (n, s) | None \<Rightarrow>
     bindE (if havekids then killed c p s else Inr (True, s)) (\<lambda>(stop, s).
     if stop then bindE (release c WaitLock s) (\<lambda>s. Inr (-1, s))
     else sleeps c (ChProc p) WaitLock s))))"

end
