(* ===== verification/Exec.thy ===== *)
theory Exec
  imports ProcLife
begin

text \<open>
  Program loading, \<^verbatim>\<open>kernel/exec.c\<close>, with the headers of \<^verbatim>\<open>kernel/elf.h\<close>.

  The headers are the little-endian words of the bytes \<open>readi\<close> returns.  The argument strings are
  the list \<open>argv\<close>, which C ends with a null pointer.
\<close>

unbundle bit_operations_syntax

definition ELF_MAGIC :: uint32 where "ELF_MAGIC = 0x464C457F"
definition ELF_PROG_LOAD :: uint32 where "ELF_PROG_LOAD = 1"
definition MAXARG :: nat where "MAXARG = 32"
definition USERSTACK :: uint64 where "USERSTACK = 1"

definition get64 :: "uint8 list \<Rightarrow> nat \<Rightarrow> uint64" where
  "get64 d k = ucast (get32 d k) OR push_bit 32 (ucast (get32 d (k + 4)))"

record elfhdr =
  e_magic :: uint32
  e_entry :: uint64
  e_phoff :: uint64
  e_phnum :: uint16

record proghdr =
  ph_type :: uint32
  ph_flags :: uint32
  ph_off :: uint64
  ph_vaddr :: uint64
  ph_filesz :: uint64
  ph_memsz :: uint64

definition get_elfhdr :: "uint8 list \<Rightarrow> elfhdr" where
  "get_elfhdr d = \<lparr>e_magic = get32 d 0, e_entry = get64 d 24, e_phoff = get64 d 32, e_phnum = get16 d 56\<rparr>"

definition get_proghdr :: "uint8 list \<Rightarrow> proghdr" where
  "get_proghdr d = \<lparr>ph_type = get32 d 0, ph_flags = get32 d 4, ph_off = get64 d 8,
     ph_vaddr = get64 d 16, ph_filesz = get64 d 32, ph_memsz = get64 d 40\<rparr>"

definition flags2perm :: "uint32 \<Rightarrow> uint64" where
  "flags2perm flags =
     (let perm = (if flags AND 1 \<noteq> 0 then PTE_X else 0)
      in if flags AND 2 \<noteq> 0 then perm OR PTE_W else perm)"

text \<open>The offsets of the pages of a segment, and the load of one of them: a short read ends it.\<close>

definition loadseg :: "hardware \<Rightarrow> nat \<Rightarrow> uint64 \<Rightarrow> uint64 \<Rightarrow> nat \<Rightarrow> uint32 \<Rightarrow> uint32 \<Rightarrow> 'a kproc_scheme
    \<Rightarrow> (int \<times> 'a kproc_scheme) res" where
  "loadseg h c pt va ip offset sz s =
     bindE (find_loop (\<lambda>i s.
       bindE (walkaddr c pt (va + of_nat i) s) (\<lambda>(pa, s).
       if pa = 0 then Inl (Panic ''loadseg: address should exist'')
       else
         let n = (if sz - of_nat i < 4096 then sz - of_nat i else 4096) in
         bindE (readi h c ip (ToKern pa) (offset + of_nat i) n s) (\<lambda>((r, _), s).
         Inr (if r \<noteq> sint n then Some (-1) else None, s))))
       (map ((*) 4096) [0..<(unat sz + 4095) div 4096]) s) (\<lambda>(r, s).
     Inr (case r of Some x \<Rightarrow> x | None \<Rightarrow> 0, s))"

text \<open>
  The loop over the program headers: whether it reached its end, and the size of the image so far,
  which the error exit frees.
\<close>

fun exec_load :: "hardware \<Rightarrow> nat \<Rightarrow> nat \<Rightarrow> uint64 \<Rightarrow> nat \<Rightarrow> int \<Rightarrow> uint64 \<Rightarrow> 'a kproc_scheme
    \<Rightarrow> ((bool \<times> uint64) \<times> 'a kproc_scheme) res" where
  "exec_load h c ip pt 0 off sz s = Inr ((True, sz), s)"
| "exec_load h c ip pt (Suc n) off sz s =
     bindE (readi h c ip ToVar (of_int off) 56 s) (\<lambda>((r, d), s).
     let ph = get_proghdr d in
     if r \<noteq> 56 then Inr ((False, sz), s)
     else if ph_type ph \<noteq> ELF_PROG_LOAD then exec_load h c ip pt n (i32 (off + 56)) sz s
     else if ph_memsz ph < ph_filesz ph \<or> ph_vaddr ph + ph_memsz ph < ph_vaddr ph \<or> ph_vaddr ph mod PGSIZE \<noteq> 0
       then Inr ((False, sz), s)
     else
       bindE (uvmalloc c pt sz (ph_vaddr ph + ph_memsz ph) (flags2perm (ph_flags ph)) s) (\<lambda>(sz1, s).
       if sz1 = 0 then Inr ((False, sz), s)
       else
         bindE (loadseg h c pt (ph_vaddr ph) ip (ucast (ph_off ph)) (ucast (ph_filesz ph)) s) (\<lambda>(r, s).
         if r < 0 then Inr ((False, sz1), s)
         else exec_load h c ip pt n (i32 (off + 56)) sz1 s)))"

text \<open>The loop over the argument strings: the stack pointer and the addresses, or \<open>None\<close>.\<close>

definition push_string :: "string \<Rightarrow> uint64 \<Rightarrow> uint64" where
  "push_string a sp = (let sp = sp - of_nat (strlen a + 1) in sp - sp mod 16)"

fun exec_args :: "nat \<Rightarrow> uint64 \<Rightarrow> uint64 \<Rightarrow> string list \<Rightarrow> uint64 list \<Rightarrow> uint64 \<Rightarrow> 'a kproc_scheme
    \<Rightarrow> ((uint64 \<times> uint64 list) option \<times> 'a kproc_scheme) res" where
  "exec_args c pt base [] us sp s = Inr (Some (sp, us), s)"
| "exec_args c pt base (a # as) us sp s =
     (if length us \<ge> MAXARG then Inr (None, s)
      else let sp = push_string a sp in
      if sp < base then Inr (None, s)
      else
        bindE (copyout c pt sp (map of_char a @ [0]) s) (\<lambda>(r, s).
        if r < 0 then Inr (None, s) else exec_args c pt base as (us @ [sp]) sp s))"

definition base_name :: "string \<Rightarrow> string" where
  "base_name path = rev (takeWhile (\<lambda>x. x \<noteq> slash) (rev path))"

text \<open>The end of \<open>kexec\<close>, from \<^verbatim>\<open>p->trapframe->a1 = sp\<close>.\<close>

definition exec_commit :: "nat \<Rightarrow> nat \<Rightarrow> string \<Rightarrow> uint64 \<Rightarrow> uint64 \<Rightarrow> uint64 \<Rightarrow> uint64 \<Rightarrow> uint64 \<Rightarrow> 'a kproc_scheme
    \<Rightarrow> 'a kproc_scheme res" where
  "exec_commit c p path pt sz oldsz ent sp s =
     (let s = tf_set p TF_A1 sp s;
          s = upd_proc p (pname_update (\<lambda>_. cstr (safestrcpy (base_name path) 16))) s;
          oldpt = pagetable (procs s p);
          s = upd_proc p (\<lambda>q. q\<lparr>pagetable := pt, psz := sz\<rparr>) s;
          s = tf_set p TF_EPC ent s;
          s = tf_set p TF_SP sp s
      in proc_freepagetable c oldpt oldsz s)"

text \<open>The user stack and the arguments, lines 87 to 117: the new size and stack pointer, or \<open>None\<close>.\<close>

definition exec_stack :: "nat \<Rightarrow> uint64 \<Rightarrow> string list \<Rightarrow> uint64 \<Rightarrow> 'a kproc_scheme
    \<Rightarrow> ((uint64 \<times> uint64 option) \<times> 'a kproc_scheme) res" where
  "exec_stack c pt argv sz s =
     (let sz = PGROUNDUP sz in
      bindE (uvmalloc c pt sz (sz + (USERSTACK + 1) * PGSIZE) PTE_W s) (\<lambda>(sz1, s).
      if sz1 = 0 then Inr ((sz, None), s)
      else
        bindE (uvmclear c pt (sz1 - (USERSTACK + 1) * PGSIZE) s) (\<lambda>s.
        let base = sz1 - USERSTACK * PGSIZE in
        bindE (exec_args c pt base argv [] sz1 s) (\<lambda>(r, s).
        case r of None \<Rightarrow> Inr ((sz1, None), s) | Some (sp, us) \<Rightarrow>
        if length us \<ge> MAXARG then Inl (Fault ''kexec: ustack'')
        else
          let sp = sp - of_nat (length us + 1) * 8; sp = sp - sp mod 16 in
          if sp < base then Inr ((sz1, None), s)
          else
            bindE (copyout c pt sp (concat (map (le_bytes 8) (us @ [0]))) s) (\<lambda>(r, s).
            Inr ((sz1, if r < 0 then None else Some sp), s))))))"

definition kexec :: "hardware \<Rightarrow> nat \<Rightarrow> string \<Rightarrow> string list \<Rightarrow> 'a kproc_scheme \<Rightarrow> (int \<times> 'a kproc_scheme) res" where
  "kexec h c path argv s =
     bindE (current c ''kexec'' s) (\<lambda>(p, s).
     bindE (begin_op c s) (\<lambda>s.
     bindE (namei h c path s) (\<lambda>(ipp, s).
     case ipp of None \<Rightarrow> bindE (end_op h c s) (\<lambda>s. Inr (-1, s)) | Some ip \<Rightarrow>
     let bad = (\<lambda>s. bindE (iunlockput h c ip s) (\<lambda>s. bindE (end_op h c s) (\<lambda>s. Inr (-1, s)))) in
     bindE (ilock h c ipp s) (\<lambda>s.
     bindE (readi h c ip ToVar 0 64 s) (\<lambda>((r, d), s).
     let elf = get_elfhdr d in
     if r \<noteq> 64 \<or> e_magic elf \<noteq> ELF_MAGIC then bad s
     else
       bindE (proc_pagetable c p s) (\<lambda>(pt, s).
       if pt = 0 then bad s
       else
         bindE (exec_load h c ip pt (unat (e_phnum elf)) (sint (ucast (e_phoff elf) :: uint32)) 0 s) (\<lambda>((ok, sz), s).
         if \<not> ok then bindE (proc_freepagetable c pt sz s) bad
         else
           bindE (iunlockput h c ip s) (\<lambda>s.
           bindE (end_op h c s) (\<lambda>s.
           let oldsz = psz (procs s p) in
           bindE (exec_stack c pt argv sz s) (\<lambda>((sz, r), s).
           case r of
             None \<Rightarrow> bindE (proc_freepagetable c pt sz s) (\<lambda>s. Inr (-1, s))
           | Some sp \<Rightarrow>
               bindE (exec_commit c p path pt sz oldsz (e_entry elf) sp s) (\<lambda>s.
               Inr (int (length argv), s))))))))))))"

end
