(* ===== verification/Sysfile.thy ===== *)
theory Sysfile
  imports Exec
begin

text \<open>
  System call arguments, \<^verbatim>\<open>kernel/syscall.c\<close>, and the file system calls, \<^verbatim>\<open>kernel/sysfile.c\<close>.

  A string fetched from user memory is the text before its NUL; \<open>None\<close> is a failed fetch.
\<close>

unbundle bit_operations_syntax

definition MAXPATH :: nat where "MAXPATH = 128"
definition O_RDONLY :: int where "O_RDONLY = 0"
definition O_WRONLY :: int where "O_WRONLY = 1"
definition O_RDWR :: int where "O_RDWR = 2"
definition O_CREATE :: int where "O_CREATE = 0x200"
definition O_TRUNC :: int where "O_TRUNC = 0x400"

subsection \<open>Arguments\<close>

definition fetchaddr :: "nat \<Rightarrow> uint64 \<Rightarrow> 'a kproc_scheme \<Rightarrow> (uint64 option \<times> 'a kproc_scheme) res" where
  "fetchaddr c addr s =
     bindE (current c ''fetchaddr'' s) (\<lambda>(p, s).
     if addr \<ge> psz (procs s p) \<or> addr + 8 > psz (procs s p) then Inr (None, s)
     else
       bindE (copyin c (pagetable (procs s p)) addr 8 s) (\<lambda>((r, bs), s).
       Inr (if r \<noteq> 0 then None else Some (get64 bs 0), s)))"

definition fetchstr :: "nat \<Rightarrow> uint64 \<Rightarrow> nat \<Rightarrow> 'a kproc_scheme \<Rightarrow> (string option \<times> 'a kproc_scheme) res" where
  "fetchstr c addr mx s =
     bindE (current c ''fetchstr'' s) (\<lambda>(p, s).
     bindE (copyinstr c (pagetable (procs s p)) addr mx s) (\<lambda>((r, bs), s).
     Inr (if r < 0 then None else Some (cstr (map (\<lambda>b. char_of (unat b)) bs)), s)))"

definition argraw :: "nat \<Rightarrow> nat \<Rightarrow> 'a kproc_scheme \<Rightarrow> (uint64 \<times> 'a kproc_scheme) res" where
  "argraw c n s =
     bindE (current c ''argraw'' s) (\<lambda>(p, s).
     if n \<le> 5 then Inr (tf_get p (TF_A0 + 8 * of_nat n) s, s) else Inl (Panic ''argraw''))"

definition argint :: "nat \<Rightarrow> nat \<Rightarrow> 'a kproc_scheme \<Rightarrow> (int \<times> 'a kproc_scheme) res" where
  "argint c n s = bindE (argraw c n s) (\<lambda>(x, s). Inr (sint (ucast x :: uint32), s))"

definition argaddr :: "nat \<Rightarrow> nat \<Rightarrow> 'a kproc_scheme \<Rightarrow> (uint64 \<times> 'a kproc_scheme) res" where
  "argaddr c n = argraw c n"

definition argstr :: "nat \<Rightarrow> nat \<Rightarrow> nat \<Rightarrow> 'a kproc_scheme \<Rightarrow> (string option \<times> 'a kproc_scheme) res" where
  "argstr c n mx s = bindE (argaddr c n s) (\<lambda>(a, s). fetchstr c a mx s)"

subsection \<open>Descriptors\<close>

definition argfd :: "nat \<Rightarrow> nat \<Rightarrow> 'a kproc_scheme \<Rightarrow> ((nat \<times> nat) option \<times> 'a kproc_scheme) res" where
  "argfd c n s =
     bindE (argint c n s) (\<lambda>(fd, s).
     if fd < 0 \<or> fd \<ge> int NOFILE then Inr (None, s)
     else
       bindE (current c ''argfd'' s) (\<lambda>(p, s).
       Inr (map_option (\<lambda>f. (nat fd, f)) (ofile (procs s p) (nat fd)), s)))"

definition fdalloc :: "nat \<Rightarrow> nat \<Rightarrow> 'a kproc_scheme \<Rightarrow> (nat option \<times> 'a kproc_scheme) res" where
  "fdalloc c f s =
     bindE (current c ''fdalloc'' s) (\<lambda>(p, s).
     case find (\<lambda>fd. ofile (procs s p) fd = None) [0..<NOFILE] of
       None \<Rightarrow> Inr (None, s)
     | Some fd \<Rightarrow> Inr (Some fd, upd_proc p (\<lambda>q. q\<lparr>ofile := (ofile q)(fd := Some f)\<rparr>) s))"

definition clear_fd :: "nat \<Rightarrow> nat \<Rightarrow> 'a ptable_scheme \<Rightarrow> 'a ptable_scheme" where
  "clear_fd p fd = upd_proc p (\<lambda>q. q\<lparr>ofile := (ofile q)(fd := None)\<rparr>)"

definition sys_dup :: "nat \<Rightarrow> 'a kproc_scheme \<Rightarrow> (int \<times> 'a kproc_scheme) res" where
  "sys_dup c s =
     bindE (argfd c 0 s) (\<lambda>(r, s).
     case r of None \<Rightarrow> Inr (-1, s) | Some (_, f) \<Rightarrow>
     bindE (fdalloc c f s) (\<lambda>(fd, s).
     case fd of None \<Rightarrow> Inr (-1, s) | Some fd \<Rightarrow>
     bindE (filedup c f s) (\<lambda>s. Inr (int fd, s))))"

definition sys_read :: "hardware \<Rightarrow> nat \<Rightarrow> 'a kproc_scheme \<Rightarrow> (int \<times> 'a kproc_scheme) res" where
  "sys_read h c s =
     bindE (argaddr c 1 s) (\<lambda>(p, s).
     bindE (argint c 2 s) (\<lambda>(n, s).
     bindE (argfd c 0 s) (\<lambda>(r, s).
     case r of None \<Rightarrow> Inr (-1, s) | Some (_, f) \<Rightarrow> fileread h c f p n s)))"

definition sys_write :: "hardware \<Rightarrow> nat \<Rightarrow> 'a kproc_scheme \<Rightarrow> (int \<times> 'a kproc_scheme) res" where
  "sys_write h c s =
     bindE (argaddr c 1 s) (\<lambda>(p, s).
     bindE (argint c 2 s) (\<lambda>(n, s).
     bindE (argfd c 0 s) (\<lambda>(r, s).
     case r of None \<Rightarrow> Inr (-1, s) | Some (_, f) \<Rightarrow> filewrite h c f p n s)))"

definition sys_close :: "hardware \<Rightarrow> nat \<Rightarrow> 'a kproc_scheme \<Rightarrow> (int \<times> 'a kproc_scheme) res" where
  "sys_close h c s =
     bindE (argfd c 0 s) (\<lambda>(r, s).
     case r of None \<Rightarrow> Inr (-1, s) | Some (fd, f) \<Rightarrow>
     bindE (current c ''sys_close'' s) (\<lambda>(p, s).
     bindE (fileclose h c f (clear_fd p fd s)) (\<lambda>s. Inr (0, s))))"

definition sys_fstat :: "hardware \<Rightarrow> nat \<Rightarrow> 'a kproc_scheme \<Rightarrow> (int \<times> 'a kproc_scheme) res" where
  "sys_fstat h c s =
     bindE (argaddr c 1 s) (\<lambda>(st, s).
     bindE (argfd c 0 s) (\<lambda>(r, s).
     case r of None \<Rightarrow> Inr (-1, s) | Some (_, f) \<Rightarrow> filestat h c f st s))"

subsection \<open>Links\<close>

text \<open>\<^verbatim>\<open>end_op(); return r\<close>.\<close>

definition op_return :: "hardware \<Rightarrow> nat \<Rightarrow> 'r \<Rightarrow> 'a kfs_scheme \<Rightarrow> ('r \<times> 'a kfs_scheme) res" where
  "op_return h c r s = bindE (end_op h c s) (\<lambda>s. Inr (r, s))"

definition add_nlink :: "int \<Rightarrow> nat \<Rightarrow> 'a kfs_scheme \<Rightarrow> 'a kfs_scheme" where
  "add_nlink k ip = upd_din ip (di_nlink_update (\<lambda>n. sint (of_int (n + k) :: uint16)))"

definition sys_link_bad :: "hardware \<Rightarrow> nat \<Rightarrow> nat \<Rightarrow> 'a kfs_scheme \<Rightarrow> (int \<times> 'a kfs_scheme) res" where
  "sys_link_bad h c ip s =
     bindE (ilock h c (Some ip) s) (\<lambda>s.
     bindE (iupdate h c ip (add_nlink (-1) ip s)) (\<lambda>s.
     bindE (iunlockput h c ip s) (op_return h c (-1))))"

definition sys_link :: "hardware \<Rightarrow> nat \<Rightarrow> 'a kproc_scheme \<Rightarrow> (int \<times> 'a kproc_scheme) res" where
  "sys_link h c s =
     bindE (argstr c 0 MAXPATH s) (\<lambda>(old, s).
     case old of None \<Rightarrow> Inr (-1, s) | Some old \<Rightarrow>
     bindE (argstr c 1 MAXPATH s) (\<lambda>(new, s).
     case new of None \<Rightarrow> Inr (-1, s) | Some new \<Rightarrow>
     bindE (begin_op c s) (\<lambda>s.
     bindE (namei h c old s) (\<lambda>(ipp, s).
     case ipp of None \<Rightarrow> op_return h c (-1) s | Some ip \<Rightarrow>
     bindE (ilock h c ipp s) (\<lambda>s.
     if di_type (din s ip) = T_DIR then bindE (iunlockput h c ip s) (op_return h c (-1))
     else
       bindE (iupdate h c ip (add_nlink 1 ip s)) (\<lambda>s.
       bindE (iunlock c ipp s) (\<lambda>s.
       bindE (nameiparent h c new s) (\<lambda>(r, s).
       case r of None \<Rightarrow> sys_link_bad h c ip s | Some (dp, name) \<Rightarrow>
       bindE (ilock h c (Some dp) s) (\<lambda>s.
       bindE (if i_dev (inodes s dp) \<noteq> i_dev (inodes s ip) then Inr (-1, s)
              else dirlink h c dp name (i_inum (inodes s ip)) s) (\<lambda>(r, s).
       bindE (iunlockput h c dp s) (\<lambda>s.
       if r < 0 then sys_link_bad h c ip s
       else bindE (iput h c ip s) (op_return h c 0))))))))))))"

definition isdirempty :: "hardware \<Rightarrow> nat \<Rightarrow> nat \<Rightarrow> 'a kfs_scheme \<Rightarrow> (bool \<times> 'a kfs_scheme) res" where
  "isdirempty h c dp s =
     bindE (find_loop (\<lambda>off s.
       bindE (read_entry h c ''isdirempty: readi'' dp off s) (\<lambda>(de, s).
       Inr (if de_inum de \<noteq> 0 then Some () else None, s)))
       (entry_offsets 2 (di_size (din s dp))) s) (\<lambda>(r, s).
     Inr (r = None, s))"

definition sys_unlink :: "hardware \<Rightarrow> nat \<Rightarrow> 'a kproc_scheme \<Rightarrow> (int \<times> 'a kproc_scheme) res" where
  "sys_unlink h c s =
     bindE (argstr c 0 MAXPATH s) (\<lambda>(path, s).
     case path of None \<Rightarrow> Inr (-1, s) | Some path \<Rightarrow>
     bindE (begin_op c s) (\<lambda>s.
     bindE (nameiparent h c path s) (\<lambda>(r, s).
     case r of None \<Rightarrow> op_return h c (-1) s | Some (dp, name) \<Rightarrow>
     let bad = (\<lambda>s. bindE (iunlockput h c dp s) (op_return h c (-1))) in
     bindE (ilock h c (Some dp) s) (\<lambda>s.
     if namecmp name ''.'' = 0 \<or> namecmp name ''..'' = 0 then bad s
     else
       bindE (dirlookup h c dp name s) (\<lambda>(r, s).
       case r of None \<Rightarrow> bad s | Some (ip, off) \<Rightarrow>
       bindE (ilock h c (Some ip) s) (\<lambda>s.
       if di_nlink (din s ip) < 1 then Inl (Panic ''unlink: nlink < 1'')
       else
         bindE (if di_type (din s ip) = T_DIR then isdirempty h c ip s else Inr (True, s)) (\<lambda>(ok, s).
         if \<not> ok then bindE (iunlockput h c ip s) bad
         else
           bindE (writei h c dp (FromVar (replicate 16 0)) (of_nat off) 16 s) (\<lambda>(r, s).
           if r \<noteq> 16 then Inl (Panic ''unlink: writei'')
           else
             bindE (if di_type (din s ip) = T_DIR then iupdate h c dp (add_nlink (-1) dp s) else Inr s) (\<lambda>s.
             bindE (iunlockput h c dp s) (\<lambda>s.
             bindE (iupdate h c ip (add_nlink (-1) ip s)) (\<lambda>s.
             bindE (iunlockput h c ip s) (op_return h c 0))))))))))))"

subsection \<open>Opening and creating\<close>

definition create_fail :: "hardware \<Rightarrow> nat \<Rightarrow> nat \<Rightarrow> nat \<Rightarrow> 'a kfs_scheme \<Rightarrow> (nat option \<times> 'a kfs_scheme) res" where
  "create_fail h c ip dp s =
     bindE (iupdate h c ip (upd_din ip (di_nlink_update (\<lambda>_. 0)) s)) (\<lambda>s.
     bindE (iunlockput h c ip s) (\<lambda>s.
     bindE (iunlockput h c dp s) (\<lambda>s. Inr (None, s))))"

definition create :: "hardware \<Rightarrow> nat \<Rightarrow> string \<Rightarrow> int \<Rightarrow> int \<Rightarrow> int \<Rightarrow> 'a kfs_scheme \<Rightarrow> (nat option \<times> 'a kfs_scheme) res" where
  "create h c path type major minor s =
     bindE (nameiparent h c path s) (\<lambda>(r, s).
     case r of None \<Rightarrow> Inr (None, s) | Some (dp, name) \<Rightarrow>
     bindE (ilock h c (Some dp) s) (\<lambda>s.
     bindE (dirlookup h c dp name s) (\<lambda>(r, s).
     case r of
       Some (ip, _) \<Rightarrow>
         bindE (iunlockput h c dp s) (\<lambda>s.
         bindE (ilock h c (Some ip) s) (\<lambda>s.
         if type = T_FILE \<and> (di_type (din s ip) = T_FILE \<or> di_type (din s ip) = T_DEVICE) then Inr (Some ip, s)
         else bindE (iunlockput h c ip s) (\<lambda>s. Inr (None, s))))
     | None \<Rightarrow>
         bindE (ialloc h c (i_dev (inodes s dp)) type s) (\<lambda>(r, s).
         case r of None \<Rightarrow> bindE (iunlockput h c dp s) (\<lambda>s. Inr (None, s)) | Some ip \<Rightarrow>
         bindE (ilock h c (Some ip) s) (\<lambda>s.
         bindE (iupdate h c ip (upd_din ip (\<lambda>d. d\<lparr>di_major := major, di_minor := minor, di_nlink := 1\<rparr>) s)) (\<lambda>s.
         bindE (if type = T_DIR then
                  bindE (dirlink h c ip ''.'' (i_inum (inodes s ip)) s) (\<lambda>(r, s).
                  if r < 0 then Inr (False, s)
                  else bindE (dirlink h c ip ''..'' (i_inum (inodes s dp)) s) (\<lambda>(r, s). Inr (r \<ge> 0, s)))
                else Inr (True, s)) (\<lambda>(ok, s).
         if \<not> ok then create_fail h c ip dp s
         else
           bindE (dirlink h c dp name (i_inum (inodes s ip)) s) (\<lambda>(r, s).
           if r < 0 then create_fail h c ip dp s
           else
             bindE (if type = T_DIR then iupdate h c dp (add_nlink 1 dp s) else Inr s) (\<lambda>s.
             bindE (iunlockput h c dp s) (\<lambda>s. Inr (Some ip, s)))))))))))"

text \<open>\<open>sys_open\<close> up to the locked inode, and from it.\<close>

definition open_inode :: "hardware \<Rightarrow> nat \<Rightarrow> string \<Rightarrow> int \<Rightarrow> 'a kfs_scheme \<Rightarrow> (nat option \<times> 'a kfs_scheme) res" where
  "open_inode h c path omode s =
     (if omode AND O_CREATE \<noteq> 0 then create h c path T_FILE 0 0 s
      else
        bindE (namei h c path s) (\<lambda>(ipp, s).
        case ipp of None \<Rightarrow> Inr (None, s) | Some ip \<Rightarrow>
        bindE (ilock h c ipp s) (\<lambda>s.
        if di_type (din s ip) = T_DIR \<and> omode \<noteq> O_RDONLY
        then bindE (iunlockput h c ip s) (\<lambda>s. Inr (None, s))
        else Inr (Some ip, s))))"

definition open_file_slot :: "hardware \<Rightarrow> nat \<Rightarrow> 'a kproc_scheme \<Rightarrow> ((nat \<times> nat) option \<times> 'a kproc_scheme) res" where
  "open_file_slot h c s =
     bindE (filealloc c s) (\<lambda>(f, s).
     case f of None \<Rightarrow> Inr (None, s) | Some f \<Rightarrow>
     bindE (fdalloc c f s) (\<lambda>(fd, s).
     case fd of
       None \<Rightarrow> bindE (fileclose h c f s) (\<lambda>s. Inr (None, s))
     | Some fd \<Rightarrow> Inr (Some (f, fd), s)))"

definition sys_open :: "hardware \<Rightarrow> nat \<Rightarrow> 'a kproc_scheme \<Rightarrow> (int \<times> 'a kproc_scheme) res" where
  "sys_open h c s =
     bindE (argint c 1 s) (\<lambda>(omode, s).
     bindE (argstr c 0 MAXPATH s) (\<lambda>(path, s).
     case path of None \<Rightarrow> Inr (-1, s) | Some path \<Rightarrow>
     bindE (begin_op c s) (\<lambda>s.
     bindE (open_inode h c path omode s) (\<lambda>(ipp, s).
     case ipp of None \<Rightarrow> op_return h c (-1) s | Some ip \<Rightarrow>
     let bad = (\<lambda>s. bindE (iunlockput h c ip s) (op_return h c (-1))) in
     if di_type (din s ip) = T_DEVICE \<and> (di_major (din s ip) < 0 \<or> di_major (din s ip) \<ge> NDEV) then bad s
     else
       bindE (open_file_slot h c s) (\<lambda>(r, s).
       case r of None \<Rightarrow> bad s | Some (f, fd) \<Rightarrow>
       let s = (if di_type (din s ip) = T_DEVICE
                then upd_file f (\<lambda>x. x\<lparr>f_type := FD_DEVICE, f_major := di_major (din s ip)\<rparr>) s
                else upd_file f (\<lambda>x. x\<lparr>f_type := FD_INODE, f_off := 0\<rparr>) s);
           s = upd_file f (\<lambda>x. x\<lparr>f_ip := Some ip, f_readable := (omode AND O_WRONLY = 0),
                 f_writable := (omode AND O_WRONLY \<noteq> 0 \<or> omode AND O_RDWR \<noteq> 0)\<rparr>) s
       in
       bindE (if omode AND O_TRUNC \<noteq> 0 \<and> di_type (din s ip) = T_FILE then itrunc h c ip s else Inr s) (\<lambda>s.
       bindE (iunlock c ipp s) (op_return h c (int fd))))))))"

definition sys_mkdir :: "hardware \<Rightarrow> nat \<Rightarrow> 'a kproc_scheme \<Rightarrow> (int \<times> 'a kproc_scheme) res" where
  "sys_mkdir h c s =
     bindE (begin_op c s) (\<lambda>s.
     bindE (argstr c 0 MAXPATH s) (\<lambda>(path, s).
     case path of None \<Rightarrow> op_return h c (-1) s | Some path \<Rightarrow>
     bindE (create h c path T_DIR 0 0 s) (\<lambda>(ipp, s).
     case ipp of None \<Rightarrow> op_return h c (-1) s | Some ip \<Rightarrow>
     bindE (iunlockput h c ip s) (op_return h c 0))))"

definition sys_mknod :: "hardware \<Rightarrow> nat \<Rightarrow> 'a kproc_scheme \<Rightarrow> (int \<times> 'a kproc_scheme) res" where
  "sys_mknod h c s =
     bindE (begin_op c s) (\<lambda>s.
     bindE (argint c 1 s) (\<lambda>(major, s).
     bindE (argint c 2 s) (\<lambda>(minor, s).
     bindE (argstr c 0 MAXPATH s) (\<lambda>(path, s).
     case path of None \<Rightarrow> op_return h c (-1) s | Some path \<Rightarrow>
     bindE (create h c path T_DEVICE (sint (of_int major :: uint16)) (sint (of_int minor :: uint16)) s) (\<lambda>(ipp, s).
     case ipp of None \<Rightarrow> op_return h c (-1) s | Some ip \<Rightarrow>
     bindE (iunlockput h c ip s) (op_return h c 0))))))"

definition sys_chdir :: "hardware \<Rightarrow> nat \<Rightarrow> 'a kproc_scheme \<Rightarrow> (int \<times> 'a kproc_scheme) res" where
  "sys_chdir h c s =
     bindE (current c ''sys_chdir'' s) (\<lambda>(p, s).
     bindE (begin_op c s) (\<lambda>s.
     bindE (argstr c 0 MAXPATH s) (\<lambda>(path, s).
     case path of None \<Rightarrow> op_return h c (-1) s | Some path \<Rightarrow>
     bindE (namei h c path s) (\<lambda>(ipp, s).
     case ipp of None \<Rightarrow> op_return h c (-1) s | Some ip \<Rightarrow>
     bindE (ilock h c ipp s) (\<lambda>s.
     if di_type (din s ip) \<noteq> T_DIR then bindE (iunlockput h c ip s) (op_return h c (-1))
     else
       bindE (iunlock c ipp s) (\<lambda>s.
       case cwd (procs s p) of None \<Rightarrow> Inl (Fault ''iput'') | Some old \<Rightarrow>
       bindE (iput h c old s) (\<lambda>s.
       bindE (end_op h c s) (\<lambda>s.
       Inr (0, upd_proc p (cwd_update (\<lambda>_. ipp)) s)))))))))"

subsection \<open>Exec and pipe\<close>

text \<open>
  The argument loop of \<open>sys_exec\<close> with \<open>n\<close> places left: the strings, or \<open>None\<close> after an error, and
  the pages they were copied to.
\<close>

fun exec_fetch :: "nat \<Rightarrow> nat \<Rightarrow> uint64 \<Rightarrow> string list \<Rightarrow> uint64 list \<Rightarrow> 'a kproc_scheme
    \<Rightarrow> ((string list option \<times> uint64 list) \<times> 'a kproc_scheme) res" where
  "exec_fetch 0 c uargv as pages s = Inr ((None, pages), s)"
| "exec_fetch (Suc n) c uargv as pages s =
     bindE (fetchaddr c (uargv + 8 * of_nat (length as)) s) (\<lambda>(r, s).
     case r of None \<Rightarrow> Inr ((None, pages), s) | Some uarg \<Rightarrow>
     if uarg = 0 then Inr ((Some as, pages), s)
     else
       bindE (kalloc c s) (\<lambda>(pg, s).
       if pg = 0 then Inr ((None, pages), s)
       else
         bindE (fetchstr c uarg 4096 s) (\<lambda>(r, s).
         case r of None \<Rightarrow> Inr ((None, pages @ [pg]), s) | Some a \<Rightarrow>
         exec_fetch n c uargv (as @ [a]) (pages @ [pg])
           (s\<lparr>ram := store_bytes pg (map of_char a @ [0]) (ram s)\<rparr>))))"

definition sys_exec :: "hardware \<Rightarrow> nat \<Rightarrow> 'a kproc_scheme \<Rightarrow> (int \<times> 'a kproc_scheme) res" where
  "sys_exec h c s =
     bindE (argaddr c 1 s) (\<lambda>(uargv, s).
     bindE (argstr c 0 MAXPATH s) (\<lambda>(path, s).
     case path of None \<Rightarrow> Inr (-1, s) | Some path \<Rightarrow>
     bindE (exec_fetch MAXARG c uargv [] [] s) (\<lambda>((r, pages), s).
     bindE (case r of None \<Rightarrow> Inr (-1, s) | Some argv \<Rightarrow> kexec h c path argv s) (\<lambda>(ret, s).
     bindE (for_each (kfree c) pages s) (\<lambda>s. Inr (ret, s))))))"

definition sys_pipe :: "hardware \<Rightarrow> nat \<Rightarrow> 'a kproc_scheme \<Rightarrow> (int \<times> 'a kproc_scheme) res" where
  "sys_pipe h c s =
     bindE (current c ''sys_pipe'' s) (\<lambda>(p, s).
     bindE (argaddr c 0 s) (\<lambda>(fdarray, s).
     bindE (pipealloc h c s) (\<lambda>(r, s).
     case r of None \<Rightarrow> Inr (-1, s) | Some (rf, wrf) \<Rightarrow>
     let bad = (\<lambda>s. bindE (fileclose h c rf s) (\<lambda>s. bindE (fileclose h c wrf s) (\<lambda>s. Inr (-1, s)))) in
     bindE (fdalloc c rf s) (\<lambda>(fd0, s).
     case fd0 of None \<Rightarrow> bad s | Some fd0 \<Rightarrow>
     bindE (fdalloc c wrf s) (\<lambda>(fd1, s).
     case fd1 of None \<Rightarrow> bad (clear_fd p fd0 s) | Some fd1 \<Rightarrow>
     let pt = pagetable (procs s p) in
     bindE (copyout c pt fdarray (le_bytes 4 (of_nat fd0 :: uint32)) s) (\<lambda>(r, s).
     bindE (if r < 0 then Inr (r, s) else copyout c pt (fdarray + 4) (le_bytes 4 (of_nat fd1 :: uint32)) s) (\<lambda>(r, s).
     if r < 0 then bad (clear_fd p fd1 (clear_fd p fd0 s)) else Inr (0, s))))))))"

end
