(* ===== verification/Trap.thy ===== *)
theory Trap
  imports Sysfile
begin

text \<open>
  Process system calls, \<^verbatim>\<open>kernel/sysproc.c\<close>, the dispatch of \<^verbatim>\<open>kernel/syscall.c\<close>, and traps and
  interrupts, \<^verbatim>\<open>kernel/trap.c\<close>.

  The trap registers of a hart are the record \<open>csr\<close>.  What the devices say when an interrupt is
  taken is the record \<open>irq_lines\<close>: the interrupt the PLIC hands out, and the registers of the serial
  line.  A trap ends with the registers it leaves, or with the switch away from the process.
\<close>

unbundle bit_operations_syntax

subsection \<open>Process calls\<close>

definition sys_exit :: "hardware \<Rightarrow> nat \<Rightarrow> 'a kproc_scheme \<Rightarrow> (int \<times> 'a kproc_scheme) res" where
  "sys_exit h c s = bindE (argint c 0 s) (\<lambda>(n, s). bindE (kexit h c n s) (\<lambda>_. Inl (Spin ''zombie'')))"

definition sys_getpid :: "nat \<Rightarrow> 'a kproc_scheme \<Rightarrow> (int \<times> 'a kproc_scheme) res" where
  "sys_getpid c = mypid c"

definition sys_fork :: "nat \<Rightarrow> 'a kproc_scheme \<Rightarrow> (int \<times> 'a kproc_scheme) res" where
  "sys_fork c = kfork c"

definition sys_wait :: "nat \<Rightarrow> 'a kproc_scheme \<Rightarrow> (int \<times> 'a kproc_scheme) res" where
  "sys_wait c s = bindE (argaddr c 0 s) (\<lambda>(p, s). kwait c p s)"

abbreviation SBRK_EAGER :: int where "SBRK_EAGER \<equiv> 1"

text \<open>The result is the old size, a 64-bit number.\<close>

definition sys_sbrk :: "nat \<Rightarrow> 'a kproc_scheme \<Rightarrow> (uint64 \<times> 'a kproc_scheme) res" where
  "sys_sbrk c s =
     bindE (argint c 0 s) (\<lambda>(n, s).
     bindE (argint c 1 s) (\<lambda>(t, s).
     bindE (current c ''sys_sbrk'' s) (\<lambda>(p, s).
     let addr = psz (procs s p) in
     if t = SBRK_EAGER \<or> n < 0 then
       bindE (growproc c n s) (\<lambda>(r, s). Inr (if r < 0 then -1 else addr, s))
     else if addr + of_int n < addr then Inr (-1, s)
     else if addr + of_int n > TRAPFRAME then Inr (-1, s)
     else Inr (addr, upd_proc p (psz_update (\<lambda>x. x + of_int n)) s))))"

definition sys_pause :: "nat \<Rightarrow> 'a kproc_scheme \<Rightarrow> (int \<times> 'a kproc_scheme) res" where
  "sys_pause c s =
     bindE (argint c 0 s) (\<lambda>(n, s).
     let n = (if n < 0 then 0 else n) in
     bindE (acquire c TicksLock s) (\<lambda>s.
     let ticks0 = ticks s in
     if ticks s - ticks0 < of_int n then
       bindE (current c ''sys_pause'' s) (\<lambda>(p, s).
       bindE (killed c p s) (\<lambda>(k, s).
       if k then bindE (release c TicksLock s) (\<lambda>s. Inr (-1, s))
       else sleeps c ChTicks TicksLock s))
     else bindE (release c TicksLock s) (\<lambda>s. Inr (0, s))))"

definition sys_kill :: "nat \<Rightarrow> 'a kproc_scheme \<Rightarrow> (int \<times> 'a kproc_scheme) res" where
  "sys_kill c s = bindE (argint c 0 s) (\<lambda>(n, s). kkill c n s)"

definition sys_uptime :: "nat \<Rightarrow> 'a kproc_scheme \<Rightarrow> (uint32 \<times> 'a kproc_scheme) res" where
  "sys_uptime c = with_lock_ret c TicksLock (\<lambda>s. (ticks s, s))"

definition sys_kps :: "nat \<Rightarrow> 'a kproc_scheme \<Rightarrow> (int \<times> 'a kproc_scheme) res" where
  "sys_kps c s =
     bindE (argstr c 0 4 s) (\<lambda>(buf, s).
     case buf of None \<Rightarrow> Inr (-1, s) | Some buf \<Rightarrow> kps c buf s)"

subsection \<open>Dispatch\<close>

definition ret64 :: "(int \<times> 's) res \<Rightarrow> (uint64 \<times> 's) res" where
  "ret64 r = bindE r (\<lambda>(n, s). Inr (of_int n, s))"

definition syscalls :: "hardware \<Rightarrow> nat \<Rightarrow> ('a kproc_scheme \<Rightarrow> (uint64 \<times> 'a kproc_scheme) res) list" where
  "syscalls h c =
     [\<lambda>s. ret64 (sys_fork c s), \<lambda>s. ret64 (sys_exit h c s), \<lambda>s. ret64 (sys_wait c s),
      \<lambda>s. ret64 (sys_pipe h c s), \<lambda>s. ret64 (sys_read h c s), \<lambda>s. ret64 (sys_kill c s),
      \<lambda>s. ret64 (sys_exec h c s), \<lambda>s. ret64 (sys_fstat h c s), \<lambda>s. ret64 (sys_chdir h c s),
      \<lambda>s. ret64 (sys_dup c s), \<lambda>s. ret64 (sys_getpid c s), sys_sbrk c,
      \<lambda>s. ret64 (sys_pause c s), \<lambda>s. bindE (sys_uptime c s) (\<lambda>(t, s). Inr (ucast t, s)),
      \<lambda>s. ret64 (sys_open h c s), \<lambda>s. ret64 (sys_write h c s), \<lambda>s. ret64 (sys_mknod h c s),
      \<lambda>s. ret64 (sys_unlink h c s), \<lambda>s. ret64 (sys_link h c s), \<lambda>s. ret64 (sys_mkdir h c s),
      \<lambda>s. ret64 (sys_close h c s), \<lambda>s. ret64 (sys_kps c s)]"

definition syscall :: "hardware \<Rightarrow> nat \<Rightarrow> 'a kproc_scheme \<Rightarrow> 'a kproc_scheme res" where
  "syscall h c s =
     bindE (current c ''syscall'' s) (\<lambda>(p, s).
     let num = sint (ucast (tf_get p TF_A7 s) :: uint32) in
     if num > 0 \<and> num < 23 then
       bindE ((syscalls h c ! nat (num - 1)) s) (\<lambda>(r, s). Inr (tf_set p TF_A0 r s))
     else
       bindE (printf c (''%d %s: unknown sys call %d'' @ [char_of (10::nat)])
         [VaInt (pid (procs s p)), VaStr (Some (pname (procs s p))), VaInt num] s) (\<lambda>s.
       Inr (tf_set p TF_A0 (-1) s)))"

subsection \<open>Interrupts\<close>

record csr =
  sepc :: uint64
  sstatus :: uint64
  scause :: uint64
  stval :: uint64
  stvec :: uint64
  satp :: uint64
  stimecmp :: uint64

record irq_lines =
  plic_irq :: nat
  uart_idle :: bool
  uart_input :: "uint8 list"
  rtime :: uint64

definition UART0_IRQ :: nat where "UART0_IRQ = 10"
definition VIRTIO0_IRQ :: nat where "VIRTIO0_IRQ = 1"
definition SSTATUS_SPP :: uint64 where "SSTATUS_SPP = 0x100"
definition SSTATUS_SPIE :: uint64 where "SSTATUS_SPIE = 0x20"

definition trapinit :: "'a kproc_scheme \<Rightarrow> 'a kproc_scheme" where
  "trapinit s = initlock TicksLock ''time'' s"

definition clockintr :: "nat \<Rightarrow> irq_lines \<Rightarrow> csr \<Rightarrow> 'a kproc_scheme \<Rightarrow> (csr \<times> 'a kproc_scheme) res" where
  "clockintr c q r s =
     bindE (if c = 0 then
              bindE (acquire c TicksLock s) (\<lambda>s.
              bindE (wakeup c (Some ChTicks) (s\<lparr>ticks := ticks s + 1\<rparr>)) (\<lambda>s.
              release c TicksLock s))
            else Inr s) (\<lambda>s.
     bindE (myproc c s) (\<lambda>(p, s).
     bindE (case p of None \<Rightarrow> Inr (False, s) | Some _ \<Rightarrow>
              bindE (current c ''clockintr'' s) (\<lambda>(p, s). Inr (pstate (procs s p) = RUNNING, s))) (\<lambda>(active, s).
     Inr (r\<lparr>stimecmp := rtime q + 1000000\<rparr>, update_cpu_temp (if active then 1 else 0) s))))"

definition devintr :: "hardware \<Rightarrow> nat \<Rightarrow> irq_lines \<Rightarrow> csr \<Rightarrow> 'a kproc_scheme \<Rightarrow> ((nat \<times> csr) \<times> 'a kproc_scheme) res" where
  "devintr h c q r s =
     (if scause r = 0x8000000000000009 then
        bindE (if plic_irq q = UART0_IRQ then uartintr c (uart_idle q) (uart_input q) s
               else if plic_irq q = VIRTIO0_IRQ then virtio_disk_intr (hw_regs h) c s
               else if plic_irq q \<noteq> 0
                 then printf c (''unexpected interrupt irq=%d'' @ [char_of (10::nat)]) [VaInt (int (plic_irq q))] s
               else Inr s) (\<lambda>s.
        Inr ((1, r), s))
      else if scause r = 0x8000000000000005 then
        bindE (clockintr c q r s) (\<lambda>(r, s). Inr ((2, r), s))
      else Inr ((0, r), s))"

text \<open>
  The constants of \<open>prepare_return\<close> that the linker fixes: the addresses of \<^verbatim>\<open>uservec\<close> in the
  trampoline page, of \<open>usertrap\<close> and of \<^verbatim>\<open>kernelvec\<close>.
\<close>

record vectors =
  uservec_off :: uint64
  usertrap_addr :: uint64
  kernelvec_addr :: uint64

definition prepare_return :: "vectors \<Rightarrow> nat \<Rightarrow> csr \<Rightarrow> 'a kproc_scheme \<Rightarrow> (csr \<times> 'a kproc_scheme) res" where
  "prepare_return v c r s =
     bindE (current c ''prepare_return'' s) (\<lambda>(p, s).
     let s = intr_off c s;
         r = r\<lparr>stvec := TRAMPOLINE + uservec_off v\<rparr>;
         s = tf_set p 0 (satp r) s;
         s = tf_set p 8 (kstack (procs s p) + PGSIZE) s;
         s = tf_set p 16 (usertrap_addr v) s;
         s = tf_set p 32 (of_nat c) s;
         r = r\<lparr>sstatus := (sstatus r AND NOT SSTATUS_SPP) OR SSTATUS_SPIE\<rparr>
     in Inr (r\<lparr>sepc := tf_get p TF_EPC s\<rparr>, s))"

text \<open>A trap comes back with its registers, or the process has left the CPU in \<open>yield\<close> or \<open>kexit\<close>.\<close>

datatype trap_result = TrapReturn uint64 csr | TrapYield nat bool csr | TrapExit bool

definition MAKE_SATP :: "uint64 \<Rightarrow> uint64" where
  "MAKE_SATP pt = push_bit 60 8 OR drop_bit 12 pt"

definition usertrap_end :: "hardware \<Rightarrow> vectors \<Rightarrow> nat \<Rightarrow> nat \<Rightarrow> nat \<Rightarrow> csr \<Rightarrow> 'a kproc_scheme
    \<Rightarrow> (trap_result \<times> 'a kproc_scheme) res" where
  "usertrap_end h v c p which_dev r s =
     bindE (killed c p s) (\<lambda>(k, s).
     if k then bindE (kexit h c (-1) s) (\<lambda>(b, s). Inr (TrapExit b, s))
     else if which_dev = 2 then bindE (yield_leave c s) (\<lambda>(b, s). Inr (TrapYield p b r, s))
     else
       bindE (prepare_return v c r s) (\<lambda>(r, s).
       Inr (TrapReturn (MAKE_SATP (pagetable (procs s p))) r, s)))"

definition usertrap :: "hardware \<Rightarrow> vectors \<Rightarrow> nat \<Rightarrow> irq_lines \<Rightarrow> csr \<Rightarrow> 'a kproc_scheme
    \<Rightarrow> (trap_result \<times> 'a kproc_scheme) res" where
  "usertrap h v c q r s =
     (if sstatus r AND SSTATUS_SPP \<noteq> 0 then Inl (Panic ''usertrap: not from user mode'')
      else let r = r\<lparr>stvec := kernelvec_addr v\<rparr> in
      bindE (current c ''usertrap'' s) (\<lambda>(p, s).
      let s = tf_set p TF_EPC (sepc r) s in
      if scause r = 8 then
        bindE (killed c p s) (\<lambda>(k, s).
        if k then bindE (kexit h c (-1) s) (\<lambda>(b, s). Inr (TrapExit b, s))
        else
          bindE (syscall h c (intr_on c (tf_set p TF_EPC (tf_get p TF_EPC s + 4) s))) (\<lambda>s.
          usertrap_end h v c p 0 r s))
      else
        bindE (devintr h c q r s) (\<lambda>((w, r), s).
        if w \<noteq> 0 then usertrap_end h v c p w r s
        else
          bindE (if scause r = 15 \<or> scause r = 13 then vmfault c (pagetable (procs s p)) (stval r) s
                 else Inr (0, s)) (\<lambda>(pa, s).
          if pa \<noteq> 0 then usertrap_end h v c p 0 r s
          else
            bindE (printf c (''usertrap(): unexpected scause 0x%lx pid=%d'' @ [char_of (10::nat)])
              [VaLong (scause r), VaInt (pid (procs s p))] s) (\<lambda>s.
            bindE (printf c (''            sepc=0x%lx stval=0x%lx'' @ [char_of (10::nat)])
              [VaLong (sepc r), VaLong (stval r)] s) (\<lambda>s.
            bindE (setkilled c p s) (\<lambda>s.
            usertrap_end h v c p 0 r s)))))))"

text \<open>\<open>usertrap\<close> from the return of \<open>yield\<close>.\<close>

definition usertrap_resume :: "vectors \<Rightarrow> nat \<Rightarrow> nat \<Rightarrow> bool \<Rightarrow> csr \<Rightarrow> 'a kproc_scheme
    \<Rightarrow> (trap_result \<times> 'a kproc_scheme) res" where
  "usertrap_resume v c p saved r s =
     bindE (yield_return c p saved s) (\<lambda>s.
     bindE (prepare_return v c r s) (\<lambda>(r, s).
     Inr (TrapReturn (MAKE_SATP (pagetable (procs s p))) r, s)))"

definition kerneltrap :: "hardware \<Rightarrow> nat \<Rightarrow> irq_lines \<Rightarrow> csr \<Rightarrow> 'a kproc_scheme \<Rightarrow> (trap_result \<times> 'a kproc_scheme) res" where
  "kerneltrap h c q r s =
     (if sstatus r AND SSTATUS_SPP = 0 then Inl (Panic ''kerneltrap: not from supervisor mode'')
      else if intr_get c s then Inl (Panic ''kerneltrap: interrupts enabled'')
      else
        bindE (devintr h c q r s) (\<lambda>((w, r), s).
        if w = 0 then
          bindE (printf c (''scause=0x%lx sepc=0x%lx stval=0x%lx'' @ [char_of (10::nat)])
            [VaLong (scause r), VaLong (sepc r), VaLong (stval r)] s) (\<lambda>_. Inl (Panic ''kerneltrap''))
        else if w = 2 then
          bindE (myproc c s) (\<lambda>(p, s).
          case p of None \<Rightarrow> Inr (TrapReturn 0 r, s)
          | Some p \<Rightarrow> bindE (yield_leave c s) (\<lambda>(b, s). Inr (TrapYield p b r, s)))
        else Inr (TrapReturn 0 r, s)))"

end
