(* ===== verification/Grep.thy ===== *)
theory Grep
  imports Xv6_Prelude
begin

text \<open>
  The pattern matcher of \<^verbatim>\<open>user/grep.c\<close>.

  Patterns and texts are C strings, lists without their NUL.  The three functions are translated as
  they are written; \<open>atoms\<close> and \<open>here\<close> are the meaning of a pattern they are compared with: a list
  of single characters, repetitions and the end mark, and the prefixes of a text it covers.
\<close>

function (sequential) matchhere :: "string \<Rightarrow> string \<Rightarrow> bool"
  and matchstar :: "char \<Rightarrow> string \<Rightarrow> string \<Rightarrow> bool" where
  "matchhere re tx =
     (if re = [] then True
      else if tl re \<noteq> [] \<and> hd (tl re) = CHR ''*'' then matchstar (hd re) (tl (tl re)) tx
      else if hd re = CHR ''$'' \<and> tl re = [] then tx = []
      else if tx \<noteq> [] \<and> (hd re = CHR ''.'' \<or> hd re = hd tx) then matchhere (tl re) (tl tx)
      else False)"
| "matchstar c re tx =
     (if matchhere re tx then True
      else if tx \<noteq> [] \<and> (hd tx = c \<or> c = CHR ''.'') then matchstar c re (tl tx)
      else False)"
  by pat_completeness auto
termination
  by (relation "measure (\<lambda>x. case x of Inl (re, tx) \<Rightarrow> 2 * length re + 2 * length tx
        | Inr (c, re, tx) \<Rightarrow> 2 * length re + 2 * length tx + 1)")
    (auto simp: neq_Nil_conv)

declare matchhere.simps [simp del] matchstar.simps [simp del]

fun match_from :: "string \<Rightarrow> string \<Rightarrow> bool" where
  "match_from re [] = matchhere re []"
| "match_from re (x # tx) = (if matchhere re (x # tx) then True else match_from re tx)"

definition match :: "string \<Rightarrow> string \<Rightarrow> bool" where
  "match re tx =
     (if re \<noteq> [] \<and> hd re = CHR ''^'' then matchhere (tl re) tx else match_from re tx)"

text \<open>
  \<open>grep\<close> on an open file.  A \<^verbatim>\<open>read\<close> that succeeds delivers at least one byte while there are any, and
  never more than the space offered, but it may deliver less, as it does on a pipe or the console: how
  many bytes it delivers when \<open>k\<close> are left is \<open>rd k\<close>, an argument of the loop, cut to that range
  (every read has its own \<open>k\<close>, since each takes a byte at least).  The buffer holds 1024 bytes, the last
  of them for the NUL; \<open>line_end\<close> is the \<open>strchr\<close> for the end of a line, which stops at a NUL, and
  \<open>grep_lines\<close> the inner loop: the lines written, and what stays in the buffer.
\<close>

definition nl :: char where "nl = char_of (10::nat)"

definition line_end :: "string \<Rightarrow> nat option" where
  "line_end p = (let k = length (takeWhile (\<lambda>x. x \<noteq> nl \<and> x \<noteq> char_of (0::nat)) p)
     in if k < length p \<and> p ! k = nl then Some k else None)"

function grep_lines :: "string \<Rightarrow> string \<Rightarrow> string \<times> string" where
  "grep_lines pattern p =
     (case line_end p of
       None \<Rightarrow> ([], p)
     | Some k \<Rightarrow>
         (case grep_lines pattern (drop (k + 1) p) of (out, rest) \<Rightarrow>
            ((if match pattern (take k p) then take (k + 1) p else []) @ out, rest)))"
  by pat_completeness auto
termination
  by (relation "measure (length \<circ> snd)") (auto simp: line_end_def Let_def split: if_splits)

declare grep_lines.simps [simp del]

definition GREP_BUF :: nat where "GREP_BUF = 1024"

abbreviation read_len :: "(nat \<Rightarrow> nat) \<Rightarrow> nat \<Rightarrow> nat \<Rightarrow> nat" where
  "read_len rd space left \<equiv> min (min space left) (max 1 (rd left))"

function grep_loop :: "(nat \<Rightarrow> nat) \<Rightarrow> string \<Rightarrow> string \<Rightarrow> string \<Rightarrow> string" where
  "grep_loop rd pattern buf inp =
     (let n = read_len rd (GREP_BUF - length buf - 1) (length inp) in
      if 0 < n then
        (case grep_lines pattern (buf @ take n inp) of (out, rest) \<Rightarrow>
           out @ grep_loop rd pattern rest (drop n inp))
      else [])"
  by pat_completeness auto
termination
  by (relation "measure (\<lambda>(rd, pattern, buf, inp). length inp)") (auto simp: Let_def)

declare grep_loop.simps [simp del]

definition grep :: "(nat \<Rightarrow> nat) \<Rightarrow> string \<Rightarrow> string \<Rightarrow> string" where
  "grep rd pattern inp = grep_loop rd pattern [] inp"

subsection \<open>What a pattern means\<close>

datatype atom = One char | Many char | End

fun atoms :: "string \<Rightarrow> atom list" where
  "atoms [] = []"
| "atoms [a] = (if a = CHR ''$'' then [End] else [One a])"
| "atoms (a # b # re) = (if b = CHR ''*'' then Many a # atoms re else One a # atoms (b # re))"

definition covers :: "char \<Rightarrow> char \<Rightarrow> bool" where
  "covers a x = (a = CHR ''.'' \<or> x = a)"

fun here :: "atom list \<Rightarrow> string \<Rightarrow> bool" where
  "here [] tx = True"
| "here (One a # as) tx = (\<exists>x rest. tx = x # rest \<and> covers a x \<and> here as rest)"
| "here (Many a # as) tx = (\<exists>run rest. tx = run @ rest \<and> list_all (covers a) run \<and> here as rest)"
| "here (End # as) tx = (tx = [])"

lemma here_Many: "here (Many a # as) tx \<longleftrightarrow>
    here as tx \<or> (\<exists>x rest. tx = x # rest \<and> covers a x \<and> here (Many a # as) rest)"
proof
  assume "here (Many a # as) tx"
  then obtain run rest where t: "tx = run @ rest" "list_all (covers a) run" "here as rest" by auto
  show "here as tx \<or> (\<exists>x rest. tx = x # rest \<and> covers a x \<and> here (Many a # as) rest)"
    using t by (cases run) auto
next
  assume r: "here as tx \<or> (\<exists>x rest. tx = x # rest \<and> covers a x \<and> here (Many a # as) rest)"
  show "here (Many a # as) tx"
    using r
  proof
    assume "here as tx"
    then show ?thesis by (simp add: exI[of _ "[]"])
  next
    assume "\<exists>x rest. tx = x # rest \<and> covers a x \<and> here (Many a # as) rest"
    then obtain x run rest where "tx = (x # run) @ rest" "list_all (covers a) (x # run)" "here as rest"
      by auto
    then show ?thesis unfolding here.simps by blast
  qed
qed

declare here.simps(3) [simp del]

lemma match_sound:
  shows "matchhere re tx \<longleftrightarrow> here (atoms re) tx"
    and "matchstar c re tx \<longleftrightarrow> here (Many c # atoms re) tx"
proof (induction re tx and c re tx rule: matchhere_matchstar.induct)
  case (1 re tx)
  show ?case
  proof (cases re)
    case Nil then show ?thesis by (simp add: matchhere.simps)
  next
    case (Cons a re')
    show ?thesis
    proof (cases re')
      case Nil
      then show ?thesis using Cons 1
        by (subst matchhere.simps) (auto simp: covers_def neq_Nil_conv matchhere.simps[of "[]"])
    next
      case (Cons b re'')
      then show ?thesis using \<open>re = a # re'\<close> 1
        by (subst matchhere.simps) (auto simp: covers_def neq_Nil_conv)
    qed
  qed
next
  case (2 c re tx)
  show ?case
    using 2 by (subst matchstar.simps, subst here_Many) (auto simp: covers_def neq_Nil_conv)
qed

lemma match_from_suffix: "match_from re tx \<longleftrightarrow> (\<exists>pre suf. tx = pre @ suf \<and> here (atoms re) suf)"
proof (induction tx)
  case Nil then show ?case by (simp add: match_sound)
next
  case (Cons x tx)
  have "(\<exists>pre suf. x # tx = pre @ suf \<and> here (atoms re) suf) \<longleftrightarrow>
    here (atoms re) (x # tx) \<or> (\<exists>pre suf. tx = pre @ suf \<and> here (atoms re) suf)"
    by (auto simp: Cons_eq_append_conv)
  then show ?case using Cons by (simp add: match_sound)
qed

text \<open>
  C27.  The matcher decides what the pattern means: a pattern with a leading \<^verbatim>\<open>^\<close> matches the texts
  with a prefix it covers, any other pattern the texts that have such a place somewhere.
\<close>

theorem match_equivalent:
  "match re tx \<longleftrightarrow>
     (if re \<noteq> [] \<and> hd re = CHR ''^'' then here (atoms (tl re)) tx
      else \<exists>pre suf. tx = pre @ suf \<and> here (atoms re) suf)"
  by (simp add: match_def match_sound match_from_suffix)

text \<open>
  The lines of a text that end in a newline, and the unfinished rest.
\<close>

fun lines_of :: "string \<Rightarrow> string \<Rightarrow> string list" where
  "lines_of cur [] = []"
| "lines_of cur (x # t) = (if x = nl then cur # lines_of [] t else lines_of (cur @ [x]) t)"

fun rest_of :: "string \<Rightarrow> string \<Rightarrow> string" where
  "rest_of cur [] = cur"
| "rest_of cur (x # t) = (if x = nl then rest_of [] t else rest_of (cur @ [x]) t)"

definition selected :: "string \<Rightarrow> string list \<Rightarrow> string" where
  "selected pattern ls = concat (map (\<lambda>l. l @ [nl]) (filter (match pattern) ls))"

lemma lines_of_append: "lines_of cur (a @ b) = lines_of cur a @ lines_of (rest_of cur a) b"
  by (induction a arbitrary: cur) auto

lemma lines_of_free: "nl \<notin> set a \<Longrightarrow> lines_of cur (a @ t) = lines_of (cur @ a) t"
  by (induction a arbitrary: cur) auto

lemma rest_of_free: "nl \<notin> set a \<Longrightarrow> rest_of cur (a @ t) = rest_of (cur @ a) t"
  by (induction a arbitrary: cur) auto

lemma rest_no_nl: "nl \<notin> set cur \<Longrightarrow> nl \<notin> set (rest_of cur t)"
  by (induction t arbitrary: cur) auto

lemma rest_of_append: "rest_of cur (a @ b) = rest_of (rest_of cur a) b"
  by (induction a arbitrary: cur) auto

lemma rest_of_set: "set (rest_of cur u) \<subseteq> set cur \<union> set u"
proof (induction u arbitrary: cur)
  case (Cons x u)
  show ?case using Cons.IH[of "[]"] Cons.IH[of "cur @ [x]"] by auto
qed simp

lemma line_end_text:
  assumes "char_of (0::nat) \<notin> set p"
  shows "line_end p = (if nl \<in> set p then Some (length (takeWhile (\<lambda>x. x \<noteq> nl) p)) else None)"
proof -
  have tw: "takeWhile (\<lambda>x. x \<noteq> nl \<and> x \<noteq> char_of (0::nat)) p = takeWhile (\<lambda>x. x \<noteq> nl) p"
    using assms by (intro takeWhile_cong) auto
  show ?thesis
  proof (cases "nl \<in> set p")
    case True
    obtain l t where p: "p = l @ nl # t" "nl \<notin> set l" using split_list_first[OF True] by blast
    have "takeWhile (\<lambda>x. x \<noteq> nl) p = l" using p by (auto simp: takeWhile_append takeWhile_eq_all_conv)
    then show ?thesis unfolding line_end_def tw using p True by simp
  next
    case False
    then have tp: "takeWhile (\<lambda>x. x \<noteq> nl) p = p" by (auto simp: takeWhile_eq_all_conv)
    show ?thesis unfolding line_end_def tw tp using False by simp
  qed
qed

lemma grep_lines_spec:
  "char_of (0::nat) \<notin> set p \<Longrightarrow> grep_lines pattern p = (selected pattern (lines_of [] p), rest_of [] p)"
proof (induction pattern p rule: grep_lines.induct)
  case (1 pattern p)
  show ?case
  proof (cases "nl \<in> set p")
    case False
    have "lines_of [] p = []" "rest_of [] p = p"
      using lines_of_free[OF False, of "[]" "[]"] rest_of_free[OF False, of "[]" "[]"] by simp_all
    then show ?thesis using False 1(2) by (subst grep_lines.simps) (simp add: line_end_text selected_def)
  next
    case True
    obtain l t where p: "p = l @ nl # t" and nl_l: "nl \<notin> set l" using split_list_first[OF True] by blast
    have "takeWhile (\<lambda>x. x \<noteq> nl) p = l" using p nl_l by (auto simp: takeWhile_append takeWhile_eq_all_conv)
    then have k: "line_end p = Some (length l)" using line_end_text[OF 1(2)] True by simp
    have ih: "grep_lines pattern t = (selected pattern (lines_of [] t), rest_of [] t)"
      using 1(1)[OF k] 1(2) p by simp
    have s: "lines_of [] p = l # lines_of [] t" "rest_of [] p = rest_of [] t"
      unfolding p by (simp_all add: lines_of_free[OF nl_l] rest_of_free[OF nl_l])
    show ?thesis
      unfolding s using ih by (subst grep_lines.simps, simp add: k) (simp add: p selected_def)
  qed
qed

text \<open>The buffer between two reads: an unfinished line, with room left after it.\<close>

lemma rest_of_length:
  assumes "\<forall>l\<in>set (lines_of cur t). length l < m" "length (rest_of cur t) < m"
  shows "\<forall>k. length (rest_of cur (take k t)) < m"
proof
  fix k
  have tk: "t = take k t @ drop k t" by simp
  let ?r = "rest_of cur (take k t)"
  have ls: "lines_of cur t = lines_of cur (take k t) @ lines_of ?r (drop k t)"
    by (metis lines_of_append tk)
  have rs: "rest_of cur t = rest_of ?r (drop k t)" by (metis rest_of_append tk)
  have grow: "(\<exists>l\<in>set (lines_of r u). length r \<le> length l) \<or> length r \<le> length (rest_of r u)" for r u
  proof (induction u arbitrary: r)
    case (Cons x u)
    show ?case
    proof (cases "x = nl")
      case False
      then show ?thesis using Cons.IH[of "r @ [x]"] by (fastforce dest: Suc_leD)
    qed simp
  qed simp
  show "length ?r < m"
    using grow[of ?r "drop k t"]
  proof
    assume "\<exists>l\<in>set (lines_of ?r (drop k t)). length ?r \<le> length l"
    then obtain l where "l \<in> set (lines_of cur t)" "length ?r \<le> length l" using ls by auto
    then show ?thesis using assms(1) by (meson le_less_trans)
  next
    assume "length ?r \<le> length (rest_of ?r (drop k t))"
    then show ?thesis using assms(2) rs by simp
  qed
qed

lemma grep_loop_spec:
  assumes "nl \<notin> set buf" "char_of (0::nat) \<notin> set (buf @ inp)"
    "\<forall>l\<in>set (lines_of buf inp). length l < GREP_BUF - 1" "length (rest_of buf inp) < GREP_BUF - 1"
  shows "grep_loop rd pattern buf inp = selected pattern (lines_of buf inp)"
  using assms
proof (induction rd pattern buf inp rule: grep_loop.induct)
  case (1 rd pattern buf inp)
  let ?n = "read_len rd (GREP_BUF - length buf - 1) (length inp)"
  show ?case
  proof (cases "inp = []")
    case True then show ?thesis by (simp add: grep_loop.simps selected_def)
  next
    case False
    have "length (rest_of buf (take 0 inp)) < GREP_BUF - 1"
      using rest_of_length[OF 1(4,5)] by blast
    then have "0 < GREP_BUF - length buf - 1" by simp
    then have n: "0 < ?n" using False by (simp add: less_max_iff_disj)
    let ?b = "rest_of buf (take ?n inp)"
    have lb: "lines_of [] (buf @ take ?n inp) = lines_of buf (take ?n inp)"
      "rest_of [] (buf @ take ?n inp) = ?b"
      using lines_of_free[OF 1(2), of "[]"] rest_of_free[OF 1(2), of "[]"] by simp_all
    have nn: "char_of (0::nat) \<notin> set (buf @ take ?n inp)" using 1(3) by (auto dest: in_set_takeD)
    have gl: "grep_lines pattern (buf @ take ?n inp) = (selected pattern (lines_of buf (take ?n inp)), ?b)"
      using grep_lines_spec[OF nn] lb by simp
    have ls: "lines_of buf inp = lines_of buf (take ?n inp) @ lines_of ?b (drop ?n inp)"
      by (metis append_take_drop_id lines_of_append)
    have rs: "rest_of buf inp = rest_of ?b (drop ?n inp)" by (metis append_take_drop_id rest_of_append)
    note nb = rest_of_set
    have "grep_loop rd pattern ?b (drop ?n inp) = selected pattern (lines_of ?b (drop ?n inp))"
    proof (rule 1(1)[OF refl n gl[symmetric]])
      show "nl \<notin> set ?b" using rest_no_nl[OF 1(2)] .
      show "char_of (0::nat) \<notin> set (?b @ drop ?n inp)"
        using 1(3) nb[of buf "take ?n inp"] nn by (auto dest: in_set_dropD)
      show "\<forall>l\<in>set (lines_of ?b (drop ?n inp)). length l < GREP_BUF - 1" using 1(4) ls by simp
      show "length (rest_of ?b (drop ?n inp)) < GREP_BUF - 1" using 1(5) rs by simp
    qed
    then show ?thesis using n gl ls by (subst grep_loop.simps) (simp add: selected_def Let_def)
  qed
qed

text \<open>
  C28.  On an input without NULs whose lines, the unfinished last one included, are shorter than 1023
  bytes, \<open>grep\<close> writes exactly the finished lines that match, in order, whatever number of bytes each
  read delivers.  What follows the last newline is not looked at.
\<close>

theorem grep_selects_lines:
  assumes "char_of (0::nat) \<notin> set inp"
    and "\<forall>l\<in>set (lines_of [] inp). length l < GREP_BUF - 1" "length (rest_of [] inp) < GREP_BUF - 1"
  shows "grep rd pattern inp = concat (map (\<lambda>l. l @ [nl]) (filter (match pattern) (lines_of [] inp)))"
  using grep_loop_spec[of "[]" inp rd pattern] assms by (simp add: grep_def selected_def)

theorem grep_selects_lines_witness:
  "grep (\<lambda>k. k div 3) ''b*c'' (''abbc'' @ [nl] @ ''xyz'' @ [nl] @ ''c'') = ''abbc'' @ [nl]"
proof -
  let ?f = "''abbc'' @ [nl] @ ''xyz'' @ [nl] @ ''c''"
  have "char_of (0::nat) \<notin> set ?f" "\<forall>l\<in>set (lines_of [] ?f). length l < GREP_BUF - 1"
    "length (rest_of [] ?f) < GREP_BUF - 1"
    by (code_simp+)
  then have "grep (\<lambda>k. k div 3) ''b*c'' ?f = concat (map (\<lambda>l. l @ [nl]) (filter (match ''b*c'') (lines_of [] ?f)))"
    by (rule grep_selects_lines)
  also have "\<dots> = ''abbc'' @ [nl]" by code_simp
  finally show ?thesis .
qed

end
