(* ===== verification/LogSpace.thy ===== *)
theory LogSpace
  imports Log
begin

text \<open>
  What the operations below the log leave alone, and the space in the log.

  \<open>above\<close> is the part of the state above the disk driver; every operation of the buffer cache that
  returns leaves it alone.
\<close>

definition above :: "'a kdisk_scheme \<Rightarrow> 'a" where "above s = kdisk.more s"

lemma above_upd [simp]:
  "above (upd_slock l f t) = above t" "above (upd_vdisk g t) = above t" "above (upd_buf b k t) = above t"
  "above (upd_proc i m t) = above t" "above (mmio_write r v t) = above t" "above (t\<lparr>vdisk := w\<rparr>) = above t"
  "above (upd_data b q t) = above t" "above (set_next b x t) = above t" "above (set_prev b x t) = above t"
  "above (device_step dv t) = above t" "above (virtio_enqueue b wr idx t) = above t"
  "above (lru_push b t) = above t" "above (lru_unlink b t) = above t"
  by (simp_all add: above_def upd_slock_def upd_vdisk_def upd_buf_def upd_proc_def mmio_write_def upd_data_def
      set_next_def set_prev_def device_step_def virtio_enqueue_def lru_push_def lru_unlink_def Let_def split: prod.splits)

lemma io_only_above: "io_only s s' \<Longrightarrow> above s' = above s"
proof -
  assume "io_only s s'"
  then have "s' = s\<lparr>cpus := cpus s', locks := locks s', uart_out := uart_out s'\<rparr>" by (simp add: io_only_def)
  then have "above s' = above (s\<lparr>cpus := cpus s', locks := locks s', uart_out := uart_out s'\<rparr>)" by (rule arg_cong)
  then show ?thesis by (simp add: above_def)
qed

lemmas machine_above = io_only_above[OF machine_io]

lemma acquire_above: "acquire c l s = Inr s' \<Longrightarrow> above s' = above s"
  using acquire_Inr(1) inside_machine_only machine_above by metis

lemma release_above: "release c l s = Inr s' \<Longrightarrow> above s' = above s"
  using release_Inr(2) machine_above by blast

lemma myproc_above: "myproc c s = Inr (p, s') \<Longrightarrow> above s' = above s"
  unfolding myproc_def Let_def
  by (auto simp: bindE_eq_Inr machine_above[OF push_off_only] dest!: pop_off_Inr machine_above)

lemma with_lock_above:
  assumes "with_lock c l f s = Inr s'" "\<And>s. above (f s) = above s"
  shows "above s' = above s"
  using assms by (auto simp: with_lock_def bindE_eq_Inr dest!: acquire_above release_above)

lemma wakeup_above: "wakeup c ch s = Inr s' \<Longrightarrow> above s' = above s"
proof -
  assume w: "wakeup c ch s = Inr s'"
  let ?f = "\<lambda>i s. bindE (myproc c s) (\<lambda>(me, s).
     if Some i \<noteq> me then with_lock c (ProcLock i) (upd_proc i (wake_one ch)) s else Inr s)"
  have step: "above v = above s" if u: "above u = above s" and v: "?f i u = Inr v" for i u v
  proof -
    from v obtain me t where m: "myproc c u = Inr (me, t)"
      and r: "(if Some i \<noteq> me then with_lock c (ProcLock i) (upd_proc i (wake_one ch)) t else Inr t) = Inr v"
      by (auto simp: bindE_eq_Inr)
    have "above v = above t"
    proof (cases "Some i = me")
      case False
      then have "with_lock c (ProcLock i) (upd_proc i (wake_one ch)) t = Inr v" using r by simp
      then show ?thesis by (rule with_lock_above) simp
    qed (use r in simp)
    then show ?thesis using myproc_above[OF m] u by simp
  qed
  show "above s' = above s"
    by (rule for_each_invariant[OF _ _ w[unfolded wakeup_def], where P = "\<lambda>u. above u = above s"])
       (use step in blast, simp)
qed

lemmas base_above = acquire_above release_above myproc_above wakeup_above

lemma sleeps_not [simp]: "sleeps c ch l s \<noteq> Inr x"
  by (auto simp: sleeps_def bindE_eq_Inr)

lemma mypid_above: "mypid c s = Inr (n, s') \<Longrightarrow> above s' = above s"
  by (auto simp: mypid_def bindE_eq_Inr split: option.splits dest!: myproc_above)

lemma sleeplock_above:
  "acquiresleep c l s = Inr s' \<Longrightarrow> above s' = above s"
  "releasesleep c l s = Inr s' \<Longrightarrow> above s' = above s"
  "holdingsleep c l s = Inr (r, s') \<Longrightarrow> above s' = above s"
  by (auto simp: acquiresleep_def releasesleep_def holdingsleep_def bindE_eq_Inr split: if_splits
      dest!: base_above mypid_above)

lemma free_desc_above: "free_desc c i s = Inr s' \<Longrightarrow> above s' = above s"
  by (auto simp: free_desc_def split: if_splits dest!: wakeup_above)

lemma free_chain_above: "free_chain_loop n c i s = Inr s' \<Longrightarrow> above s' = above s"
proof (induction n arbitrary: i s)
  case (Suc n)
  from Suc.prems obtain t where t: "free_desc c i s = Inr t"
    and r: "t = s' \<or> (\<exists>k. free_chain_loop n c k t = Inr s')"
    by (auto simp: bindE_eq_Inr Let_def split: if_splits)
  then show ?case using Suc.IH free_desc_above[OF t] by auto
qed simp

lemma intr_loop_above: "intr_loop n c s = Inr s' \<Longrightarrow> above s' = above s"
proof (induction n arbitrary: s)
  case (Suc n)
  show ?case
  proof (cases "used_idx (vdisk s) \<noteq> used_didx (vdisk s)")
    case True
    from Suc.prems True obtain b t where w: "wakeup c (Some (ChBuf b)) (upd_buf b (bdisk_update (\<lambda>_. False)) s) = Inr t"
      and r: "intr_loop n c (upd_vdisk (used_idx_update (\<lambda>n. n + 1)) t) = Inr s'"
      by (auto simp: bindE_eq_Inr Let_def split: if_splits option.splits)
    show ?thesis using Suc.IH[OF r] wakeup_above[OF w] by simp
  next
    case False
    then show ?thesis using Suc.prems by simp
  qed
qed simp

declare free_chain_loop.simps(2) [simp del] intr_loop.simps(2) [simp del]

lemma alloc3_above: "alloc3_desc c s = Inr (r, s') \<Longrightarrow> above s' = above s"
  by (auto simp: alloc3_desc_def bindE_eq_Inr split: prod.splits option.splits dest!: free_desc_above)

lemma virtio_submit_above: "virtio_submit c b w s = Inr (i, s') \<Longrightarrow> above s' = above s"
  by (auto simp: virtio_submit_def bindE_eq_Inr split: option.splits dest!: acquire_above alloc3_above)

lemma virtio_wait_above: "virtio_wait h c b s = Inr s' \<Longrightarrow> above s' = above s"
  by (auto simp: virtio_wait_def virtio_disk_intr_def bindE_eq_Inr Let_def split: if_splits
      dest!: base_above intr_loop_above)

lemma virtio_finish_above: "virtio_finish c i s = Inr s' \<Longrightarrow> above s' = above s"
  by (auto simp: virtio_finish_def free_chain_def bindE_eq_Inr dest!: free_chain_above release_above)

lemma virtio_disk_rw_above: "virtio_disk_rw h c b w s = Inr s' \<Longrightarrow> above s' = above s"
  by (auto simp: virtio_disk_rw_def bindE_eq_Inr
      dest!: virtio_submit_above virtio_wait_above virtio_finish_above)

lemma bget_above: "bget c dev bn s = Inr (b, s') \<Longrightarrow> above s' = above s"
proof -
  assume g: "bget c dev bn s = Inr (b, s')"
  then obtain t where a: "acquire c BcacheLock s = Inr t" by (auto simp: bget_def bindE_eq_Inr)
  with g obtain f u x where "release c BcacheLock (upd_buf x f t) = Inr u" "acquiresleep c (BufLock x) u = Inr s'"
    by (auto simp: bget_def bindE_eq_Inr split: option.splits)
  then show ?thesis using acquire_above[OF a] by (auto dest!: release_above sleeplock_above)
qed

lemma bread_above: "bread h c dev bn s = Inr (b, s') \<Longrightarrow> above s' = above s"
  by (auto simp: bread_def bindE_eq_Inr split: if_splits dest!: bget_above virtio_disk_rw_above)

lemma bwrite_above: "bwrite h c b s = Inr s' \<Longrightarrow> above s' = above s"
  by (auto simp: bwrite_def bindE_eq_Inr split: if_splits dest!: virtio_disk_rw_above sleeplock_above)

lemma brelse_above: "brelse c b s = Inr s' \<Longrightarrow> above s' = above s"
proof -
  let ?f = "\<lambda>s. let s = upd_buf b (brefcnt_update (\<lambda>n. n - 1)) s in
         if brefcnt (bufs s b) = 0 then lru_push b (lru_unlink b s) else s"
  have f: "above (?f u) = above u" for u by (simp add: Let_def)
  assume "brelse c b s = Inr s'"
  then obtain t u where h: "holdingsleep c (BufLock b) s = Inr (True, t)" "releasesleep c (BufLock b) t = Inr u"
    and w: "with_lock c BcacheLock ?f u = Inr s'"
    by (auto simp: brelse_def bindE_eq_Inr split: if_splits)
  show ?thesis using with_lock_above[OF w f] h by (auto dest!: sleeplock_above)
qed

lemma bpin_above: "bpin c b s = Inr s' \<Longrightarrow> above s' = above s"
    "bunpin c b s = Inr s' \<Longrightarrow> above s' = above s"
  unfolding bpin_def bunpin_def by (erule with_lock_above, simp)+

lemmas bio_above = bread_above bwrite_above brelse_above bpin_above

lemma printf_above: "printf c fmt ap s = Inr s' \<Longrightarrow> above s' = above s"
  using printf_Inr io_only_above by blast

subsection \<open>The log as the operations see it\<close>

lemma klog_above: "above s' = above s \<Longrightarrow> klog s' = klog s"
  for s s' :: "'a klog_scheme"
  by (cases s, cases s') (simp add: above_def kdisk.defs)

lemma klog_upd [simp]: "klog (upd_log f s) = f (klog s)" "klog (upd_lh g s) = lg_lh_update g (klog s)"
  by (simp_all add: upd_log_def upd_lh_def)

lemma begin_op_effect:
  assumes "begin_op c s = Inr s'"
  shows "\<not> lg_committing (klog s)" "lh_n (lg_lh (klog s)) + (lg_outstanding (klog s) + 1) * int MAXOPBLOCKS \<le> int LOGBLOCKS"
    "klog s' = lg_outstanding_update (\<lambda>n. n + 1) (klog s)"
proof -
  obtain t where a: "acquire c LogLock s = Inr t" using assms by (auto simp: begin_op_def bindE_eq_Inr)
  have k: "klog t = klog s" using klog_above[OF acquire_above[OF a]] .
  have r: "\<not> lg_committing (klog t)" "lh_n (lg_lh (klog t)) + (lg_outstanding (klog t) + 1) * int MAXOPBLOCKS \<le> int LOGBLOCKS"
    "release c LogLock (upd_log (lg_outstanding_update (\<lambda>n. n + 1)) t) = Inr s'"
    using assms a by (auto simp: begin_op_def Let_def split: if_splits)
  then show "\<not> lg_committing (klog s)" "lh_n (lg_lh (klog s)) + (lg_outstanding (klog s) + 1) * int MAXOPBLOCKS \<le> int LOGBLOCKS"
    using k by simp_all
  show "klog s' = lg_outstanding_update (\<lambda>n. n + 1) (klog s)"
    using klog_above[OF release_above[OF r(3)]] k by simp
qed

lemma log_write_effect:
  assumes "log_write c b s = Inr s'"
  shows "lg_outstanding (klog s') = lg_outstanding (klog s)" "lg_committing (klog s') = lg_committing (klog s)"
    "lh_n (lg_lh (klog s')) = lh_n (lg_lh (klog s)) \<or> lh_n (lg_lh (klog s')) = lh_n (lg_lh (klog s)) + 1"
proof -
  obtain t where a: "acquire c LogLock s = Inr t" using assms by (auto simp: log_write_def bindE_eq_Inr)
  have k: "klog t = klog s" using klog_above[OF acquire_above[OF a]] .
  define u where "u = upd_lh (\<lambda>lh. lh\<lparr>lh_block := (lh_block lh)(log_slot (sint (bblockno (bufs t b))) (lg_lh (klog t))
    := sint (bblockno (bufs t b)))\<rparr>) t"
  have "\<exists>v. (release c LogLock v = Inr s' \<and> (v = u \<or> (\<exists>w. bpin c b u = Inr w \<and> v = upd_lh (lh_n_update (\<lambda>n. n + 1)) w)))"
    using assms a by (auto simp: log_write_def Let_def u_def bindE_eq_Inr split: if_splits)
  then obtain v where v: "release c LogLock v = Inr s'"
    and c: "v = u \<or> (\<exists>w. bpin c b u = Inr w \<and> v = upd_lh (lh_n_update (\<lambda>n. n + 1)) w)" by blast
  have e: "klog s' = klog v" using klog_above[OF release_above[OF v]] .
  have u: "klog u = lg_lh_update (\<lambda>lh. lh\<lparr>lh_block := (lh_block lh)(log_slot (sint (bblockno (bufs t b))) (lg_lh (klog t))
    := sint (bblockno (bufs t b)))\<rparr>) (klog s)" by (simp add: u_def k)
  have b: "klog w = klog u" if "bpin c b u = Inr w" for w using klog_above[OF bpin_above(1)[OF that]] .
  show "lg_outstanding (klog s') = lg_outstanding (klog s)" "lg_committing (klog s') = lg_committing (klog s)"
    "lh_n (lg_lh (klog s')) = lh_n (lg_lh (klog s)) \<or> lh_n (lg_lh (klog s')) = lh_n (lg_lh (klog s)) + 1"
    using c e u b by auto
qed

lemma write_head_effect: "write_head h c s = Inr s' \<Longrightarrow> klog s' = klog s"
  by (auto simp: write_head_def bindE_eq_Inr intro!: klog_above dest!: bio_above)

lemma for_each_klog:
  assumes "for_each f xs s = Inr s'" "\<And>i u v. f i u = Inr v \<Longrightarrow> klog v = klog u"
  shows "klog s' = klog s"
  by (rule for_each_invariant[OF _ _ assms(1), where P = "\<lambda>u. klog u = klog s"]) (use assms(2) in auto)

lemma install_one_effect: "install_one h c r i s = Inr s' \<Longrightarrow> klog s' = klog s"
  by (auto simp: install_one_def bindE_eq_Inr split: if_splits intro!: klog_above dest!: bio_above printf_above)

lemma write_one_effect: "write_one h c i s = Inr s' \<Longrightarrow> klog s' = klog s"
  by (auto simp: write_one_def bindE_eq_Inr intro!: klog_above dest!: bio_above)

lemma commit_effect:
  assumes "commit h c s = Inr s'"
  shows "klog s' = (if lh_n (lg_lh (klog s)) > 0 then lg_lh_update (lh_n_update (\<lambda>_. 0)) (klog s) else klog s)"
proof (cases "lh_n (lg_lh (klog s)) > 0")
  case True
  with assms obtain t u v where "write_log h c s = Inr t" "write_head h c t = Inr u"
    "install_trans h c False u = Inr v" "write_head h c (upd_lh (lh_n_update (\<lambda>_. 0)) v) = Inr s'"
    by (auto simp: commit_def bindE_eq_Inr)
  then have "klog t = klog s" "klog u = klog t" "klog v = klog u"
    "klog s' = klog (upd_lh (lh_n_update (\<lambda>_. 0)) v)"
    unfolding write_log_def install_trans_def
    by (auto intro: for_each_klog write_one_effect install_one_effect dest: write_head_effect)
  then show ?thesis using True by simp
qed (use assms in \<open>simp add: commit_def\<close>)

lemma end_op_effect:
  assumes "end_op h c s = Inr s'"
  shows "\<not> lg_committing (klog s)" "lg_outstanding (klog s') = lg_outstanding (klog s) - 1"
    "\<not> lg_committing (klog s')"
    "lh_n (lg_lh (klog s')) = (if lg_outstanding (klog s) = 1 \<and> lh_n (lg_lh (klog s)) > 0 then 0 else lh_n (lg_lh (klog s)))"
proof -
  obtain t where a: "acquire c LogLock s = Inr t" using assms by (auto simp: end_op_def bindE_eq_Inr)
  have k: "klog t = klog s" using klog_above[OF acquire_above[OF a]] .
  define u where "u = upd_log (lg_outstanding_update (\<lambda>n. n - 1)) t"
  have u: "klog u = lg_outstanding_update (\<lambda>n. n - 1) (klog s)" by (simp add: u_def k)
  have nc: "\<not> lg_committing (klog s)" using assms a k by (auto simp: end_op_def Let_def split: if_splits)
  then show "\<not> lg_committing (klog s)" .
  have "klog s' = (if lg_outstanding (klog s) = 1
     then lg_committing_update (\<lambda>_. False) (let l = lg_committing_update (\<lambda>_. True) (klog u)
       in if lh_n (lg_lh l) > 0 then lg_lh_update (lh_n_update (\<lambda>_. 0)) l else l)
     else klog u)"
  proof (cases "lg_outstanding (klog s) = 1")
    case True
    with assms a nc k obtain v w x y where
      v: "release c LogLock (upd_log (lg_committing_update (\<lambda>_. True)) u) = Inr v"
      and w: "commit h c v = Inr w" and x: "acquire c LogLock w = Inr x"
      and y: "wakeup c (Some ChLog) (upd_log (lg_committing_update (\<lambda>_. False)) x) = Inr y"
      and z: "release c LogLock y = Inr s'"
      by (auto simp: end_op_def Let_def u_def bindE_eq_Inr)
    show ?thesis
      using True klog_above[OF release_above[OF v]] commit_effect[OF w] klog_above[OF acquire_above[OF x]]
        klog_above[OF wakeup_above[OF y]] klog_above[OF release_above[OF z]] by (simp add: Let_def)
  next
    case False
    with assms a nc k obtain v where v: "wakeup c (Some ChLog) u = Inr v" and z: "release c LogLock v = Inr s'"
      by (auto simp: end_op_def Let_def u_def bindE_eq_Inr)
    show ?thesis using False klog_above[OF wakeup_above[OF v]] klog_above[OF release_above[OF z]] by simp
  qed
  then show "lg_outstanding (klog s') = lg_outstanding (klog s) - 1" "\<not> lg_committing (klog s')"
    "lh_n (lg_lh (klog s')) = (if lg_outstanding (klog s) = 1 \<and> lh_n (lg_lh (klog s)) > 0 then 0 else lh_n (lg_lh (klog s)))"
    using nc u by (auto simp: Let_def)
qed

subsection \<open>Space for every operation\<close>

text \<open>
  File system calls at work: \<open>act i\<close> is the number of blocks the running call \<open>i\<close> has passed to
  \<open>log_write\<close>, at most \<open>MAXOPBLOCKS\<close> of them.  The calls of several processes interleave.
\<close>

inductive log_step :: "('a klog_scheme \<times> (nat \<Rightarrow> nat option)) \<Rightarrow> ('a klog_scheme \<times> (nat \<Rightarrow> nat option)) \<Rightarrow> bool" where
  op_begins: "begin_op c s = Inr s' \<Longrightarrow> act i = None \<Longrightarrow> log_step (s, act) (s', act(i := Some 0))"
| op_writes: "log_write c b s = Inr s' \<Longrightarrow> act i = Some k \<Longrightarrow> k < MAXOPBLOCKS \<Longrightarrow>
    log_step (s, act) (s', act(i := Some (k + 1)))"
| op_ends: "end_op h c s = Inr s' \<Longrightarrow> act i = Some k \<Longrightarrow> log_step (s, act) (s', act(i := None))"

definition log_idle :: "('a klog_scheme \<times> (nat \<Rightarrow> nat option)) \<Rightarrow> bool" where
  "log_idle x = (case x of (s, act) \<Rightarrow> lg_outstanding (klog s) = 0 \<and> \<not> lg_committing (klog s)
     \<and> lh_n (lg_lh (klog s)) = 0 \<and> (\<forall>i. act i = None))"

definition reserve :: "(nat \<Rightarrow> nat option) \<Rightarrow> int" where
  "reserve act = (\<Sum>i\<in>dom act. int MAXOPBLOCKS - int (the (act i)))"

definition log_space :: "('a klog_scheme \<times> (nat \<Rightarrow> nat option)) \<Rightarrow> bool" where
  "log_space x = (case x of (s, act) \<Rightarrow> finite (dom act) \<and> lg_outstanding (klog s) = int (card (dom act))
     \<and> \<not> lg_committing (klog s) \<and> 0 \<le> lh_n (lg_lh (klog s))
     \<and> (\<forall>i k. act i = Some k \<longrightarrow> k \<le> MAXOPBLOCKS)
     \<and> lh_n (lg_lh (klog s)) + reserve act \<le> int LOGBLOCKS)"

lemma reserve_upd:
  assumes "finite (dom act)" "i \<notin> dom act"
  shows "reserve (act(i := Some k)) = reserve act + (int MAXOPBLOCKS - int k)"
proof -
  have "reserve (act(i := Some k)) = int MAXOPBLOCKS - int k + (\<Sum>j\<in>dom act. int MAXOPBLOCKS - int (the ((act(i := Some k)) j)))"
    using assms by (simp add: reserve_def)
  also have "(\<Sum>j\<in>dom act. int MAXOPBLOCKS - int (the ((act(i := Some k)) j))) = reserve act"
    unfolding reserve_def using assms(2) by (intro sum.cong) auto
  finally show ?thesis by (simp only: add.commute)
qed

lemma reserve_drop:
  assumes "finite (dom act)" "act i = Some k"
  shows "reserve act = reserve (act(i := None)) + (int MAXOPBLOCKS - int k)"
    "card (dom act) = Suc (card (dom (act(i := None))))"
proof -
  let ?o = "act(i := None)"
  have e: "act = ?o(i := Some k)" using assms(2) by auto
  have f: "finite (dom ?o)" "i \<notin> dom ?o" using assms(1) by simp_all
  show "reserve act = reserve ?o + (int MAXOPBLOCKS - int k)" by (subst e, subst reserve_upd[OF f]) simp
  have "card (dom (?o(i := Some k))) = Suc (card (dom ?o))" using f card_insert_disjoint[OF f] by (simp only: dom_fun_upd) simp
  then show "card (dom act) = Suc (card (dom ?o))" using e by metis
qed

lemma reserve_bounds:
  assumes "finite (dom act)" "\<forall>i k. act i = Some k \<longrightarrow> k \<le> MAXOPBLOCKS"
  shows "0 \<le> reserve act" "reserve act \<le> int (card (dom act)) * int MAXOPBLOCKS"
proof -
  show "0 \<le> reserve act" unfolding reserve_def using assms(2) by (intro sum_nonneg) auto
  have "reserve act \<le> (\<Sum>i\<in>dom act. int MAXOPBLOCKS)" unfolding reserve_def by (intro sum_mono) simp
  then show "reserve act \<le> int (card (dom act)) * int MAXOPBLOCKS" by simp
qed

lemma log_space_step:
  assumes "log_step x y" "log_space x"
  shows "log_space y"
  using assms
proof (induction rule: log_step.induct)
  case (op_begins c s s' act i)
  note e = begin_op_effect[OF op_begins(1)]
  have f: "finite (dom act)" and o: "lg_outstanding (klog s) = int (card (dom act))" and n: "0 \<le> lh_n (lg_lh (klog s))"
    and b: "\<forall>i k. act i = Some k \<longrightarrow> k \<le> MAXOPBLOCKS" using op_begins(3) by (simp_all add: log_space_def)
  have i: "i \<notin> dom act" using op_begins(2) by (simp add: domIff)
  have "lh_n (lg_lh (klog s)) + reserve (act(i := Some 0)) \<le> int LOGBLOCKS"
    using e(2) reserve_bounds(2)[OF f b] o by (simp add: reserve_upd[OF f i] algebra_simps)
  then show ?case using f o n b e i by (simp add: log_space_def)
next
  case (op_writes c b s s' act i k)
  note e = log_write_effect[OF op_writes(1)]
  have f: "finite (dom act)" and o: "lg_outstanding (klog s) = int (card (dom act))" and n: "0 \<le> lh_n (lg_lh (klog s))"
    and b: "\<forall>i k. act i = Some k \<longrightarrow> k \<le> MAXOPBLOCKS" and nc: "\<not> lg_committing (klog s)"
    and sp: "lh_n (lg_lh (klog s)) + reserve act \<le> int LOGBLOCKS" using op_writes(4) by (simp_all add: log_space_def)
  have "reserve (act(i := Some (k + 1))) = reserve act - 1"
    using reserve_drop(1)[OF f op_writes(2)] reserve_upd[of "act(i := None)" i "k + 1"] f by simp
  moreover have "card (dom (act(i := Some (k + 1)))) = card (dom act)"
    using op_writes(2) by (simp add: insert_absorb domI)
  ultimately show ?case using f o n b nc sp e op_writes(3) by (auto simp: log_space_def)
next
  case (op_ends h c s s' act i k)
  note e = end_op_effect[OF op_ends(1)]
  have f: "finite (dom act)" and o: "lg_outstanding (klog s) = int (card (dom act))" and n: "0 \<le> lh_n (lg_lh (klog s))"
    and b: "\<forall>i k. act i = Some k \<longrightarrow> k \<le> MAXOPBLOCKS"
    and sp: "lh_n (lg_lh (klog s)) + reserve act \<le> int LOGBLOCKS" using op_ends(3) by (simp_all add: log_space_def)
  note d = reserve_drop[OF f op_ends(2)]
  have k: "k \<le> MAXOPBLOCKS" using b op_ends(2) by blast
  have b': "\<forall>j m. (act(i := None)) j = Some m \<longrightarrow> m \<le> MAXOPBLOCKS" using b by auto
  have f': "finite (dom (act(i := None)))" using f by simp
  have "lh_n (lg_lh (klog s')) + reserve (act(i := None)) \<le> int LOGBLOCKS"
    using e(4) d(1) k sp n reserve_bounds(1)[OF f' b'] by (auto split: if_splits)
  then show ?case using f' b' o d(2) e n by (auto simp: log_space_def)
qed

interpretation log_sys: invariant log_idle log_step log_space
proof unfold_locales
  show "log_space x" if "log_idle x" for x :: "'a klog_scheme \<times> (nat \<Rightarrow> nat option)"
  proof -
    obtain s act where x: "x = (s, act)" by (cases x)
    then have "act = Map.empty" using that by (auto simp: log_idle_def)
    then show ?thesis using that x by (simp add: log_idle_def log_space_def reserve_def)
  qed
qed (rule log_space_step)

lemma bpin_panics: "bpin c b s = Inl e \<Longrightarrow>
    e \<noteq> Panic ''too big a transaction'' \<and> e \<noteq> Panic ''log_write outside of trans''"
  by (auto simp: bpin_def with_lock_def bindE_eq_Inl machine_defs Let_def split: if_splits)

lemma log_write_panics:
  assumes "lh_n (lg_lh (klog s)) < int LOGBLOCKS" "1 \<le> lg_outstanding (klog s)" "log_write c b s = Inl e"
  shows "e \<noteq> Panic ''too big a transaction'' \<and> e \<noteq> Panic ''log_write outside of trans''"
proof (cases "acquire c LogLock s")
  case (Inl x)
  then show ?thesis
    using assms(3) by (auto simp: log_write_def machine_defs Let_def split: if_splits)
next
  case (Inr t)
  have k: "klog t = klog s" using klog_above[OF acquire_above[OF Inr]] .
  have rel: "release c LogLock u = Inl e \<Longrightarrow> ?thesis" for u :: "'a klog_scheme"
    by (auto simp: machine_defs Let_def split: if_splits)
  show ?thesis
    using assms Inr k rel
    by (auto simp: log_write_def Let_def bindE_eq_Inl split: if_splits dest: bpin_panics)
qed

text \<open>
  C11.  The log has room for every call that keeps to its \<open>MAXOPBLOCKS\<close> blocks.  In every state the
  calls of the processes can reach, a block passed to \<open>log_write\<close> within that number is taken:
  neither the size check nor the transaction check stops the kernel.
\<close>

theorem log_never_overflows:
  assumes "reach log_idle log_step (s, act)" and "act i = Some k" and "k < MAXOPBLOCKS"
  shows "log_write c b s \<noteq> Inl (Panic ''too big a transaction'')
    \<and> log_write c b s \<noteq> Inl (Panic ''log_write outside of trans'')
    \<and> lh_n (lg_lh (klog s)) < int LOGBLOCKS"
proof -
  have "log_space (s, act)" using log_sys.inv_reach[OF assms(1)] .
  then have f: "finite (dom act)" and o: "lg_outstanding (klog s) = int (card (dom act))"
    and b: "\<forall>i k. act i = Some k \<longrightarrow> k \<le> MAXOPBLOCKS"
    and sp: "lh_n (lg_lh (klog s)) + reserve act \<le> int LOGBLOCKS" by (simp_all add: log_space_def)
  have b': "\<forall>j m. (act(i := None)) j = Some m \<longrightarrow> m \<le> MAXOPBLOCKS" using b by auto
  have f': "finite (dom (act(i := None)))" using f by simp
  have "0 \<le> reserve (act(i := None))" by (rule reserve_bounds(1)[OF f' b'])
  then have n: "lh_n (lg_lh (klog s)) < int LOGBLOCKS"
    using reserve_drop(1)[OF f assms(2)] assms(3) sp by linarith
  moreover have "1 \<le> lg_outstanding (klog s)" using reserve_drop(2)[OF f assms(2)] o by simp
  ultimately show ?thesis using log_write_panics by blast
qed

text \<open>A machine with no lock taken and an empty log.\<close>

definition idle_log :: klog where
  "idle_log = (undefined :: klog)\<lparr>cpus := (\<lambda>_. \<lparr>cproc = None, noff = 0, intena = False, sie = False\<rparr>),
     locks := (\<lambda>_. \<lparr>locked = False, lname = [], lcpu = None\<rparr>),
     klog := \<lparr>lg_start = 2, lg_outstanding = 0, lg_committing = False, lg_dev = 1,
       lg_lh = \<lparr>lh_n = 0, lh_block = (\<lambda>_. 0)\<rparr>\<rparr>\<rparr>"

lemma idle_log_begins:
  "begin_op 0 idle_log = Inr (upd_log (lg_outstanding_update (\<lambda>n. n + 1)) idle_log)"
  by (simp add: begin_op_def machine_defs Let_def idle_log_def upd_log_def MAXOPBLOCKS_def LOGBLOCKS_def fun_upd_idem)

theorem log_never_overflows_witness:
  "lh_n (lg_lh (klog (upd_log (lg_outstanding_update (\<lambda>n. n + 1)) idle_log))) < int LOGBLOCKS"
proof -
  let ?s = "upd_log (lg_outstanding_update (\<lambda>n. n + 1)) idle_log" and ?a = "(\<lambda>_. None)(7 := Some 0)"
  have "reach log_idle log_step (idle_log, \<lambda>_. None)"
    by (rule reach_init) (simp add: log_idle_def idle_log_def)
  then have "reach log_idle log_step (?s, ?a)"
    by (rule reach_step) (rule op_begins[OF idle_log_begins], simp)
  then show ?thesis using log_never_overflows[of ?s ?a 7 0] by (simp add: MAXOPBLOCKS_def)
qed

end
