(* ===== verification/DiskSpec.thy ===== *)
theory DiskSpec
  imports LogSpace
begin

text \<open>
  What the operations from the sleep locks to the buffer cache do for a process that finds no spin
  lock taken.

  In such a state (\<open>ready\<close>) every critical section is its body, so each operation is a function on
  the state; \<open>wake\<close> is what a call to \<open>wakeup\<close> does.
\<close>

unbundle bit_operations_syntax

definition ready :: "nat \<Rightarrow> nat \<Rightarrow> 'a machine_scheme \<Rightarrow> bool" where
  "ready c p s = (cpu_sane c s \<and> settled c s \<and> (\<forall>l. lock_free l s) \<and> cproc (cpus s c) = Some p)"

definition wake :: "nat \<Rightarrow> chan \<Rightarrow> 'a ptable_scheme \<Rightarrow> 'a ptable_scheme" where
  "wake p ch = map_procs (\<lambda>i q. if i = p then q else wake_one (Some ch) q)"

lemma ready_cong: "cpus s' = cpus s \<Longrightarrow> locks s' = locks s \<Longrightarrow> ready c p s' = ready c p s"
  by (simp add: ready_def cpu_sane_def settled_def lock_free_def)

lemma ready_upd [simp]:
  "ready c p (upd_slock l f s) = ready c p s" "ready c p (wake q ch s') = ready c p s'"
  "ready c p (upd_vdisk g s'') = ready c p s''" "ready c p (upd_buf b k s'') = ready c p s''"
  "ready c p (mmio_write r v s'') = ready c p s''" "ready c p (device_step dv s'') = ready c p s''"
  "ready c p (s''\<lparr>vdisk := w\<rparr>) = ready c p s''" "ready c p (virtio_enqueue b wr idx s'') = ready c p s''"
  by (rule ready_cong; simp add: upd_slock_def wake_def upd_vdisk_def upd_buf_def mmio_write_def device_step_def
      virtio_enqueue_def Let_def split: prod.splits)+

lemma ready_procs_free: "ready c p s \<Longrightarrow> procs_free c s"
  by (simp add: ready_def procs_free_def)

lemma ready_settle [simp]: "ready c p s \<Longrightarrow> settle c s = s"
  by (simp add: ready_def settle_settled)

lemma acquire_ready [simp]: "ready c p s \<Longrightarrow> acquire c l s = Inr (inside c l s)"
  by (simp add: ready_def acquire_free)

lemma release_ready [simp]: "ready c p s \<Longrightarrow> release c l (inside c l s) = Inr s"
  by (simp add: release_inside ready_def settle_settled)

lemma lockless_sleeplock: "lockless (upd_slock l f)"
  by (simp add: lockless_def upd_slock_def)

lemma lockless_wake: "lockless (wake p ch)"
  unfolding wake_def by (rule lockless_map_procs)

lemma lockless_disk: "lockless (upd_vdisk g)" "lockless (upd_buf b k)" "lockless (mmio_write r v)"
    "lockless (vdisk_update m)" "lockless (virtio_enqueue b wr idx)"
  by (simp_all add: lockless_def upd_vdisk_def upd_buf_def mmio_write_def virtio_enqueue_def Let_def split: prod.splits)

lemmas inside_comm [simp] = lockless_inside[OF lockless_sleeplock] lockless_inside[OF lockless_wake]
  lockless_disk[THEN lockless_inside]

lemma inside_read [simp]: "slocks (inside c l s) = slocks s" "vdisk (inside c l s') = vdisk s'"
  "mmio (inside c l s') = mmio s'" "bufs (inside c l s') = bufs s'" "sectors (inside c l s') = sectors s'"
  by (simp_all add: inside_eq)

text \<open>Any lock but those of the process slots.\<close>

definition plain :: "lockid \<Rightarrow> bool" where "plain l = (\<forall>i. l \<noteq> ProcLock i)"

lemma plain_simps [simp]: "plain (BufLock b)" "plain (InodeLock i)" "plain VdiskLock" "plain BcacheLock" "plain LogLock"
  by (simp_all add: plain_def)

lemma wakeup_inside [simp]:
  assumes "ready c p s" "plain l"
  shows "wakeup c (Some ch) (inside c l s) = Inr (inside c l (wake p ch s))"
proof -
  have sane: "cpu_sane c s" using assms(1) by (simp add: ready_def)
  have "procs_free c (inside c l s)"
    using assms by (auto simp: procs_free_def ready_def plain_def lock_free_def inside_eq cpu_sane_def)
  then have "wakeup c (Some ch) (inside c l s) = Inr (wake p ch (inside c l s))"
    using assms(1) by (simp add: wakeup_spec settle_inside[OF sane] wake_def ready_def eq_commute[of p])
  then show ?thesis by simp
qed

lemma myproc_inside [simp]: "ready c p s \<Longrightarrow> myproc c (inside c l s) = Inr (Some p, inside c l s)"
  by (simp add: ready_def myproc_ok inside_sane settle_inside) (simp add: inside_eq)

lemma mypid_inside [simp]: "ready c p s \<Longrightarrow> mypid c (inside c l s) = Inr (pid (procs s p), inside c l s)"
  by (simp add: mypid_def)

text \<open>The sleep locks.\<close>

definition sl_take :: "nat \<Rightarrow> lockid \<Rightarrow> 'a ksleep_scheme \<Rightarrow> 'a ksleep_scheme" where
  "sl_take p l s = upd_slock l (\<lambda>k. k\<lparr>slocked := True, slpid := pid (procs s p)\<rparr>) s"

definition sl_drop :: "nat \<Rightarrow> lockid \<Rightarrow> 'a ksleep_scheme \<Rightarrow> 'a ksleep_scheme" where
  "sl_drop p l s = wake p (sl_chan l) (upd_slock l (\<lambda>k. k\<lparr>slocked := False, slpid := 0\<rparr>) s)"

definition sl_mine :: "nat \<Rightarrow> lockid \<Rightarrow> 'a ksleep_scheme \<Rightarrow> bool" where
  "sl_mine p l s = (slocked (slocks s l) \<and> slpid (slocks s l) = pid (procs s p))"

lemma upd_slock_upd: "upd_slock l f (upd_slock l g s) = upd_slock l (\<lambda>k. f (g k)) s"
  and procs_upd_slock [simp]: "procs (upd_slock l f s) = procs s"
  by (simp_all add: upd_slock_def)

lemma acquiresleep_ready:
  "ready c p s \<Longrightarrow> \<not> slocked (slocks s l) \<Longrightarrow> acquiresleep c l s = Inr (sl_take p l s)"
  by (simp add: acquiresleep_def sl_take_def upd_slock_upd)

lemma releasesleep_ready: "ready c p s \<Longrightarrow> plain l \<Longrightarrow> releasesleep c l s = Inr (sl_drop p l s)"
  by (simp add: releasesleep_def sl_drop_def)

lemma holdingsleep_ready: "ready c p s \<Longrightarrow> holdingsleep c l s = Inr (sl_mine p l s, s)"
  by (simp add: holdingsleep_def sl_mine_def)

lemma ready_sl [simp]: "ready c p (sl_take q l s) = ready c p s" "ready c p (sl_drop q l s) = ready c p s"
  by (simp_all add: sl_take_def sl_drop_def)

subsection \<open>A disk request\<close>

text \<open>
  \<open>virtio_blk\<close> is what the driver relies on of the device, as the virtio specification has it: given
  one new chain of a request header, a data buffer and a status byte, the device moves the data
  between the buffer and the two sectors, reports success and puts the chain on the used ring.
\<close>

definition virtio_blk :: "device \<Rightarrow> bool" where
  "virtio_blk dv = (\<forall>v dat sec h i j b fl.
     avail_idx v = used_didx v + 1 \<and> unat (avail_ring v (unat (used_didx v) mod NUM)) = h \<and> distinct [h, i, j]
     \<and> h < NUM \<and> i < NUM \<and> j < NUM
     \<and> desc v h = \<lparr>d_addr = DmaReq h, d_len = 16, d_flags = VRING_DESC_F_NEXT, d_next = of_nat i\<rparr>
     \<and> desc v i = \<lparr>d_addr = DmaData b, d_len = of_nat BSIZE, d_flags = fl OR VRING_DESC_F_NEXT, d_next = of_nat j\<rparr>
     \<and> desc v j = \<lparr>d_addr = DmaStatus h, d_len = 1, d_flags = VRING_DESC_F_WRITE, d_next = 0\<rparr>
     \<and> (fl = 0 \<and> rq_type (ops v h) = VIRTIO_BLK_T_OUT \<or> fl = VRING_DESC_F_WRITE \<and> rq_type (ops v h) = VIRTIO_BLK_T_IN) \<longrightarrow>
     (let k = unat (rq_sector (ops v h)) in
      dv v dat sec =
        (v\<lparr>used_ring := (used_ring v)(unat (used_didx v) mod NUM := of_nat h), used_didx := used_didx v + 1,
           info_status := (info_status v)(h := 0)\<rparr>,
         if fl = 0 then dat else dat(b := sec k @ sec (k + 1)),
         if fl = 0 then sec(k := take 512 (dat b), k + 1 := drop 512 (dat b)) else sec)))"

definition disk_idle :: "vdisk \<Rightarrow> bool" where
  "disk_idle v = ((\<forall>i<NUM. dfree v i) \<and> used_idx v = used_didx v \<and> avail_idx v = used_didx v)"

text \<open>A block of the disk: two sectors.\<close>

definition dblock :: "'a kdisk_scheme \<Rightarrow> nat \<Rightarrow> uint8 list" where
  "dblock s n = sectors s (2 * n) @ sectors s (2 * n + 1)"

lemma upt_NUM: "[0..<NUM] = [0, 1, 2, 3, 4, 5, 6, 7]"
  by (simp add: NUM_def upt_rec)

lemma alloc3_idle:
  assumes "disk_idle (vdisk s)"
  shows "alloc3_desc c s = Inr (Some (0, 1, 2), upd_vdisk (\<lambda>v. v\<lparr>dfree := (dfree v)(0 := False, 1 := False, 2 := False)\<rparr>) s)"
proof -
  have f: "dfree (vdisk s) i" if "i < 8" for i using assms that by (simp add: disk_idle_def NUM_def)
  show ?thesis
    using f[of 0] f[of 1] f[of 2] by (simp add: alloc3_desc_def alloc_desc_def upt_NUM upd_vdisk_def)
qed

text \<open>The queue with the request in it.\<close>

definition requested :: "nat \<Rightarrow> bool \<Rightarrow> uint32 \<Rightarrow> vdisk \<Rightarrow> vdisk" where
  "requested b write bn v = v\<lparr>dfree := (dfree v)(0 := False, 1 := False, 2 := False),
     ops := (ops v)(0 := \<lparr>rq_type = if write then VIRTIO_BLK_T_OUT else VIRTIO_BLK_T_IN, rq_reserved = 0,
       rq_sector = ucast (bn * of_nat (BSIZE div 512))\<rparr>),
     desc := (desc v)(0 := \<lparr>d_addr = DmaReq 0, d_len = 16, d_flags = VRING_DESC_F_NEXT, d_next = of_nat 1\<rparr>,
       1 := \<lparr>d_addr = DmaData b, d_len = of_nat BSIZE, d_flags = (if write then 0 else VRING_DESC_F_WRITE) OR VRING_DESC_F_NEXT, d_next = of_nat 2\<rparr>,
       2 := \<lparr>d_addr = DmaStatus 0, d_len = 1, d_flags = VRING_DESC_F_WRITE, d_next = 0\<rparr>),
     info_status := (info_status v)(0 := 0xff), info_b := (info_b v)(0 := Some b),
     avail_ring := (avail_ring v)(unat (avail_idx v) mod NUM := 0), avail_idx := avail_idx v + 1\<rparr>"

lemma submit_ready:
  assumes "ready c p s" "disk_idle (vdisk s)"
  shows "virtio_submit c b w s = Inr (0, inside c VdiskLock (mmio_write VIRTIO_MMIO_QUEUE_NOTIFY 0
      (upd_buf b (bdisk_update (\<lambda>_. True)) (upd_vdisk (requested b w (bblockno (bufs s b))) s))))"
proof -
  let ?d = "\<lambda>v. v\<lparr>dfree := (dfree v)(0 := False, 1 := False, 2 := False)\<rparr>"
  have a: "alloc3_desc c (inside c VdiskLock s) = Inr (Some (0, 1, 2), inside c VdiskLock (upd_vdisk ?d s))"
    using assms(2) by (subst alloc3_idle) simp_all
  have e: "virtio_enqueue b w (0, 1, 2) (upd_vdisk ?d s)
      = upd_buf b (bdisk_update (\<lambda>_. True)) (upd_vdisk (requested b w (bblockno (bufs s b))) s)"
    by (simp add: virtio_enqueue_def Let_def upd_vdisk_def upd_buf_def requested_def fun_upd_twist)
  show ?thesis using assms(1) by (simp add: virtio_submit_def a e del: One_nat_def)
qed

text \<open>The queue after the device has served it, and after the handler has seen it.\<close>

definition served :: "vdisk \<Rightarrow> vdisk" where
  "served v = v\<lparr>used_ring := (used_ring v)(unat (used_didx v) mod NUM := 0), used_didx := used_didx v + 1,
     info_status := (info_status v)(0 := 0)\<rparr>"

definition sector_of :: "uint32 \<Rightarrow> nat" where
  "sector_of bn = unat (ucast (bn * of_nat (BSIZE div 512)) :: uint64)"

lemma sector_of_small: "unat bn < 2 ^ 31 \<Longrightarrow> sector_of bn = 2 * unat bn"
proof -
  assume a: "unat bn < 2 ^ 31"
  have "unat (bn * 2) = 2 * unat bn"
    using a by (simp add: unat_word_ariths mult.commute)
  moreover have "unat (ucast (bn * 2) :: uint64) = unat (bn * 2)"
    using unsigned_less[of "bn * 2", where 'a = nat] by (simp add: unsigned_ucast_eq take_bit_nat_eq_self)
  ultimately show ?thesis by (simp add: sector_of_def BSIZE_def)
qed

lemma device_served:
  assumes "virtio_blk dv" "disk_idle v"
  shows "dv (requested b w bn v) dat sec = (served (requested b w bn v),
     if w then dat else dat(b := sec (sector_of bn) @ sec (sector_of bn + 1)),
     if w then sec(sector_of bn := take 512 (dat b), sector_of bn + 1 := drop 512 (dat b)) else sec)"
proof -
  let ?v = "requested b w bn v" and ?fl = "if w then 0 else VRING_DESC_F_WRITE"
  have "avail_idx ?v = used_didx ?v + 1 \<and> unat (avail_ring ?v (unat (used_didx ?v) mod NUM)) = 0 \<and> distinct [0::nat, 1, 2]
     \<and> 0 < NUM \<and> 1 < NUM \<and> 2 < NUM
     \<and> desc ?v 0 = \<lparr>d_addr = DmaReq 0, d_len = 16, d_flags = VRING_DESC_F_NEXT, d_next = of_nat 1\<rparr>
     \<and> desc ?v 1 = \<lparr>d_addr = DmaData b, d_len = of_nat BSIZE, d_flags = ?fl OR VRING_DESC_F_NEXT, d_next = of_nat 2\<rparr>
     \<and> desc ?v 2 = \<lparr>d_addr = DmaStatus 0, d_len = 1, d_flags = VRING_DESC_F_WRITE, d_next = 0\<rparr>
     \<and> (?fl = 0 \<and> rq_type (ops ?v 0) = VIRTIO_BLK_T_OUT \<or> ?fl = VRING_DESC_F_WRITE \<and> rq_type (ops ?v 0) = VIRTIO_BLK_T_IN)"
    using assms(2) by (simp add: requested_def disk_idle_def NUM_def)
  from assms(1)[unfolded virtio_blk_def, rule_format, OF this]
  show ?thesis
    by (simp add: Let_def served_def sector_of_def requested_def VRING_DESC_F_WRITE_def)
qed

lemma upd_buf_upd: "upd_buf b f (upd_buf b g s) = upd_buf b (\<lambda>x. f (g x)) s"
  and upd_vdisk_upd: "upd_vdisk k (upd_vdisk m s) = upd_vdisk (\<lambda>x. k (m x)) s"
  and bufs_upd [simp]: "bufs (upd_buf b f s) = (bufs s)(b := f (bufs s b))" "bufs (upd_vdisk k s) = bufs s"
    "bufs (mmio_write r v s) = bufs s" "vdisk (upd_buf b f s) = vdisk s" "vdisk (upd_vdisk k s) = k (vdisk s)"
    "vdisk (mmio_write r v s) = vdisk s" "mmio (upd_buf b f s) = mmio s" "mmio (upd_vdisk k s) = mmio s"
    "sectors (upd_buf b f s) = sectors s" "sectors (upd_vdisk k s) = sectors s" "sectors (mmio_write r v s) = sectors s"
    "vdisk (wake q ch s) = vdisk s" "bufs (wake q ch s) = bufs s" "sectors (wake q ch s) = sectors s" "mmio (wake q ch s) = mmio s"
  by (simp_all add: upd_buf_def upd_vdisk_def mmio_write_def wake_def map_procs_def)

text \<open>The interrupt handler on one served request.\<close>

lemma intr_ready:
  assumes "ready c p s" "used_didx (vdisk s) = used_idx (vdisk s) + 1"
    "used_ring (vdisk s) (unat (used_idx (vdisk s)) mod NUM) = 0" "info_status (vdisk s) 0 = 0" "info_b (vdisk s) 0 = Some b"
  shows "\<exists>m. virtio_disk_intr rg c s = Inr (upd_vdisk (used_idx_update (\<lambda>n. n + 1)) (wake p (ChBuf b)
     (upd_buf b (bdisk_update (\<lambda>_. False)) (s\<lparr>mmio := m\<rparr>))))"
proof -
  let ?a = "rg (mmio s) VIRTIO_MMIO_INTERRUPT_STATUS AND 3"
  let ?s = "mmio_write VIRTIO_MMIO_INTERRUPT_ACK ?a s"
  have one: "unat (used_didx (vdisk s) - used_idx (vdisk s)) = 1" using assms(2) by simp
  have ne: "used_idx (vdisk s) \<noteq> used_didx (vdisk s)" using assms(2) by simp
  have l: "intr_loop (Suc (Suc 0)) c (inside c VdiskLock ?s) = Inr (inside c VdiskLock
      (upd_vdisk (used_idx_update (\<lambda>n. n + 1)) (wake p (ChBuf b) (upd_buf b (bdisk_update (\<lambda>_. False)) ?s))))"
    using assms ne by (simp add: intr_loop.simps(2) Let_def)
  have "virtio_disk_intr rg c s = Inr (upd_vdisk (used_idx_update (\<lambda>n. n + 1)) (wake p (ChBuf b)
     (upd_buf b (bdisk_update (\<lambda>_. False)) ?s)))"
    using assms(1) one l by (simp add: virtio_disk_intr_def Let_def)
  then show ?thesis unfolding mmio_write_def by blast
qed

text \<open>Freeing the three descriptors of the chain.\<close>

lemma free_desc_ready:
  assumes "ready c p s" "i < NUM" "\<not> dfree (vdisk s) i"
  shows "free_desc c i (inside c VdiskLock s) = Inr (inside c VdiskLock (wake p ChDiskFree
     (upd_vdisk (\<lambda>v. v\<lparr>desc := (desc v)(i := zero_desc), dfree := (dfree v)(i := True)\<rparr>) s)))"
  using assms by (simp add: free_desc_def)

lemma wake_wake [simp]: "wake p ch (wake p ch s) = wake p ch s"
  by (simp add: wake_def map_procs_def cong: if_cong)

lemma wake_comm: "upd_vdisk g (wake p ch s) = wake p ch (upd_vdisk g s)"
  "upd_buf b f (wake p ch s) = wake p ch (upd_buf b f s)"
  by (simp_all add: wake_def map_procs_def upd_vdisk_def upd_buf_def cong: if_cong)

lemma free_chain_ready:
  assumes "ready c p s"
    "d_flags (desc (vdisk s) 0) = VRING_DESC_F_NEXT" "d_next (desc (vdisk s) 0) = 1"
    "d_flags (desc (vdisk s) 1) AND VRING_DESC_F_NEXT \<noteq> 0" "d_next (desc (vdisk s) 1) = 2"
    "d_flags (desc (vdisk s) 2) = VRING_DESC_F_WRITE" "\<not> dfree (vdisk s) 0" "\<not> dfree (vdisk s) 1" "\<not> dfree (vdisk s) 2"
  shows "\<exists>d. free_chain c 0 (inside c VdiskLock s) = Inr (inside c VdiskLock (wake p ChDiskFree
     (upd_vdisk (\<lambda>v. v\<lparr>desc := d, dfree := (dfree v)(0 := True, 1 := True, 2 := True)\<rparr>) s)))"
proof -
  let ?f = "\<lambda>i v. v\<lparr>desc := (desc v)(i := zero_desc), dfree := (dfree v)(i := True)\<rparr>"
  let ?s1 = "wake p ChDiskFree (upd_vdisk (?f 0) s)"
  let ?s2 = "wake p ChDiskFree (upd_vdisk (?f 1) ?s1)"
  let ?s3 = "wake p ChDiskFree (upd_vdisk (?f 2) ?s2)"
  have n: "Suc NUM = Suc (Suc (Suc 6))" by (simp add: NUM_def)
  have fr: "free_desc c 0 (inside c VdiskLock s) = Inr (inside c VdiskLock ?s1)"
    "free_desc c 1 (inside c VdiskLock ?s1) = Inr (inside c VdiskLock ?s2)"
    "free_desc c 2 (inside c VdiskLock ?s2) = Inr (inside c VdiskLock ?s3)"
    by (subst free_desc_ready; use assms in \<open>simp add: NUM_def\<close>)+
  have "free_chain_loop (Suc (Suc (Suc m))) c 0 (inside c VdiskLock s) = Inr (inside c VdiskLock ?s3)" for m
    using assms fr
    by (simp add: free_chain_loop.simps(2) Let_def VRING_DESC_F_NEXT_def VRING_DESC_F_WRITE_def del: One_nat_def)
  then have "free_chain c 0 (inside c VdiskLock s) = Inr (inside c VdiskLock ?s3)"
    unfolding free_chain_def n by blast
  moreover have "?s3 = wake p ChDiskFree (upd_vdisk (\<lambda>v. v\<lparr>desc := (desc (vdisk s))(0 := zero_desc, 1 := zero_desc, 2 := zero_desc),
      dfree := (dfree v)(0 := True, 1 := True, 2 := True)\<rparr>) s)"
    by (simp add: wake_comm) (simp add: upd_vdisk_def)
  ultimately show ?thesis by auto
qed

text \<open>A whole request.\<close>

definition disk_read :: "nat \<Rightarrow> 'a kdisk_scheme \<Rightarrow> 'a kdisk_scheme" where
  "disk_read b s = (let k = sector_of (bblockno (bufs s b)) in
     upd_buf b (\<lambda>x. x\<lparr>bdata := sectors s k @ sectors s (k + 1), bdisk := False\<rparr>) s)"

definition disk_write :: "nat \<Rightarrow> 'a kdisk_scheme \<Rightarrow> 'a kdisk_scheme" where
  "disk_write b s = (let k = sector_of (bblockno (bufs s b)); d = bdata (bufs s b) in
     upd_buf b (\<lambda>x. x\<lparr>bdisk := False\<rparr>) (s\<lparr>sectors := (sectors s)(k := take 512 d, k + 1 := drop 512 d)\<rparr>))"

definition disk_woken :: "nat \<Rightarrow> nat \<Rightarrow> 'a ptable_scheme \<Rightarrow> 'a ptable_scheme" where
  "disk_woken p b s = wake p ChDiskFree (wake p (ChBuf b) s)"

lemma disk_rw_ready:
  assumes "ready c p s" "disk_idle (vdisk s)" "virtio_blk (hw_serve h)"
  shows "\<exists>v m. disk_idle v \<and> virtio_disk_rw h c b w s =
    Inr (disk_woken p b (if w then disk_write b (s\<lparr>vdisk := v, mmio := m\<rparr>) else disk_read b (s\<lparr>vdisk := v, mmio := m\<rparr>)))"
proof -
  define bn where "bn = bblockno (bufs s b)"
  define v1 where "v1 = requested b w bn (vdisk s)"
  define dat where "dat = (if w then bdata (bufs s b) else sectors s (sector_of bn) @ sectors s (sector_of bn + 1))"
  define sec where "sec = (if w then (sectors s)(sector_of bn := take 512 (bdata (bufs s b)), sector_of bn + 1 := drop 512 (bdata (bufs s b))) else sectors s)"
  let ?s1 = "mmio_write VIRTIO_MMIO_QUEUE_NOTIFY 0 (upd_buf b (bdisk_update (\<lambda>_. True)) (upd_vdisk (requested b w bn) s))"
  let ?s2 = "device_step (hw_serve h) ?s1"
  have r: "ready c p ?s1" "ready c p ?s2" using assms(1) by simp_all
  have bd: "(\<lambda>x. bdata (bufs ?s1 x)) = (\<lambda>x. bdata (bufs s x))" by auto
  have d: "hw_serve h (vdisk ?s1) (\<lambda>x. bdata (bufs ?s1 x)) (sectors ?s1) = (served v1, (\<lambda>x. bdata (bufs s x))(b := dat), sec)"
    unfolding bd using device_served[OF assms(3,2), of b w bn "\<lambda>x. bdata (bufs s x)" "sectors s"]
    by (auto simp: v1_def dat_def sec_def)
  have s2: "vdisk ?s2 = served v1" "sectors ?s2 = sec" "mmio ?s2 = mmio ?s1"
    "bufs ?s2 = (bufs s)(b := (bufs s b)\<lparr>bdisk := True, bdata := dat\<rparr>)"
    using d by (auto simp: device_step_def)
  have i2: "used_didx (vdisk ?s2) = used_idx (vdisk ?s2) + 1"
    "used_ring (vdisk ?s2) (unat (used_idx (vdisk ?s2)) mod NUM) = 0" "info_status (vdisk ?s2) 0 = 0" "info_b (vdisk ?s2) 0 = Some b"
    using assms(2) unfolding s2(1) by (simp_all add: served_def v1_def requested_def disk_idle_def)
  obtain m where i: "virtio_disk_intr (hw_regs h) c ?s2 = Inr (upd_vdisk (used_idx_update (\<lambda>n. n + 1)) (wake p (ChBuf b)
     (upd_buf b (bdisk_update (\<lambda>_. False)) (?s2\<lparr>mmio := m\<rparr>))))"
    using intr_ready[OF r(2) i2] by blast
  define v3 where "v3 = used_idx_update (\<lambda>n. n + 1) (served v1)"
  define s3 where "s3 = wake p (ChBuf b) (s\<lparr>vdisk := v3, mmio := m,
     bufs := (bufs s)(b := (bufs s b)\<lparr>bdata := dat, bdisk := False\<rparr>), sectors := sec\<rparr>)"
  have e3: "upd_vdisk (used_idx_update (\<lambda>n. n + 1)) (wake p (ChBuf b) (upd_buf b (bdisk_update (\<lambda>_. False)) (?s2\<lparr>mmio := m\<rparr>))) = s3"
  proof -
    have "?s2\<lparr>mmio := m\<rparr> = s\<lparr>vdisk := served v1, mmio := m, bufs := (bufs s)(b := (bufs s b)\<lparr>bdisk := True, bdata := dat\<rparr>), sectors := sec\<rparr>"
      unfolding device_step_def d by (auto simp: mmio_write_def upd_buf_def upd_vdisk_def fun_eq_iff)
    then show ?thesis unfolding s3_def wake_comm v3_def
      by (intro arg_cong[where f = "wake p (ChBuf b)"]) (simp add: upd_vdisk_def upd_buf_def)
  qed
  have r3: "ready c p s3" unfolding e3[symmetric] using r(2) by (simp add: ready_cong[of "?s2\<lparr>mmio := m\<rparr>" ?s2])
  have w: "virtio_wait h c b (inside c VdiskLock ?s1) = Inr (inside c VdiskLock s3)"
    using r r3 i unfolding e3 by (simp add: virtio_wait_def) (simp add: s3_def)
  let ?s4 = "upd_vdisk (\<lambda>v. v\<lparr>info_b := (info_b v)(0 := None)\<rparr>) s3"
  have v4: "vdisk ?s4 = v3\<lparr>info_b := (info_b v3)(0 := None)\<rparr>" by (simp add: s3_def)
  have r4: "ready c p ?s4" using r3 by simp
  obtain dd where fc: "free_chain c 0 (inside c VdiskLock ?s4) = Inr (inside c VdiskLock (wake p ChDiskFree
     (upd_vdisk (\<lambda>v. v\<lparr>desc := dd, dfree := (dfree v)(0 := True, 1 := True, 2 := True)\<rparr>) ?s4)))"
    using free_chain_ready[OF r4] unfolding v4
    by (auto simp: v3_def served_def v1_def requested_def VRING_DESC_F_NEXT_def VRING_DESC_F_WRITE_def)
  define v5 where "v5 = v3\<lparr>info_b := (info_b v3)(0 := None), desc := dd, dfree := (dfree v3)(0 := True, 1 := True, 2 := True)\<rparr>"
  have e5: "wake p ChDiskFree (upd_vdisk (\<lambda>v. v\<lparr>desc := dd, dfree := (dfree v)(0 := True, 1 := True, 2 := True)\<rparr>) ?s4)
    = disk_woken p b (if w then disk_write b (s\<lparr>vdisk := v5, mmio := m\<rparr>) else disk_read b (s\<lparr>vdisk := v5, mmio := m\<rparr>))"
    unfolding disk_woken_def s3_def
    unfolding wake_comm
    by (intro arg_cong[where f = "\<lambda>s. wake p ChDiskFree (wake p (ChBuf b) s)"])
       (simp add: upd_vdisk_def v5_def disk_read_def disk_write_def Let_def upd_buf_def dat_def sec_def bn_def)
  have "virtio_disk_rw h c b w s = Inr (disk_woken p b (if w then disk_write b (s\<lparr>vdisk := v5, mmio := m\<rparr>) else disk_read b (s\<lparr>vdisk := v5, mmio := m\<rparr>)))"
    using submit_ready[OF assms(1,2), of b w] w fc r4 unfolding e5[symmetric]
    by (simp add: virtio_disk_rw_def virtio_finish_def bn_def)
  moreover have "disk_idle v5"
    using assms(2) by (auto simp: disk_idle_def v5_def v3_def served_def v1_def requested_def)
  ultimately show ?thesis by blast
qed

lemma ready_disk [simp]: "ready c p (disk_woken q b s) = ready c p s" "ready c p (disk_read b s') = ready c p s'"
  "ready c p (disk_write b s') = ready c p s'" "ready c p (s'\<lparr>mmio := m\<rparr>) = ready c p s'"
  by (simp_all add: disk_woken_def) (rule ready_cong; simp add: disk_read_def disk_write_def Let_def upd_buf_def)+

lemma disk_woken_frame [simp]: "vdisk (disk_woken p b s) = vdisk s" "bufs (disk_woken p b s) = bufs s"
  "sectors (disk_woken p b s) = sectors s" "dblock (disk_woken p b s) n = dblock s n"
  by (simp_all add: disk_woken_def dblock_def)

lemma disk_read_effect:
  assumes "unat (bblockno (bufs s b)) < 2 ^ 31"
  shows "disk_read b s = upd_buf b (\<lambda>x. x\<lparr>bdata := dblock s (unat (bblockno (bufs s b))), bdisk := False\<rparr>) s"
  by (simp add: disk_read_def Let_def sector_of_small[OF assms] dblock_def)

lemma disk_write_effect:
  assumes "unat (bblockno (bufs s b)) < 2 ^ 31"
  shows "dblock (disk_write b s) n = (if n = unat (bblockno (bufs s b)) then bdata (bufs s b) else dblock s n)"
    "bufs (disk_write b s) = (bufs s)(b := (bufs s b)\<lparr>bdisk := False\<rparr>)" "vdisk (disk_write b s) = vdisk s"
proof -
  have odd: "2 * m \<noteq> Suc (2 * n)" for m n :: nat by presburger
  show "dblock (disk_write b s) n = (if n = unat (bblockno (bufs s b)) then bdata (bufs s b) else dblock s n)"
    using odd[of n] odd[of _ n] odd[THEN not_sym, of n]
    by (simp add: disk_write_def Let_def sector_of_small[OF assms] dblock_def upd_buf_def eq_commute[of "Suc _" "2 * _"])
qed (simp_all add: disk_write_def Let_def upd_buf_def)

text \<open>
  C8.  A disk request moves a block.  With a device that does what the specification says,
  \<open>virtio_disk_rw\<close> returns; after a read the buffer holds the block of the disk, after a write the
  disk holds the buffer, every other block and buffer is unchanged, all descriptors are free again
  and no lock is held.
\<close>

theorem disk_request_transfers:
  assumes "ready c p s" "disk_idle (vdisk s)" "virtio_blk (hw_serve h)"
    and "unat (bblockno (bufs s b)) < 2 ^ 31"
  shows "\<exists>s'. virtio_disk_rw h c b w s = Inr s' \<and> ready c p s' \<and> disk_idle (vdisk s')
    \<and> bufs s' = (bufs s)(b := (bufs s b)\<lparr>bdata := if w then bdata (bufs s b) else dblock s (unat (bblockno (bufs s b))), bdisk := False\<rparr>)
    \<and> (\<forall>n. dblock s' n = (if w \<and> n = unat (bblockno (bufs s b)) then bdata (bufs s b) else dblock s n))"
proof -
  obtain v m where i: "disk_idle v" and e: "virtio_disk_rw h c b w s =
    Inr (disk_woken p b (if w then disk_write b (s\<lparr>vdisk := v, mmio := m\<rparr>) else disk_read b (s\<lparr>vdisk := v, mmio := m\<rparr>)))"
    using disk_rw_ready[OF assms(1-3)] by blast
  let ?t = "s\<lparr>vdisk := v, mmio := m\<rparr>"
  have bn: "unat (bblockno (bufs ?t b)) < 2 ^ 31" using assms(4) by simp
  have db: "dblock ?t n = dblock s n" for n by (simp add: dblock_def)
  show ?thesis
  proof (cases w)
    case True
    then show ?thesis
      using e i assms(1) disk_write_effect[OF bn] db by (cases "bufs s b") (simp add: fun_upd_def)
  next
    case False
    have db': "dblock (upd_buf b f ?t) n = dblock s n" for f n by (simp add: dblock_def)
    show ?thesis
      using False e i assms(1) disk_read_effect[OF bn] db db' by simp
  qed
qed

text \<open>A device that meets the specification, and a machine at rest with a disk of numbered sectors.\<close>

definition blk_device :: device where
  "blk_device v dat sec =
     (let h = unat (avail_ring v (unat (used_didx v) mod NUM));
          b = (case d_addr (desc v (unat (d_next (desc v h)))) of DmaData b \<Rightarrow> b | _ \<Rightarrow> 0);
          k = unat (rq_sector (ops v h));
          out = (rq_type (ops v h) = VIRTIO_BLK_T_OUT)
      in (v\<lparr>used_ring := (used_ring v)(unat (used_didx v) mod NUM := of_nat h), used_didx := used_didx v + 1,
            info_status := (info_status v)(h := 0)\<rparr>,
          if out then dat else dat(b := sec k @ sec (k + 1)),
          if out then sec(k := take 512 (dat b), k + 1 := drop 512 (dat b)) else sec))"

lemma blk_device_ok: "virtio_blk blk_device"
proof -
  have u: "unat (of_nat i :: uint16) = i" if "i < NUM" for i
    using that by (simp add: unat_of_nat NUM_def)
  show ?thesis
    unfolding virtio_blk_def
    by (intro allI impI, elim conjE)
       (auto simp: blk_device_def Let_def u VIRTIO_BLK_T_OUT_def VIRTIO_BLK_T_IN_def VRING_DESC_F_WRITE_def)
qed

definition quiet_hw :: hardware where
  "quiet_hw = \<lparr>hw_serve = blk_device, hw_regs = (\<lambda>_ _. 0)\<rparr>"

definition rest_disk :: kdisk where
  "rest_disk = (undefined :: kdisk)\<lparr>cpus := (\<lambda>_. \<lparr>cproc = Some 3, noff = 0, intena = False, sie = False\<rparr>),
     locks := (\<lambda>_. \<lparr>locked = False, lname = [], lcpu = None\<rparr>),
     vdisk := (undefined :: vdisk)\<lparr>dfree := (\<lambda>_. True), used_idx := 4, used_didx := 4, avail_idx := 4\<rparr>,
     bufs := (\<lambda>_. \<lparr>bvalid = False, bdisk = False, bdev = 1, bblockno = 5, brefcnt = 1, bprev = 0, bnext = 0,
       bdata = replicate 1024 0\<rparr>),
     sectors := (\<lambda>n. replicate 512 (of_nat n))\<rparr>"

theorem disk_request_transfers_witness:
  "\<exists>s'. virtio_disk_rw quiet_hw 0 7 False rest_disk = Inr s'
    \<and> bdata (bufs s' 7) = replicate 512 10 @ replicate 512 11"
proof -
  have "ready 0 3 rest_disk" "disk_idle (vdisk rest_disk)" "virtio_blk (hw_serve quiet_hw)"
    "unat (bblockno (bufs rest_disk 7)) < 2 ^ 31"
    by (simp_all add: ready_def rest_disk_def cpu_sane_def settled_def lock_free_def disk_idle_def blk_device_ok quiet_hw_def)
  from disk_request_transfers[OF this, where w = False] show ?thesis
    by (auto simp: dblock_def rest_disk_def)
qed

end
