(* ===== verification/Lru.thy ===== *)
theory Lru
  imports DiskSpec
begin

text \<open>
  The doubly linked list of the buffer cache: links \<open>nx\<close> and \<open>pv\<close> from \<open>a\<close> through \<open>xs\<close> to \<open>z\<close>,
  and what unlinking an element and pushing one to the front make of it.
\<close>

fun path :: "(nat \<Rightarrow> nat) \<Rightarrow> (nat \<Rightarrow> nat) \<Rightarrow> nat \<Rightarrow> nat list \<Rightarrow> nat \<Rightarrow> bool" where
  "path nx pv a [] z = (nx a = z \<and> pv z = a)"
| "path nx pv a (x # xs) z = (nx a = x \<and> pv x = a \<and> path nx pv x xs z)"

lemma path_append: "path nx pv a (xs @ y # ys) z \<longleftrightarrow> path nx pv a xs y \<and> path nx pv y ys z"
  by (induction xs arbitrary: a) auto

lemma path_cong:
  "path nx pv a xs z \<Longrightarrow> (\<And>x. x \<in> set (a # xs) \<Longrightarrow> nx' x = nx x) \<Longrightarrow> (\<And>x. x \<in> set (xs @ [z]) \<Longrightarrow> pv' x = pv x) \<Longrightarrow>
    path nx' pv' a xs z"
  by (induction xs arbitrary: a) auto

lemma path_redirect:
  "path nx pv a xs b \<Longrightarrow> distinct (a # xs) \<Longrightarrow> n \<notin> set xs \<Longrightarrow>
    path (nx(last (a # xs) := n)) (pv(n := last (a # xs))) a xs n"
proof (induction xs arbitrary: a)
  case (Cons x xs)
  have l: "last (a # x # xs) = last (x # xs)" by simp
  have "last (x # xs) \<in> set (x # xs)" by (rule last_in_set) simp
  then have "a \<noteq> last (x # xs)" using Cons.prems(2) by auto
  moreover have "path (nx(last (x # xs) := n)) (pv(n := last (x # xs))) x xs n"
    by (rule Cons.IH) (use Cons.prems in simp_all)
  ultimately show ?case using Cons.prems unfolding l path.simps by (auto simp del: last.simps)
qed simp

lemma path_ends:
  "path nx pv a xs z \<Longrightarrow> nx a = hd (xs @ [z])" "path nx pv a xs z \<Longrightarrow> pv z = last (a # xs)"
proof -
  show "path nx pv a xs z \<Longrightarrow> nx a = hd (xs @ [z])" by (cases xs) auto
  show "path nx pv a xs z \<Longrightarrow> pv z = last (a # xs)" by (induction xs arbitrary: a) auto
qed

lemma path_unlink:
  assumes p: "path nx pv h (as @ b # bs) h" and d: "distinct (h # as @ b # bs)"
  shows "path (nx(pv b := nx b)) (pv(nx b := pv b)) h (as @ bs) h"
proof -
  have p1: "path nx pv h as b" and p2: "path nx pv b bs h" using p by (simp_all add: path_append)
  have pb: "pv b = last (h # as)" and nb: "nx b = hd (bs @ [h])" using path_ends p1 p2 by blast+
  show ?thesis
  proof (cases bs)
    case Nil
    then show ?thesis using path_redirect[OF p1, of h] d unfolding pb nb by simp
  next
    case (Cons n bs')
    have l: "last (h # as) \<in> set (h # as)" by (rule last_in_set) simp
    have first: "path (nx(last (h # as) := n)) (pv(n := last (h # as))) h as n"
      using path_redirect[OF p1, of n] d Cons by simp
    have "path nx pv n bs' h" using p2 Cons by simp
    then have "path (nx(last (h # as) := n)) (pv(n := last (h # as))) n bs' h"
    proof (rule path_cong)
      fix x assume "x \<in> set (n # bs')"
      then have "x \<noteq> last (h # as)" using l d Cons by auto
      then show "(nx(last (h # as) := n)) x = nx x" by simp
    next
      fix x assume "x \<in> set (bs' @ [h])"
      then have "x \<noteq> n" using d Cons by auto
      then show "(pv(n := last (h # as))) x = pv x" by simp
    qed
    then show ?thesis using first Cons unfolding pb nb by (simp add: path_append)
  qed
qed

lemma path_push:
  assumes p: "path nx pv h xs h" and d: "distinct (h # b # xs)"
  shows "path (nx(b := nx h, h := b)) (pv(b := h, nx h := b)) h (b # xs) h"
proof (cases xs)
  case Nil
  then show ?thesis using p d by auto
next
  case (Cons f xs')
  have f: "nx h = f" using p Cons by simp
  have "path nx pv f xs' h" using p Cons by simp
  then have "path (nx(b := f, h := b)) (pv(b := h, f := b)) f xs' h"
    by (rule path_cong) (use d Cons in auto)
  then show ?thesis using d Cons f by auto
qed

text \<open>The list of the cache, most recently used buffer first.\<close>

definition lru :: "(nat \<Rightarrow> buf) \<Rightarrow> nat list \<Rightarrow> bool" where
  "lru bf xs = (path (\<lambda>b. bnext (bf b)) (\<lambda>b. bprev (bf b)) BHEAD xs BHEAD \<and> distinct (BHEAD # xs))"

lemma lru_push_list:
  assumes "lru (bufs s) xs" "b \<notin> set xs" "b \<noteq> BHEAD"
  shows "lru (bufs (lru_push b s)) (b # xs)"
proof -
  let ?nx = "\<lambda>b. bnext (bufs s b)" and ?pv = "\<lambda>b. bprev (bufs s b)"
  have e: "(\<lambda>x. bnext (bufs (lru_push b s) x)) = ?nx(b := ?nx BHEAD, BHEAD := b)"
    "(\<lambda>x. bprev (bufs (lru_push b s) x)) = ?pv(b := BHEAD, ?nx BHEAD := b)"
    using assms(3) by (auto simp: lru_push_def set_next_def set_prev_def Let_def fun_eq_iff)
  show ?thesis using assms path_push[of ?nx ?pv BHEAD xs b] unfolding lru_def e by auto
qed

lemma lru_unlink_list:
  assumes "lru (bufs s) (as @ b # bs)"
  shows "lru (bufs (lru_unlink b s)) (as @ bs)"
proof -
  let ?nx = "\<lambda>b. bnext (bufs s b)" and ?pv = "\<lambda>b. bprev (bufs s b)"
  have p: "path ?nx ?pv BHEAD (as @ b # bs) BHEAD" and d: "distinct (BHEAD # as @ b # bs)"
    using assms by (simp_all add: lru_def)
  have p2: "path ?nx ?pv b bs BHEAD" using p by (simp add: path_append)
  have nb: "?nx b = hd (bs @ [BHEAD])" using path_ends(1)[OF p2] .
  have "?nx b \<noteq> b" using d unfolding nb by (cases bs) auto
  then have e: "(\<lambda>x. bnext (bufs (lru_unlink b s) x)) = ?nx(?pv b := ?nx b)"
    "(\<lambda>x. bprev (bufs (lru_unlink b s) x)) = ?pv(?nx b := ?pv b)"
    by (auto simp: lru_unlink_def set_next_def set_prev_def Let_def fun_eq_iff)
  show ?thesis using path_unlink[OF p d] d unfolding lru_def e by auto
qed

text \<open>The two searches find the first and the last element with a property.\<close>

lemma scan_next_path:
  "path (\<lambda>b. bnext (bufs s b)) (\<lambda>b. bprev (bufs s b)) a xs BHEAD \<Longrightarrow> BHEAD \<notin> set xs \<Longrightarrow> length xs < n \<Longrightarrow>
    scan_next n P (bnext (bufs s a)) s = Inr (find (\<lambda>b. P (bufs s b)) xs)"
proof (induction xs arbitrary: a n)
  case Nil
  then show ?case by (cases n) auto
next
  case (Cons x xs)
  then show ?case by (cases n) auto
qed

lemma scan_prev_path:
  "path (\<lambda>b. bnext (bufs s b)) (\<lambda>b. bprev (bufs s b)) BHEAD xs z \<Longrightarrow> BHEAD \<notin> set xs \<Longrightarrow> length xs < n \<Longrightarrow>
    scan_prev n P (bprev (bufs s z)) s = Inr (find (\<lambda>b. P (bufs s b)) (rev xs))"
proof (induction xs arbitrary: z n rule: rev_induct)
  case Nil
  then show ?case by (cases n) auto
next
  case (snoc x xs)
  then show ?case by (cases n) (auto simp: path_append)
qed

lemma scans:
  assumes "lru (bufs s) xs" "length xs \<le> NBUF"
  shows "scan_next (Suc NBUF) P (bnext (bufs s BHEAD)) s = Inr (find (\<lambda>b. P (bufs s b)) xs)"
    "scan_prev (Suc NBUF) P (bprev (bufs s BHEAD)) s = Inr (find (\<lambda>b. P (bufs s b)) (rev xs))"
  using assms scan_next_path[of s BHEAD xs "Suc NBUF"] scan_prev_path[of s xs BHEAD "Suc NBUF"]
  by (simp_all add: lru_def del: scan_next.simps scan_prev.simps)

declare scan_next.simps [simp del] scan_prev.simps [simp del]

end
