(* ===== verification/BioSpec.thy ===== *)
theory BioSpec
  imports Lru
begin

text \<open>
  The buffer cache as a set of blocks.

  \<open>view\<close> is what the cache looks like to its clients: per block number its current bytes, its bytes on
  the disk, its reference count, whether its lock is taken, and the buffer the process holds for it.
  \<open>bread\<close>, \<open>bwrite\<close>, \<open>brelse\<close>, \<open>bpin\<close> and \<open>bunpin\<close> refine simple functions on that view.
\<close>

definition holds :: "'a kdisk_scheme \<Rightarrow> nat \<Rightarrow> nat \<Rightarrow> bool" where
  "holds s b n = (bdev (bufs s b) = 1 \<and> unat (bblockno (bufs s b)) = n)"

definition slot :: "'a kdisk_scheme \<Rightarrow> nat \<Rightarrow> nat option" where
  "slot s n = find (\<lambda>b. holds s b n) [0..<NBUF]"

record view =
  v_data :: "nat \<Rightarrow> uint8 list"
  v_disk :: "nat \<Rightarrow> uint8 list"
  v_refs :: "nat \<Rightarrow> nat"
  v_busy :: "nat \<Rightarrow> bool"
  v_held :: "nat \<Rightarrow> nat option"

definition view :: "nat \<Rightarrow> 'a kdisk_scheme \<Rightarrow> view" where
  "view p s = \<lparr>
     v_data = (\<lambda>n. case slot s n of None \<Rightarrow> dblock s n | Some b \<Rightarrow> if bvalid (bufs s b) then bdata (bufs s b) else dblock s n),
     v_disk = dblock s,
     v_refs = (\<lambda>n. case slot s n of None \<Rightarrow> 0 | Some b \<Rightarrow> unat (brefcnt (bufs s b))),
     v_busy = (\<lambda>n. case slot s n of None \<Rightarrow> False | Some b \<Rightarrow> slocked (slocks s (BufLock b))),
     v_held = (\<lambda>n. case slot s n of None \<Rightarrow> None | Some b \<Rightarrow>
       if bvalid (bufs s b) \<and> sl_mine p (BufLock b) s then Some b else None)\<rparr>"

text \<open>The invariant of the cache; \<open>tidy\<close> is the part about the buffers' contents.\<close>

definition tidy :: "'a kdisk_scheme \<Rightarrow> bool" where
  "tidy s = ((\<forall>b<NBUF. \<forall>b'<NBUF. bdev (bufs s b) = 1 \<and> bdev (bufs s b') = 1 \<and> bblockno (bufs s b) = bblockno (bufs s b') \<longrightarrow> b = b')
     \<and> (\<forall>b<NBUF. bdev (bufs s b) = 1 \<longrightarrow> unat (bblockno (bufs s b)) < 2 ^ 31)
     \<and> (\<forall>b<NBUF. brefcnt (bufs s b) \<noteq> 0 \<longrightarrow> bdev (bufs s b) = 1)
     \<and> (\<forall>b<NBUF. slocked (slocks s (BufLock b)) \<longrightarrow> brefcnt (bufs s b) \<noteq> 0)
     \<and> (\<forall>b<NBUF. bdev (bufs s b) = 1 \<and> bvalid (bufs s b) \<and> brefcnt (bufs s b) = 0 \<longrightarrow>
          bdata (bufs s b) = dblock s (unat (bblockno (bufs s b)))))"

definition ring :: "'a kdisk_scheme \<Rightarrow> bool" where
  "ring s = (\<exists>xs. lru (bufs s) xs \<and> set xs = {..<NBUF})"

text \<open>No CPU has panicked.\<close>

definition calm :: "'a kio_scheme \<Rightarrow> bool" where
  "calm s = (\<not> panicking s \<and> \<not> panicked s)"

definition cache_ok :: "nat \<Rightarrow> nat \<Rightarrow> 'a kdisk_scheme \<Rightarrow> bool" where
  "cache_ok c p s = (ready c p s \<and> disk_idle (vdisk s) \<and> ring s \<and> tidy s \<and> calm s)"

lemma cache_okD:
  assumes "cache_ok c p s"
  shows "ready c p s" "disk_idle (vdisk s)" "ring s" "tidy s" "calm s"
  using assms by (simp_all add: cache_ok_def)

lemma tidyD:
  assumes "tidy s" "b < NBUF"
  shows "b' < NBUF \<Longrightarrow> bdev (bufs s b) = 1 \<Longrightarrow> bdev (bufs s b') = 1 \<Longrightarrow> bblockno (bufs s b) = bblockno (bufs s b') \<Longrightarrow> b = b'"
    "bdev (bufs s b) = 1 \<Longrightarrow> unat (bblockno (bufs s b)) < 2 ^ 31"
    "brefcnt (bufs s b) \<noteq> 0 \<Longrightarrow> bdev (bufs s b) = 1"
    "slocked (slocks s (BufLock b)) \<Longrightarrow> brefcnt (bufs s b) \<noteq> 0"
    "bdev (bufs s b) = 1 \<Longrightarrow> bvalid (bufs s b) \<Longrightarrow> brefcnt (bufs s b) = 0 \<Longrightarrow> bdata (bufs s b) = dblock s (unat (bblockno (bufs s b)))"
  using assms unfolding tidy_def by blast+

text \<open>Looking up a block.\<close>

lemma find_unique:
  "b \<in> set xs \<Longrightarrow> P b \<Longrightarrow> (\<And>x. x \<in> set xs \<Longrightarrow> P x \<Longrightarrow> x = b) \<Longrightarrow> find P xs = Some b"
proof (induction xs)
  case (Cons a xs)
  show ?case
  proof (cases "P a")
    case True
    then show ?thesis using Cons.prems(3)[of a] by simp
  next
    case False
    then have "b \<in> set xs" using Cons.prems(1,2) by auto
    then have "find P xs = Some b" using Cons.prems(2)
    proof (rule Cons.IH)
      fix x assume "x \<in> set xs" "P x"
      then show "x = b" by (intro Cons.prems(3)) simp_all
    qed
    then show ?thesis using False by simp
  qed
qed simp

lemma slot_SomeD: "slot s n = Some b \<Longrightarrow> b < NBUF \<and> holds s b n"
  by (auto simp: slot_def find_Some_iff)

lemma slot_NoneD: "slot s n = None \<Longrightarrow> b < NBUF \<Longrightarrow> \<not> holds s b n"
  by (auto simp: slot_def find_None_iff)

lemma holds_unique: "tidy s \<Longrightarrow> b < NBUF \<Longrightarrow> b' < NBUF \<Longrightarrow> holds s b n \<Longrightarrow> holds s b' n \<Longrightarrow> b = b'"
  by (rule tidyD(1)) (auto simp: holds_def intro: word_unat_eq_iff[THEN iffD2])

lemma slot_iff: "tidy s \<Longrightarrow> slot s n = Some b \<longleftrightarrow> b < NBUF \<and> holds s b n"
proof
  assume "tidy s" "b < NBUF \<and> holds s b n"
  then show "slot s n = Some b"
    unfolding slot_def by (intro find_unique) (auto intro: holds_unique)
qed (rule slot_SomeD)

lemma slot_cong:
  "(\<And>b. b < NBUF \<Longrightarrow> bdev (bufs s' b) = bdev (bufs s b) \<and> bblockno (bufs s' b) = bblockno (bufs s b)) \<Longrightarrow> slot s' = slot s"
  by (rule ext) (auto simp: slot_def holds_def intro!: find_cong)

lemma slot_key:
  assumes "slot s n = Some b"
  shows "b < NBUF" "bdev (bufs s b) = 1" "unat (bblockno (bufs s b)) = n"
  using slot_SomeD[OF assms] by (auto simp: holds_def)

text \<open>The searches of \<open>bget\<close>.\<close>

lemma ringE:
  assumes "ring s"
  obtains xs where "lru (bufs s) xs" "set xs = {..<NBUF}" "length xs \<le> NBUF"
proof -
  obtain xs where xs: "lru (bufs s) xs" "set xs = {..<NBUF}" using assms by (auto simp: ring_def)
  moreover have "length xs = card (set xs)" using xs(1) by (simp add: lru_def distinct_card)
  ultimately show ?thesis using that by simp
qed

lemma ring_cong:
  "(\<And>b. bnext (bufs s' b) = bnext (bufs s b) \<and> bprev (bufs s' b) = bprev (bufs s b)) \<Longrightarrow> ring s' = ring s"
  by (simp add: ring_def lru_def)

lemma scan_hit:
  assumes "ring s" "tidy s" "n < 2 ^ 32"
  shows "scan_next (Suc NBUF) (\<lambda>b. bdev b = 1 \<and> bblockno b = of_nat n) (bnext (bufs s BHEAD)) s = Inr (slot s n)"
proof -
  obtain xs where xs: "lru (bufs s) xs" "set xs = {..<NBUF}" "length xs \<le> NBUF" using assms(1) by (rule ringE)
  have h: "bdev (bufs s b) = 1 \<and> bblockno (bufs s b) = of_nat n \<longleftrightarrow> holds s b n" for b
    using assms(3) by (auto simp: holds_def unat_of_nat word_unat_eq_iff take_bit_nat_eq_self)
  have "find (\<lambda>b. holds s b n) xs = slot s n"
  proof (cases "slot s n")
    case None
    then show ?thesis using xs(2) slot_NoneD[OF None] by (auto simp: find_None_iff)
  next
    case (Some b)
    have "find (\<lambda>b. holds s b n) xs = Some b"
      using xs(2) assms(2) slot_SomeD[OF Some]
      by (intro find_unique) (auto intro: holds_unique)
    then show ?thesis using Some by simp
  qed
  then show ?thesis by (simp add: scans(1)[OF xs(1,3)] h)
qed

lemma scan_idle:
  assumes "ring s" "b < NBUF" "brefcnt (bufs s b) = 0"
  obtains b' where "scan_prev (Suc NBUF) (\<lambda>b. brefcnt b = 0) (bprev (bufs s BHEAD)) s = Inr (Some b')"
    "b' < NBUF" "brefcnt (bufs s b') = 0"
proof -
  obtain xs where xs: "lru (bufs s) xs" "set xs = {..<NBUF}" "length xs \<le> NBUF" using assms(1) by (rule ringE)
  have "find (\<lambda>b. brefcnt (bufs s b) = 0) (rev xs) \<noteq> None" using xs(2) assms(2,3) by (auto simp: find_None_iff)
  then obtain b' where b': "find (\<lambda>b. brefcnt (bufs s b) = 0) (rev xs) = Some b'" by auto
  then have "b' \<in> set (rev xs)" "brefcnt (bufs s b') = 0"
    using nth_mem[of _ "rev xs"] by (auto simp: find_Some_iff simp del: set_rev)
  then show ?thesis using that[of b'] xs(2) b' by (simp add: scans(2)[OF xs(1,3)])
qed

lemma scan_inside [simp]: "scan_next n P b (inside c l s) = scan_next n P b s" "scan_prev n P b (inside c l s) = scan_prev n P b s"
  by (induction n arbitrary: b) (simp_all add: scan_next.simps scan_prev.simps)

definition recycle :: "nat \<Rightarrow> nat \<Rightarrow> 'a kdisk_scheme \<Rightarrow> 'a kdisk_scheme" where
  "recycle b n = upd_buf b (\<lambda>x. x\<lparr>bdev := 1, bblockno := of_nat n, bvalid := False, brefcnt := 1\<rparr>)"

lemma slocks_disk [simp]: "slocks (upd_buf b f s) = slocks s" "procs (upd_buf b f s) = procs s"
  "slocks (wake q ch t) = slocks t" "pid (procs (wake q ch t) i) = pid (procs t i)"
  by (simp_all add: upd_buf_def wake_def map_procs_def wake_one_def)

lemma calm_frame [simp]: "calm (upd_buf b f s) = calm s" "calm (wake q ch t) = calm t"
  "calm (upd_slock l g u) = calm u" "calm (s\<lparr>vdisk := v\<rparr>) = calm s" "calm (s\<lparr>mmio := m\<rparr>) = calm s" "calm (s\<lparr>sectors := e\<rparr>) = calm s"
  by (simp_all add: calm_def upd_buf_def wake_def map_procs_def upd_slock_def)

lemma calm_sl [simp]: "calm (sl_take p l s) = calm s" "calm (sl_drop p l s) = calm s" "calm (disk_woken p b t) = calm t"
  "calm (disk_read b u) = calm u" "calm (disk_write b u) = calm u"
  by (simp_all add: sl_take_def sl_drop_def disk_woken_def disk_read_def disk_write_def Let_def)

lemma bget_hit:
  assumes "cache_ok c p s" "n < 2 ^ 31" "slot s n = Some b" "\<not> slocked (slocks s (BufLock b))"
  shows "bget c 1 (of_nat n) s = Inr (b, sl_take p (BufLock b) (upd_buf b (brefcnt_update (\<lambda>n. n + 1)) s))"
proof -
  note ok = cache_okD[OF assms(1)]
  have n: "n < 2 ^ 32" using assms(2) by simp
  show ?thesis using ok(1) assms(4)
    by (simp add: bget_def scan_hit[OF ok(3,4) n] assms(3) acquiresleep_ready del: One_nat_def)
qed

lemma bget_miss:
  assumes "cache_ok c p s" "n < 2 ^ 31" "slot s n = None" "b0 < NBUF" "brefcnt (bufs s b0) = 0"
  shows "\<exists>b<NBUF. brefcnt (bufs s b) = 0 \<and> bget c 1 (of_nat n) s = Inr (b, sl_take p (BufLock b) (recycle b n s))"
proof -
  note ok = cache_okD[OF assms(1)]
  obtain b where b: "scan_prev (Suc NBUF) (\<lambda>b. brefcnt b = 0) (bprev (bufs s BHEAD)) s = Inr (Some b)"
    "b < NBUF" "brefcnt (bufs s b) = 0" using scan_idle[OF ok(3) assms(4,5)] .
  have "\<not> slocked (slocks s (BufLock b))" using tidyD(4)[OF ok(4) b(2)] b(3) by blast
  moreover have n: "n < 2 ^ 32" using assms(2) by simp
  ultimately have "bget c 1 (of_nat n) s = Inr (b, sl_take p (BufLock b) (recycle b n s))"
    using ok(1) by (simp add: bget_def scan_hit[OF ok(3,4) n] assms(3) b(1) acquiresleep_ready recycle_def)
  then show ?thesis using b by blast
qed


text \<open>A change to the buffer of one block.\<close>

definition core :: "buf \<Rightarrow> bool \<times> uint32 \<times> uint32 \<times> uint32 \<times> uint8 list" where
  "core x = (bvalid x, bdev x, bblockno x, brefcnt x, bdata x)"

definition v_set :: "nat \<Rightarrow> uint8 list \<Rightarrow> uint8 list \<Rightarrow> nat \<Rightarrow> bool \<Rightarrow> nat option \<Rightarrow> view \<Rightarrow> view" where
  "v_set n d k r y hb v = \<lparr>v_data = (v_data v)(n := d), v_disk = (v_disk v)(n := k), v_refs = (v_refs v)(n := r),
     v_busy = (v_busy v)(n := y), v_held = (v_held v)(n := hb)\<rparr>"

lemma slot_update:
  assumes ok: "cache_ok c p s" and b: "slot s n = Some b"
    and st: "ready c p s'" "disk_idle (vdisk s')" "ring s'" "pid (procs s' p) = pid (procs s p)" "calm s'"
    and oth: "\<And>x. x \<noteq> b \<Longrightarrow> core (bufs s' x) = core (bufs s x)"
      "\<And>x. x \<noteq> b \<Longrightarrow> slocks s' (BufLock x) = slocks s (BufLock x)" "\<And>m. m \<noteq> n \<Longrightarrow> dblock s' m = dblock s m"
    and key: "bdev (bufs s' b) = 1" "bblockno (bufs s' b) = bblockno (bufs s b)"
    and lk: "slocked (slocks s' (BufLock b)) \<Longrightarrow> brefcnt (bufs s' b) \<noteq> 0"
    and cl: "brefcnt (bufs s' b) = 0 \<Longrightarrow> bvalid (bufs s' b) \<Longrightarrow> bdata (bufs s' b) = dblock s' n"
  shows "cache_ok c p s' \<and> slot s' n = Some b \<and> view p s' = v_set n (if bvalid (bufs s' b) then bdata (bufs s' b) else dblock s' n) (dblock s' n)
     (unat (brefcnt (bufs s' b))) (slocked (slocks s' (BufLock b)))
     (if bvalid (bufs s' b) \<and> sl_mine p (BufLock b) s' then Some b else None) (view p s)"
proof -
  note td = cache_okD(4)[OF ok]
  note bk = slot_key[OF b]
  have keys: "bdev (bufs s' x) = bdev (bufs s x)" "bblockno (bufs s' x) = bblockno (bufs s x)" for x
    using oth(1)[of x] key bk by (cases "x = b"; simp add: core_def)+
  have fields: "bvalid (bufs s' x) = bvalid (bufs s x)" "brefcnt (bufs s' x) = brefcnt (bufs s x)" "bdata (bufs s' x) = bdata (bufs s x)"
    if "x \<noteq> b" for x using oth(1)[OF that] by (simp_all add: core_def)
  have sl: "slot s' = slot s" using keys by (intro slot_cong) simp
  have other: "unat (bblockno (bufs s x)) \<noteq> n" if "x \<noteq> b" "x < NBUF" "bdev (bufs s x) = 1" for x
    using slot_iff[OF td, of n x] that b by (auto simp: holds_def)
  have "tidy s'"
    unfolding tidy_def keys
  proof (intro conjI allI impI; (elim conjE)?)
    fix x x' assume "x < NBUF" "x' < NBUF" "bdev (bufs s x) = 1" "bdev (bufs s x') = 1" "bblockno (bufs s x) = bblockno (bufs s x')"
    then show "x = x'" by (intro tidyD(1)[OF td])
  next
    fix x assume "x < NBUF" "bdev (bufs s x) = 1"
    then show "unat (bblockno (bufs s x)) < 2 ^ 31" by (intro tidyD(2)[OF td])
  next
    fix x assume "x < NBUF" "brefcnt (bufs s' x) \<noteq> 0"
    then show "bdev (bufs s x) = 1" using tidyD(3)[OF td] fields bk(2) by (cases "x = b") auto
  next
    fix x assume "x < NBUF" "slocked (slocks s' (BufLock x))"
    then show "brefcnt (bufs s' x) \<noteq> 0" using tidyD(4)[OF td] fields oth(2) lk by (cases "x = b") auto
  next
    fix x assume x: "x < NBUF" "bdev (bufs s x) = 1" "bvalid (bufs s' x)" "brefcnt (bufs s' x) = 0"
    show "bdata (bufs s' x) = dblock s' (unat (bblockno (bufs s x)))"
    proof (cases "x = b")
      case True
      then show ?thesis using cl x bk by simp
    next
      case False
      then show ?thesis using x fields tidyD(5)[OF td] oth(3) other by auto
    qed
  qed
  then have ok': "cache_ok c p s'" using st by (simp add: cache_ok_def)
  have ne: "x \<noteq> b" if "slot s m = Some x" "m \<noteq> n" for x m
    using slot_key[OF that(1)] bk that(2) by auto
  have mine: "sl_mine p (BufLock x) s' = sl_mine p (BufLock x) s" if "x \<noteq> b" for x
    using oth(2)[OF that] st(4) by (simp add: sl_mine_def)
  have "view p s' = v_set n (if bvalid (bufs s' b) then bdata (bufs s' b) else dblock s' n) (dblock s' n)
     (unat (brefcnt (bufs s' b))) (slocked (slocks s' (BufLock b)))
     (if bvalid (bufs s' b) \<and> sl_mine p (BufLock b) s' then Some b else None) (view p s)"
    unfolding view_def v_set_def sl using oth(2,3) b
    by (auto simp: fun_eq_iff fields mine dest: ne split: option.splits)
  then show ?thesis using ok' b sl by simp
qed

lemma slot_update_view:
  assumes "cache_ok c p s" "slot s n = Some b" "ready c p s'" "disk_idle (vdisk s')" "ring s'" "pid (procs s' p) = pid (procs s p)" "calm s'"
    and "\<And>x. x \<noteq> b \<Longrightarrow> core (bufs s' x) = core (bufs s x)"
      "\<And>x. x \<noteq> b \<Longrightarrow> slocks s' (BufLock x) = slocks s (BufLock x)" "\<And>m. m \<noteq> n \<Longrightarrow> dblock s' m = dblock s m"
      "bdev (bufs s' b) = 1" "bblockno (bufs s' b) = bblockno (bufs s b)"
      "slocked (slocks s' (BufLock b)) \<Longrightarrow> brefcnt (bufs s' b) \<noteq> 0"
      "brefcnt (bufs s' b) = 0 \<Longrightarrow> bvalid (bufs s' b) \<Longrightarrow> bdata (bufs s' b) = dblock s' n"
    and v: "v_data v = (v_data (view p s))(n := if bvalid (bufs s' b) then bdata (bufs s' b) else dblock s' n)"
      "v_disk v = (v_disk (view p s))(n := dblock s' n)" "v_refs v = (v_refs (view p s))(n := unat (brefcnt (bufs s' b)))"
      "v_busy v = (v_busy (view p s))(n := slocked (slocks s' (BufLock b)))"
      "v_held v = (v_held (view p s))(n := if bvalid (bufs s' b) \<and> sl_mine p (BufLock b) s' then Some b else None)"
  shows "cache_ok c p s' \<and> slot s' n = Some b \<and> view p s' = v"
proof -
  have "v_set n (if bvalid (bufs s' b) then bdata (bufs s' b) else dblock s' n) (dblock s' n)
     (unat (brefcnt (bufs s' b))) (slocked (slocks s' (BufLock b)))
     (if bvalid (bufs s' b) \<and> sl_mine p (BufLock b) s' then Some b else None) (view p s) = v"
    by (rule view.equality) (simp_all add: v_set_def v)
  then show ?thesis using slot_update[OF assms(1-14)] by simp
qed

lemma recycle_view:
  assumes ok: "cache_ok c p s" and n: "slot s n = None" "n < 2 ^ 31" and b: "b < NBUF" "brefcnt (bufs s b) = 0"
  shows "cache_ok c p (recycle b n s)" "slot (recycle b n s) n = Some b"
    "view p (recycle b n s) = (view p s)\<lparr>v_refs := (v_refs (view p s))(n := 1)\<rparr>"
proof -
  note td = cache_okD(4)[OF ok]
  let ?s = "recycle b n s"
  have u: "unat (of_nat n :: uint32) = n" using n(2) by (simp add: unat_of_nat take_bit_nat_eq_self)
  have bf: "bufs ?s = (bufs s)(b := (bufs s b)\<lparr>bdev := 1, bblockno := of_nat n, bvalid := False, brefcnt := 1\<rparr>)"
    "dblock ?s = dblock s" "slocks ?s = slocks s" "sl_mine p l ?s = sl_mine p l s" for l
    by (simp_all add: recycle_def dblock_def fun_eq_iff sl_mine_def)
  have nohold: "bdev (bufs s x) = 1 \<Longrightarrow> unat (bblockno (bufs s x)) \<noteq> n" if "x < NBUF" for x
    using slot_NoneD[OF n(1) that] by (simp add: holds_def)
  have nh: "bdev (bufs s x) = 1 \<Longrightarrow> bblockno (bufs s x) \<noteq> of_nat n" if "x < NBUF" for x
    using nohold[OF that] u by auto
  have unl: "\<not> slocked (slocks s (BufLock b))" using tidyD(4)[OF td b(1)] b(2) by blast
  have td': "tidy ?s"
    unfolding tidy_def bf
  proof (intro conjI allI impI; (elim conjE)?)
    fix x x' assume "x < NBUF" "x' < NBUF" and "bdev (((bufs s)(b := (bufs s b)\<lparr>bdev := 1, bblockno := of_nat n, bvalid := False, brefcnt := 1\<rparr>)) x) = 1"
      "bdev (((bufs s)(b := (bufs s b)\<lparr>bdev := 1, bblockno := of_nat n, bvalid := False, brefcnt := 1\<rparr>)) x') = 1"
      "bblockno (((bufs s)(b := (bufs s b)\<lparr>bdev := 1, bblockno := of_nat n, bvalid := False, brefcnt := 1\<rparr>)) x)
       = bblockno (((bufs s)(b := (bufs s b)\<lparr>bdev := 1, bblockno := of_nat n, bvalid := False, brefcnt := 1\<rparr>)) x')"
    then show "x = x'" using nh[of x] nh[of x'] tidyD(1)[OF td, of x x'] by (auto split: if_splits)
  qed (use td b u n(2) unl in \<open>auto simp: tidy_def split: if_splits\<close>)
  have "ring ?s = ring s" by (rule ring_cong) (simp add: bf)
  then have "ring ?s" using cache_okD(3)[OF ok] by simp
  then show "cache_ok c p ?s" using td' cache_okD[OF ok] by (simp add: cache_ok_def recycle_def)
  show sn: "slot ?s n = Some b" using b(1) u by (simp add: slot_iff[OF td'] holds_def bf)
  have sl: "slot ?s m = (if m = n then Some b else if slot s m = Some b then None else slot s m)" for m
  proof (cases "m = n")
    case False
    have i: "slot ?s m = Some x \<longleftrightarrow> slot s m = Some x \<and> x \<noteq> b" for x
      using False u by (auto simp: slot_iff[OF td'] slot_iff[OF td] holds_def bf)
    show ?thesis
    proof (cases "slot ?s m")
      case None
      then show ?thesis using False i[of "the (slot s m)"] by (cases "slot s m") auto
    next
      case (Some x)
      then show ?thesis using False i[of x] by simp
    qed
  qed (use sn in simp)
  have clean: "bdata (bufs s b) = dblock s m" if "slot s m = Some b" "bvalid (bufs s b)" for m
    using tidyD(5)[OF td b(1)] slot_key[OF that(1)] that(2) b(2) by auto
  have mine: "\<not> sl_mine p (BufLock b) s" using unl by (simp add: sl_mine_def)
  show "view p ?s = (view p s)\<lparr>v_refs := (v_refs (view p s))(n := 1)\<rparr>"
    unfolding view_def bf sl using n(1) b(2) unl mine
    by (auto simp: fun_eq_iff clean split: option.splits)
qed


text \<open>The operations of the cache on the view.\<close>

definition v_read :: "nat \<Rightarrow> nat \<Rightarrow> view \<Rightarrow> view" where
  "v_read n b v = v\<lparr>v_refs := (v_refs v)(n := v_refs v n + 1), v_busy := (v_busy v)(n := True), v_held := (v_held v)(n := Some b)\<rparr>"

definition v_write :: "nat \<Rightarrow> view \<Rightarrow> view" where
  "v_write n v = v\<lparr>v_disk := (v_disk v)(n := v_data v n)\<rparr>"

definition v_release :: "nat \<Rightarrow> view \<Rightarrow> view" where
  "v_release n v = v\<lparr>v_refs := (v_refs v)(n := v_refs v n - 1), v_busy := (v_busy v)(n := False), v_held := (v_held v)(n := None)\<rparr>"

definition v_pin :: "nat \<Rightarrow> view \<Rightarrow> view" where
  "v_pin n v = v\<lparr>v_refs := (v_refs v)(n := v_refs v n + 1)\<rparr>"

definition v_unpin :: "nat \<Rightarrow> view \<Rightarrow> view" where
  "v_unpin n v = v\<lparr>v_refs := (v_refs v)(n := v_refs v n - 1)\<rparr>"

definition v_put :: "nat \<Rightarrow> uint8 list \<Rightarrow> view \<Rightarrow> view" where
  "v_put n d v = v\<lparr>v_data := (v_data v)(n := d)\<rparr>"

lemma view_slot:
  assumes "slot s n = Some b"
  shows "v_data (view p s) n = (if bvalid (bufs s b) then bdata (bufs s b) else dblock s n)"
    "v_disk (view p s) n = dblock s n" "v_refs (view p s) n = unat (brefcnt (bufs s b))"
    "v_busy (view p s) n = slocked (slocks s (BufLock b))"
    "v_held (view p s) n = (if bvalid (bufs s b) \<and> sl_mine p (BufLock b) s then Some b else None)"
  using assms by (simp_all add: view_def)

lemma v_heldD:
  assumes "v_held (view p s) n = Some b"
  shows "slot s n = Some b" "bvalid (bufs s b)" "sl_mine p (BufLock b) s" "bdata (bufs s b) = v_data (view p s) n"
  using assms by (auto simp: view_def split: option.splits if_splits)

lemma free_buffer:
  assumes td: "tidy s" and card: "card {m. 0 < v_refs (view p s) m} < NBUF"
  shows "\<exists>b<NBUF. brefcnt (bufs s b) = 0"
proof (rule ccontr)
  assume "\<not> (\<exists>b<NBUF. brefcnt (bufs s b) = 0)"
  then have nz: "brefcnt (bufs s b) \<noteq> 0" if "b < NBUF" for b using that by auto
  let ?f = "\<lambda>b. unat (bblockno (bufs s b))" and ?R = "{m. 0 < v_refs (view p s) m}"
  have sl: "slot s (?f b) = Some b" if "b < NBUF" for b
    using that tidyD(3)[OF td that nz[OF that]] by (simp add: slot_iff[OF td] holds_def)
  have sub: "?R \<subseteq> ?f ` {..<NBUF}"
  proof
    fix m assume "m \<in> ?R"
    then obtain b where "slot s m = Some b" by (auto simp: view_def split: option.splits)
    then show "m \<in> ?f ` {..<NBUF}" using slot_key[of s m b] by auto
  qed
  have "?f ` {..<NBUF} \<subseteq> ?R"
    using nz by (auto simp: view_slot(3)[OF sl] unat_gt_0)
  moreover have "inj_on ?f {..<NBUF}" by (rule inj_onI) (metis lessThan_iff option.inject sl)
  ultimately have "NBUF \<le> card ?R"
    using card_mono[of ?R "?f ` {..<NBUF}"] finite_subset[OF sub] by (simp add: card_image)
  then show False using card by simp
qed

text \<open>Reading a block in.\<close>

lemma disk_rw_slot:
  assumes "cache_ok c p s" "slot s n = Some b" "virtio_blk (hw_serve h)"
  shows "\<exists>s'. virtio_disk_rw h c b w s = Inr s' \<and> ready c p s' \<and> disk_idle (vdisk s')
    \<and> bufs s' = (bufs s)(b := (bufs s b)\<lparr>bdata := if w then bdata (bufs s b) else dblock s n, bdisk := False\<rparr>)
    \<and> (\<forall>m. dblock s' m = (if w \<and> m = n then bdata (bufs s b) else dblock s m))
    \<and> slocks s' = slocks s \<and> (\<forall>i. pid (procs s' i) = pid (procs s i)) \<and> calm s'"
proof -
  note ok = cache_okD[OF assms(1)] and k = slot_key[OF assms(2)]
  obtain v m where i: "disk_idle v" and e: "virtio_disk_rw h c b w s =
    Inr (disk_woken p b (if w then disk_write b (s\<lparr>vdisk := v, mmio := m\<rparr>) else disk_read b (s\<lparr>vdisk := v, mmio := m\<rparr>)))"
    using disk_rw_ready[OF ok(1,2) assms(3)] by blast
  let ?t = "s\<lparr>vdisk := v, mmio := m\<rparr>"
  have bn: "unat (bblockno (bufs ?t b)) < 2 ^ 31" using tidyD(2)[OF ok(4) k(1,2)] by simp
  have db: "dblock ?t m = dblock s m" "dblock (upd_buf b f ?t) m = dblock s m" for f m by (simp_all add: dblock_def)
  have fr: "slocks (disk_woken p b t) = slocks t" "pid (procs (disk_woken p b t) i) = pid (procs t i)" for t :: "'a kdisk_scheme" and i
    by (simp_all add: disk_woken_def)
  show ?thesis
  proof (cases w)
    case True
    then show ?thesis
      using e i ok(1,5) disk_write_effect[OF bn] db k(3)
      by (cases "bufs s b") (simp add: fun_upd_def fr, simp add: disk_write_def Let_def upd_buf_def)
  next
    case False
    then show ?thesis
      using e i ok(1,5) disk_read_effect[OF bn] db k(3) by (simp add: fr)
  qed
qed


lemma dblock_cong: "sectors s' = sectors s \<Longrightarrow> dblock s' = dblock s"
  by (simp add: dblock_def fun_eq_iff)

lemma sl_frame [simp]: "bufs (sl_take p l s) = bufs s" "vdisk (sl_take p l s) = vdisk s" "dblock (sl_take p l s) = dblock s"
  "procs (sl_take p l s) = procs s" "slocks (sl_take p l s) = (slocks s)(l := (slocks s l)\<lparr>slocked := True, slpid := pid (procs s p)\<rparr>)"
  "bufs (sl_drop p l s) = bufs s" "vdisk (sl_drop p l s) = vdisk s" "dblock (sl_drop p l s) = dblock s"
  "pid (procs (sl_drop p l s) i) = pid (procs s i)" "slocks (sl_drop p l s) = (slocks s)(l := (slocks s l)\<lparr>slocked := False, slpid := 0\<rparr>)"
  by (simp_all add: sl_take_def sl_drop_def upd_slock_def wake_def map_procs_def dblock_def fun_eq_iff wake_one_def)

lemma dblock_buf [simp]: "dblock (upd_buf b f s) = dblock s"
  by (rule dblock_cong) simp

lemma sl_take_slot:
  assumes "cache_ok c p s" "slot s n = Some b" "brefcnt (bufs s b) \<noteq> 0"
  shows "cache_ok c p (sl_take p (BufLock b) s) \<and> slot (sl_take p (BufLock b) s) n = Some b"
proof -
  have "ring (sl_take p (BufLock b) s) = ring s" by (rule ring_cong) simp
  then show ?thesis
    using slot_update[OF assms(1,2), of "sl_take p (BufLock b) s"] cache_okD[OF assms(1)] assms(3) slot_key[OF assms(2)]
    by simp
qed

lemma fetch_view:
  assumes ok: "cache_ok c p s" and b: "slot s n = Some b" and r: "brefcnt (bufs s b) \<noteq> 0" and h: "virtio_blk (hw_serve h)"
  defines "t \<equiv> sl_take p (BufLock b) s"
  shows "\<exists>s'. (if \<not> bvalid (bufs t b)
       then bindE (virtio_disk_rw h c b False t) (\<lambda>s. Inr (b, upd_buf b (bvalid_update (\<lambda>_. True)) s))
       else Inr (b, t)) = Inr (b, s') \<and> cache_ok c p s' \<and> pid (procs s' p) = pid (procs s p)
    \<and> view p s' = (view p s)\<lparr>v_busy := (v_busy (view p s))(n := True), v_held := (v_held (view p s))(n := Some b)\<rparr>"
proof -
  have t: "cache_ok c p t" "slot t n = Some b" using sl_take_slot[OF ok b r] by (simp_all add: t_def)
  note k = slot_key[OF b] and v = view_slot[OF b, of p] and okd = cache_okD[OF ok]
  have lift: ?thesis
    if e: "(if \<not> bvalid (bufs t b)
       then bindE (virtio_disk_rw h c b False t) (\<lambda>s. Inr (b, upd_buf b (bvalid_update (\<lambda>_. True)) s))
       else Inr (b, t)) = Inr (b, s')" and st: "ready c p s'" "disk_idle (vdisk s')"
      "bufs s' = (bufs s)(b := (bufs s b)\<lparr>bvalid := True, bdisk := dd, bdata := v_data (view p s) n\<rparr>)"
      "dblock s' = dblock s" "slocks s' = slocks t" "pid (procs s' p) = pid (procs s p)" "calm s'" for s' dd
  proof -
    have "ring s' = ring s" by (rule ring_cong) (simp add: st)
    then have "ring s'" using okd by simp
    have "cache_ok c p s' \<and> slot s' n = Some b
      \<and> view p s' = (view p s)\<lparr>v_busy := (v_busy (view p s))(n := True), v_held := (v_held (view p s))(n := Some b)\<rparr>"
      by (rule slot_update_view[OF ok b st(1,2) \<open>ring s'\<close> st(6,7)]) (use r k in \<open>simp_all add: st t_def fun_eq_iff v sl_mine_def\<close>)
    then show ?thesis using e st(6) by blast
  qed
  show ?thesis
  proof (cases "bvalid (bufs s b)")
    case True
    have e: "bufs t = (bufs s)(b := (bufs s b)\<lparr>bvalid := True, bdisk := bdisk (bufs s b), bdata := v_data (view p s) n\<rparr>)"
      using True v(1) by (auto simp: t_def)
    show ?thesis
      by (rule lift[of t "bdisk (bufs s b)"]) (use True okd e in \<open>simp_all add: t_def\<close>)
  next
    case False
    obtain s1 where s1: "virtio_disk_rw h c b False t = Inr s1" "ready c p s1" "disk_idle (vdisk s1)"
      "bufs s1 = (bufs s)(b := (bufs s b)\<lparr>bdata := dblock s n, bdisk := False\<rparr>)"
      "\<forall>m. dblock s1 m = dblock s m" "slocks s1 = slocks t" "\<forall>i. pid (procs s1 i) = pid (procs s i)" "calm s1"
      using disk_rw_slot[OF t h, of False] by (auto simp: t_def)
    show ?thesis
      by (rule lift[of "upd_buf b (bvalid_update (\<lambda>_. True)) s1" False])
        (use s1 False v in \<open>simp_all add: t_def fun_eq_iff\<close>)
  qed
qed

lemma bread_view:
  assumes ok: "cache_ok c p s" and h: "virtio_blk (hw_serve h)" and n: "n < 2 ^ 31"
    and free: "\<not> v_busy (view p s) n" "v_refs (view p s) n < 2 ^ 32 - 1"
      "0 < v_refs (view p s) n \<or> card {m. 0 < v_refs (view p s) m} < NBUF"
  shows "\<exists>b s'. bread h c 1 (of_nat n) s = Inr (b, s') \<and> cache_ok c p s' \<and> pid (procs s' p) = pid (procs s p)
    \<and> view p s' = v_read n b (view p s)"
proof (cases "slot s n")
  case None
  obtain b where b: "b < NBUF" "brefcnt (bufs s b) = 0" "bget c 1 (of_nat n) s = Inr (b, sl_take p (BufLock b) (recycle b n s))"
    using bget_miss[OF ok n None] free_buffer[OF cache_okD(4)[OF ok], of p] free(3) None by (auto simp: view_def)
  note r = recycle_view[OF ok None n b(1,2)]
  have "brefcnt (bufs (recycle b n s) b) \<noteq> 0" "pid (procs (recycle b n s) p) = pid (procs s p)" by (simp_all add: recycle_def)
  moreover have "v_refs (view p s) n = 0" using None by (simp add: view_def)
  ultimately show ?thesis
    using fetch_view[OF r(1,2) _ h] b(3) r(3) by (auto simp: bread_def v_read_def)
next
  case (Some b)
  let ?s = "upd_buf b (brefcnt_update (\<lambda>n. n + 1)) s"
  note k = slot_key[OF Some] and okd = cache_okD[OF ok] and v = view_slot[OF Some, of p]
  have g: "bget c 1 (of_nat n) s = Inr (b, sl_take p (BufLock b) ?s)"
    using bget_hit[OF ok n Some] free(1) v by simp
  have u: "unat (brefcnt (bufs s b) + 1) = unat (brefcnt (bufs s b)) + 1"
    using free(2) unfolding v(3) by (simp add: unat_word_ariths)
  have nz: "brefcnt (bufs s b) + 1 \<noteq> 0" using u by (metis add_is_0 one_neq_zero unat_0)
  have "ring ?s = ring s" by (rule ring_cong) simp
  then have "ring ?s" using okd by simp
  then have s: "cache_ok c p ?s" "slot ?s n = Some b" "view p ?s = (view p s)\<lparr>v_refs := (v_refs (view p s))(n := v_refs (view p s) n + 1)\<rparr>"
    using slot_update_view[OF ok Some, of ?s "(view p s)\<lparr>v_refs := (v_refs (view p s))(n := v_refs (view p s) n + 1)\<rparr>"]
      okd k nz u v by (simp_all add: fun_eq_iff sl_mine_def)
  have "brefcnt (bufs ?s b) \<noteq> 0" "pid (procs ?s p) = pid (procs s p)" using nz by simp_all
  then show ?thesis
    using fetch_view[OF s(1,2) _ h] g s(3) by (auto simp: bread_def v_read_def)
qed


text \<open>Writing a held buffer through, changing it, and counting references to it.\<close>

lemma held_ref:
  assumes "cache_ok c p s" "v_held (view p s) n = Some b"
  shows "brefcnt (bufs s b) \<noteq> 0" "0 < v_refs (view p s) n"
proof -
  note h = v_heldD[OF assms(2)]
  show "brefcnt (bufs s b) \<noteq> 0"
    using tidyD(4)[OF cache_okD(4)[OF assms(1)] slot_key(1)[OF h(1)]] h(3) by (simp add: sl_mine_def)
  then show "0 < v_refs (view p s) n" by (simp add: view_slot(3)[OF h(1)] unat_gt_0)
qed

lemma bwrite_view:
  assumes ok: "cache_ok c p s" and h: "virtio_blk (hw_serve h)" and b: "v_held (view p s) n = Some b"
  shows "\<exists>s'. bwrite h c b s = Inr s' \<and> cache_ok c p s' \<and> pid (procs s' p) = pid (procs s p) \<and> view p s' = v_write n (view p s)"
proof -
  note hb = v_heldD[OF b] and okd = cache_okD[OF ok]
  note k = slot_key[OF hb(1)] and v = view_slot[OF hb(1), of p]
  obtain s' where s': "virtio_disk_rw h c b True s = Inr s'" "ready c p s'" "disk_idle (vdisk s')"
    "bufs s' = (bufs s)(b := (bufs s b)\<lparr>bdisk := False\<rparr>)"
    "\<forall>m. dblock s' m = (if m = n then bdata (bufs s b) else dblock s m)" "slocks s' = slocks s" "\<forall>i. pid (procs s' i) = pid (procs s i)" "calm s'"
    using disk_rw_slot[OF ok hb(1) h, of True] by auto
  have "ring s' = ring s" by (rule ring_cong) (simp add: s')
  then have "cache_ok c p s' \<and> slot s' n = Some b \<and> view p s' = v_write n (view p s)"
    using okd k v hb held_ref[OF ok b]
    by (intro slot_update_view[OF ok hb(1)]) (simp_all add: s' v_write_def fun_eq_iff sl_mine_def)
  then show ?thesis using s' hb(3) okd(1) by (intro exI[of _ s']) (simp add: bwrite_def holdingsleep_ready)
qed

lemma put_view:
  assumes ok: "cache_ok c p s" and b: "v_held (view p s) n = Some b"
  shows "cache_ok c p (upd_data b f s)" "view p (upd_data b f s) = v_put n (f (v_data (view p s) n)) (view p s)"
proof -
  note hb = v_heldD[OF b] and okd = cache_okD[OF ok]
  note k = slot_key[OF hb(1)] and v = view_slot[OF hb(1), of p]
  let ?s = "upd_data b f s"
  have "ring ?s = ring s" by (rule ring_cong) (simp add: upd_data_def)
  then have "cache_ok c p ?s \<and> slot ?s n = Some b \<and> view p ?s = v_put n (f (v_data (view p s) n)) (view p s)"
    using okd k v hb held_ref[OF ok b]
    by (intro slot_update_view[OF ok hb(1)]) (simp_all add: upd_data_def v_put_def fun_eq_iff sl_mine_def)
  then show "cache_ok c p ?s" "view p ?s = v_put n (f (v_data (view p s) n)) (view p s)" by simp_all
qed

lemma with_lock_ready:
  "ready c p s \<Longrightarrow> lockless f \<Longrightarrow> with_lock c l f s = Inr (f s)"
proof -
  assume r: "ready c p s" and f: "lockless f"
  have "ready c p (f s)" using r ready_cong[of "f s" s] lockless_frame[OF f, of s] by simp
  then show ?thesis using r by (simp add: with_lock_def lockless_inside[OF f])
qed

lemma pin_view:
  assumes ok: "cache_ok c p s" and b: "v_held (view p s) n = Some b" and r: "v_refs (view p s) n < 2 ^ 32 - 1"
  shows "\<exists>s'. bpin c b s = Inr s' \<and> cache_ok c p s' \<and> pid (procs s' p) = pid (procs s p) \<and> view p s' = v_pin n (view p s)"
proof -
  note hb = v_heldD[OF b] and okd = cache_okD[OF ok]
  note k = slot_key[OF hb(1)] and v = view_slot[OF hb(1), of p]
  let ?s = "upd_buf b (brefcnt_update (\<lambda>n. n + 1)) s"
  have u: "unat (brefcnt (bufs s b) + 1) = unat (brefcnt (bufs s b)) + 1"
    using r unfolding v(3) by (simp add: unat_word_ariths)
  have nz: "brefcnt (bufs s b) + 1 \<noteq> 0" using u by (metis add_is_0 one_neq_zero unat_0)
  have "ring ?s = ring s" by (rule ring_cong) simp
  then have "cache_ok c p ?s \<and> slot ?s n = Some b \<and> view p ?s = v_pin n (view p s)"
    using okd k v hb u nz by (intro slot_update_view[OF ok hb(1)]) (simp_all add: v_pin_def fun_eq_iff sl_mine_def)
  moreover have "bpin c b s = Inr ?s" unfolding bpin_def using okd(1) by (intro with_lock_ready lockless_disk)
  ultimately show ?thesis by simp
qed

lemma unat_minus_1: "x \<noteq> 0 \<Longrightarrow> unat (x - 1) = unat x - 1"
  by (simp add: unat_minus_one)

lemma unpin_view:
  assumes ok: "cache_ok c p s" and b: "v_held (view p s) n = Some b" and r: "2 \<le> v_refs (view p s) n"
  shows "\<exists>s'. bunpin c b s = Inr s' \<and> cache_ok c p s' \<and> pid (procs s' p) = pid (procs s p) \<and> view p s' = v_unpin n (view p s)"
proof -
  note hb = v_heldD[OF b] and okd = cache_okD[OF ok]
  note k = slot_key[OF hb(1)] and v = view_slot[OF hb(1), of p]
  let ?s = "upd_buf b (brefcnt_update (\<lambda>n. n - 1)) s"
  have u: "unat (brefcnt (bufs s b) - 1) = unat (brefcnt (bufs s b)) - 1"
    using held_ref(1)[OF ok b] by (rule unat_minus_1)
  have nz: "brefcnt (bufs s b) - 1 \<noteq> 0"
  proof
    assume "brefcnt (bufs s b) - 1 = 0"
    then have "unat (brefcnt (bufs s b)) - 1 = 0" unfolding u[symmetric] by simp
    then show False using r unfolding v(3) by simp
  qed
  have "ring ?s = ring s" by (rule ring_cong) simp
  then have "cache_ok c p ?s \<and> slot ?s n = Some b \<and> view p ?s = v_unpin n (view p s)"
    using okd k v hb u nz by (intro slot_update_view[OF ok hb(1)]) (simp_all add: v_unpin_def fun_eq_iff sl_mine_def)
  moreover have "bunpin c b s = Inr ?s" unfolding bunpin_def using okd(1) by (intro with_lock_ready lockless_disk)
  ultimately show ?thesis by simp
qed


lemma ring_move:
  assumes "ring s" "b < NBUF"
  shows "ring (lru_push b (lru_unlink b s))"
proof -
  obtain xs where xs: "lru (bufs s) xs" "set xs = {..<NBUF}" using assms(1) by (auto simp: ring_def)
  then obtain as bs where e: "xs = as @ b # bs" using assms(2) split_list[of b xs] by auto
  have d: "b \<notin> set (as @ bs)" "b \<noteq> BHEAD" using xs(1) unfolding lru_def e by auto
  have "lru (bufs (lru_push b (lru_unlink b s))) (b # as @ bs)"
    using lru_push_list[OF lru_unlink_list d] xs(1) unfolding e by blast
  moreover have "set (b # as @ bs) = {..<NBUF}" using xs(2) unfolding e by simp
  ultimately show ?thesis unfolding ring_def by blast
qed

lemma link_core [simp]: "core (bufs (set_next b x s) y) = core (bufs s y)" "core (bufs (set_prev b x s) y) = core (bufs s y)"
  "slocks (set_next b x s) = slocks s" "procs (set_next b x s) = procs s" "vdisk (set_next b x s) = vdisk s" "dblock (set_next b x s) = dblock s" "calm (set_next b x s) = calm s" "calm (set_prev b x s) = calm s"
  "slocks (set_prev b x s) = slocks s" "procs (set_prev b x s) = procs s" "vdisk (set_prev b x s) = vdisk s" "dblock (set_prev b x s) = dblock s"
  by (simp_all add: core_def set_next_def set_prev_def)

lemma move_core: "core (bufs (lru_push b (lru_unlink b s)) x) = core (bufs s x)"
  "slocks (lru_push b (lru_unlink b s)) = slocks s" "procs (lru_push b (lru_unlink b s)) = procs s"
  "vdisk (lru_push b (lru_unlink b s)) = vdisk s" "dblock (lru_push b (lru_unlink b s)) = dblock s" "calm (lru_push b (lru_unlink b s)) = calm s"
  by (simp_all add: lru_push_def lru_unlink_def Let_def)

definition put_back :: "nat \<Rightarrow> 'a kdisk_scheme \<Rightarrow> 'a kdisk_scheme" where
  "put_back b s = (let s = upd_buf b (brefcnt_update (\<lambda>n. n - 1)) s in
     if brefcnt (bufs s b) = 0 then lru_push b (lru_unlink b s) else s)"

lemma brelse_alt:
  "brelse c b s = bindE (holdingsleep c (BufLock b) s) (\<lambda>(held, s).
     if \<not> held then Inl (Panic ''brelse'') else bindE (releasesleep c (BufLock b) s) (with_lock c BcacheLock (put_back b)))"
  unfolding brelse_def put_back_def[abs_def] by (rule refl)

lemma put_back_frame:
  "core (bufs (put_back b s) x) = core ((if x = b then brefcnt_update (\<lambda>n. n - 1) else id) (bufs s x))"
  "slocks (put_back b s) = slocks s" "procs (put_back b s) = procs s" "vdisk (put_back b s) = vdisk s" "dblock (put_back b s) = dblock s"
  "calm (put_back b s) = calm s"
  by (simp_all add: put_back_def Let_def move_core)

lemma lockless_put_back: "lockless (put_back b)"
  by (simp add: lockless_def put_back_def lru_push_def lru_unlink_def set_next_def set_prev_def upd_buf_def Let_def)

lemma ring_put_back:
  assumes "ring s" "b < NBUF"
  shows "ring (put_back b s)"
proof -
  have "ring (upd_buf b (brefcnt_update (\<lambda>n. n - 1)) s) = ring s" by (rule ring_cong) simp
  then show ?thesis using assms by (simp add: put_back_def Let_def ring_move)
qed

lemma brelse_view:
  assumes ok: "cache_ok c p s" and b: "v_held (view p s) n = Some b"
    and cl: "2 \<le> v_refs (view p s) n \<or> v_data (view p s) n = v_disk (view p s) n"
  shows "\<exists>s'. brelse c b s = Inr s' \<and> cache_ok c p s' \<and> pid (procs s' p) = pid (procs s p) \<and> view p s' = v_release n (view p s)"
proof -
  note hb = v_heldD[OF b] and okd = cache_okD[OF ok]
  note k = slot_key[OF hb(1)] and v = view_slot[OF hb(1), of p]
  let ?s = "put_back b (sl_drop p (BufLock b) s)"
  have u: "unat (brefcnt (bufs s b) - 1) = unat (brefcnt (bufs s b)) - 1"
    using held_ref(1)[OF ok b] by (rule unat_minus_1)
  have z: "bdata (bufs s b) = dblock s n" if "brefcnt (bufs s b) - 1 = 0"
  proof -
    have "unat (brefcnt (bufs s b)) - 1 = 0" unfolding u[symmetric] that by simp
    then show ?thesis using cl hb(2) unfolding v by simp
  qed
  have e: "brelse c b s = Inr ?s"
    using okd(1) hb(3) with_lock_ready[OF _ lockless_put_back, of c p "sl_drop p (BufLock b) s" BcacheLock b]
    by (simp add: brelse_alt holdingsleep_ready releasesleep_ready)
  have "ready c p ?s = ready c p (sl_drop p (BufLock b) s)"
    by (rule ready_cong) (simp_all add: lockless_frame[OF lockless_put_back])
  then have r: "ready c p ?s" using okd(1) by simp
  have "ring (sl_drop p (BufLock b) s) = ring s" by (rule ring_cong) simp
  then have rg: "ring ?s" using ring_put_back okd(3) k(1) by blast
  have cb: "bvalid (bufs ?s b) = bvalid (bufs s b)" "bdev (bufs ?s b) = bdev (bufs s b)" "bblockno (bufs ?s b) = bblockno (bufs s b)"
    "brefcnt (bufs ?s b) = brefcnt (bufs s b) - 1" "bdata (bufs ?s b) = bdata (bufs s b)"
    using put_back_frame(1)[of b "sl_drop p (BufLock b) s" b] by (simp_all add: core_def)
  have "cache_ok c p ?s \<and> slot ?s n = Some b \<and> view p ?s = v_release n (view p s)"
    by (rule slot_update_view[OF ok hb(1) r _ rg])
      (use okd k v hb u z in \<open>simp_all add: put_back_frame cb v_release_def fun_eq_iff sl_mine_def\<close>)
  then show ?thesis using e by (simp add: put_back_frame)
qed


subsection \<open>The cache after start-up\<close>

definition v_boot :: "(nat \<Rightarrow> uint8 list) \<Rightarrow> view" where
  "v_boot d = \<lparr>v_data = d, v_disk = d, v_refs = (\<lambda>_. 0), v_busy = (\<lambda>_. False), v_held = (\<lambda>_. None)\<rparr>"

text \<open>Buffers as they are in zeroed memory.\<close>

definition blank :: "'a kdisk_scheme \<Rightarrow> bool" where
  "blank s = (\<forall>b. bdev (bufs s b) = 0 \<and> brefcnt (bufs s b) = 0 \<and> \<not> slocked (slocks s (BufLock b)))"

lemma ready_init: "ready c p s \<Longrightarrow> ready c p (initlock l nm s)" "ready c p s' \<Longrightarrow> ready c p (initsleeplock l nm s')"
  by (simp_all add: ready_def initlock_def initsleeplock_def upd_lock_def upd_slock_def cpu_sane_def settled_def lock_free_def)

lemma init_frame [simp]: "bufs (initsleeplock l nm s) = bufs s" "vdisk (initsleeplock l nm s) = vdisk s" "dblock (initsleeplock l nm s) = dblock s"
  "bufs (initlock l nm s) = bufs s" "vdisk (initlock l nm s) = vdisk s" "dblock (initlock l nm s) = dblock s"
  "slocks (initsleeplock l nm s) = (slocks s)(l := (slocks s l)\<lparr>slname := nm, slocked := False, slpid := 0\<rparr>)" "slocks (initlock l nm s) = slocks s"
  "calm (initsleeplock l nm s) = calm s" "calm (initlock l nm s) = calm s"
  by (simp_all add: calm_def initlock_def initsleeplock_def upd_lock_def upd_slock_def dblock_def fun_eq_iff)

lemma push_frame: "core (bufs (lru_push b s) x) = core (bufs s x)" "slocks (lru_push b s) = slocks s"
  "vdisk (lru_push b s) = vdisk s" "dblock (lru_push b s) = dblock s" "calm (lru_push b s) = calm s"
  by (simp_all add: lru_push_def Let_def)

lemma link_ready [simp]: "ready c p (set_next b x s) = ready c p s" "ready c p (set_prev b x s) = ready c p s"
  by (simp_all add: set_next_def set_prev_def)

lemma push_ready: "ready c p s \<Longrightarrow> ready c p (lru_push b s)"
  by (simp add: lru_push_def Let_def)

lemma blank_core: "blank s \<longleftrightarrow> (\<forall>b. (\<exists>v n d. core (bufs s b) = (v, 0, n, 0, d)) \<and> \<not> slocked (slocks s (BufLock b)))"
  by (simp add: blank_def core_def)

lemma binit_loop:
  assumes "ready c p s" "blank s" "lru (bufs s) []"
  defines "t k \<equiv> fold (\<lambda>b s. lru_push b (initsleeplock (BufLock b) ''buffer'' s)) [0..<k] s"
  shows "k \<le> NBUF \<Longrightarrow> ready c p (t k) \<and> blank (t k) \<and> lru (bufs (t k)) (rev [0..<k]) \<and> vdisk (t k) = vdisk s \<and> dblock (t k) = dblock s \<and> calm (t k) = calm s"
proof (induction k)
  case 0
  then show ?case using assms(1-3) by (simp add: t_def)
next
  case (Suc k)
  then have ih: "ready c p (t k)" "blank (t k)" "lru (bufs (t k)) (rev [0..<k])" "vdisk (t k) = vdisk s" "dblock (t k) = dblock s" "calm (t k) = calm s" by auto
  have e: "t (Suc k) = lru_push k (initsleeplock (BufLock k) ''buffer'' (t k))" by (simp add: t_def)
  have "lru (bufs (t (Suc k))) (k # rev [0..<k])"
    unfolding e using Suc.prems ih(3) by (intro lru_push_list) (auto simp: BHEAD_def)
  moreover have "blank (t (Suc k))" using ih(2) unfolding e blank_core by (simp add: push_frame)
  ultimately show ?case unfolding e using ih by (simp add: push_frame push_ready ready_init)
qed

lemma binit_view:
  assumes r: "ready c p s" and i: "disk_idle (vdisk s)" and b: "blank s" "calm s"
  shows "cache_ok c p (binit s)" "view p (binit s) = v_boot (dblock s)"
proof -
  let ?s = "set_next BHEAD BHEAD (set_prev BHEAD BHEAD (initlock BcacheLock ''bcache'' s))"
  have "lru (bufs ?s) []" by (simp add: lru_def set_next_def set_prev_def)
  moreover have "blank ?s" using b(1) unfolding blank_core by simp
  moreover have "ready c p ?s" using r by (simp add: ready_init)
  ultimately have t: "ready c p (binit s)" "blank (binit s)" "lru (bufs (binit s)) (rev [0..<NBUF])" "vdisk (binit s) = vdisk s" "dblock (binit s) = dblock s" "calm (binit s) = calm s"
    using binit_loop[of c p ?s NBUF] by (simp_all add: binit_def Let_def)
  have sl: "slot (binit s) n = None" for n
    using t(2) by (auto simp: slot_def find_None_iff holds_def blank_def)
  show "cache_ok c p (binit s)"
    using t i b(2) by (auto simp: cache_ok_def ring_def tidy_def blank_def)
  show "view p (binit s) = v_boot (dblock s)"
    by (simp add: view_def v_boot_def sl t(5))
qed

text \<open>
  C4.  Reading a block.  In a cache that satisfies its invariant \<open>bread\<close> of a block whose lock is
  free returns a locked buffer with the block's current bytes: those of the cached buffer, or those
  of the disk if none is cached.  The contents, the disk and the locks of all other blocks stay as
  they were and the invariant still holds; in particular a recycled buffer loses nothing.
\<close>

theorem bread_delivers:
  assumes "cache_ok c p s" "virtio_blk (hw_serve h)" "n < 2 ^ 31"
    and "\<not> v_busy (view p s) n" "v_refs (view p s) n < 2 ^ 32 - 1"
    and "0 < v_refs (view p s) n \<or> card {m. 0 < v_refs (view p s) m} < NBUF"
  shows "\<exists>b s'. bread h c 1 (of_nat n) s = Inr (b, s') \<and> cache_ok c p s' \<and> bdata (bufs s' b) = v_data (view p s) n
    \<and> view p s' = v_read n b (view p s)"
proof -
  obtain b s' where s': "bread h c 1 (of_nat n) s = Inr (b, s')" "cache_ok c p s'" "view p s' = v_read n b (view p s)"
    using bread_view[OF assms] by blast
  then have "v_held (view p s') n = Some b" by (simp add: v_read_def)
  from v_heldD(4)[OF this] have "bdata (bufs s' b) = v_data (view p s) n" unfolding s'(3) by (simp add: v_read_def)
  then show ?thesis using s' by blast
qed

definition boot_disk :: kdisk where
  "boot_disk = rest_disk\<lparr>bufs := (\<lambda>_. \<lparr>bvalid = False, bdisk = False, bdev = 0, bblockno = 0, brefcnt = 0, bprev = 0, bnext = 0,
     bdata = replicate 1024 0\<rparr>), slocks := (\<lambda>_. \<lparr>slocked = False, slname = [], slpid = 0\<rparr>), panicking := False, panicked := False\<rparr>"

lemma boot_disk_ok: "ready 0 3 boot_disk" "disk_idle (vdisk boot_disk)" "blank boot_disk" "calm boot_disk"
  by (simp_all add: calm_def ready_def boot_disk_def rest_disk_def cpu_sane_def settled_def lock_free_def disk_idle_def blank_def)

theorem bread_delivers_witness:
  "\<exists>b s'. bread quiet_hw 0 1 (of_nat 5) (binit boot_disk) = Inr (b, s') \<and> bdata (bufs s' b) = replicate 512 10 @ replicate 512 11"
proof -
  note v = binit_view[OF boot_disk_ok]
  have "virtio_blk (hw_serve quiet_hw)" by (simp add: quiet_hw_def blk_device_ok)
  from bread_delivers[OF v(1) this, of 5] show ?thesis
    unfolding v(2) by (auto simp: v_boot_def dblock_def boot_disk_def rest_disk_def NBUF_def)
qed

definition rewrite_block :: "hardware \<Rightarrow> nat \<Rightarrow> nat \<Rightarrow> (uint8 list \<Rightarrow> uint8 list) \<Rightarrow> 'a kdisk_scheme \<Rightarrow> 'a kdisk_scheme res" where
  "rewrite_block h c n f s = bindE (bread h c 1 (of_nat n) s) (\<lambda>(b, s).
     bindE (bwrite h c b (upd_data b f s)) (\<lambda>s. brelse c b s))"

lemma rewrite_view:
  assumes "cache_ok c p s" "virtio_blk (hw_serve h)" "n < 2 ^ 31"
    and "\<not> v_busy (view p s) n" "v_refs (view p s) n < 2 ^ 32 - 1"
    and "0 < v_refs (view p s) n \<or> card {m. 0 < v_refs (view p s) m} < NBUF"
  shows "\<exists>s'. rewrite_block h c n f s = Inr s' \<and> cache_ok c p s' \<and> view p s' = (view p s)\<lparr>
     v_data := (v_data (view p s))(n := f (v_data (view p s) n)), v_disk := (v_disk (view p s))(n := f (v_data (view p s) n))\<rparr>"
proof -
  obtain b s1 where s1: "bread h c 1 (of_nat n) s = Inr (b, s1)" "cache_ok c p s1" "view p s1 = v_read n b (view p s)"
    using bread_view[OF assms] by blast
  have h1: "v_held (view p s1) n = Some b" using s1(3) by (simp add: v_read_def)
  let ?s2 = "upd_data b f s1"
  note p2 = put_view[OF s1(2) h1, of f]
  have h2: "v_held (view p ?s2) n = Some b" using p2(2) h1 by (simp add: v_put_def)
  obtain s3 where s3: "bwrite h c b ?s2 = Inr s3" "cache_ok c p s3" "view p s3 = v_write n (view p ?s2)"
    using bwrite_view[OF p2(1) assms(2) h2] by blast
  have h3: "v_held (view p s3) n = Some b" using s3(3) h2 by (simp add: v_write_def)
  have "v_data (view p s3) n = v_disk (view p s3) n" using s3(3) by (simp add: v_write_def)
  then obtain s4 where s4: "brelse c b s3 = Inr s4" "cache_ok c p s4" "view p s4 = v_release n (view p s3)"
    using brelse_view[OF s3(2) h3] by blast
  have "v_held (view p s) n = None" using assms(4) by (auto simp: view_def sl_mine_def split: option.splits)
  then have "view p s4 = (view p s)\<lparr>
     v_data := (v_data (view p s))(n := f (v_data (view p s) n)), v_disk := (v_disk (view p s))(n := f (v_data (view p s) n))\<rparr>"
    unfolding s4(3) s3(3) p2(2) s1(3) using assms(4)
    by (intro view.equality) (simp_all add: v_release_def v_write_def v_put_def v_read_def fun_eq_iff)
  then show ?thesis using s1(1) s3(1) s4 by (simp add: rewrite_block_def)
qed

text \<open>
  C9.  Changing a block.  The sequence every client of the cache uses, \<open>bread\<close>, a change of the
  bytes, \<open>bwrite\<close> and \<open>brelse\<close>, returns, and afterwards the block has the changed bytes in the cache
  and on the disk, while contents, reference counts and locks are otherwise as before.
\<close>

theorem rewrite_block_persists:
  assumes "cache_ok c p s" "virtio_blk (hw_serve h)" "n < 2 ^ 31"
    and "\<not> v_busy (view p s) n" "v_refs (view p s) n < 2 ^ 32 - 1"
    and "0 < v_refs (view p s) n \<or> card {m. 0 < v_refs (view p s) m} < NBUF"
  shows "\<exists>s'. rewrite_block h c n f s = Inr s' \<and> cache_ok c p s' \<and> view p s' = (view p s)\<lparr>
     v_data := (v_data (view p s))(n := f (v_data (view p s) n)), v_disk := (v_disk (view p s))(n := f (v_data (view p s) n))\<rparr>"
  by (rule rewrite_view[OF assms])

theorem rewrite_block_persists_witness:
  "\<exists>s'. rewrite_block quiet_hw 0 5 (\<lambda>d. take 1000 d @ replicate 24 7) (binit boot_disk) = Inr s'
    \<and> v_disk (view 3 s') 5 = replicate 512 10 @ replicate 488 11 @ replicate 24 7 \<and> v_disk (view 3 s') 6 = dblock boot_disk 6"
proof -
  note v = binit_view[OF boot_disk_ok]
  have "virtio_blk (hw_serve quiet_hw)" by (simp add: quiet_hw_def blk_device_ok)
  from rewrite_block_persists[OF v(1) this, of 5 "\<lambda>d. take 1000 d @ replicate 24 7"] show ?thesis
    unfolding v(2) by (auto simp: v_boot_def dblock_def boot_disk_def rest_disk_def NBUF_def)
qed

end
