(* ===== verification/LogSpec.thy ===== *)
theory LogSpec
  imports BioSpec
begin

text \<open>
  The log makes a transaction atomic: what \<open>commit\<close> does to the disk, step by step, and what
  \<open>recover_from_log\<close> makes of the disk of a machine that stopped after any of these steps.
\<close>

text \<open>A block that can be read now; room for \<open>k\<close> more blocks in the cache.\<close>

definition acc :: "view \<Rightarrow> nat \<Rightarrow> bool" where
  "acc v m = (\<not> v_busy v m \<and> v_refs v m < 2 ^ 32 - 1)"

definition room :: "nat \<Rightarrow> view \<Rightarrow> bool" where
  "room k v = (finite {m. 0 < v_refs v m} \<and> card {m. 0 < v_refs v m} + k \<le> NBUF)"

lemma room_mono: "room k v \<Longrightarrow> j \<le> k \<Longrightarrow> room j v"
  by (simp add: room_def)

lemma room_less: "room k v \<Longrightarrow> (\<And>m. v_refs w m \<le> v_refs v m) \<Longrightarrow> room k w"
proof -
  assume r: "room k v" and le: "\<And>m. v_refs w m \<le> v_refs v m"
  have "{m. 0 < v_refs w m} \<subseteq> {m. 0 < v_refs v m}" using le order.strict_trans2 by blast
  then show "room k w" using r card_mono[of "{m. 0 < v_refs v m}" "{m. 0 < v_refs w m}"] finite_subset by (auto simp: room_def)
qed

lemma room_read: "room (Suc k) v \<Longrightarrow> room k (v_read n b v)"
proof -
  assume r: "room (Suc k) v"
  have "{m. 0 < v_refs (v_read n b v) m} \<subseteq> insert n {m. 0 < v_refs v m}" by (auto simp: v_read_def)
  moreover have "card (insert n {m. 0 < v_refs v m}) \<le> Suc (card {m. 0 < v_refs v m})" by (rule card_insert_le_m1) simp_all
  ultimately show "room k (v_read n b v)"
    using r card_mono[of "insert n {m. 0 < v_refs v m}" "{m. 0 < v_refs (v_read n b v) m}"] finite_subset by (fastforce simp: room_def)
qed

lemma view_idle: "\<not> v_busy (view p s) n \<Longrightarrow> v_held (view p s) n = None"
  by (auto simp: view_def sl_mine_def split: option.splits)

text \<open>The block \<open>n\<close> rewritten in the cache and on the disk.\<close>

definition v_sync :: "nat \<Rightarrow> uint8 list \<Rightarrow> view \<Rightarrow> view" where
  "v_sync n d v = v\<lparr>v_data := (v_data v)(n := d), v_disk := (v_disk v)(n := d)\<rparr>"

lemma read_two:
  assumes ok: "cache_ok c p s" and h: "virtio_blk (hw_serve h)" and l: "l < 2 ^ 31" "acc (view p s) l"
    and d: "d < 2 ^ 31" "acc (view p s) d" "l \<noteq> d"
    and r: "room 1 (view p s)" "0 < v_refs (view p s) d \<or> room 2 (view p s)"
  shows "\<exists>b1 s1 b2 s2. bread h c 1 (of_nat l) s = Inr (b1, s1) \<and> bread h c 1 (of_nat d) s1 = Inr (b2, s2)
    \<and> cache_ok c p s2 \<and> view p s2 = v_read d b2 (v_read l b1 (view p s))"
proof -
  have "card {m. 0 < v_refs (view p s) m} < NBUF" using r(1) by (simp add: room_def)
  then obtain b1 s1 where s1: "bread h c 1 (of_nat l) s = Inr (b1, s1)" "cache_ok c p s1" "view p s1 = v_read l b1 (view p s)"
    using bread_view[OF ok h l(1)] l(2) by (auto simp: acc_def)
  have "0 < v_refs (view p s1) d \<or> room 1 (view p s1)"
    using r(2) d(3) s1(3) room_read[of 1 "view p s" l b1] by (auto simp: v_read_def numeral_2_eq_2)
  then have "0 < v_refs (view p s1) d \<or> card {m. 0 < v_refs (view p s1) m} < NBUF" by (auto simp: room_def)
  moreover have "\<not> v_busy (view p s1) d" "v_refs (view p s1) d < 2 ^ 32 - 1"
    using d s1(3) by (simp_all add: v_read_def acc_def)
  ultimately obtain b2 s2 where "bread h c 1 (of_nat d) s1 = Inr (b2, s2)" "cache_ok c p s2" "view p s2 = v_read d b2 (view p s1)"
    using bread_view[OF s1(2) h d(1)] by blast
  then show ?thesis using s1 by simp
qed


text \<open>Copying the bytes of one block to another, as the log does both ways.\<close>

lemma copy_block:
  assumes s2: "cache_ok c p s2" "view p s2 = v_read d b2 (v_read l b1 v)" and h: "virtio_blk (hw_serve h)"
    and ld: "l \<noteq> d" "\<not> v_busy v l" "v_held v l = None" "\<not> v_busy v d" "v_held v d = None"
  shows "\<exists>s3. bwrite h c b1 (upd_data b1 (\<lambda>_. bdata (bufs s2 b2)) s2) = Inr s3 \<and> cache_ok c p s3
      \<and> view p s3 = v_sync l (v_data v d) (v_read d b2 (v_read l b1 v))"
    "\<exists>s3. bwrite h c b2 (upd_data b2 (\<lambda>_. bdata (bufs s2 b1)) s2) = Inr s3 \<and> cache_ok c p s3
      \<and> view p s3 = v_sync d (v_data v l) (v_read d b2 (v_read l b1 v))"
proof -
  have held: "v_held (view p s2) l = Some b1" "v_held (view p s2) d = Some b2" using s2(2) ld(1) by (simp_all add: v_read_def)
  have data: "bdata (bufs s2 b1) = v_data v l" "bdata (bufs s2 b2) = v_data v d"
    using v_heldD(4)[OF held(1)] v_heldD(4)[OF held(2)] s2(2) by (simp_all add: v_read_def)
  have go: "\<exists>s3. bwrite h c b (upd_data b (\<lambda>_. x) s2) = Inr s3 \<and> cache_ok c p s3 \<and> view p s3 = v_sync n x (view p s2)"
    if b: "v_held (view p s2) n = Some b" for b n x
  proof -
    note q = put_view[OF s2(1) b, of "\<lambda>_. x"]
    have "v_held (view p (upd_data b (\<lambda>_. x) s2)) n = Some b" using q(2) b by (simp add: v_put_def)
    from bwrite_view[OF q(1) h this] obtain s3 where
      "bwrite h c b (upd_data b (\<lambda>_. x) s2) = Inr s3" "cache_ok c p s3" "view p s3 = v_write n (view p (upd_data b (\<lambda>_. x) s2))" by blast
    then show ?thesis unfolding q(2) by (auto simp: v_write_def v_put_def v_sync_def)
  qed
  show "\<exists>s3. bwrite h c b1 (upd_data b1 (\<lambda>_. bdata (bufs s2 b2)) s2) = Inr s3 \<and> cache_ok c p s3
      \<and> view p s3 = v_sync l (v_data v d) (v_read d b2 (v_read l b1 v))"
    unfolding data using go[OF held(1)] unfolding s2(2) .
  show "\<exists>s3. bwrite h c b2 (upd_data b2 (\<lambda>_. bdata (bufs s2 b1)) s2) = Inr s3 \<and> cache_ok c p s3
      \<and> view p s3 = v_sync d (v_data v l) (v_read d b2 (v_read l b1 v))"
    unfolding data using go[OF held(2)] unfolding s2(2) .
qed

lemma release_two:
  assumes s: "cache_ok c p s" and held: "v_held (view p s) m = Some b" "v_held (view p s) n = Some b'" and mn: "m \<noteq> n"
    and cl: "2 \<le> v_refs (view p s) m \<or> v_data (view p s) m = v_disk (view p s) m"
      "2 \<le> v_refs (view p s) n \<or> v_data (view p s) n = v_disk (view p s) n"
  shows "\<exists>s1 s2. brelse c b s = Inr s1 \<and> brelse c b' s1 = Inr s2 \<and> cache_ok c p s2 \<and> view p s2 = v_release n (v_release m (view p s))"
proof -
  obtain s1 where s1: "brelse c b s = Inr s1" "cache_ok c p s1" "view p s1 = v_release m (view p s)"
    using brelse_view[OF s held(1) cl(1)] by blast
  have "v_held (view p s1) n = Some b'" "2 \<le> v_refs (view p s1) n \<or> v_data (view p s1) n = v_disk (view p s1) n"
    using held(2) cl(2) mn by (simp_all add: s1(3) v_release_def)
  from brelse_view[OF s1(2) this] show ?thesis using s1 by auto
qed

text \<open>The header in memory names the blocks \<open>bs\<close>; the log area begins at block \<open>st\<close>.\<close>

definition log_of :: "nat \<Rightarrow> nat list \<Rightarrow> log \<Rightarrow> bool" where
  "log_of st bs l = (lg_start l = int st \<and> lg_dev l = 1 \<and> lh_n (lg_lh l) = int (length bs)
     \<and> (\<forall>i<length bs. lh_block (lg_lh l) i = int (bs ! i)))"

definition log_area :: "nat \<Rightarrow> nat set" where
  "log_area st = {st..st + LOGBLOCKS}"

definition log_fits :: "nat \<Rightarrow> nat list \<Rightarrow> bool" where
  "log_fits st bs = (length bs \<le> LOGBLOCKS \<and> distinct bs \<and> (\<forall>m\<in>set bs. m < 2 ^ 31 \<and> m \<notin> log_area st) \<and> st + LOGBLOCKS < 2 ^ 31)"

lemma log_fitsD:
  assumes "log_fits st bs" "i < length bs"
  shows "st + i + 1 < 2 ^ 31" "bs ! i < 2 ^ 31" "st + i + 1 \<noteq> bs ! i" "bs ! i \<notin> log_area st" "st + i + 1 \<in> log_area st" "st \<noteq> bs ! i"
proof -
  have m: "bs ! i < 2 ^ 31" "bs ! i \<notin> log_area st" using assms nth_mem[of i bs] by (auto simp: log_fits_def)
  show "st + i + 1 < 2 ^ 31" using assms by (simp add: log_fits_def)
  show l: "st + i + 1 \<in> log_area st" using assms by (simp add: log_fits_def log_area_def)
  have "st \<in> log_area st" by (simp add: log_area_def)
  then show "bs ! i < 2 ^ 31" "bs ! i \<notin> log_area st" "st + i + 1 \<noteq> bs ! i" "st \<noteq> bs ! i" using m l by metis+
qed

lemma log_ofD:
  assumes "log_of st bs l"
  shows "of_int (lg_start l + int i + 1) = (of_nat (st + i + 1) :: uint32)" "of_int (lg_start l) = (of_nat st :: uint32)"
    "of_int (lg_dev l) = (1 :: uint32)" "i < length bs \<Longrightarrow> of_int (lh_block (lg_lh l) i) = (of_nat (bs ! i) :: uint32)"
    "nat (lh_n (lg_lh l)) = length bs"
  using assms by (simp_all add: log_of_def)

lemma write_one_view:
  assumes ok: "cache_ok c p s" and h: "virtio_blk (hw_serve h)" and l: "log_of st bs (klog s)" "log_fits st bs" "i < length bs"
    and a: "acc (view p s) (st + i + 1)" "acc (view p s) (bs ! i)" "0 < v_refs (view p s) (bs ! i)" "room 1 (view p s)"
  shows "\<exists>s'. write_one h c i s = Inr s' \<and> cache_ok c p s' \<and> klog s' = klog s
    \<and> view p s' = v_sync (st + i + 1) (v_data (view p s) (bs ! i)) (view p s)"
proof -
  let ?l = "st + i + 1" and ?d = "bs ! i" and ?v = "view p s"
  note f = log_fitsD[OF l(2,3)]
  obtain b1 s1 b2 s2 where r: "bread h c 1 (of_nat ?l) s = Inr (b1, s1)" "bread h c 1 (of_nat ?d) s1 = Inr (b2, s2)"
    "cache_ok c p s2" "view p s2 = v_read ?d b2 (v_read ?l b1 ?v)"
    using read_two[OF ok h f(1) a(1) f(2) a(2) f(3) a(4)] a(3) by blast
  have k: "klog s1 = klog s" "klog s2 = klog s" using bread_above[OF r(1)] bread_above[OF r(2)] klog_above by metis+
  have idle: "\<not> v_busy ?v ?l" "v_held ?v ?l = None" "\<not> v_busy ?v ?d" "v_held ?v ?d = None"
    using a view_idle by (auto simp: acc_def)
  obtain s3 where s3: "bwrite h c b1 (upd_data b1 (\<lambda>_. bdata (bufs s2 b2)) s2) = Inr s3" "cache_ok c p s3"
    "view p s3 = v_sync ?l (v_data ?v ?d) (v_read ?d b2 (v_read ?l b1 ?v))"
    using copy_block(1)[OF r(3,4) h f(3) idle] by blast
  have held: "v_held (view p s3) ?d = Some b2" "v_held (view p s3) ?l = Some b1" "?d \<noteq> ?l"
    "2 \<le> v_refs (view p s3) ?d \<or> v_data (view p s3) ?d = v_disk (view p s3) ?d"
    "2 \<le> v_refs (view p s3) ?l \<or> v_data (view p s3) ?l = v_disk (view p s3) ?l"
    using f(3) a(3) by (simp_all add: s3(3) v_sync_def v_read_def)
  obtain s4 s5 where s5: "brelse c b2 s3 = Inr s4" "brelse c b1 s4 = Inr s5" "cache_ok c p s5"
    "view p s5 = v_release ?l (v_release ?d (view p s3))"
    using release_two[OF s3(2) held] by blast
  have "view p s5 = v_sync ?l (v_data ?v ?d) ?v"
    unfolding s5(4) s3(3) using idle f(3)
    by (intro view.equality) (simp_all add: v_release_def v_sync_def v_read_def fun_eq_iff)
  moreover have e: "write_one h c i s = Inr s5"
    using r(1,2) s3(1) s5(1,2) unfolding write_one_def log_ofD[OF l(1)]
    by (simp add: log_ofD[OF l(1)] l(3) k del: of_nat_add of_nat_Suc)
  ultimately show ?thesis using write_one_effect[OF e] s5(3) by blast
qed


text \<open>Printing leaves the cache alone.\<close>

lemma view_cong:
  assumes "bufs s' = bufs s" "slocks s' = slocks s" "sectors s' = sectors s" "procs s' = procs s"
  shows "view p s' = view p s"
proof -
  have e: "dblock s' = dblock s" "slot s' = slot s" "sl_mine p l s' = sl_mine p l s" for l
    using assms by (simp_all add: dblock_def slot_def holds_def sl_mine_def fun_eq_iff)
  show ?thesis unfolding view_def e assms by (rule refl)
qed

lemma cache_ok_cong:
  assumes "bufs s' = bufs s" "slocks s' = slocks s" "sectors s' = sectors s" "vdisk s' = vdisk s"
    "cpus s' = cpus s" "locks s' = locks s" "calm s' = calm s"
  shows "cache_ok c p s' = cache_ok c p s"
proof -
  have "dblock s' = dblock s" "ready c p s' = ready c p s"
    using assms by (simp_all add: dblock_def ready_cong fun_eq_iff)
  then show ?thesis by (simp add: cache_ok_def tidy_def ring_def assms)
qed

lemma outputs_view: "cache_ok c p (outputs t s) = cache_ok c p s" "view p (outputs t s) = view p s"
  by (rule cache_ok_cong view_cong; simp add: outputs_def calm_def)+

lemma upd_lh_view [simp]: "cache_ok c p (upd_lh f s) = cache_ok c p s" "view p (upd_lh f s) = view p s"
  by (rule cache_ok_cong view_cong; simp add: upd_lh_def upd_log_def calm_def)+

lemma recovering_printf:
  assumes "cache_ok c p s"
  shows "\<exists>s'. printf c (''recovering tail %d dst %d'' @ [char_of (10::nat)]) [VaInt x, VaInt y] s = Inr s' \<and> cache_ok c p s' \<and> view p s' = view p s"
proof -
  note ok = cache_okD[OF assms]
  have "lock_free PrLock s" "can_print c s" "settle c s = s"
    using ok(1,5) by (simp_all add: ready_def can_print_def calm_def settle_settled)
  moreover have "fmt_ok (''recovering tail %d dst %d'' @ [char_of (10::nat)]) (map kind_of [VaInt x, VaInt y])"
    by (simp add: fmt_ok.simps conversion_def)
  ultimately show ?thesis using printf_text outputs_view assms by metis
qed

lemma install_one_view:
  assumes ok: "cache_ok c p s" and h: "virtio_blk (hw_serve h)" and l: "log_of st bs (klog s)" "log_fits st bs" "i < length bs"
    and a: "acc (view p s) (st + i + 1)" "acc (view p s) (bs ! i)" "v_data (view p s) (st + i + 1) = v_disk (view p s) (st + i + 1)"
      "room 1 (view p s)" "if rec then room 2 (view p s) else 0 < v_refs (view p s) (bs ! i)"
  shows "\<exists>s'. install_one h c rec i s = Inr s' \<and> cache_ok c p s' \<and> klog s' = klog s
    \<and> view p s' = (if rec then id else v_unpin (bs ! i)) (v_sync (bs ! i) (v_data (view p s) (st + i + 1)) (view p s))"
proof -
  let ?l = "st + i + 1" and ?d = "bs ! i" and ?v = "view p s"
  note f = log_fitsD[OF l(2,3)]
  let ?pr = "if rec then printf c (''recovering tail %d dst %d'' @ [char_of (10::nat)]) [VaInt (int i), VaInt (lh_block (lg_lh (klog s)) i)] s else Inr s"
  obtain s0 where s0: "?pr = Inr s0" "cache_ok c p s0" "view p s0 = ?v"
    using recovering_printf[OF ok] ok by (cases rec) auto
  have k0: "klog s0 = klog s" using s0(1) klog_above[OF printf_above] by (auto split: if_splits)
  obtain b1 s1 b2 s2 where r: "bread h c 1 (of_nat ?l) s0 = Inr (b1, s1)" "bread h c 1 (of_nat ?d) s1 = Inr (b2, s2)"
    "cache_ok c p s2" "view p s2 = v_read ?d b2 (v_read ?l b1 ?v)"
    using read_two[OF s0(2) h f(1) _ f(2) _ f(3)] a by (auto simp: s0(3) split: if_splits)
  have k: "klog s1 = klog s" "klog s2 = klog s" using bread_above[OF r(1)] bread_above[OF r(2)] klog_above k0 by metis+
  have idle: "\<not> v_busy ?v ?l" "v_held ?v ?l = None" "\<not> v_busy ?v ?d" "v_held ?v ?d = None"
    using a view_idle by (auto simp: acc_def)
  obtain s3 where s3: "bwrite h c b2 (upd_data b2 (\<lambda>_. bdata (bufs s2 b1)) s2) = Inr s3" "cache_ok c p s3"
    "view p s3 = v_sync ?d (v_data ?v ?l) (v_read ?d b2 (v_read ?l b1 ?v))"
    using copy_block(2)[OF r(3,4) h f(3) idle] by blast
  have h3: "v_held (view p s3) ?d = Some b2" using f(3) by (simp add: s3(3) v_sync_def v_read_def)
  obtain s4 where s4: "(if \<not> rec then bunpin c b2 s3 else Inr s3) = Inr s4" "cache_ok c p s4"
    "view p s4 = (if rec then id else v_unpin ?d) (view p s3)"
  proof (cases rec)
    case True
    then show ?thesis using that s3 by simp
  next
    case False
    then have "2 \<le> v_refs (view p s3) ?d" using a(5) f(3) by (simp add: s3(3) v_sync_def v_read_def)
    from unpin_view[OF s3(2) h3 this] show ?thesis using that False by auto
  qed
  have held: "v_held (view p s4) ?l = Some b1" "v_held (view p s4) ?d = Some b2" "?l \<noteq> ?d"
    "2 \<le> v_refs (view p s4) ?l \<or> v_data (view p s4) ?l = v_disk (view p s4) ?l"
    "2 \<le> v_refs (view p s4) ?d \<or> v_data (view p s4) ?d = v_disk (view p s4) ?d"
    using f(3) a(3) by (simp_all add: s4(3) s3(3) v_sync_def v_read_def v_unpin_def)
  obtain s5 s6 where s6: "brelse c b1 s4 = Inr s5" "brelse c b2 s5 = Inr s6" "cache_ok c p s6"
    "view p s6 = v_release ?d (v_release ?l (view p s4))"
    using release_two[OF s4(2) held] by blast
  have "view p s6 = (if rec then id else v_unpin ?d) (v_sync ?d (v_data ?v ?l) ?v)"
    unfolding s6(4) s4(3) s3(3) using idle f(3)
    by (intro view.equality) (simp_all add: v_release_def v_sync_def v_read_def v_unpin_def fun_eq_iff)
  moreover have e: "install_one h c rec i s = Inr s6"
    using s0(1) r(1,2) s3(1) s4(1) s6(1,2) unfolding install_one_def
    by (simp add: log_ofD[OF l(1)] l(3) k k0 del: of_nat_add of_nat_Suc of_int_add)
  ultimately show ?thesis using install_one_effect[OF e] s6(3) by blast
qed

lemma write_head_view:
  assumes ok: "cache_ok c p s" and h: "virtio_blk (hw_serve h)" and l: "lg_start (klog s) = int st" "lg_dev (klog s) = 1" "st < 2 ^ 31"
    and a: "acc (view p s) st" "room 1 (view p s)"
  shows "\<exists>s'. write_head h c s = Inr s' \<and> cache_ok c p s' \<and> klog s' = klog s
    \<and> view p s' = v_sync st (put_header (lg_lh (klog s)) (v_data (view p s) st)) (view p s)"
proof -
  have pre: "\<not> v_busy (view p s) st" "v_refs (view p s) st < 2 ^ 32 - 1" "0 < v_refs (view p s) st \<or> card {m. 0 < v_refs (view p s) m} < NBUF"
    using a by (auto simp: acc_def room_def)
  obtain s' where s': "rewrite_block h c st (put_header (lg_lh (klog s))) s = Inr s'" "cache_ok c p s'"
    "view p s' = v_sync st (put_header (lg_lh (klog s)) (v_data (view p s) st)) (view p s)"
    using rewrite_view[OF ok h l(3) pre, of "put_header (lg_lh (klog s))"] by (auto simp: v_sync_def)
  have "write_head h c s = rewrite_block h c st (put_header (lg_lh (klog s))) s"
  proof (cases "bread h c 1 (of_nat st) s")
    case (Inr x)
    obtain b t where x: "x = (b, t)" by (cases x)
    have "klog t = klog s" using klog_above[OF bread_above[OF Inr[unfolded x]]] .
    then show ?thesis using l Inr x by (simp add: write_head_def rewrite_block_def)
  qed (use l in \<open>simp add: write_head_def rewrite_block_def\<close>)
  then show ?thesis using s' write_head_effect by metis
qed


subsection \<open>The header block\<close>

lemma sint_small: "0 \<le> x \<Longrightarrow> x < 2 ^ 31 \<Longrightarrow> sint (of_int x :: uint32) = x"
  by (simp add: int_word_sint)

lemma put_header_count:
  assumes "0 \<le> lh_n lh" "lh_n lh \<le> int LOGBLOCKS" "length d = BSIZE"
  shows "get32 (put_header lh d) 0 = of_int (lh_n lh)" "length (put_header lh d) = BSIZE"
proof -
  let ?d = "put32 0 (of_int (lh_n lh)) d" and ?n = "nat (lh_n lh)"
  have n: "4 + 4 * ?n \<le> length ?d" using assms by (simp add: LOGBLOCKS_def MAXOPBLOCKS_def BSIZE_def)
  show "get32 (put_header lh d) 0 = of_int (lh_n lh)"
    using put_row_window[OF n, of 0 4 "\<lambda>i. of_int (lh_block lh i)"] assms(3) get32_put32[of 0 d "of_int (lh_n lh)"]
    unfolding put_header_def get32_def by (simp add: BSIZE_def)
  show "length (put_header lh d) = BSIZE"
    using put_row_length[OF n] assms(3) by (simp add: put_header_def BSIZE_def)
qed

lemma get_put_header:
  assumes "log_of st bs l" "log_fits st bs" "length d = BSIZE"
  shows "lh_n (get_header (put_header (lg_lh l) d) lh) = int (length bs)"
    "i < length bs \<Longrightarrow> lh_block (get_header (put_header (lg_lh l) d) lh) i = int (bs ! i)"
    "sint (get32 (put_header (lg_lh l) d) 0) = int (length bs)"
proof -
  let ?h = "put_header (lg_lh l) d"
  have n: "lh_n (lg_lh l) = int (length bs)" "length bs \<le> LOGBLOCKS" using assms(1,2) by (simp_all add: log_of_def log_fits_def)
  have c: "get32 ?h 0 = of_int (int (length bs))"
    using put_header_count(1)[OF _ _ assms(3), of "lg_lh l"] n by simp
  show s: "sint (get32 ?h 0) = int (length bs)"
    unfolding c using n(2) by (intro sint_small) (simp_all add: LOGBLOCKS_def MAXOPBLOCKS_def)
  then show "lh_n (get_header ?h lh) = int (length bs)" by (simp add: get_header_def Let_def)
  assume i: "i < length bs"
  have "4 + 4 * length bs \<le> length (put32 0 (of_int (lh_n (lg_lh l))) d)"
    using n assms(3) by (simp add: LOGBLOCKS_def MAXOPBLOCKS_def BSIZE_def)
  from put_row_get[OF this i] have "get32 ?h (4 + 4 * i) = of_int (int (bs ! i))"
    using assms(1) i n(1) by (simp add: put_header_def log_of_def)
  then have "sint (get32 ?h (4 + 4 * i)) = int (bs ! i)"
    using log_fitsD(2)[OF assms(2) i] sint_small[of "int (bs ! i)"] by simp
  then show "lh_block (get_header ?h lh) i = int (bs ! i)" using s i by (simp add: get_header_def Let_def)
qed

subsection \<open>The loops of a commit\<close>

lemma for_each_upt:
  assumes "\<And>i s. i < n \<Longrightarrow> P i s \<Longrightarrow> \<exists>s'. f i s = Inr s' \<and> P (Suc i) s'" "P 0 s" "k \<le> n"
  shows "\<exists>s'. for_each f [0..<k] s = Inr s' \<and> P k s'"
  using assms(3)
proof (induction k)
  case 0
  then show ?case using assms(2) by simp
next
  case (Suc k)
  then obtain t where "for_each f [0..<k] s = Inr t" "P k t" by auto
  moreover from assms(1)[OF _ this(2)] Suc.prems obtain s' where "f k t = Inr s'" "P (Suc k) s'" by auto
  ultimately show ?case by auto
qed

text \<open>After \<open>k\<close> blocks have been copied to the log.\<close>

definition v_logged :: "nat \<Rightarrow> nat list \<Rightarrow> nat \<Rightarrow> view \<Rightarrow> view" where
  "v_logged st bs k v = (let f = (\<lambda>g m. if st < m \<and> m \<le> st + k then v_data v (bs ! (m - st - 1)) else g m)
     in v\<lparr>v_data := f (v_data v), v_disk := f (v_disk v)\<rparr>)"

lemma write_log_view:
  assumes ok: "cache_ok c p s" and h: "virtio_blk (hw_serve h)" and l: "log_of st bs (klog s)" "log_fits st bs" "k \<le> length bs"
    and a: "\<And>m. m \<in> log_area st \<union> set bs \<Longrightarrow> acc (view p s) m" "\<And>m. m \<in> set bs \<Longrightarrow> 0 < v_refs (view p s) m" "room 1 (view p s)"
  shows "\<exists>s'. for_each (write_one h c) [0..<k] s = Inr s' \<and> cache_ok c p s' \<and> klog s' = klog s \<and> view p s' = v_logged st bs k (view p s)"
proof (rule for_each_upt[OF _ _ l(3)])
  show "cache_ok c p s \<and> klog s = klog s \<and> view p s = v_logged st bs 0 (view p s)"
    using ok by (auto simp: v_logged_def Let_def fun_eq_iff intro!: view.equality)
next
  fix i t assume i: "i < length bs" and t: "cache_ok c p t \<and> klog t = klog s \<and> view p t = v_logged st bs i (view p s)"
  note f = log_fitsD[OF l(2) i]
  have "i \<le> LOGBLOCKS" using i l(2) by (simp add: log_fits_def)
  then have out: "\<not> (st < bs ! i \<and> bs ! i \<le> st + i)" using f(4) by (auto simp: log_area_def)
  have v: "acc (view p t) m = acc (view p s) m" "v_refs (view p t) = v_refs (view p s)" "room 1 (view p t) = room 1 (view p s)"
    "v_data (view p t) (bs ! i) = v_data (view p s) (bs ! i)" for m
    using t out by (auto simp: v_logged_def Let_def acc_def room_def)
  have "\<exists>s'. write_one h c i t = Inr s' \<and> cache_ok c p s' \<and> klog s' = klog t
    \<and> view p s' = v_sync (st + i + 1) (v_data (view p t) (bs ! i)) (view p t)"
    using t[THEN conjunct1] t[THEN conjunct2, THEN conjunct1] l(1) a i f(5)
    by (intro write_one_view[OF _ h _ l(2) i]) (auto simp: v v[simplified])
  moreover have "v_sync (st + i + 1) (v_data (view p t) (bs ! i)) (view p t) = v_logged st bs (Suc i) (view p s)"
    unfolding v(4) using t by (intro view.equality) (auto simp: v_sync_def v_logged_def Let_def fun_eq_iff)
  ultimately show "\<exists>s'. write_one h c i t = Inr s' \<and> cache_ok c p s' \<and> klog s' = klog s \<and> view p s' = v_logged st bs (Suc i) (view p s)"
    using t by auto
qed


text \<open>After \<open>k\<close> blocks have been copied from the log to their places; \<open>g\<close> is what the log has for each.\<close>

definition v_replayed :: "(nat \<Rightarrow> uint8 list) \<Rightarrow> nat list \<Rightarrow> nat \<Rightarrow> bool \<Rightarrow> view \<Rightarrow> view" where
  "v_replayed g bs k unpin v = v\<lparr>v_data := (\<lambda>m. if m \<in> set (take k bs) then g m else v_data v m),
     v_disk := (\<lambda>m. if m \<in> set (take k bs) then g m else v_disk v m),
     v_refs := (\<lambda>m. if unpin \<and> m \<in> set (take k bs) then v_refs v m - 1 else v_refs v m)\<rparr>"

lemma take_fresh:
  assumes "distinct bs" "i < length bs"
  shows "set (take (Suc i) bs) = insert (bs ! i) (set (take i bs))" "bs ! i \<notin> set (take i bs)"
proof -
  have e: "take (Suc i) bs = take i bs @ [bs ! i]" using assms(2) by (rule take_Suc_conv_app_nth)
  then show "set (take (Suc i) bs) = insert (bs ! i) (set (take i bs))" by simp
  have "distinct (take (Suc i) bs)" using assms(1) by simp
  then show "bs ! i \<notin> set (take i bs)" unfolding e by simp
qed

lemma install_view:
  assumes ok: "cache_ok c p s" and h: "virtio_blk (hw_serve h)" and l: "log_of st bs (klog s)" "log_fits st bs" "k \<le> length bs"
    and a: "\<And>m. m \<in> log_area st \<union> set bs \<Longrightarrow> acc (view p s) m" "room 1 (view p s)"
      "\<And>m. m \<in> set bs \<Longrightarrow> if rec then room 2 (view p s) else 0 < v_refs (view p s) m"
    and g: "\<And>i. i < length bs \<Longrightarrow> v_data (view p s) (st + i + 1) = g (bs ! i)"
      "\<And>i. i < length bs \<Longrightarrow> v_disk (view p s) (st + i + 1) = g (bs ! i)"
  shows "\<exists>s'. for_each (install_one h c rec) [0..<k] s = Inr s' \<and> cache_ok c p s' \<and> klog s' = klog s
    \<and> view p s' = v_replayed g bs k (\<not> rec) (view p s)"
proof (rule for_each_upt[OF _ _ l(3)])
  show "cache_ok c p s \<and> klog s = klog s \<and> view p s = v_replayed g bs 0 (\<not> rec) (view p s)"
    using ok by (simp add: v_replayed_def)
next
  fix i t assume i: "i < length bs" and t: "cache_ok c p t \<and> klog t = klog s \<and> view p t = v_replayed g bs i (\<not> rec) (view p s)"
  note f = log_fitsD[OF l(2) i]
  have d: "distinct bs" using l(2) by (simp add: log_fits_def)
  note fresh = take_fresh[OF d i]
  have nl: "st + i + 1 \<notin> set (take i bs)" using f(5) l(2) by (auto simp: log_fits_def dest: in_set_takeD)
  have le: "v_refs (view p t) m \<le> v_refs (view p s) m" for m using t by (simp add: v_replayed_def)
  have ac: "acc (view p t) m" if "m \<in> log_area st \<union> set bs" for m
    using a(1)[OF that] le[of m] t by (auto simp: acc_def v_replayed_def)
  have rm: "room k (view p s) \<Longrightarrow> room k (view p t)" for k using room_less le by blast
  have v: "v_data (view p t) (st + i + 1) = g (bs ! i)" "v_disk (view p t) (st + i + 1) = g (bs ! i)"
    "v_refs (view p t) (bs ! i) = v_refs (view p s) (bs ! i)"
    using t nl fresh(2) g[OF i] by (simp_all add: v_replayed_def)
  have "\<exists>s'. install_one h c rec i t = Inr s' \<and> cache_ok c p s' \<and> klog s' = klog t
    \<and> view p s' = (if rec then id else v_unpin (bs ! i)) (v_sync (bs ! i) (v_data (view p t) (st + i + 1)) (view p t))"
    using t[THEN conjunct1] t[THEN conjunct2, THEN conjunct1] l(1) i f(5) ac rm a(2) a(3)[of "bs ! i"]
    by (intro install_one_view[OF _ h _ l(2) i]) (auto simp: v v[simplified])
  moreover have "(if rec then id else v_unpin (bs ! i)) (v_sync (bs ! i) (v_data (view p t) (st + i + 1)) (view p t))
      = v_replayed g bs (Suc i) (\<not> rec) (view p s)"
    unfolding v(1) using t fresh
    by (intro view.equality) (auto simp: v_sync_def v_unpin_def v_replayed_def fun_eq_iff)
  ultimately show "\<exists>s'. install_one h c rec i t = Inr s' \<and> cache_ok c p s' \<and> klog s' = klog s
    \<and> view p s' = v_replayed g bs (Suc i) (\<not> rec) (view p s)"
    using t by auto
qed

subsection \<open>Recovery\<close>

lemma read_head_view:
  assumes ok: "cache_ok c p s" and h: "virtio_blk (hw_serve h)" and l: "lg_start (klog s) = int st" "lg_dev (klog s) = 1" "st < 2 ^ 31"
    and a: "acc (view p s) st" "room 1 (view p s)" "v_data (view p s) st = v_disk (view p s) st"
    and n: "sint (get32 (v_data (view p s) st) 0) \<le> int LOGBLOCKS"
  shows "\<exists>s'. read_head h c s = Inr s' \<and> cache_ok c p s' \<and> klog s' = lg_lh_update (get_header (v_data (view p s) st)) (klog s)
    \<and> view p s' = view p s"
proof -
  let ?v = "view p s"
  have pre: "\<not> v_busy ?v st" "v_refs ?v st < 2 ^ 32 - 1" "0 < v_refs ?v st \<or> card {m. 0 < v_refs ?v m} < NBUF"
    using a by (auto simp: acc_def room_def)
  obtain b s1 where s1: "bread h c 1 (of_nat st) s = Inr (b, s1)" "cache_ok c p s1" "view p s1 = v_read st b ?v"
    using bread_view[OF ok h l(3) pre] by blast
  have held: "v_held (view p s1) st = Some b" by (simp add: s1(3) v_read_def)
  have d: "bdata (bufs s1 b) = v_data ?v st" using v_heldD(4)[OF held] by (simp add: s1(3) v_read_def)
  have k: "klog s1 = klog s" using klog_above[OF bread_above[OF s1(1)]] .
  let ?s2 = "upd_lh (get_header (v_data ?v st)) s1"
  have "cache_ok c p ?s2" "v_held (view p ?s2) st = Some b" "2 \<le> v_refs (view p ?s2) st \<or> v_data (view p ?s2) st = v_disk (view p ?s2) st"
    using s1(2) held a(3) by (simp_all add: s1(3) v_read_def)
  from brelse_view[OF this] obtain s3 where s3: "brelse c b ?s2 = Inr s3" "cache_ok c p s3" "view p s3 = v_release st (view p ?s2)" by blast
  have "view p s3 = ?v" unfolding s3(3) upd_lh_view(2) s1(3) using pre(1) view_idle[OF pre(1)]
    by (intro view.equality) (simp_all add: v_release_def v_read_def fun_eq_iff)
  moreover have "read_head h c s = Inr s3" using s1(1) s3(1) l n by (simp add: read_head_def d)
  moreover have "klog s3 = lg_lh_update (get_header (v_data ?v st)) (klog s)" using klog_above[OF brelse_above[OF s3(1)]] k by simp
  ultimately show ?thesis using s3(2) by blast
qed

lemma room_boot: "k \<le> NBUF \<Longrightarrow> room k (v_boot d)"
  by (simp add: room_def v_boot_def)

lemma recover_view:
  assumes ok: "cache_ok c p s" and h: "virtio_blk (hw_serve h)" and l: "lg_start (klog s) = int st" "lg_dev (klog s) = 1"
    and v: "view p s = v_boot dd" and bs: "log_fits st bs"
    and hd: "sint (get32 (dd st) 0) = int (length bs)"
      "\<And>i. i < length bs \<Longrightarrow> sint (get32 (dd st) (4 + 4 * i)) = int (bs ! i)"
    and g: "\<And>i. i < length bs \<Longrightarrow> dd (st + i + 1) = g (bs ! i)"
  shows "\<exists>s'. recover_from_log h c s = Inr s' \<and> cache_ok c p s' \<and> (\<forall>m. m \<noteq> st \<longrightarrow> dblock s' m = (if m \<in> set bs then g m else dd m))"
proof -
  have st: "st < 2 ^ 31" "length bs \<le> LOGBLOCKS" using bs by (simp_all add: log_fits_def)
  have bt: "acc (v_boot dd) m" "v_data (v_boot dd) = dd" "v_disk (v_boot dd) = dd" for m by (simp_all add: acc_def v_boot_def)
  obtain s1 where s1: "read_head h c s = Inr s1" "cache_ok c p s1" "klog s1 = lg_lh_update (get_header (dd st)) (klog s)" "view p s1 = v_boot dd"
    using read_head_view[OF ok h l st(1)] st(2) hd(1) by (auto simp: v bt room_boot NBUF_def)
  have lo: "log_of st bs (klog s1)"
    using l hd by (simp add: s1(3) log_of_def get_header_def Let_def)
  obtain s2 where s2: "install_trans h c True s1 = Inr s2" "cache_ok c p s2" "klog s2 = klog s1"
    "view p s2 = v_replayed g bs (length bs) False (v_boot dd)"
    using install_view[OF s1(2) h lo bs order.refl, of True g] g log_ofD(5)[OF lo]
    by (auto simp: s1(4) bt room_boot NBUF_def install_trans_def)
  let ?s3 = "upd_lh (lh_n_update (\<lambda>_. 0)) s2"
  have "room 1 (view p ?s3)" using room_less[OF room_boot, of 1 "view p ?s3" dd] by (simp add: s2(4) v_replayed_def NBUF_def)
  moreover have "acc (view p ?s3) st" using bt(1)[of st] by (simp add: s2(4) v_replayed_def acc_def)
  ultimately obtain s4 where s4: "write_head h c ?s3 = Inr s4" "cache_ok c p s4"
    "view p s4 = v_sync st (put_header (lg_lh (klog ?s3)) (v_data (view p ?s3) st)) (view p ?s3)"
    using write_head_view[of c p ?s3 h st] s2 h l st(1) s1(3) by auto
  have "dblock s4 m = v_disk (view p s4) m" for m by (simp add: view_def)
  then have "m \<noteq> st \<Longrightarrow> dblock s4 m = (if m \<in> set bs then g m else dd m)" for m
    by (simp add: s4(3) s2(4) v_sync_def v_replayed_def bt)
  moreover have "recover_from_log h c s = Inr s4" using s1(1) s2(1) s4(1) by (simp add: recover_from_log_def)
  ultimately show ?thesis using s4(2) by blast
qed


subsection \<open>Commit, step by step\<close>

text \<open>The steps of \<open>commit\<close>; each contains one disk write.\<close>

definition commit_steps :: "hardware \<Rightarrow> nat \<Rightarrow> 'a klog_scheme \<Rightarrow> ('a klog_scheme \<Rightarrow> 'a klog_scheme res) list" where
  "commit_steps h c s = (let n = nat (lh_n (lg_lh (klog s))) in
     map (write_one h c) [0..<n] @ [write_head h c] @ map (install_one h c False) [0..<n]
       @ [\<lambda>s. write_head h c (upd_lh (lh_n_update (\<lambda>_. 0)) s)])"

abbreviation run :: "('s \<Rightarrow> 's res) list \<Rightarrow> 's \<Rightarrow> 's res" where
  "run \<equiv> for_each (\<lambda>f. f)"

lemma run_map: "run (map f xs) = for_each f xs"
proof
  show "run (map f xs) s = for_each f xs s" for s by (induction xs arbitrary: s) (auto intro: arg_cong2[where f = bindE])
qed

lemma bindE_Inr_right [simp]: "bindE m Inr = m"
  by (cases m) simp_all

lemma run_simps: "run (f # fs) = (\<lambda>s. bindE (f s) (run fs))" "run (fs @ gs) = (\<lambda>s. bindE (run fs s) (run gs))" "run [] = Inr"
  by (simp_all add: fun_eq_iff)

lemma commit_is_steps:
  assumes "0 < lh_n (lg_lh (klog s))"
  shows "commit h c s = run (commit_steps h c s) s"
proof -
  let ?n = "nat (lh_n (lg_lh (klog s)))" and ?last = "\<lambda>s. write_head h c (upd_lh (lh_n_update (\<lambda>_. 0)) s)"
  have cong: "bindE m f = bindE m g" if "\<And>t. m = Inr t \<Longrightarrow> f t = g t" for m and f g :: "'a klog_scheme \<Rightarrow> 'a klog_scheme res"
    using that by (cases m) auto
  have "commit h c s = bindE (for_each (write_one h c) [0..<?n] s) (\<lambda>s. bindE (write_head h c s) (\<lambda>s. bindE (install_trans h c False s) ?last))"
    using assms by (simp add: commit_def write_log_def)
  also have "\<dots> = bindE (for_each (write_one h c) [0..<?n] s) (\<lambda>s. bindE (write_head h c s) (\<lambda>s. bindE (for_each (install_one h c False) [0..<?n] s) ?last))"
  proof (intro cong)
    fix t u assume "for_each (write_one h c) [0..<?n] s = Inr t" "write_head h c t = Inr u"
    then have "klog t = klog s" "klog u = klog t" by (auto intro: for_each_klog write_one_effect dest: write_head_effect)
    then show "bindE (install_trans h c False u) ?last = bindE (for_each (install_one h c False) [0..<?n] u) ?last"
      by (simp add: install_trans_def)
  qed
  also have "\<dots> = run (commit_steps h c s) s"
    by (simp add: commit_steps_def Let_def run_map run_simps bindE_Inr_right)
  finally show ?thesis .
qed

definition committable :: "nat \<Rightarrow> nat \<Rightarrow> nat \<Rightarrow> nat list \<Rightarrow> 'a klog_scheme \<Rightarrow> bool" where
  "committable c p st bs s = (cache_ok c p s \<and> log_of st bs (klog s) \<and> log_fits st bs \<and> bs \<noteq> []
     \<and> (\<forall>m\<in>log_area st \<union> set bs. acc (view p s) m) \<and> (\<forall>m\<in>set bs. 0 < v_refs (view p s) m) \<and> room 1 (view p s)
     \<and> get32 (dblock s st) 0 = 0 \<and> length (v_data (view p s) st) = BSIZE)"

lemma commit_prefix:
  assumes "committable c p st bs s" and h: "virtio_blk (hw_serve h)"
  defines "n \<equiv> length bs" and "v \<equiv> view p s" and "hb \<equiv> put_header (lg_lh (klog s)) (v_data (view p s) st)"
  shows "k \<le> n \<Longrightarrow> \<exists>s'. run (take k (commit_steps h c s)) s = Inr s' \<and> view p s' = v_logged st bs k v"
    "j \<le> n \<Longrightarrow> \<exists>s'. run (take (n + 1 + j) (commit_steps h c s)) s = Inr s' \<and> cache_ok c p s' \<and> klog s' = klog s
       \<and> view p s' = v_replayed (v_data v) bs j True (v_sync st hb (v_logged st bs n v))"
    "\<exists>s'. run (commit_steps h c s) s = Inr s' \<and> cache_ok c p s'
       \<and> view p s' = v_sync st (put_header (lh_n_update (\<lambda>_. 0) (lg_lh (klog s))) hb) (v_replayed (v_data v) bs n True (v_sync st hb (v_logged st bs n v)))"
proof -
  have ok: "cache_ok c p s" and l: "log_of st bs (klog s)" "log_fits st bs" and ne: "bs \<noteq> []"
    and a: "\<And>m. m \<in> log_area st \<union> set bs \<Longrightarrow> acc v m" "\<And>m. m \<in> set bs \<Longrightarrow> 0 < v_refs v m" "room 1 v"
    using assms(1) unfolding committable_def v_def by auto
  have st: "st < 2 ^ 31" "st \<in> log_area st" using l(2) by (simp_all add: log_fits_def log_area_def)
  have steps: "commit_steps h c s = map (write_one h c) [0..<n] @ write_head h c # map (install_one h c False) [0..<n]
       @ [\<lambda>s. write_head h c (upd_lh (lh_n_update (\<lambda>_. 0)) s)]"
    by (simp add: commit_steps_def log_ofD(5)[OF l(1)] n_def Let_def)
  have w: "\<exists>s'. for_each (write_one h c) [0..<k] s = Inr s' \<and> cache_ok c p s' \<and> klog s' = klog s \<and> view p s' = v_logged st bs k v" if "k \<le> n" for k
    using write_log_view[OF ok h l, of k] that a unfolding v_def n_def by blast
  show "\<exists>s'. run (take k (commit_steps h c s)) s = Inr s' \<and> view p s' = v_logged st bs k v" if "k \<le> n"
    using w[OF that] that by (auto simp: steps take_map run_map)
  obtain s1 where s1: "for_each (write_one h c) [0..<n] s = Inr s1" "cache_ok c p s1" "klog s1 = klog s" "view p s1 = v_logged st bs n v"
    using w[of n] by auto
  have v1: "acc (view p s1) m = acc v m" "room i (view p s1) = room i v" "v_data (view p s1) st = v_data v st" for m i
    by (simp_all add: s1(4) v_logged_def Let_def acc_def room_def)
  obtain s2 where s2: "write_head h c s1 = Inr s2" "cache_ok c p s2" "klog s2 = klog s" "view p s2 = v_sync st hb (v_logged st bs n v)"
  proof -
    have e: "put_header (lg_lh (klog s1)) (v_data (view p s1) st) = hb" by (simp add: s1(3) v1(3) hb_def v_def)
    have "lg_start (klog s1) = int st" "lg_dev (klog s1) = 1" "acc (view p s1) st" "room 1 (view p s1)"
      using l(1) st(2) a(1,3) by (simp_all add: s1(3) log_of_def v1)
    from write_head_view[OF s1(2) h this(1,2) st(1) this(3,4)] show ?thesis using that unfolding e unfolding s1(3,4) by blast
  qed
  have v2: "acc (view p s2) m = acc v m" "room i (view p s2) = room i v" "v_refs (view p s2) = v_refs v"
    "i' < n \<Longrightarrow> v_data (view p s2) (st + i' + 1) = v_data v (bs ! i')" "i' < n \<Longrightarrow> v_disk (view p s2) (st + i' + 1) = v_data v (bs ! i')" for m i i'
    by (simp_all add: s2(4) v_sync_def v_logged_def Let_def acc_def room_def)
  have inst: "\<exists>s'. for_each (install_one h c False) [0..<j] s2 = Inr s' \<and> cache_ok c p s' \<and> klog s' = klog s
      \<and> view p s' = v_replayed (v_data v) bs j True (v_sync st hb (v_logged st bs n v))" if "j \<le> n" for j
    using install_view[OF s2(2) h _ l(2), of j False "v_data v"] that a l(1) v2(4,5) unfolding s2(4)[symmetric] unfolding s2(3) v2(1-3) n_def by auto
  have pre: "run (take (n + 1 + j) (commit_steps h c s)) s = for_each (install_one h c False) [0..<j] s2" if "j \<le> n" for j
    using s1(1) s2(1) that by (simp add: steps run_map take_map)
  show "\<exists>s'. run (take (n + 1 + j) (commit_steps h c s)) s = Inr s' \<and> cache_ok c p s' \<and> klog s' = klog s
       \<and> view p s' = v_replayed (v_data v) bs j True (v_sync st hb (v_logged st bs n v))" if "j \<le> n"
    unfolding pre[OF that] by (rule inst[OF that])
  obtain s3 where s3: "for_each (install_one h c False) [0..<n] s2 = Inr s3" "cache_ok c p s3" "klog s3 = klog s"
      "view p s3 = v_replayed (v_data v) bs n True (v_sync st hb (v_logged st bs n v))" using inst[of n] by auto
  let ?s3 = "upd_lh (lh_n_update (\<lambda>_. 0)) s3"
  have "st \<notin> set bs" using l(2) st(2) by (auto simp: log_fits_def)
  then have v3: "acc (view p ?s3) st = acc v st" "v_data (view p ?s3) st = hb"
    by (auto simp: s3(4) v_replayed_def v_sync_def v_logged_def Let_def acc_def dest: in_set_takeD)
  have r3: "room 1 (view p ?s3)" using room_less[OF a(3), of "view p ?s3"] by (simp add: s3(4) v_replayed_def v_sync_def v_logged_def Let_def)
  obtain s4 where s4: "write_head h c ?s3 = Inr s4" "cache_ok c p s4"
    "view p s4 = v_sync st (put_header (lg_lh (klog ?s3)) (v_data (view p ?s3) st)) (view p ?s3)"
    using write_head_view[of c p ?s3 h st] s3(2,3) h l(1) st a v3 r3 by (auto simp: log_of_def)
  then have "run (commit_steps h c s) s = Inr s4" using s1(1) s2(1) s3(1) by (simp add: steps run_map)
  then show "\<exists>s'. run (commit_steps h c s) s = Inr s' \<and> cache_ok c p s'
       \<and> view p s' = v_sync st (put_header (lh_n_update (\<lambda>_. 0) (lg_lh (klog s))) hb) (v_replayed (v_data v) bs n True (v_sync st hb (v_logged st bs n v)))"
    using s4(2,3) unfolding v3(2) by (simp add: s3(3,4))
qed


text \<open>A machine that starts again with the disk of \<open>s\<close> and an empty cache, and has read the super block.\<close>

definition restarted :: "nat \<Rightarrow> nat \<Rightarrow> nat \<Rightarrow> 'a klog_scheme \<Rightarrow> 'a klog_scheme \<Rightarrow> bool" where
  "restarted c p st s t = (cache_ok c p t \<and> view p t = v_boot (dblock s) \<and> lg_start (klog t) = int st \<and> lg_dev (klog t) = 1)"

lemma recover_nothing:
  assumes "restarted c p st s t" and h: "virtio_blk (hw_serve h)" and st: "st + LOGBLOCKS < 2 ^ 31" and z: "get32 (dblock s st) 0 = 0"
  shows "\<exists>t'. recover_from_log h c t = Inr t' \<and> (\<forall>m. m \<noteq> st \<longrightarrow> dblock t' m = dblock s m)"
proof -
  have t: "cache_ok c p t" "view p t = v_boot (dblock s)" "lg_start (klog t) = int st" "lg_dev (klog t) = 1"
    using assms(1) by (simp_all add: restarted_def)
  have "log_fits st []" using st by (simp add: log_fits_def)
  from recover_view[OF t(1) h t(3,4,2) this, of "dblock s"] show ?thesis using z by auto
qed

lemma recover_logged:
  assumes "restarted c p st s t" and h: "virtio_blk (hw_serve h)" and l: "log_of st bs l" "log_fits st bs"
    and d: "dblock s st = put_header (lg_lh l) d" "length d = BSIZE" "\<And>i. i < length bs \<Longrightarrow> dblock s (st + i + 1) = g (bs ! i)"
  shows "\<exists>t'. recover_from_log h c t = Inr t' \<and> (\<forall>m. m \<noteq> st \<longrightarrow> dblock t' m = (if m \<in> set bs then g m else dblock s m))"
proof -
  have t: "cache_ok c p t" "view p t = v_boot (dblock s)" "lg_start (klog t) = int st" "lg_dev (klog t) = 1"
    using assms(1) by (simp_all add: restarted_def)
  note g = get_put_header[OF l d(2), folded d(1)]
  have i: "sint (get32 (dblock s st) (4 + 4 * i)) = int (bs ! i)" if "i < length bs" for i
    using g(2)[OF that, of undefined] g(3) that by (simp add: get_header_def Let_def)
  from recover_view[OF t(1) h t(3,4,2) l(2) g(3) i, of g] show ?thesis using d(3) by blast
qed

lemma view_disk: "dblock s = v_disk (view p s)"
  by (simp add: view_def)

text \<open>
  C3.  A commit is atomic.  \<open>commit\<close> is a sequence of steps with one disk write each: the logged blocks
  go to the log, the header is written, the blocks go to their places, the header is cleared.  The
  steps return.  If the machine stops after any number \<open>k\<close> of them and starts again, \<open>recover_from_log\<close>
  returns and every block outside the log area is as before the transaction if the header was not yet
  written, and otherwise as after it: no crash leaves a part of a transaction on the disk.
\<close>

theorem commit_crash_atomic:
  assumes "committable c p st bs s" "virtio_blk (hw_serve h)" "k \<le> 2 * length bs + 2"
  shows "commit h c s = run (commit_steps h c s) s \<and> length (commit_steps h c s) = 2 * length bs + 2
    \<and> (\<exists>s'. run (take k (commit_steps h c s)) s = Inr s'
      \<and> (\<forall>t c' p'. restarted c' p' st s' t \<longrightarrow> (\<exists>t'. recover_from_log h c' t = Inr t'
        \<and> (\<forall>m. m \<notin> log_area st \<longrightarrow> dblock t' m = (if length bs < k \<and> m \<in> set bs then v_data (view p s) m else dblock s m)))))"
proof -
  let ?n = "length bs" and ?v = "view p s" and ?hb = "put_header (lg_lh (klog s)) (v_data (view p s) st)"
  have l: "log_of st bs (klog s)" "log_fits st bs" "bs \<noteq> []" and z: "get32 (dblock s st) 0 = 0" and len: "length (v_data ?v st) = BSIZE"
    using assms(1) by (simp_all add: committable_def)
  note pre = commit_prefix[OF assms(1,2)]
  have st: "st + LOGBLOCKS < 2 ^ 31" "st \<notin> set bs" using l(2) by (auto simp: log_fits_def log_area_def)
  have area: "m \<noteq> st \<and> \<not> (st < m \<and> m \<le> st + i)" if "m \<notin> log_area st" "i \<le> ?n" for m i
    using that l(2) by (auto simp: log_area_def log_fits_def)
  have lg: "st + i + 1 \<notin> set (take j bs)" if "i < ?n" for i j
    using log_fitsD(5)[OF l(2) that] l(2) by (auto simp: log_fits_def dest: in_set_takeD)
  have sts: "st \<notin> set (take j bs)" for j using st(2) by (auto dest: in_set_takeD)
  have eq: "commit h c s = run (commit_steps h c s) s" "length (commit_steps h c s) = 2 * ?n + 2"
    using l by (simp_all add: commit_is_steps log_of_def commit_steps_def Let_def)
  have "k \<le> ?n \<or> k = ?n + 1 + (k - ?n - 1) \<and> k - ?n - 1 \<le> ?n \<or> k = 2 * ?n + 2" using assms(3) by arith
  then consider (A) "k \<le> ?n" | (B) j where "k = ?n + 1 + j" "j \<le> ?n" | (C) "k = 2 * ?n + 2" by blast
  then have "\<exists>s'. run (take k (commit_steps h c s)) s = Inr s'
      \<and> (\<forall>t c' p'. restarted c' p' st s' t \<longrightarrow> (\<exists>t'. recover_from_log h c' t = Inr t'
        \<and> (\<forall>m. m \<notin> log_area st \<longrightarrow> dblock t' m = (if ?n < k \<and> m \<in> set bs then v_data ?v m else dblock s m))))"
  proof cases
    case A
    then obtain s' where s': "run (take k (commit_steps h c s)) s = Inr s'" "view p s' = v_logged st bs k ?v" using pre(1) by blast
    have d: "dblock s' m = dblock s m" if "\<not> (st < m \<and> m \<le> st + k)" for m
      using that by (auto simp: view_disk[of _ p] s'(2) v_logged_def Let_def)
    show ?thesis
    proof (rule exI[of _ s'], intro conjI allI impI)
      fix t c' p' assume "restarted c' p' st s' t"
      from recover_nothing[OF this assms(2) st(1)] obtain t' where
        "recover_from_log h c' t = Inr t'" "\<And>m. m \<noteq> st \<Longrightarrow> dblock t' m = dblock s' m" using d[of st] z by auto
      then show "\<exists>t'. recover_from_log h c' t = Inr t'
        \<and> (\<forall>m. m \<notin> log_area st \<longrightarrow> dblock t' m = (if ?n < k \<and> m \<in> set bs then v_data ?v m else dblock s m))"
        using A area[OF _ A] d by (intro exI[of _ t']) simp
    qed (rule s'(1))
  next
    case B
    then obtain s' where s': "run (take k (commit_steps h c s)) s = Inr s'"
      "view p s' = v_replayed (v_data ?v) bs j True (v_sync st ?hb (v_logged st bs ?n ?v))" using pre(2) by blast
    have d: "dblock s' st = ?hb" "i < ?n \<Longrightarrow> dblock s' (st + i + 1) = v_data ?v (bs ! i)"
      "m \<notin> log_area st \<Longrightarrow> m \<notin> set bs \<Longrightarrow> dblock s' m = dblock s m" for i m
      using area[of m ?n] lg sts by (auto simp: view_disk[of _ p] s'(2) v_replayed_def v_sync_def v_logged_def Let_def dest: in_set_takeD)
    show ?thesis
    proof (rule exI[of _ s'], intro conjI allI impI)
      fix t c' p' assume "restarted c' p' st s' t"
      from recover_logged[OF this assms(2) l(1,2) d(1) len d(2)] obtain t' where
        "recover_from_log h c' t = Inr t'" "\<And>m. m \<noteq> st \<Longrightarrow> dblock t' m = (if m \<in> set bs then v_data ?v m else dblock s' m)" by blast
      then show "\<exists>t'. recover_from_log h c' t = Inr t'
        \<and> (\<forall>m. m \<notin> log_area st \<longrightarrow> dblock t' m = (if ?n < k \<and> m \<in> set bs then v_data ?v m else dblock s m))"
        using B area[OF _ order.refl] d(3) by (intro exI[of _ t']) simp
    qed (rule s'(1))
  next
    case C
    obtain s' where s': "run (commit_steps h c s) s = Inr s'"
      "view p s' = v_sync st (put_header (lh_n_update (\<lambda>_. 0) (lg_lh (klog s))) ?hb) (v_replayed (v_data ?v) bs ?n True (v_sync st ?hb (v_logged st bs ?n ?v)))"
      using pre(3) by blast
    have "length ?hb = BSIZE" using l len by (intro put_header_count(2)) (simp_all add: log_of_def log_fits_def)
    then have "get32 (put_header (lh_n_update (\<lambda>_. 0) (lg_lh (klog s))) ?hb) 0 = 0" by (subst put_header_count(1)) simp_all
    then have d: "get32 (dblock s' st) 0 = 0" "m \<notin> log_area st \<Longrightarrow> dblock s' m = (if m \<in> set bs then v_data ?v m else dblock s m)" for m
      using area[of m ?n] by (auto simp: view_disk[of _ p] s'(2) v_replayed_def v_sync_def v_logged_def Let_def)
    show ?thesis
    proof (rule exI[of _ s'], intro conjI allI impI)
      show "run (take k (commit_steps h c s)) s = Inr s'" using s'(1) C eq(2) by simp
    next
      fix t c' p' assume "restarted c' p' st s' t"
      from recover_nothing[OF this assms(2) st(1) d(1)] obtain t' where
        "recover_from_log h c' t = Inr t'" "\<And>m. m \<noteq> st \<Longrightarrow> dblock t' m = dblock s' m" by blast
      then show "\<exists>t'. recover_from_log h c' t = Inr t'
        \<and> (\<forall>m. m \<notin> log_area st \<longrightarrow> dblock t' m = (if ?n < k \<and> m \<in> set bs then v_data ?v m else dblock s m))"
        using C area[OF _ order.refl] d(2) by (intro exI[of _ t']) simp
    qed
  qed
  then show ?thesis using eq by blast
qed


text \<open>A transaction that changes block 40, and the machine after a restart.\<close>

definition idle_log :: klog where
  "idle_log = (undefined :: klog)\<lparr>cpus := (\<lambda>_. \<lparr>cproc = Some 3, noff = 0, intena = False, sie = False\<rparr>),
     locks := (\<lambda>_. \<lparr>locked = False, lname = [], lcpu = None\<rparr>), panicking := False, panicked := False,
     slocks := (\<lambda>_. \<lparr>slocked = False, slname = [], slpid = 0\<rparr>),
     vdisk := (undefined :: vdisk)\<lparr>dfree := (\<lambda>_. True), used_idx := 4, used_didx := 4, avail_idx := 4\<rparr>,
     bufs := (\<lambda>b. \<lparr>bvalid = False, bdisk = False, bdev = 0, bblockno = 0, brefcnt = 0, bprev = if b = 0 then 30 else b - 1,
       bnext = if b = 30 then 0 else b + 1, bdata = replicate 1024 0\<rparr>),
     sectors := (\<lambda>n. replicate 512 0),
     klog := \<lparr>lg_start = 2, lg_outstanding = 0, lg_committing = True, lg_dev = 1, lg_lh = \<lparr>lh_n = 1, lh_block = (\<lambda>_. 40)\<rparr>\<rparr>\<rparr>"

definition one_block :: klog where
  "one_block = upd_buf 0 (\<lambda>b. b\<lparr>bvalid := True, bdev := 1, bblockno := 40, brefcnt := 1, bdata := replicate 1024 7\<rparr>) idle_log"

definition reboot :: "klog \<Rightarrow> klog" where
  "reboot s = binit (idle_log\<lparr>sectors := sectors s\<rparr>)"

lemma one_block_slot: "slot one_block n = (if n = 40 then Some 0 else None)"
proof -
  have "[0..<NBUF] = 0 # [1..<NBUF]" by (simp add: NBUF_def upt_conv_Cons)
  then show ?thesis by (auto simp: slot_def holds_def one_block_def idle_log_def find_None_iff)
qed

lemma one_block_view: "view 3 one_block = \<lparr>v_data = (\<lambda>n. if n = 40 then replicate 1024 7 else replicate 1024 0), v_disk = (\<lambda>_. replicate 1024 0),
    v_refs = (\<lambda>n. if n = 40 then 1 else 0), v_busy = (\<lambda>_. False), v_held = (\<lambda>_. None)\<rparr>"
  by (simp add: view_def one_block_slot fun_eq_iff dblock_def sl_mine_def replicate_add[symmetric])
     (simp add: one_block_def idle_log_def replicate_add[symmetric])

lemma one_block_committable: "committable 0 3 2 [40] one_block"
proof -
  have "ready 0 3 one_block" "disk_idle (vdisk one_block)" "calm one_block"
    by (simp_all add: one_block_def idle_log_def ready_def cpu_sane_def settled_def lock_free_def disk_idle_def calm_def upd_buf_def)
  moreover have "lru (bufs one_block) [0..<NBUF]"
    by (simp add: lru_def BHEAD_def NBUF_def one_block_def idle_log_def upt_rec)
  moreover have "set [0..<NBUF] = {..<NBUF}" by auto
  moreover have "tidy one_block"
    by (simp add: tidy_def one_block_def idle_log_def)
  ultimately have "cache_ok 0 3 one_block" unfolding cache_ok_def ring_def by blast
  moreover have "klog one_block = klog idle_log" "dblock one_block 2 = replicate 1024 0"
    by (simp_all add: one_block_def idle_log_def upd_buf_def dblock_def replicate_add[symmetric])
  moreover have "get32 (replicate 1024 0) 0 = 0" by (simp add: get32_def numeral_eq_Suc)
  ultimately show ?thesis
    by (simp add: committable_def log_of_def log_fits_def log_area_def LOGBLOCKS_def MAXOPBLOCKS_def one_block_view acc_def room_def NBUF_def BSIZE_def)
       (simp add: idle_log_def)
qed

lemma klog_binit: "klog (binit s) = klog s"
proof -
  have k: "klog (fold f xs s) = klog s" if "\<And>b s. klog (f b s) = klog s" for f and xs :: "nat list" and s :: "'a klog_scheme"
    using that by (induction xs arbitrary: s) simp_all
  show ?thesis
    unfolding binit_def Let_def
    by (subst k) (simp_all add: lru_push_def set_next_def set_prev_def upd_buf_def initlock_def initsleeplock_def upd_lock_def upd_slock_def Let_def)
qed

lemma reboot_restarted: "restarted 0 3 2 s (reboot s)"
proof -
  let ?s = "idle_log\<lparr>sectors := sectors s\<rparr>"
  have "ready 0 3 ?s" "disk_idle (vdisk ?s)" "blank ?s" "calm ?s" "dblock ?s = dblock s"
    by (simp_all add: idle_log_def ready_def cpu_sane_def settled_def lock_free_def disk_idle_def calm_def blank_def dblock_def fun_eq_iff)
  moreover have "klog (binit ?s) = klog idle_log" by (simp add: klog_binit)
  ultimately show ?thesis using binit_view[of 0 3 ?s] by (simp add: restarted_def reboot_def) (simp add: idle_log_def)
qed

theorem commit_crash_atomic_witness:
  "\<exists>s' t'. run (take 2 (commit_steps quiet_hw 0 one_block)) one_block = Inr s' \<and> dblock one_block 40 = replicate 1024 0
    \<and> recover_from_log quiet_hw 0 (reboot s') = Inr t' \<and> dblock t' 40 = replicate 1024 7"
proof -
  have "virtio_blk (hw_serve quiet_hw)" by (simp add: quiet_hw_def blk_device_ok)
  from commit_crash_atomic[OF one_block_committable this, of 2] have
    "\<exists>s'. run (take 2 (commit_steps quiet_hw 0 one_block)) one_block = Inr s'
      \<and> (\<forall>t c' p'. restarted c' p' 2 s' t \<longrightarrow> (\<exists>t'. recover_from_log quiet_hw c' t = Inr t'
        \<and> (\<forall>m. m \<notin> log_area 2 \<longrightarrow> dblock t' m = (if length [40::nat] < 2 \<and> m \<in> set [40] then v_data (view 3 one_block) m else dblock one_block m))))"
    by auto
  then obtain s' where s': "run (take 2 (commit_steps quiet_hw 0 one_block)) one_block = Inr s'"
    and r: "\<forall>t c' p'. restarted c' p' 2 s' t \<longrightarrow> (\<exists>t'. recover_from_log quiet_hw c' t = Inr t'
        \<and> (\<forall>m. m \<notin> log_area 2 \<longrightarrow> dblock t' m = (if length [40::nat] < 2 \<and> m \<in> set [40] then v_data (view 3 one_block) m else dblock one_block m)))"
    by blast
  from r[rule_format, OF reboot_restarted] show ?thesis
    using s' by (auto simp: one_block_view log_area_def LOGBLOCKS_def MAXOPBLOCKS_def view_disk[of one_block 3])
qed

end
