(* ===== verification/Path.thy ===== *)
theory Path
  imports Dir
begin

text \<open>
  Path names and directory entries: what \<open>skipelem\<close> makes of a path, and which names \<open>namecmp\<close>
  takes for equal.
\<close>

text \<open>The pieces of a path between slashes, some of them empty.\<close>

fun pieces :: "string \<Rightarrow> string \<Rightarrow> string list" where
  "pieces cur [] = [cur]"
| "pieces cur (x # t) = (if x = slash then cur # pieces [] t else pieces (cur @ [x]) t)"

function path_names :: "string \<Rightarrow> string list" where
  "path_names path = (case skipelem path of None \<Rightarrow> [] | Some (name, rest) \<Rightarrow> name # path_names rest)"
  by pat_completeness auto
termination
  by (relation "measure length") (auto dest: skipelem_shorter)

declare path_names.simps [simp del]

abbreviation elements :: "string \<Rightarrow> string list" where
  "elements path \<equiv> filter (\<lambda>e. e \<noteq> []) (pieces [] path)"

lemma pieces_free: "slash \<notin> set a \<Longrightarrow> pieces cur (a @ t) = pieces (cur @ a) t"
  by (induction a arbitrary: cur) auto

lemma elements_slashes: "elements (dropWhile (\<lambda>x. x = slash) path) = elements path"
  by (induction path) auto

lemma elements_split:
  assumes "path \<noteq> []" "hd path \<noteq> slash"
  shows "elements path = takeWhile (\<lambda>x. x \<noteq> slash) path # elements (dropWhile (\<lambda>x. x \<noteq> slash) path)"
proof -
  let ?a = "takeWhile (\<lambda>x. x \<noteq> slash) path" and ?r = "dropWhile (\<lambda>x. x \<noteq> slash) path"
  have free: "slash \<notin> set ?a" by (auto dest: set_takeWhileD)
  have ne: "?a \<noteq> []" using assms by (cases path) auto
  have "pieces [] path = pieces ?a ?r"
    using pieces_free[OF free, of "[]" ?r] by simp
  moreover have "filter (\<lambda>e. e \<noteq> []) (pieces ?a ?r) = ?a # elements ?r"
  proof (cases ?r)
    case Nil
    show ?thesis unfolding Nil using ne by simp
  next
    case (Cons x t)
    then have "x = slash" using hd_dropWhile[of "\<lambda>x. x \<noteq> slash" path] by simp
    then show ?thesis unfolding Cons using ne by simp
  qed
  ultimately show ?thesis by simp
qed

text \<open>
  C31.  Taking a path apart with \<open>skipelem\<close> until it gives up yields the elements of the path, cut
  to \<open>DIRSIZ\<close> characters; leading, trailing and repeated slashes do not matter.
\<close>

theorem skipelem_elements:
  "path_names path = map (take DIRSIZ) (elements path)"
proof (induction path rule: path_names.induct)
  case (1 path)
  let ?p = "dropWhile (\<lambda>x. x = slash) path"
  show ?case
  proof (cases "?p = []")
    case True
    have "elements path = []" using elements_slashes[of path] unfolding True by simp
    then show ?thesis using True by (subst path_names.simps) (simp add: skipelem_def)
  next
    case False
    let ?a = "takeWhile (\<lambda>x. x \<noteq> slash) ?p" and ?r = "dropWhile (\<lambda>x. x \<noteq> slash) ?p"
    have s: "skipelem path = Some (take DIRSIZ ?a, dropWhile (\<lambda>x. x = slash) ?r)"
      using False by (simp add: skipelem_def Let_def)
    have "elements path = ?a # elements ?r"
      using elements_split[OF False] hd_dropWhile[OF False] elements_slashes[of path] by simp
    then show ?thesis
      using 1[OF s] s by (subst path_names.simps) (simp add: elements_slashes)
  qed
qed

subsection \<open>Directory entries\<close>

lemma char_byte [simp]: "char_of (unat (of_char x :: uint8)) = x"
proof -
  have "unat (of_nat (of_char x) :: uint8) = (of_char x :: nat)"
    by (subst unat_of_nat) (simp add: of_char_mod_256)
  then show ?thesis using of_nat_of_char[of x, where 'a = uint8] by (metis char_of_char)
qed

lemma de_name_mk: "no_nul name \<Longrightarrow> de_name (mk_dirent name n) = take DIRSIZ name"
proof -
  assume "no_nul name"
  then have nn: "char_of (0::nat) \<notin> set (take DIRSIZ name)" by (auto simp: no_nul_def dest: in_set_takeD)
  have "map (\<lambda>b. char_of (unat b)) (take DIRSIZ (drop 2 (mk_dirent name n))) = strncpy name DIRSIZ"
    by (simp add: mk_dirent_def comp_def strncpy_spec)
  then show ?thesis
    using nn by (simp add: de_name_def cstr_def strncpy_spec takeWhile_append takeWhile_eq_all_conv)
qed

text \<open>
  C30.  A directory entry made by \<open>dirlink\<close> has the size of an entry, carries the inode number, and
  \<open>namecmp\<close>, the comparison that \<open>dirlookup\<close> makes, accepts exactly the names that agree with its own in
  the first \<open>DIRSIZ\<close> characters.
\<close>

theorem dirent_found:
  assumes "no_nul name" and "no_nul name'"
  shows "length (mk_dirent name n) = 16 \<and> de_inum (mk_dirent name n) = n
    \<and> (namecmp name' (de_name (mk_dirent name n)) = 0 \<longleftrightarrow> take DIRSIZ name' = take DIRSIZ name)"
proof -
  have "length (mk_dirent name n) = 16" by (simp add: mk_dirent_def strncpy_spec DIRSIZ_def)
  moreover have "de_inum (mk_dirent name n) = n"
    using le_map_bits[of 2 n] by (simp add: de_inum_def get16_def mk_dirent_def)
  moreover have "no_nul (take DIRSIZ name)" using assms(1) by (auto simp: no_nul_def dest: in_set_takeD)
  ultimately show ?thesis
    using assms by (simp add: namecmp_def de_name_mk strncmp_zero_iff)
qed

theorem dirent_found_witness:
  "namecmp ''a_very_long_file_name'' (de_name (mk_dirent ''a_very_long_fish'' 5)) = 0
    \<and> namecmp ''b'' (de_name (mk_dirent ''a_very_long_fish'' 5)) \<noteq> 0"
proof -
  have n: "no_nul ''a_very_long_fish''" "no_nul ''a_very_long_file_name''" "no_nul ''b''"
    by (code_simp+)
  have "take DIRSIZ ''a_very_long_file_name'' = take DIRSIZ ''a_very_long_fish''"
    "take DIRSIZ ''b'' \<noteq> take DIRSIZ ''a_very_long_fish''"
    by (code_simp+)
  then show ?thesis
    using dirent_found[OF n(1,2), of 5] dirent_found[OF n(1,3), of 5] by simp
qed

end
