(* ===== verification/Shell.thy ===== *)
theory Shell
  imports Sysfile
begin

text \<open>
  The command parser of the shell, \<^verbatim>\<open>user/sh.c\<close>.

  A command line is a C string \<open>t\<close>, its characters before the NUL, and a pointer into it is an index;
  \<open>es\<close>, the end, is its length.  A command refers to its words by two pointers each (\<open>span\<close>); the type
  parameter of \<open>cmd\<close> is what stands for a word, so that a command with its words as strings is a value
  of the same type.  Allocation of a node always succeeds.  \<open>panic\<close> writes to descriptor 2 and exits;
  it is the result \<open>Panic\<close> with all that was written.

  The parsing functions call each other to a depth that grows with the line.  \<open>parseline\<close> and
  \<open>parsepipe\<close> take the depth as fuel, and the functions between them the call of \<open>parseline\<close> as an
  argument.  \<open>parsecmd\<close> gives two levels more than the line has characters, which is always enough.
\<close>

unbundle bit_operations_syntax

type_synonym span = "nat \<times> nat"

datatype 'w cmd =
    Execcmd "'w list"
  | Redircmd "'w cmd" 'w int nat
  | Pipecmd "'w cmd" "'w cmd"
  | Listcmd "'w cmd" "'w cmd"
  | Backcmd "'w cmd"

text \<open>The constructors of the source.\<close>

definition execcmd :: "'w cmd" where
  "execcmd = Execcmd []"

definition redircmd :: "'w cmd \<Rightarrow> 'w \<Rightarrow> int \<Rightarrow> nat \<Rightarrow> 'w cmd" where
  "redircmd subcmd file mode fd = Redircmd subcmd file mode fd"

definition pipecmd :: "'w cmd \<Rightarrow> 'w cmd \<Rightarrow> 'w cmd" where
  "pipecmd left right = Pipecmd left right"

definition listcmd :: "'w cmd \<Rightarrow> 'w cmd \<Rightarrow> 'w cmd" where
  "listcmd left right = Listcmd left right"

definition backcmd :: "'w cmd \<Rightarrow> 'w cmd" where
  "backcmd subcmd = Backcmd subcmd"

lemmas cmd_constructors [simp] = execcmd_def redircmd_def pipecmd_def listcmd_def backcmd_def

definition MAXARGS :: nat where "MAXARGS = 10"

definition NUL :: char where "NUL = CHR 0x00"

definition sh_nl :: char where "sh_nl = CHR 0x0A"

definition whitespace :: string where
  "whitespace = [CHR 0x20, CHR 0x09, CHR 0x0D, CHR 0x0A, CHR 0x0B]"

definition symbols :: string where
  "symbols = ''<|>&;()''"

text \<open>\<^verbatim>\<open>strchr(s, c) != 0\<close>: the search stops at the NUL of \<open>s\<close>, so it never finds a NUL.\<close>

definition strchr :: "string \<Rightarrow> char \<Rightarrow> bool" where
  "strchr s c = (c \<in> set s)"

text \<open>\<^verbatim>\<open>*s\<close>\<close>

definition at :: "string \<Rightarrow> nat \<Rightarrow> char" where
  "at t i = (if i < length t then t ! i else NUL)"

definition sh_panic :: "string \<Rightarrow> 'a res" where
  "sh_panic msg = Inl (Panic (msg @ [sh_nl]))"

text \<open>The loops \<^verbatim>\<open>while(s < es && ...) s++\<close>.\<close>

function skip_while :: "(char \<Rightarrow> bool) \<Rightarrow> string \<Rightarrow> nat \<Rightarrow> nat" where
  "skip_while P t i = (if i < length t \<and> P (t ! i) then skip_while P t (i + 1) else i)"
  by pat_completeness auto
termination
  by (relation "measure (\<lambda>(P, t, i). length t - i)") auto

declare skip_while.simps [simp del]

text \<open>\<open>gettoken\<close> returns the kind of the token, its two ends, and the pointer behind it.\<close>

definition gettoken :: "string \<Rightarrow> nat \<Rightarrow> char \<times> span \<times> nat" where
  "gettoken t i =
     (let s = skip_while (strchr whitespace) t i;
          q = s;
          (ret, s) =
            (if at t s = NUL then (NUL, s)
             else if at t s \<in> set ''|();&<'' then (at t s, s + 1)
             else if at t s = CHR ''>'' then (if at t (s + 1) = CHR ''>'' then (CHR ''+'', s + 2) else (CHR ''>'', s + 1))
             else (CHR ''a'', skip_while (\<lambda>x. \<not> strchr whitespace x \<and> \<not> strchr symbols x) t s))
      in (ret, (q, s), skip_while (strchr whitespace) t s))"

definition peek :: "string \<Rightarrow> string \<Rightarrow> nat \<Rightarrow> bool \<times> nat" where
  "peek toks t i =
     (let s = skip_while (strchr whitespace) t i
      in (at t s \<noteq> NUL \<and> strchr toks (at t s), s))"

lemma skip_while_ge: "i \<le> skip_while P t i"
proof (induction P t i rule: skip_while.induct)
  case (1 P t i)
  then show ?case by (subst skip_while.simps) (auto simp: Suc_le_eq dest: Suc_leD)
qed

lemma skip_while_le: "i \<le> length t \<Longrightarrow> skip_while P t i \<le> length t"
proof (induction P t i rule: skip_while.induct)
  case (1 P t i)
  then show ?case by (subst skip_while.simps) auto
qed

lemma at_NUL: "at t i \<noteq> NUL \<Longrightarrow> i < length t"
  by (simp add: at_def split: if_splits)

lemma skip_while_first: "i < length t \<Longrightarrow> P (t ! i) \<Longrightarrow> i < skip_while P t i"
  using skip_while_ge[of "i + 1" P t] by (subst skip_while.simps) simp

lemma skip_while_stop: "skip_while P t i < length t \<Longrightarrow> \<not> P (t ! skip_while P t i)"
proof (induction P t i rule: skip_while.induct)
  case (1 P t i)
  then show ?case by (subst skip_while.simps, subst (asm) (2) skip_while.simps) (auto split: if_splits)
qed

lemma skip_while_same: "\<not> (i < length t \<and> P (t ! i)) \<Longrightarrow> skip_while P t i = i"
  by (subst skip_while.simps) auto

lemma skip_while_run: "i \<le> j \<Longrightarrow> j < skip_while P t i \<Longrightarrow> j < length t \<and> P (t ! j)"
proof (induction P t i rule: skip_while.induct)
  case (1 P t i)
  have "i < length t \<and> P (t ! i)"
  proof (rule ccontr)
    assume "\<not> (i < length t \<and> P (t ! i))"
    from skip_while_same[where P = P, OF this] show False using 1(2,3) by simp
  qed
  moreover from this have e: "skip_while P t i = skip_while P t (i + 1)" by (subst skip_while.simps) simp
  ultimately show ?case
  proof (cases "i = j")
    case False
    then have "i + 1 \<le> j" using 1(2) by simp
    then show ?thesis using 1(1)[OF \<open>i < length t \<and> P (t ! i)\<close>] 1(3) unfolding e by blast
  qed simp
qed


text \<open>Every token but the end moves the pointer.\<close>

lemma gettoken_progress:
  assumes "gettoken t i = (tok, (q, e), j)"
  shows "i \<le> j" "tok \<noteq> NUL \<Longrightarrow> i < j" "i \<le> length t \<Longrightarrow> j \<le> length t"
proof -
  let ?s = "skip_while (strchr whitespace) t i" and ?w = "\<lambda>x. \<not> strchr whitespace x \<and> \<not> strchr symbols x"
  have s: "i \<le> ?s" by (rule skip_while_ge)
  have e: "j = skip_while (strchr whitespace) t e" "e = (if at t ?s = NUL then ?s else if at t ?s \<in> set ''|();&<'' then ?s + 1
      else if at t ?s = CHR ''>'' then (if at t (?s + 1) = CHR ''>'' then ?s + 2 else ?s + 1) else skip_while ?w t ?s)"
      "tok = NUL \<longleftrightarrow> at t ?s = NUL"
    using assms by (auto simp: gettoken_def Let_def NUL_def split: if_splits)
  have w: "?s < skip_while ?w t ?s" if "at t ?s \<noteq> NUL" "at t ?s \<notin> set ''|();&<''" "at t ?s \<noteq> CHR ''>''"
  proof (rule skip_while_first)
    show "?s < length t" using that(1) by (rule at_NUL)
    then show "?w (t ! ?s)" using that skip_while_stop[of "strchr whitespace" t i] by (auto simp: at_def strchr_def symbols_def)
  qed
  have ge: "?s \<le> e" "at t ?s \<noteq> NUL \<Longrightarrow> ?s < e" using w unfolding e(2) by (auto simp: less_imp_le)
  show "i \<le> j" using s ge(1) skip_while_ge[of e "strchr whitespace" t] unfolding e(1) by simp
  show "i < j" if "tok \<noteq> NUL" using s ge(2) that skip_while_ge[of e "strchr whitespace" t] unfolding e(1,3) by simp
  assume "i \<le> length t"
  then have l: "?s \<le> length t" by (rule skip_while_le)
  have "CHR ''>'' \<noteq> NUL" by (simp add: NUL_def)
  then have "e \<le> length t" unfolding e(2) using l skip_while_le[OF l, of ?w] at_NUL[of t ?s] at_NUL[of t "?s + 1"] by auto
  then show "j \<le> length t" unfolding e(1) by (rule skip_while_le)
qed

lemma peek_progress:
  assumes "peek toks t i = (r, j)"
  shows "i \<le> j" "i \<le> length t \<Longrightarrow> j \<le> length t" "r \<Longrightarrow> at t j \<noteq> NUL \<and> at t j \<in> set toks" "j < length t \<Longrightarrow> \<not> strchr whitespace (t ! j)"
proof -
  have j: "j = skip_while (strchr whitespace) t i" "r \<longleftrightarrow> at t j \<noteq> NUL \<and> at t j \<in> set toks"
    using assms by (auto simp: peek_def Let_def strchr_def)
  show "i \<le> j" unfolding j(1) by (rule skip_while_ge)
  show "i \<le> length t \<Longrightarrow> j \<le> length t" unfolding j(1) by (rule skip_while_le)
  show "r \<Longrightarrow> at t j \<noteq> NUL \<and> at t j \<in> set toks" using j(2) by blast
  show "j < length t \<Longrightarrow> \<not> strchr whitespace (t ! j)" unfolding j(1) by (rule skip_while_stop)
qed

lemma gettoken_end: "gettoken t i = (NUL, (q, e), j) \<Longrightarrow> at t (skip_while (strchr whitespace) t i) = NUL"
  by (auto simp: gettoken_def Let_def NUL_def split: if_splits)

lemma peek_gettoken:
  assumes "peek toks t i = (True, j)" "gettoken t j = (tok, (q, e), k)"
  shows "j < k" "i < k"
proof -
  note p = peek_progress[OF assms(1)]
  have "skip_while (strchr whitespace) t j = j" using p(4) by (intro skip_while_same) auto
  then have "tok \<noteq> NUL" using gettoken_end[of t j q e k] assms(2) p(3) by auto
  then show "j < k" using gettoken_progress(2)[OF assms(2)] by blast
  then show "i < k" using p(1) by simp
qed

lemma symbol_progress:
  assumes "peek toks t i = (True, i1)" "gettoken t i1 = (tok, sp, i2)"
  shows "length t - i2 < length t - i"
proof -
  obtain q e where sp: "sp = (q, e)" by (cases sp)
  have "i1 < length t" using peek_progress(3)[OF assms(1)] at_NUL by blast
  then show ?thesis using peek_progress(1)[OF assms(1)] peek_gettoken(1)[OF assms(1) assms(2)[unfolded sp]] by simp
qed

lemma redir_progress:
  assumes "peek toks t i = (True, i1)" "gettoken t i1 = (tok, sp, i2)" "gettoken t i2 = (tok', sp', i3)"
  shows "length t - i3 < length t - i"
proof -
  obtain q e where sp: "sp' = (q, e)" by (cases sp')
  show ?thesis using symbol_progress[OF assms(1,2)] gettoken_progress(1)[OF assms(3)[unfolded sp]] by simp
qed

subsection \<open>The parser\<close>

type_synonym parser = "string \<Rightarrow> nat \<Rightarrow> (span cmd \<times> nat) res"

function parseredirs :: "span cmd \<Rightarrow> parser" where
  "parseredirs cmd t i =
     (case peek ''<>'' t i of (found, i1) \<Rightarrow>
      if found then
        (case gettoken t i1 of (tok, _, i2) \<Rightarrow>
         case gettoken t i2 of (kind, (q, eq), i3) \<Rightarrow>
         if kind \<noteq> CHR ''a'' then sh_panic ''missing file for redirection''
         else parseredirs
           (if tok = CHR ''<'' then redircmd cmd (q, eq) O_RDONLY 0
            else if tok = CHR ''>'' then redircmd cmd (q, eq) (O_WRONLY OR O_CREATE OR O_TRUNC) 1
            else if tok = CHR ''+'' then redircmd cmd (q, eq) (O_WRONLY OR O_CREATE) 1
            else cmd) t i3)
      else Inr (cmd, i1))"
  by pat_completeness auto
termination
proof (relation "measure (\<lambda>(c, t, i). length t - i)", goal_cases)
  case 2
  then show ?case by (auto intro: redir_progress dest!: sym[of "(_, _)"])
qed simp

declare parseredirs.simps [simp del]

text \<open>The loop over \<^verbatim>\<open>&\<close> in \<open>parseline\<close>.\<close>

function parseback :: "span cmd \<Rightarrow> string \<Rightarrow> nat \<Rightarrow> span cmd \<times> nat" where
  "parseback cmd t i =
     (case peek ''&'' t i of (found, i1) \<Rightarrow>
      if found then (case gettoken t i1 of (_, _, i2) \<Rightarrow> parseback (backcmd cmd) t i2) else (cmd, i1))"
  by pat_completeness auto
termination
proof (relation "measure (\<lambda>(c, t, i). length t - i)", goal_cases)
  case 2
  then show ?case by (auto intro: symbol_progress dest!: sym[of "(_, _)"])
qed simp

declare parseback.simps [simp del]

definition parseblock :: "parser \<Rightarrow> parser" where
  "parseblock parseline t i =
     (case peek ''('' t i of (found, i) \<Rightarrow>
      if \<not> found then sh_panic ''parseblock''
      else
        bindE (parseline t (snd (snd (gettoken t i)))) (\<lambda>(cmd, i).
        case peek '')'' t i of (found, i) \<Rightarrow>
        if \<not> found then sh_panic ''syntax - missing )''
        else parseredirs cmd t (snd (snd (gettoken t i)))))"

text \<open>
  \<open>parseexec\<close> stores the words into the command node that \<open>parseredirs\<close> may already have wrapped:
  the node at the bottom of the redirections.
\<close>

fun add_arg :: "'w \<Rightarrow> 'w cmd \<Rightarrow> 'w cmd" where
  "add_arg w (Execcmd ws) = Execcmd (ws @ [w])"
| "add_arg w (Redircmd c f m fd) = Redircmd (add_arg w c) f m fd"
| "add_arg w c = c"

function parseargs :: "nat \<Rightarrow> span cmd \<Rightarrow> parser" where
  "parseargs argc ret t i =
     (case peek ''|)&;'' t i of (found, i1) \<Rightarrow>
      if found then Inr (ret, i1)
      else
        (case gettoken t i1 of (tok, (q, eq), i2) \<Rightarrow>
         if tok = NUL then Inr (ret, i2)
         else if tok \<noteq> CHR ''a'' then sh_panic ''syntax''
         else if argc + 1 \<ge> MAXARGS then sh_panic ''too many args''
         else bindE (parseredirs (add_arg (q, eq) ret) t i2) (\<lambda>(ret, i3). parseargs (argc + 1) ret t i3)))"
  by pat_completeness auto
termination
  by (relation "measure (\<lambda>(argc, r, t, i). MAXARGS - argc)") auto

declare parseargs.simps [simp del]

definition parseexec :: "parser \<Rightarrow> parser" where
  "parseexec parseline t i =
     (case peek ''('' t i of (found, i) \<Rightarrow>
      if found then parseblock parseline t i
      else bindE (parseredirs execcmd t i) (\<lambda>(ret, i). parseargs 0 ret t i))"

fun parsepipe :: "nat \<Rightarrow> parser \<Rightarrow> parser" where
  "parsepipe 0 parseline t i = Inl (Spin ''parsepipe'')"
| "parsepipe (Suc n) parseline t i =
     bindE (parseexec parseline t i) (\<lambda>(cmd, i).
     case peek ''|'' t i of (found, i) \<Rightarrow>
     if found then
       bindE (parsepipe n parseline t (snd (snd (gettoken t i)))) (\<lambda>(right, i). Inr (pipecmd cmd right, i))
     else Inr (cmd, i))"

fun parseline :: "nat \<Rightarrow> parser" where
  "parseline 0 t i = Inl (Spin ''parseline'')"
| "parseline (Suc n) t i =
     bindE (parsepipe n (parseline n) t i) (\<lambda>(cmd, i).
     case parseback cmd t i of (cmd, i) \<Rightarrow>
     case peek '';'' t i of (found, i) \<Rightarrow>
     if found then
       bindE (parseline n t (snd (snd (gettoken t i)))) (\<lambda>(right, i). Inr (listcmd cmd right, i))
     else Inr (cmd, i))"

text \<open>
  \<open>nulterminate\<close> puts a NUL behind every word; \<open>m\<close> is the buffer with the line and its NUL.
\<close>

fun nulterminate :: "span cmd \<Rightarrow> char list \<Rightarrow> char list" where
  "nulterminate (Execcmd ws) m = fold (\<lambda>(q, eq) m. m[eq := NUL]) ws m"
| "nulterminate (Redircmd c (q, eq) mode fd) m = (nulterminate c m)[eq := NUL]"
| "nulterminate (Pipecmd l r) m = nulterminate r (nulterminate l m)"
| "nulterminate (Listcmd l r) m = nulterminate r (nulterminate l m)"
| "nulterminate (Backcmd c) m = nulterminate c m"

definition parsecmd :: "string \<Rightarrow> (span cmd \<times> char list) res" where
  "parsecmd t =
     bindE (parseline (length t + 2) t 0) (\<lambda>(cmd, i).
     case peek [] t i of (_, i) \<Rightarrow>
     if i \<noteq> length t then Inl (Panic (''leftovers: '' @ drop i t @ [sh_nl] @ ''syntax'' @ [sh_nl]))
     else Inr (cmd, nulterminate cmd (t @ [NUL])))"


declare parsepipe.simps [simp del] parseline.simps [simp del]

subsection \<open>The parser returns well-formed commands\<close>

definition wordchar :: "char \<Rightarrow> bool" where
  "wordchar x = (\<not> strchr whitespace x \<and> \<not> strchr symbols x)"

text \<open>A span is a word: it is not empty and reaches from its start to the first character that ends words.\<close>

definition is_word :: "string \<Rightarrow> span \<Rightarrow> bool" where
  "is_word t w = (case w of (q, e) \<Rightarrow> q < e \<and> e \<le> length t \<and> (\<forall>j. q \<le> j \<and> j < e \<longrightarrow> wordchar (t ! j))
     \<and> (e < length t \<longrightarrow> \<not> wordchar (t ! e)))"

fun cmd_ok :: "string \<Rightarrow> span cmd \<Rightarrow> bool" where
  "cmd_ok t (Execcmd ws) = (length ws < MAXARGS \<and> list_all (is_word t) ws)"
| "cmd_ok t (Redircmd c w mode fd) = (cmd_ok t c \<and> is_word t w
     \<and> (mode, fd) \<in> {(O_RDONLY, 0), (O_WRONLY OR O_CREATE OR O_TRUNC, 1), (O_WRONLY OR O_CREATE, 1)})"
| "cmd_ok t (Pipecmd l r) = (cmd_ok t l \<and> cmd_ok t r)"
| "cmd_ok t (Listcmd l r) = (cmd_ok t l \<and> cmd_ok t r)"
| "cmd_ok t (Backcmd c) = cmd_ok t c"

text \<open>A command node with \<open>n\<close> words under redirections.\<close>

fun chain :: "nat \<Rightarrow> 'w cmd \<Rightarrow> bool" where
  "chain n (Execcmd ws) = (length ws = n)"
| "chain n (Redircmd c w mode fd) = chain n c"
| "chain n c = False"

lemma add_arg_ok: "chain n c \<Longrightarrow> cmd_ok t c \<Longrightarrow> is_word t w \<Longrightarrow> n + 1 < MAXARGS \<Longrightarrow> chain (n + 1) (add_arg w c) \<and> cmd_ok t (add_arg w c)"
  by (induction c) auto

lemma gettoken_word:
  assumes "gettoken t i = (CHR ''a'', (q, e), j)" "i \<le> length t"
  shows "is_word t (q, e)"
proof -
  let ?s = "skip_while (strchr whitespace) t i"
  have a: "q = ?s" "e = skip_while wordchar t ?s" "at t ?s \<noteq> NUL" "at t ?s \<notin> set ''|();&<''" "at t ?s \<noteq> CHR ''>''"
    using assms(1) by (auto simp: gettoken_def Let_def NUL_def wordchar_def[abs_def] split: if_splits)
  have s: "?s < length t" using a(3) by (rule at_NUL)
  have "wordchar (t ! ?s)" using s a(3-5) skip_while_stop[of "strchr whitespace" t i] by (auto simp: at_def strchr_def symbols_def wordchar_def)
  then show ?thesis
    unfolding is_word_def using s a(1,2) skip_while_first[OF s, of wordchar] skip_while_le[OF less_imp_le[OF s], of wordchar] skip_while_run[of ?s _ wordchar t] skip_while_stop[of wordchar t ?s]
    by auto
qed

text \<open>What a parser promises: a panic, or a well-formed command and a pointer that has not moved back.\<close>

definition parsed :: "string \<Rightarrow> nat \<Rightarrow> (span cmd \<Rightarrow> bool) \<Rightarrow> (span cmd \<times> nat) res \<Rightarrow> bool" where
  "parsed t i P r = (case r of Inl (Panic _) \<Rightarrow> True | Inl _ \<Rightarrow> False | Inr (c, j) \<Rightarrow> cmd_ok t c \<and> P c \<and> i \<le> j \<and> j \<le> length t)"

lemma parsed_simps [simp]: "parsed t i P (sh_panic m)" "parsed t i P (Inl (Panic m))" "\<not> parsed t i P (Inl (Spin m))"
  "parsed t i P (Inr (c, j)) \<longleftrightarrow> cmd_ok t c \<and> P c \<and> i \<le> j \<and> j \<le> length t"
  by (simp_all add: parsed_def sh_panic_def)

lemma parsed_bind:
  assumes "parsed t i P r" "\<And>c j. cmd_ok t c \<Longrightarrow> P c \<Longrightarrow> i \<le> j \<Longrightarrow> j \<le> length t \<Longrightarrow> r = Inr (c, j) \<Longrightarrow> parsed t k Q (f (c, j))"
  shows "parsed t k Q (bindE r f)"
proof (cases r)
  case (Inl e)
  then show ?thesis using assms(1) by (cases e) (auto simp: parsed_def)
next
  case (Inr x)
  obtain c j where x: "x = (c, j)" by (cases x)
  show ?thesis using assms(1) assms(2)[of c j] Inr x by simp
qed

lemma parsed_mono: "parsed t i P r \<Longrightarrow> k \<le> i \<Longrightarrow> (\<And>c. P c \<Longrightarrow> Q c) \<Longrightarrow> parsed t k Q r"
  by (auto simp: parsed_def split: sum.splits stop.splits)

lemma parseredirs_ok:
  "i \<le> length t \<Longrightarrow> cmd_ok t cmd \<Longrightarrow> parsed t i (\<lambda>c. \<forall>n. chain n cmd \<longrightarrow> chain n c) (parseredirs cmd t i)"
proof (induction cmd t i rule: parseredirs.induct)
  case (1 cmd t i)
  obtain r i1 where p: "peek ''<>'' t i = (r, i1)" by (cases "peek ''<>'' t i")
  obtain tok sp i2 where g: "gettoken t i1 = (tok, sp, i2)" by (metis prod_cases3)
  obtain k q e i3 where g2: "gettoken t i2 = (k, (q, e), i3)" by (metis surj_pair)
  note pp = peek_progress[OF p]
  let ?c = "if tok = CHR ''<'' then Redircmd cmd (q, e) O_RDONLY 0
            else if tok = CHR ''>'' then Redircmd cmd (q, e) (O_WRONLY OR O_CREATE OR O_TRUNC) 1
            else if tok = CHR ''+'' then Redircmd cmd (q, e) (O_WRONLY OR O_CREATE) 1
            else cmd"
  show ?case
  proof (cases "r \<and> k = CHR ''a''")
    case True
    obtain q' e' where sp: "sp = (q', e')" by (cases sp)
    have b: "i2 \<le> length t" "i3 \<le> length t" "i \<le> i3"
      using gettoken_progress[OF g[unfolded sp]] gettoken_progress[OF g2] pp 1(2) by auto
    have ok: "cmd_ok t ?c" "\<forall>n. chain n cmd \<longrightarrow> chain n ?c"
      using 1(3) gettoken_word[of t i2 q e i3] True g2 b(1) by (simp_all del: is_word_def)
    have "parsed t i3 (\<lambda>c. \<forall>n. chain n ?c \<longrightarrow> chain n c) (parseredirs ?c t i3)"
      by (rule 1(1)[unfolded cmd_constructors, OF p[symmetric] _ g[symmetric] refl g2[symmetric] refl refl]) (use True ok b in auto)
    then have "parsed t i (\<lambda>c. \<forall>n. chain n cmd \<longrightarrow> chain n c) (parseredirs ?c t i3)"
      using b(3) ok(2) by (rule_tac parsed_mono) auto
    then show ?thesis using True p g g2 by (subst parseredirs.simps) (auto split: if_splits)
  next
    case False
    then show ?thesis using p g g2 pp 1(2,3) by (subst parseredirs.simps) auto
  qed
qed


lemma parseargs_ok:
  "i \<le> length t \<Longrightarrow> cmd_ok t ret \<Longrightarrow> chain argc ret \<Longrightarrow> parsed t i (\<lambda>_. True) (parseargs argc ret t i)"
proof (induction argc ret t i rule: parseargs.induct)
  case (1 argc ret t i)
  obtain r i1 where p: "peek ''|)&;'' t i = (r, i1)" by (cases "peek ''|)&;'' t i")
  obtain tok q e i2 where g: "gettoken t i1 = (tok, (q, e), i2)" by (metis surj_pair)
  note pp = peek_progress(1,2)[OF p] and gp = gettoken_progress[OF g]
  have le: "i1 \<le> length t" "i \<le> i1" "i2 \<le> length t" "i \<le> i2" using pp gp 1(2) by auto
  show ?case
  proof (cases "\<not> r \<and> tok = CHR ''a'' \<and> argc + 1 < MAXARGS")
    case True
    then have w: "is_word t (q, e)" using gettoken_word[of t i1 q e i2] g le by simp
    have a: "chain (argc + 1) (add_arg (q, e) ret)" "cmd_ok t (add_arg (q, e) ret)"
      using add_arg_ok[OF 1(4,3) w] True by simp_all
    have "parsed t i (\<lambda>_. True) (bindE (parseredirs (add_arg (q, e) ret) t i2) (\<lambda>(ret, i3). parseargs (argc + 1) ret t i3))"
    proof (rule parsed_bind[OF parseredirs_ok[OF le(3) a(2)]], simp)
      fix c j assume c: "cmd_ok t c" "\<forall>n. chain n (add_arg (q, e) ret) \<longrightarrow> chain n c" and j: "i2 \<le> j" "j \<le> length t"
        and r: "parseredirs (add_arg (q, e) ret) t i2 = Inr (c, j)"
      have "parsed t j (\<lambda>_. True) (parseargs (argc + 1) c t j)"
        by (rule 1(1)[OF p[symmetric] _ g[symmetric] refl refl]) (use True c j a r in \<open>auto simp: NUL_def\<close>)
      then show "parsed t i (\<lambda>_. True) (parseargs (Suc argc) c t j)" using j le by (auto intro: parsed_mono)
    qed
    then show ?thesis using True p g by (subst parseargs.simps) (simp add: NUL_def)
  next
    case False
    then show ?thesis using p g le 1(3) by (subst parseargs.simps) auto
  qed
qed

lemma parseback_ok:
  "i \<le> length t \<Longrightarrow> cmd_ok t cmd \<Longrightarrow> parsed t i (\<lambda>_. True) (Inr (parseback cmd t i))"
proof (induction cmd t i rule: parseback.induct)
  case (1 cmd t i)
  obtain r i1 where p: "peek ''&'' t i = (r, i1)" by (cases "peek ''&'' t i")
  obtain tok q e i2 where g: "gettoken t i1 = (tok, (q, e), i2)" by (metis surj_pair)
  note pp = peek_progress(1,2)[OF p] and gp = gettoken_progress[OF g]
  have le: "i1 \<le> length t" "i \<le> i1" "i2 \<le> length t" "i \<le> i2" using pp gp 1(2) by auto
  show ?case
  proof (cases r)
    case True
    have "parsed t i2 (\<lambda>_. True) (Inr (parseback (Backcmd cmd) t i2))"
      by (rule 1(1)[unfolded cmd_constructors, OF p[symmetric] _ g[symmetric] refl]) (use True le 1(3) in auto)
    then have "parsed t i (\<lambda>_. True) (Inr (parseback (Backcmd cmd) t i2))" using le by (auto intro: parsed_mono)
    then show ?thesis using True p g by (subst parseback.simps) simp
  next
    case False
    then show ?thesis using p le 1(3) by (subst parseback.simps) simp
  qed
qed

text \<open>After a symbol that \<open>peek\<close> has seen.\<close>

lemma symbol_next:
  assumes "peek toks t i = (r, j)" r "i \<le> length t"
  shows "j < snd (snd (gettoken t j))" "snd (snd (gettoken t j)) \<le> length t" "i \<le> j"
proof -
  obtain tok q e k where g: "gettoken t j = (tok, (q, e), k)" by (metis surj_pair)
  show "j < snd (snd (gettoken t j))" "snd (snd (gettoken t j)) \<le> length t" "i \<le> j"
    using peek_gettoken[of toks t i j tok q e k] gettoken_progress(3)[OF g] peek_progress(1,2)[OF assms(1)] assms g by simp_all
qed

definition parses :: "parser \<Rightarrow> string \<Rightarrow> nat \<Rightarrow> bool" where
  "parses pr t i = parsed t i (\<lambda>_. True) (pr t i)"

lemma parseblock_ok:
  assumes "i \<le> length t" "\<And>j. i < j \<Longrightarrow> j \<le> length t \<Longrightarrow> parses pl t j"
  shows "parses (parseblock pl) t i"
proof -
  obtain r j where p: "peek ''('' t i = (r, j)" by (cases "peek ''('' t i")
  show ?thesis
  proof (cases r)
    case True
    note n = symbol_next[OF p True assms(1)]
    let ?k = "snd (snd (gettoken t j))"
    have "parsed t i (\<lambda>_. True) (bindE (pl t ?k) (\<lambda>(cmd, i).
        case peek '')'' t i of (found, i) \<Rightarrow>
        if \<not> found then sh_panic ''syntax - missing )''
        else parseredirs cmd t (snd (snd (gettoken t i)))))"
    proof (rule parsed_bind[OF assms(2)[of ?k, unfolded parses_def]], goal_cases)
      case (3 c m)
      obtain r' m' where p': "peek '')'' t m = (r', m')" by (cases "peek '')'' t m")
      show ?case
      proof (cases r')
        case True
        note n' = symbol_next[OF p' True 3(4)]
        show ?thesis using p' True parseredirs_ok[OF n'(2) 3(1)] 3 n n' by (auto intro: parsed_mono)
      qed (use p' in simp)
    qed (use n in simp_all)
    then show ?thesis using p True by (simp add: parses_def parseblock_def)
  qed (use p in \<open>simp add: parses_def parseblock_def\<close>)
qed

lemma parseexec_ok:
  assumes "i \<le> length t" "\<And>j. i < j \<Longrightarrow> j \<le> length t \<Longrightarrow> parses pl t j"
  shows "parses (parseexec pl) t i"
proof -
  obtain r j where p: "peek ''('' t i = (r, j)" by (cases "peek ''('' t i")
  note pp = peek_progress(1,2)[OF p]
  have "parses (parseblock pl) t j" using parseblock_ok[of j t pl] assms pp by simp
  moreover have "parsed t i (\<lambda>_. True) (bindE (parseredirs (Execcmd []) t j) (\<lambda>(ret, i). parseargs 0 ret t i))"
  proof (rule parsed_bind[OF parseredirs_ok], goal_cases)
    case (3 c m)
    then have "parsed t m (\<lambda>_. True) (parseargs 0 c t m)" by (intro parseargs_ok) auto
    then show ?case using 3 pp by (auto intro: parsed_mono)
  qed (use pp assms(1) in \<open>auto simp: MAXARGS_def\<close>)
  ultimately show ?thesis using p pp by (auto simp: parses_def parseexec_def intro: parsed_mono)
qed

lemma parsepipe_ok:
  "i \<le> length t \<Longrightarrow> (\<And>j. i < j \<Longrightarrow> j \<le> length t \<Longrightarrow> parses pl t j) \<Longrightarrow> length t - i < n \<Longrightarrow> parses (parsepipe n pl) t i"
proof (induction n arbitrary: i)
  case (Suc n)
  have e: "parses (parseexec pl) t i" by (rule parseexec_ok) (use Suc.prems in auto)
  have "parsed t i (\<lambda>_. True) (parsepipe (Suc n) pl t i)"
    unfolding parsepipe.simps
  proof (rule parsed_bind[OF e[unfolded parses_def]], goal_cases)
    case (1 c m)
    obtain r j where p: "peek ''|'' t m = (r, j)" by (cases "peek ''|'' t m")
    note pp = peek_progress(1,2)[OF p]
    show ?case
    proof (cases r)
      case True
      note n = symbol_next[OF p True 1(4)]
      let ?k = "snd (snd (gettoken t j))"
      have "parses (parsepipe n pl) t ?k" by (rule Suc.IH) (use Suc.prems n 1 in auto)
      then have "parsed t i (\<lambda>_. True) (bindE (parsepipe n pl t ?k) (\<lambda>(right, i). Inr (Pipecmd c right, i)))"
        unfolding parses_def by (rule parsed_bind) (use 1 n in auto)
      then show ?thesis using p True by simp
    qed (use p pp 1 in auto)
  qed
  then show ?case by (simp add: parses_def)
qed simp

lemma parseline_ok:
  "i \<le> length t \<Longrightarrow> length t - i + 1 < n \<Longrightarrow> parses (parseline n) t i"
proof (induction n arbitrary: i)
  case (Suc n)
  have pl: "parses (parseline n) t j" if "i < j" "j \<le> length t" for j using Suc.prems that by (intro Suc.IH) auto
  have "parses (parsepipe n (parseline n)) t i" using Suc.prems pl by (intro parsepipe_ok) auto
  then have "parsed t i (\<lambda>_. True) (parseline (Suc n) t i)"
    unfolding parseline.simps parses_def
  proof (rule parsed_bind, goal_cases)
    case (1 c m)
    obtain c' m' where b: "parseback c t m = (c', m')" by (cases "parseback c t m")
    have c': "cmd_ok t c'" "m \<le> m'" "m' \<le> length t" using parseback_ok[OF 1(4,1)] b by simp_all
    obtain r j where p: "peek '';'' t m' = (r, j)" by (cases "peek '';'' t m'")
    note pp = peek_progress(1,2)[OF p]
    show ?case
    proof (cases r)
      case True
      note n = symbol_next[OF p True c'(3)]
      let ?k = "snd (snd (gettoken t j))"
      have "parses (parseline n) t ?k" by (rule pl) (use n c' 1 in auto)
      then have "parsed t i (\<lambda>_. True) (bindE (parseline n t ?k) (\<lambda>(right, i). Inr (Listcmd c' right, i)))"
        unfolding parses_def by (rule parsed_bind) (use 1 c' n in auto)
      then show ?thesis using p True b by simp
    qed (use p pp 1 b c' in auto)
  qed
  then show ?case by (simp add: parses_def)
qed (simp add: parses_def)


text \<open>The words after \<open>nulterminate\<close>.\<close>

definition cstring :: "char list \<Rightarrow> nat \<Rightarrow> string" where
  "cstring m q = takeWhile (\<lambda>x. x \<noteq> NUL) (drop q m)"

definition word_at :: "string \<Rightarrow> span \<Rightarrow> string" where
  "word_at t w = (case w of (q, e) \<Rightarrow> take (e - q) (drop q t))"

lemma nulterminate_nth:
  "length (nulterminate c m) = length m"
  "j < length m \<Longrightarrow> nulterminate c m ! j = (if j \<in> snd ` set_cmd c then NUL else m ! j)"
proof -
  have u: "xs[e := v] ! j = (if j = e then v else xs ! j)" if "j < length xs" for xs :: "char list" and e v j
    using that by (cases "j = e") auto
  have f: "length (fold (\<lambda>(q, e) m. m[e := NUL]) ws m) = length m"
    "j < length m \<Longrightarrow> fold (\<lambda>(q, e) m. m[e := NUL]) ws m ! j = (if j \<in> snd ` set ws then NUL else m ! j)" for ws :: "span list" and m :: "char list" and j
    by (induction ws arbitrary: m) (auto simp: u split: prod.splits)
  show l: "length (nulterminate c m) = length m" by (induction c m rule: nulterminate.induct) (simp_all add: f)
  have l: "length (nulterminate c m) = length m" for c m by (induction c m rule: nulterminate.induct) (simp_all add: f)
  show "j < length m \<Longrightarrow> nulterminate c m ! j = (if j \<in> snd ` set_cmd c then NUL else m ! j)"
    by (induction c m rule: nulterminate.induct) (auto simp: f l u)
qed

lemma cmd_ok_words: "cmd_ok t c \<Longrightarrow> w \<in> set_cmd c \<Longrightarrow> is_word t w"
  by (induction c) (auto simp: list_all_iff)

lemma word_terminated:
  assumes ok: "cmd_ok t c" and w: "(q, e) \<in> set_cmd c" and n: "NUL \<notin> set t"
  shows "cstring (nulterminate c (t @ [NUL])) q = word_at t (q, e)"
proof -
  let ?m = "nulterminate c (t @ [NUL])"
  have qe: "q < e" "e \<le> length t" "\<And>j. q \<le> j \<Longrightarrow> j < e \<Longrightarrow> wordchar (t ! j)"
    using cmd_ok_words[OF ok w] by (auto simp: is_word_def)
  have out: "j \<notin> snd ` set_cmd c" if "q \<le> j" "j < e" for j
  proof
    assume "j \<in> snd ` set_cmd c"
    then obtain q' where "(q', j) \<in> set_cmd c" by auto
    then show False using cmd_ok_words[OF ok] qe that by (fastforce simp: is_word_def)
  qed
  have m: "?m ! j = t ! j" if "q \<le> j" "j < e" for j
    using that out[OF that] qe(2) by (auto simp: nulterminate_nth nth_append)
  have me: "?m ! e = NUL" using w qe by (force simp: nulterminate_nth)
  have "drop q ?m = take (e - q) (drop q t) @ NUL # drop (e + 1) ?m"
  proof -
    have "drop q ?m = take (e - q) (drop q ?m) @ drop e ?m" using qe(1) by (metis append_take_drop_id drop_drop le_add_diff_inverse2 less_imp_le)
    moreover have "drop e ?m = ?m ! e # drop (e + 1) ?m" using qe(2) by (simp add: Cons_nth_drop_Suc nulterminate_nth(1))
    moreover have "take (e - q) (drop q ?m) = take (e - q) (drop q t)"
      using qe(1,2) m by (intro nth_equalityI) (auto simp: nulterminate_nth(1))
    ultimately show ?thesis using me by simp
  qed
  moreover have "\<forall>x\<in>set (take (e - q) (drop q t)). x \<noteq> NUL" using n by (auto dest!: in_set_takeD in_set_dropD)
  ultimately show ?thesis by (simp add: cstring_def word_at_def)
qed

text \<open>
  C32.  Parsing a line always ends: \<open>parsecmd\<close> returns a command or panics with a message, whatever the
  line is, and the depth given to the parser is never used up.
\<close>

theorem parsecmd_terminates: "(\<exists>c m. parsecmd t = Inr (c, m)) \<or> (\<exists>msg. parsecmd t = Inl (Panic msg))"
proof -
  have "parsed t 0 (\<lambda>_. True) (parseline (length t + 2) t 0)"
    using parseline_ok[of 0 t "length t + 2"] by (simp add: parses_def)
  then show ?thesis
    by (cases "parseline (length t + 2) t 0") (auto simp: parsecmd_def parsed_def split: stop.splits prod.splits)
qed

text \<open>
  C33.  A parsed command is well formed: fewer than \<open>MAXARGS\<close> words in every command, redirections of
  descriptor 0 or 1 with one of the three modes, and every word a span of the line without blanks and
  symbols.  After \<open>nulterminate\<close> the C string at the start of each word is exactly that word, so ending
  one word never damages another.
\<close>

theorem parsecmd_wellformed:
  assumes "parsecmd t = Inr (c, m)" "NUL \<notin> set t"
  shows "cmd_ok t c \<and> length m = length t + 1 \<and> (\<forall>q e. (q, e) \<in> set_cmd c \<longrightarrow> cstring m q = word_at t (q, e) \<and> q < e)"
proof -
  have "parsed t 0 (\<lambda>_. True) (parseline (length t + 2) t 0)"
    using parseline_ok[of 0 t "length t + 2"] by (simp add: parses_def)
  moreover obtain i where "parseline (length t + 2) t 0 = Inr (c, i)" and m: "m = nulterminate c (t @ [NUL])"
    using assms(1) by (auto simp: parsecmd_def bindE_eq_Inr case_prod_unfold split: if_splits)
  ultimately have c: "cmd_ok t c" by simp
  have "q < e" if "(q, e) \<in> set_cmd c" for q e using cmd_ok_words[OF c that] by (simp add: is_word_def)
  then show ?thesis using c m word_terminated[OF c _ assms(2)] by (auto simp: nulterminate_nth(1))
qed


theorem parsecmd_wellformed_witness:
  "\<exists>m. parsecmd ''ls>f'' = Inr (Redircmd (Execcmd [(0, 2)]) (3, 4) (O_WRONLY OR O_CREATE OR O_TRUNC) 1, m) \<and> cstring m 0 = ''ls'' \<and> cstring m 3 = ''f''"
proof -
  let ?m = "nulterminate (Redircmd (Execcmd [(0, 2)]) (3, 4) (O_WRONLY OR O_CREATE OR O_TRUNC) 1) (''ls>f'' @ [NUL])"
  have e: "parsecmd ''ls>f'' = Inr (Redircmd (Execcmd [(0, 2)]) (3, 4) (O_WRONLY OR O_CREATE OR O_TRUNC) 1, ?m)"
    by (simp add: parsecmd_def parseline.simps parsepipe.simps parseexec_def parseredirs.simps parseargs.simps parseback.simps
        peek_def gettoken_def skip_while.simps Let_def strchr_def whitespace_def symbols_def at_def NUL_def MAXARGS_def numeral_eq_Suc)
  have "NUL \<notin> set ''ls>f''" by (simp add: NUL_def)
  from parsecmd_wellformed[OF e this] show ?thesis using e by (auto simp: word_at_def numeral_eq_Suc)
qed

end
