(* ===== verification/ShellPrint.thy ===== *)
theory ShellPrint
  imports Shell
begin

text \<open>
  The shell's parser is complete: every command can be written as a line that parses to it.

  \<open>show_cmd\<close> writes a command with its parts in parentheses and a blank behind each word;
  \<open>word_at t\<close> takes the spans of a parsed command back to the words of the line.
\<close>

fun show_cmd :: "string cmd \<Rightarrow> string" where
  "show_cmd (Execcmd ws) = concat (map (\<lambda>w. w @ '' '') ws)"
| "show_cmd (Redircmd c w mode fd) = ''('' @ show_cmd c @ '')''
     @ (if fd = 0 then ''<'' else if mode = (O_WRONLY OR O_CREATE) then ''>>'' else ''>'') @ w @ '' ''"
| "show_cmd (Pipecmd l r) = ''('' @ show_cmd l @ '')|('' @ show_cmd r @ '')''"
| "show_cmd (Listcmd l r) = ''('' @ show_cmd l @ '');('' @ show_cmd r @ '')''"
| "show_cmd (Backcmd c) = ''('' @ show_cmd c @ '')&''"

definition word_ok :: "string \<Rightarrow> bool" where
  "word_ok w = (w \<noteq> [] \<and> (\<forall>x\<in>set w. wordchar x \<and> x \<noteq> NUL))"

fun shown_ok :: "string cmd \<Rightarrow> bool" where
  "shown_ok (Execcmd ws) = (length ws < MAXARGS \<and> (\<forall>w\<in>set ws. word_ok w))"
| "shown_ok (Redircmd c w mode fd) = (shown_ok c \<and> word_ok w
     \<and> (mode, fd) \<in> {(O_RDONLY, 0), (O_WRONLY OR O_CREATE OR O_TRUNC, 1), (O_WRONLY OR O_CREATE, 1)})"
| "shown_ok (Pipecmd l r) = (shown_ok l \<and> shown_ok r)"
| "shown_ok (Listcmd l r) = (shown_ok l \<and> shown_ok r)"
| "shown_ok (Backcmd c) = shown_ok c"

subsection \<open>Tokens of a text\<close>

lemma skip_while_takeWhile: "skip_while P t i = i + length (takeWhile P (drop i t))"
proof (induction P t i rule: skip_while.induct)
  case (1 P t i)
  show ?case
  proof (cases "i < length t")
    case True
    then have "drop i t = t ! i # drop (i + 1) t" by (simp add: Cons_nth_drop_Suc)
    then show ?thesis using 1 True by (subst skip_while.simps) simp
  next
    case False
    then show ?thesis by (subst skip_while.simps) simp
  qed
qed

definition solid :: "string \<Rightarrow> bool" where
  "solid r = (case r of [] \<Rightarrow> True | x # _ \<Rightarrow> \<not> strchr whitespace x \<and> x \<noteq> NUL)"

lemma solid_skip: "solid (drop i t) \<Longrightarrow> skip_while (strchr whitespace) t i = i"
  by (auto simp: skip_while_takeWhile solid_def split: list.splits)

lemma at_drop: "at t i = (case drop i t of [] \<Rightarrow> NUL | x # _ \<Rightarrow> x)"
  by (cases "i < length t") (auto simp: at_def Cons_nth_drop_Suc[symmetric])

lemma drop_add: "drop i t = xs @ r \<Longrightarrow> drop (i + length xs) t = r"
  by (metis add.commute append_eq_conv_conj drop_drop)

lemma drop_Cons: "drop i t = x # r \<Longrightarrow> drop (Suc i) t = r"
  using drop_add[of i t "[x]" r] by simp

lemma peek_solid: "solid (drop i t) \<Longrightarrow> peek toks t i = (case drop i t of [] \<Rightarrow> (False, i) | x # _ \<Rightarrow> (x \<in> set toks, i))"
  by (auto simp: peek_def Let_def solid_skip at_drop strchr_def solid_def split: list.splits)

lemma gettoken_symbol:
  assumes "drop i t = x # r" "x \<in> set ''|();&<''" "solid r"
  shows "gettoken t i = (x, (i, i + 1), i + 1)"
proof -
  have "x \<noteq> NUL" "solid (drop i t)" using assms by (auto simp: NUL_def solid_def strchr_def whitespace_def)
  moreover have "skip_while (strchr whitespace) t (Suc i) = Suc i" using assms drop_Cons[OF assms(1)] by (intro solid_skip) simp
  ultimately show ?thesis using assms by (auto simp: gettoken_def Let_def solid_skip at_drop)
qed

lemma gettoken_redir:
  assumes "drop i t = op @ r" "op = ''<'' \<or> op = ''>'' \<or> op = ''>>''" "solid r" "r \<noteq> []" "hd r \<noteq> CHR ''>''"
  shows "gettoken t i = (if op = ''>>'' then CHR ''+'' else hd op, (i, i + length op), i + length op)"
proof -
  have s: "solid (drop i t)" using assms(1,2) by (auto simp: solid_def NUL_def strchr_def whitespace_def)
  have e: "skip_while (strchr whitespace) t (i + length op) = i + length op" using drop_add[OF assms(1)] assms(3) by (intro solid_skip) simp
  have n: "at t (Suc i) = (case drop (Suc i) t of [] \<Rightarrow> NUL | x # _ \<Rightarrow> x)" by (rule at_drop)
  obtain y r' where r: "r = y # r'" "y \<noteq> CHR ''>''" using assms(4,5) by (cases r) auto
  show ?thesis using assms(1,2) s e n r drop_Cons[of i t]
    by (auto simp: gettoken_def Let_def solid_skip at_drop[of t i] NUL_def)
qed

lemma gettoken_shown_word:
  assumes d: "drop i t = w @ '' '' @ r" and w: "word_ok w" and r: "solid r"
  shows "gettoken t i = (CHR ''a'', (i, i + length w), i + length w + 1)" "word_at t (i, i + length w) = w"
proof -
  obtain x w' where x: "w = x # w'" "wordchar x" "x \<noteq> NUL" using w by (cases w) (auto simp: word_ok_def)
  have s: "solid (drop i t)" using x d by (auto simp: solid_def wordchar_def)
  have tw: "takeWhile wordchar (w @ '' '' @ r) = w"
    using w by (subst takeWhile_append2) (auto simp: word_ok_def wordchar_def strchr_def whitespace_def)
  then have e: "skip_while wordchar t i = i + length w" by (simp add: skip_while_takeWhile d)
  have "drop (i + length w) t = '' '' @ r" using drop_add[OF d] .
  then have "takeWhile (strchr whitespace) (drop (i + length w) t) = '' ''"
    using r by (auto simp: strchr_def whitespace_def solid_def split: list.splits)
  then have b: "skip_while (strchr whitespace) t (i + length w) = i + length w + 1" by (simp add: skip_while_takeWhile)
  have sym: "x \<notin> set ''|();&<''" "x \<noteq> CHR ''>''" using x(2) by (auto simp: wordchar_def strchr_def symbols_def)
  have "at t i = x" by (simp add: at_drop d x(1))
  then show "gettoken t i = (CHR ''a'', (i, i + length w), i + length w + 1)"
    using x(3) sym e b s unfolding wordchar_def[abs_def] by (simp add: gettoken_def Let_def solid_skip)
  show "word_at t (i, i + length w) = w" by (simp add: word_at_def d)
qed


subsection \<open>The parser on a printed command\<close>

text \<open>The parser has read \<open>c\<close> and stands before \<open>r\<close>.\<close>

definition yields :: "string \<Rightarrow> (span cmd \<times> nat) res \<Rightarrow> string cmd \<Rightarrow> string \<Rightarrow> bool" where
  "yields t res c r = (\<exists>c' j. res = Inr (c', j) \<and> drop j t = r \<and> j \<le> length t \<and> map_cmd (word_at t) c' = c)"

definition begins :: "string \<Rightarrow> string \<Rightarrow> bool" where
  "begins toks r = (case r of [] \<Rightarrow> False | x # _ \<Rightarrow> x \<in> set toks)"

lemma peek_not: "solid (drop i t) \<Longrightarrow> \<not> begins toks (drop i t) \<Longrightarrow> peek toks t i = (False, i)"
  by (simp add: peek_solid begins_def split: list.splits)

lemma peek_yes: "solid (drop i t) \<Longrightarrow> begins toks (drop i t) \<Longrightarrow> peek toks t i = (True, i)"
  by (cases "drop i t") (auto simp: peek_solid begins_def)

lemma parseredirs_none: "solid (drop i t) \<Longrightarrow> \<not> begins ''<>'' (drop i t) \<Longrightarrow> parseredirs c t i = Inr (c, i)"
  by (subst parseredirs.simps) (simp add: peek_not)

lemma map_add_arg: "map_cmd f (add_arg w c) = add_arg (f w) (map_cmd f c)"
  by (induction c) auto

lemma fold_add_arg: "fold add_arg ws (Execcmd xs) = Execcmd (xs @ ws)"
  by (induction ws arbitrary: xs) auto

lemma word_begins:
  assumes "word_ok w"
  shows "solid (w @ r)" "\<not> begins symbols (w @ r)" "w @ r \<noteq> []" "hd (w @ r) \<noteq> CHR ''>''"
  using assms by (cases w; auto simp: word_ok_def solid_def begins_def wordchar_def strchr_def symbols_def)+

lemma begins_symbols: "\<not> begins symbols r \<Longrightarrow> set toks \<subseteq> set symbols \<Longrightarrow> \<not> begins toks r"
  by (auto simp: begins_def split: list.splits)

lemma shown_words_solid:
  assumes "\<forall>w\<in>set ws. word_ok w" "solid r" "\<not> begins ''<>('' r"
  shows "solid (concat (map (\<lambda>w. w @ '' '') ws) @ r)" "\<not> begins ''<>('' (concat (map (\<lambda>w. w @ '' '') ws) @ r)"
proof -
  have "solid (concat (map (\<lambda>w. w @ '' '') ws) @ r) \<and> \<not> begins ''<>('' (concat (map (\<lambda>w. w @ '' '') ws) @ r)"
  proof (cases ws)
    case (Cons w ws')
    then show ?thesis using word_begins[of w "'' '' @ concat (map (\<lambda>w. w @ '' '') ws') @ r"] assms(1)
      begins_symbols[of "w @ '' '' @ concat (map (\<lambda>w. w @ '' '') ws') @ r" "''<>(''"] by (simp add: symbols_def)
  qed (use assms in simp)
  then show "solid (concat (map (\<lambda>w. w @ '' '') ws) @ r)" "\<not> begins ''<>('' (concat (map (\<lambda>w. w @ '' '') ws) @ r)" by simp_all
qed

lemma parseargs_shown:
  "drop i t = concat (map (\<lambda>w. w @ '' '') ws) @ r \<Longrightarrow> \<forall>w\<in>set ws. word_ok w \<Longrightarrow> solid r \<Longrightarrow> r = [] \<or> begins '')'' r \<Longrightarrow> i \<le> length t \<Longrightarrow>
    argc + length ws < MAXARGS \<Longrightarrow> yields t (parseargs argc ret t i) (fold add_arg ws (map_cmd (word_at t) ret)) r"
proof (induction ws arbitrary: i argc ret)
  case Nil
  show ?case
  proof (cases "r = []")
    case True
    then have "gettoken t i = (NUL, (i, i), i)" "peek ''|)&;'' t i = (False, i)"
      using Nil.prems by (auto simp: gettoken_def Let_def solid_skip at_drop peek_solid solid_def)
    then show ?thesis using Nil.prems True by (subst parseargs.simps) (simp add: yields_def)
  next
    case False
    then have "peek ''|)&;'' t i = (True, i)"
      using Nil.prems by (intro peek_yes) (auto simp: begins_def split: list.splits)
    then show ?thesis using Nil.prems by (subst parseargs.simps) (simp add: yields_def)
  qed
next
  case (Cons w ws)
  let ?r = "concat (map (\<lambda>w. w @ '' '') ws) @ r"
  have d: "drop i t = w @ '' '' @ ?r" and w: "word_ok w" using Cons.prems by simp_all
  have nb: "\<not> begins ''<>('' r" using Cons.prems(4) by (auto simp: begins_def split: list.splits)
  have s: "solid ?r" "\<not> begins ''<>'' ?r" using shown_words_solid[OF _ Cons.prems(3) nb, of ws] Cons.prems(2) by (auto simp: begins_def split: list.splits)
  note g = gettoken_shown_word[OF d w s(1)]
  have p: "peek ''|)&;'' t i = (False, i)"
    using word_begins[OF w, of "'' '' @ ?r"] begins_symbols[of "w @ '' '' @ ?r" "''|)&;''"] by (intro peek_not) (simp_all add: d symbols_def)
  let ?i = "i + length w + 1"
  have d': "drop ?i t = ?r" using drop_add[of i t "w @ '' ''" ?r] d by simp
  have l: "?i \<le> length t" using arg_cong[OF d, of length] by simp
  have "parseargs argc ret t i = bindE (parseredirs (add_arg (i, i + length w) ret) t ?i) (\<lambda>(ret, i3). parseargs (argc + 1) ret t i3)"
    using p g(1) Cons.prems(6) by (subst parseargs.simps) (simp add: NUL_def)
  also have "\<dots> = parseargs (argc + 1) (add_arg (i, i + length w) ret) t ?i"
    using parseredirs_none[of ?i t] s d' by simp
  finally have e: "parseargs argc ret t i = parseargs (argc + 1) (add_arg (i, i + length w) ret) t ?i" .
  have "yields t (parseargs (argc + 1) (add_arg (i, i + length w) ret) t ?i) (fold add_arg ws (map_cmd (word_at t) (add_arg (i, i + length w) ret))) r"
    using Cons.prems l by (intro Cons.IH[OF d']) auto
  then show ?case unfolding e by (simp add: map_add_arg g(2))
qed

lemma parseredirs_shown:
  assumes d: "drop i t = op @ w @ '' '' @ r" and w: "word_ok w" and r: "solid r" "\<not> begins ''<>'' r"
    and op: "op = ''<'' \<and> mode = O_RDONLY \<and> fd = 0 \<or> op = ''>'' \<and> mode = O_WRONLY OR O_CREATE OR O_TRUNC \<and> fd = 1
      \<or> op = ''>>'' \<and> mode = O_WRONLY OR O_CREATE \<and> fd = 1"
  shows "yields t (parseredirs c t i) (Redircmd (map_cmd (word_at t) c) w mode fd) r"
proof -
  note wb = word_begins[OF w, of "'' '' @ r"]
  have p: "peek ''<>'' t i = (True, i)" using d op by (intro peek_yes) (auto simp: solid_def begins_def strchr_def whitespace_def NUL_def)
  let ?k = "i + length op"
  have g: "gettoken t i = (if op = ''>>'' then CHR ''+'' else hd op, (i, ?k), ?k)"
    using gettoken_redir[of i t op "w @ '' '' @ r"] d op wb by auto
  have d2: "drop ?k t = w @ '' '' @ r" using drop_add[OF d] .
  note g2 = gettoken_shown_word[OF d2 w r(1)]
  let ?j = "?k + length w + 1"
  have d3: "drop ?j t = r" using drop_add[of ?k t "w @ '' ''" r] d2 by simp
  have l: "?j \<le> length t" using arg_cong[OF d, of length] by simp
  have "parseredirs c t i = parseredirs (Redircmd c (?k, ?k + length w) mode fd) t ?j"
    using p g g2(1) op by (subst parseredirs.simps) auto
  also have "\<dots> = Inr (Redircmd c (?k, ?k + length w) mode fd, ?j)" using r d3 by (intro parseredirs_none) simp_all
  finally show ?thesis using d3 l g2(2) by (simp add: yields_def)
qed


text \<open>What may follow a command: the end or a symbol that closes it.\<close>

definition closes :: "string \<Rightarrow> bool" where
  "closes r = (r = [] \<or> begins '')'' r)"

lemma closesD: "closes r \<Longrightarrow> solid r" "closes r \<Longrightarrow> x \<noteq> CHR '')'' \<Longrightarrow> \<not> begins [x] r" "closes r \<Longrightarrow> \<not> begins ''<>('' r" "closes r \<Longrightarrow> \<not> begins ''<>'' r"
  by (auto simp: closes_def begins_def solid_def strchr_def whitespace_def NUL_def split: list.splits)

lemma show_cmd_solid: "shown_ok c \<Longrightarrow> closes r \<Longrightarrow> solid (show_cmd c @ r)"
  using shown_words_solid(1)[of _ r] closesD[of r] by (cases c) (auto simp: solid_def strchr_def whitespace_def NUL_def)

lemma parseblock_shown:
  assumes d: "drop i t = ''('' @ show_cmd c @ '')'' @ r" and c: "shown_ok c" and r: "solid r"
    and pl: "yields t (pl t (i + 1)) c ('')'' @ r)"
  shows "\<exists>c' j. parseblock pl t i = parseredirs c' t j \<and> drop j t = r \<and> j \<le> length t \<and> map_cmd (word_at t) c' = c"
    "parseexec pl t i = parseblock pl t i"
proof -
  have si: "solid (drop i t)" unfolding d by (simp add: solid_def strchr_def whitespace_def NUL_def)
  have p: "peek ''('' t i = (True, i)" using si by (rule peek_yes) (simp add: d begins_def)
  then show "parseexec pl t i = parseblock pl t i" by (simp add: parseexec_def)
  have "closes ('')'' @ r)" by (simp add: closes_def begins_def)
  then have "gettoken t i = (CHR ''('', (i, i + 1), i + 1)"
    using show_cmd_solid[OF c, of "'')'' @ r"] d by (intro gettoken_symbol[where r = "show_cmd c @ '')'' @ r"]) simp_all
  moreover obtain c' j where j: "pl t (i + 1) = Inr (c', j)" "drop j t = '')'' @ r" "j \<le> length t" "map_cmd (word_at t) c' = c"
    using pl by (auto simp: yields_def)
  moreover have "peek '')'' t j = (True, j)"
    by (rule peek_yes) (simp_all add: j(2) solid_def begins_def strchr_def whitespace_def NUL_def)
  moreover have "gettoken t j = (CHR '')'', (j, j + 1), j + 1)" using j(2) r by (intro gettoken_symbol) simp_all
  ultimately have "parseblock pl t i = parseredirs c' t (j + 1)" using p by (simp add: parseblock_def)
  moreover have "drop (j + 1) t = r" using drop_add[of j t "'')''" r] j(2) by simp
  moreover have "j + 1 \<le> length t" using arg_cong[OF j(2), of length] by simp
  ultimately show "\<exists>c' j. parseblock pl t i = parseredirs c' t j \<and> drop j t = r \<and> j \<le> length t \<and> map_cmd (word_at t) c' = c"
    using j(4) by blast
qed

text \<open>A block without redirections.\<close>

lemma parseexec_block:
  assumes "drop i t = ''('' @ show_cmd c @ '')'' @ r" "shown_ok c" "solid r" "\<not> begins ''<>'' r" "yields t (pl t (i + 1)) c ('')'' @ r)"
  shows "yields t (parseexec pl t i) c r"
proof -
  obtain c' j where "parseexec pl t i = parseredirs c' t j" "drop j t = r" "j \<le> length t" "map_cmd (word_at t) c' = c"
    using parseblock_shown[where pl = pl, OF assms(1-3,5)] by metis
  then show ?thesis using assms(3,4) parseredirs_none[of j t c'] by (simp add: yields_def)
qed

lemma parsepipe_last:
  assumes "yields t (parseexec pl t i) c r" "solid r" "\<not> begins ''|'' r" "0 < n"
  shows "yields t (parsepipe n pl t i) c r"
proof -
  obtain c' j where j: "parseexec pl t i = Inr (c', j)" "drop j t = r" "j \<le> length t" "map_cmd (word_at t) c' = c"
    using assms(1) by (auto simp: yields_def)
  then show ?thesis using assms(2-4) peek_not[of j t "''|''"] by (cases n) (simp_all add: parsepipe.simps yields_def)
qed

lemma parseback_none: "solid (drop i t) \<Longrightarrow> \<not> begins ''&'' (drop i t) \<Longrightarrow> parseback c t i = (c, i)"
  by (subst parseback.simps) (simp add: peek_not)

lemma parseline_last:
  assumes "yields t (parsepipe n (parseline n) t i) c r" "closes r"
  shows "yields t (parseline (Suc n) t i) c r"
proof -
  obtain c' j where j: "parsepipe n (parseline n) t i = Inr (c', j)" "drop j t = r" "j \<le> length t" "map_cmd (word_at t) c' = c"
    using assms(1) by (auto simp: yields_def)
  have "parseback c' t j = (c', j)" using closesD(1,2)[OF assms(2)] j(2) by (intro parseback_none) simp_all
  moreover have "peek '';'' t j = (False, j)" using closesD(1,2)[OF assms(2)] j(2) by (intro peek_not) simp_all
  ultimately show ?thesis using j by (simp add: parseline.simps yields_def)
qed

lemma block_solid: "solid (''('' @ x)" "\<not> begins ''<>'' (''('' @ x)" "\<not> begins ''|'' (''('' @ x)"
  by (simp_all add: solid_def begins_def strchr_def whitespace_def NUL_def)

lemma parseline_shown:
  "drop i t = show_cmd c @ r \<Longrightarrow> shown_ok c \<Longrightarrow> closes r \<Longrightarrow> i \<le> length t \<Longrightarrow> length t - i + 1 < n \<Longrightarrow> yields t (parseline n t i) c r"
proof (induction c arbitrary: i r n)
  case (Execcmd ws)
  then obtain m where n: "n = Suc m" "0 < m" by (cases n) auto
  note cl = closesD[OF Execcmd.prems(3)]
  have w: "\<forall>w\<in>set ws. word_ok w" "length ws < MAXARGS" using Execcmd.prems(2) by simp_all
  have s: "solid (drop i t)" "\<not> begins ''<>('' (drop i t)" using shown_words_solid[OF w(1) cl(1,3)] Execcmd.prems(1) by simp_all
  then have nb: "\<not> begins ''('' (drop i t)" "\<not> begins ''<>'' (drop i t)" by (auto simp: begins_def split: list.splits)
  have "parseexec pl t i = parseargs 0 (Execcmd []) t i" for pl
    using peek_not[OF s(1) nb(1)] parseredirs_none[OF s(1) nb(2)] by (simp add: parseexec_def)
  moreover have "yields t (parseargs 0 (Execcmd []) t i) (fold add_arg ws (map_cmd (word_at t) (Execcmd []))) r"
    using Execcmd.prems w cl(1) by (intro parseargs_shown) (auto simp: closes_def)
  ultimately have "yields t (parseexec (parseline m) t i) (Execcmd ws) r" by (simp add: fold_add_arg)
  then show ?case unfolding n(1) using cl n(2) Execcmd.prems(3) by (intro parseline_last parsepipe_last) auto
next
  case (Redircmd c w mode fd)
  let ?op = "if fd = 0 then ''<'' else if mode = (O_WRONLY OR O_CREATE) then ''>>'' else ''>''"
  obtain m where n: "n = Suc m" "0 < m" using Redircmd.prems(5) by (cases n) auto
  note cl = closesD[OF Redircmd.prems(3)]
  let ?r = "?op @ w @ '' '' @ r"
  have d: "drop i t = ''('' @ show_cmd c @ '')'' @ ?r" and c: "shown_ok c" and w: "word_ok w" using Redircmd.prems by simp_all
  have modes: "?op = ''<'' \<and> mode = O_RDONLY \<and> fd = 0 \<or> ?op = ''>'' \<and> mode = O_WRONLY OR O_CREATE OR O_TRUNC \<and> fd = 1
      \<or> ?op = ''>>'' \<and> mode = O_WRONLY OR O_CREATE \<and> fd = 1"
    using Redircmd.prems(2) by (auto simp: O_WRONLY_def O_CREATE_def O_TRUNC_def O_RDONLY_def)
  have d1: "drop (i + 1) t = show_cmd c @ '')'' @ ?r" using drop_Cons[of i t] d by simp
  have l1: "i + 1 \<le> length t" using arg_cong[OF d, of length] by simp
  have "yields t (parseline m t (i + 1)) c ('')'' @ ?r)"
    using Redircmd.prems(5) n l1 c by (intro Redircmd.IH[OF d1]) (auto simp: closes_def begins_def)
  then obtain c' j where j: "parseexec (parseline m) t i = parseredirs c' t j" "drop j t = ?r" "j \<le> length t" "map_cmd (word_at t) c' = c"
    using parseblock_shown[OF d c, of "parseline m"] modes by (auto simp: solid_def strchr_def whitespace_def NUL_def)
  have "yields t (parseredirs c' t j) (Redircmd (map_cmd (word_at t) c') w mode fd) r"
    by (rule parseredirs_shown[OF j(2) w cl(1,4) modes])
  then have "yields t (parseexec (parseline m) t i) (Redircmd c w mode fd) r" using j by simp
  then show ?case unfolding n(1) using cl n(2) Redircmd.prems(3) by (intro parseline_last parsepipe_last) auto
next
  case (Pipecmd a b)
  let ?r = "''|('' @ show_cmd b @ '')'' @ r"
  have d: "drop i t = ''('' @ show_cmd a @ '')'' @ ?r" and ok: "shown_ok a" "shown_ok b" using Pipecmd.prems by simp_all
  have len: "length t - i = length (show_cmd a) + length (show_cmd b) + 5 + length r" using arg_cong[OF d, of length] by simp
  obtain m where n: "n = Suc (Suc m)" "0 < m" by (rule that[of "n - 2"]) (use Pipecmd.prems(5) len in simp_all)
  note cl = closesD[OF Pipecmd.prems(3)]
  have d1: "drop (i + 1) t = show_cmd a @ '')'' @ ?r" using drop_Cons[of i t] d by simp
  have "yields t (parseline (Suc m) t (i + 1)) a ('')'' @ ?r)"
    using Pipecmd.prems(5) n len ok by (intro Pipecmd.IH(1)[OF d1]) (auto simp: closes_def begins_def)
  then have "yields t (parseexec (parseline (Suc m)) t i) a ?r"
    by (intro parseexec_block[OF d ok(1)]) (simp_all add: solid_def begins_def strchr_def whitespace_def NUL_def)
  then obtain a' j where j: "parseexec (parseline (Suc m)) t i = Inr (a', j)" "drop j t = ?r" "j \<le> length t" "map_cmd (word_at t) a' = a"
    by (auto simp: yields_def)
  have lj: "length t - j = length (show_cmd b) + 3 + length r" using arg_cong[OF j(2), of length] by simp
  have d2: "drop (j + 1) t = ''('' @ show_cmd b @ '')'' @ r" using drop_Cons[of j t] j(2) by simp
  have d3: "drop (j + 1 + 1) t = show_cmd b @ '')'' @ r" using drop_Cons[of "j + 1" t] d2 by simp
  have "yields t (parseline (Suc m) t (j + 1 + 1)) b ('')'' @ r)"
    using Pipecmd.prems(5) n len lj ok by (intro Pipecmd.IH(2)[OF d3]) (auto simp: closes_def begins_def)
  then have "yields t (parsepipe m (parseline (Suc m)) t (j + 1)) b r"
    using n(2) cl by (intro parsepipe_last parseexec_block[OF d2 ok(2)]) auto
  then obtain b' k where k: "parsepipe m (parseline (Suc m)) t (j + 1) = Inr (b', k)" "drop k t = r" "k \<le> length t" "map_cmd (word_at t) b' = b"
    by (auto simp: yields_def)
  have "peek ''|'' t j = (True, j)" by (rule peek_yes) (simp_all add: j(2) solid_def begins_def strchr_def whitespace_def NUL_def)
  moreover have "gettoken t j = (CHR ''|'', (j, j + 1), j + 1)" using j(2) block_solid(1) by (intro gettoken_symbol) auto
  ultimately have "yields t (parsepipe (Suc m) (parseline (Suc m)) t i) (Pipecmd a b) r"
    using j(1,4) k by (simp add: parsepipe.simps(2) yields_def)
  then show ?case unfolding n(1) using Pipecmd.prems(3) by (rule parseline_last)
next
  case (Listcmd a b)
  let ?r = "'';('' @ show_cmd b @ '')'' @ r"
  have d: "drop i t = ''('' @ show_cmd a @ '')'' @ ?r" and ok: "shown_ok a" "shown_ok b" using Listcmd.prems by simp_all
  have len: "length t - i = length (show_cmd a) + length (show_cmd b) + 5 + length r" using arg_cong[OF d, of length] by simp
  obtain m where n: "n = Suc (Suc m)" "0 < m" by (rule that[of "n - 2"]) (use Listcmd.prems(5) len in simp_all)
  note cl = closesD[OF Listcmd.prems(3)]
  have d1: "drop (i + 1) t = show_cmd a @ '')'' @ ?r" using drop_Cons[of i t] d by simp
  have "yields t (parseline (Suc m) t (i + 1)) a ('')'' @ ?r)"
    using Listcmd.prems(5) n len ok by (intro Listcmd.IH(1)[OF d1]) (auto simp: closes_def begins_def)
  then have "yields t (parsepipe (Suc m) (parseline (Suc m)) t i) a ?r"
    by (intro parsepipe_last parseexec_block[OF d ok(1)]) (simp_all add: solid_def begins_def strchr_def whitespace_def NUL_def)
  then obtain a' j where j: "parsepipe (Suc m) (parseline (Suc m)) t i = Inr (a', j)" "drop j t = ?r" "j \<le> length t" "map_cmd (word_at t) a' = a"
    by (auto simp: yields_def)
  have lj: "length t - j = length (show_cmd b) + 3 + length r" using arg_cong[OF j(2), of length] by simp
  have d2: "drop (j + 1) t = ''('' @ show_cmd b @ '')'' @ r" using drop_Cons[of j t] j(2) by simp
  have d3: "drop (j + 1 + 1) t = show_cmd b @ '')'' @ r" using drop_Cons[of "j + 1" t] d2 by simp
  have "yields t (parseline m t (j + 1 + 1)) b ('')'' @ r)"
    using Listcmd.prems(5) n len lj ok by (intro Listcmd.IH(2)[OF d3]) (auto simp: closes_def begins_def)
  then have "yields t (parseline (Suc m) t (j + 1)) b r"
    using n(2) cl Listcmd.prems(3) by (intro parseline_last parsepipe_last parseexec_block[OF d2 ok(2)]) auto
  then obtain b' k where k: "parseline (Suc m) t (j + 1) = Inr (b', k)" "drop k t = r" "k \<le> length t" "map_cmd (word_at t) b' = b"
    by (auto simp: yields_def)
  have sj: "solid (drop j t)" by (simp add: j(2) solid_def strchr_def whitespace_def NUL_def)
  have "peek '';'' t j = (True, j)" using sj by (rule peek_yes) (simp add: j(2) begins_def)
  moreover have "gettoken t j = (CHR '';'', (j, j + 1), j + 1)" using j(2) block_solid(1) by (intro gettoken_symbol) auto
  moreover have "parseback a' t j = (a', j)" using sj by (rule parseback_none) (simp add: j(2) begins_def)
  ultimately show ?case unfolding n(1) using j(1,4) k by (simp add: parseline.simps(2)[of "Suc m"] yields_def)
next
  case (Backcmd c)
  let ?r = "''&'' @ r"
  have d: "drop i t = ''('' @ show_cmd c @ '')'' @ ?r" and ok: "shown_ok c" using Backcmd.prems by simp_all
  have len: "length t - i = length (show_cmd c) + 3 + length r" using arg_cong[OF d, of length] by simp
  obtain m where n: "n = Suc m" "0 < m" using Backcmd.prems(5) by (cases n) auto
  note cl = closesD[OF Backcmd.prems(3)]
  have d1: "drop (i + 1) t = show_cmd c @ '')'' @ ?r" using drop_Cons[of i t] d by simp
  have "yields t (parseline m t (i + 1)) c ('')'' @ ?r)"
    using Backcmd.prems(5) n len ok by (intro Backcmd.IH[OF d1]) (auto simp: closes_def begins_def)
  then have "yields t (parsepipe m (parseline m) t i) c ?r"
    using n(2) by (intro parsepipe_last parseexec_block[OF d ok]) (simp_all add: solid_def begins_def strchr_def whitespace_def NUL_def)
  then obtain c' j where j: "parsepipe m (parseline m) t i = Inr (c', j)" "drop j t = ?r" "j \<le> length t" "map_cmd (word_at t) c' = c"
    by (auto simp: yields_def)
  have d2: "drop (j + 1) t = r" using drop_Cons[of j t] j(2) by simp
  have l2: "j + 1 \<le> length t" using arg_cong[OF j(2), of length] by simp
  have "peek ''&'' t j = (True, j)" by (rule peek_yes) (simp_all add: j(2) solid_def begins_def strchr_def whitespace_def NUL_def)
  moreover have "gettoken t j = (CHR ''&'', (j, j + 1), j + 1)" using j(2) cl(1) by (intro gettoken_symbol) auto
  moreover have "parseback (Backcmd c') t (j + 1) = (Backcmd c', j + 1)" using cl d2 by (intro parseback_none) simp_all
  ultimately have "parseback c' t j = (Backcmd c', j + 1)" by (subst parseback.simps) simp
  moreover have "peek '';'' t (j + 1) = (False, j + 1)" using cl d2 by (intro peek_not) simp_all
  ultimately show ?case unfolding n(1) using j(1,4) d2 l2 by (simp add: parseline.simps yields_def)
qed

text \<open>
  C34.  Printing and parsing.  Every command whose words are not empty and have no blanks, symbols or
  NULs, with fewer than \<open>MAXARGS\<close> words per command and the redirections the shell knows, is the result
  of parsing the line that \<open>show_cmd\<close> writes for it.
\<close>

theorem parse_show_cmd:
  assumes "shown_ok c"
  shows "\<exists>c' m. parsecmd (show_cmd c) = Inr (c', m) \<and> map_cmd (word_at (show_cmd c)) c' = c"
proof -
  let ?t = "show_cmd c"
  have "yields ?t (parseline (length ?t + 2) ?t 0) c []"
    using assms by (intro parseline_shown) (auto simp: closes_def)
  then obtain c' j where j: "parseline (length ?t + 2) ?t 0 = Inr (c', j)" "drop j ?t = []" "j \<le> length ?t" "map_cmd (word_at ?t) c' = c"
    by (auto simp: yields_def)
  moreover have "peek [] ?t j = (False, j)" using j(2) by (intro peek_not) (simp_all add: solid_def begins_def)
  moreover have "j = length ?t" using j(2,3) by simp
  ultimately show ?thesis by (simp add: parsecmd_def)
qed

theorem parse_show_cmd_witness:
  "\<exists>c' m. parsecmd ''(grep x )|((wc );(ls a ))'' = Inr (c', m)
    \<and> map_cmd (word_at ''(grep x )|((wc );(ls a ))'') c' = Pipecmd (Execcmd [''grep'', ''x'']) (Listcmd (Execcmd [''wc'']) (Execcmd [''ls'', ''a'']))"
proof -
  let ?c = "Pipecmd (Execcmd [''grep'', ''x'']) (Listcmd (Execcmd [''wc'']) (Execcmd [''ls'', ''a'']))"
  have "shown_ok ?c" by (simp add: word_ok_def wordchar_def strchr_def whitespace_def symbols_def NUL_def MAXARGS_def)
  from parse_show_cmd[OF this] show ?thesis by simp
qed

end
