(* ===== verification/Umalloc.thy ===== *)
theory Umalloc
  imports Xv6_Prelude
begin

text \<open>
  The memory allocator of user programs, \<^verbatim>\<open>user/umalloc.c\<close>.

  Pointers are byte addresses.  The memory is seen through the two fields of the headers: \<open>hptr\<close> and
  \<open>hsize\<close> give the fields of the header at an address.  \<open>base\<close> is the address of the static header, an
  argument.  \<open>brk\<close> is the end of the process's memory, \<open>limit\<close> a point beyond which the kernel never moves
  it, and \<open>grants\<close> its answers to the requests below that point: it may refuse any of them, for want of
  pages.  The two searches follow links without a bound of their own; \<open>None\<close> is a search that never ends.
\<close>

record uheap =
  hptr :: "nat \<Rightarrow> nat"
  hsize :: "nat \<Rightarrow> nat"
  freep :: nat
  brk :: nat
  limit :: nat
  grants :: "bool list"

definition HDR :: nat where "HDR = 16"

definition set_ptr :: "nat \<Rightarrow> nat \<Rightarrow> uheap \<Rightarrow> uheap" where
  "set_ptr p x s = s\<lparr>hptr := (hptr s)(p := x)\<rparr>"

definition set_size :: "nat \<Rightarrow> nat \<Rightarrow> uheap \<Rightarrow> uheap" where
  "set_size p n s = s\<lparr>hsize := (hsize s)(p := n mod 2 ^ 32)\<rparr>"

text \<open>The loop of \<open>free\<close>: the place \<open>p\<close> after which \<open>bp\<close> goes.\<close>

partial_function (option) free_place :: "uheap \<Rightarrow> nat \<Rightarrow> nat \<Rightarrow> nat option" where
  "free_place s bp p =
     (if bp > p \<and> bp < hptr s p then Some p
      else if p \<ge> hptr s p \<and> (bp > p \<or> bp < hptr s p) then Some p
      else free_place s bp (hptr s p))"

definition free_join :: "nat \<Rightarrow> nat \<Rightarrow> uheap \<Rightarrow> uheap" where
  "free_join bp p s =
     (let s = (if bp + HDR * hsize s bp = hptr s p
               then let s = set_size bp (hsize s bp + hsize s (hptr s p)) s in set_ptr bp (hptr s (hptr s p)) s
               else set_ptr bp (hptr s p) s);
          s = (if p + HDR * hsize s p = bp
               then let s = set_size p (hsize s p + hsize s bp) s in set_ptr p (hptr s bp) s
               else set_ptr p bp s)
      in s\<lparr>freep := p\<rparr>)"

definition free :: "nat \<Rightarrow> uheap \<Rightarrow> uheap option" where
  "free ap s =
     (let bp = ap - HDR in
      case free_place s bp (freep s) of None \<Rightarrow> None | Some p \<Rightarrow> Some (free_join bp p s))"

text \<open>
  Moving the break, as \<open>growproc\<close> in \<^verbatim>\<open>kernel/proc.c\<close> does it.  Growing fails beyond the limit and when
  \<open>uvmalloc\<close> finds no pages, which is the next answer of \<open>grants\<close>; when there is no answer left it
  fails.  Shrinking always succeeds, and shrinking by more than there is leaves the size as it was, since
  the 64-bit sum wraps round to a larger one.  \<open>sbrk\<close> takes an \<open>int\<close>, asks for the memory at once, and
  returns the old break.
\<close>

definition grow :: "int \<Rightarrow> uheap \<Rightarrow> bool \<times> uheap" where
  "grow n s =
     (if 0 < n then
        if int (brk s) + n > int (limit s) then (False, s)
        else (case grants s of
            [] \<Rightarrow> (False, s)
          | g # gs \<Rightarrow> (g, s\<lparr>brk := (if g then nat (int (brk s) + n) else brk s), grants := gs\<rparr>))
      else (True, if int (brk s) + n < 0 then s else s\<lparr>brk := nat (int (brk s) + n)\<rparr>))"

definition sbrk :: "int \<Rightarrow> uheap \<Rightarrow> nat option \<times> uheap" where
  "sbrk n s = (case grow n s of (good, s') \<Rightarrow> (if good then Some (brk s) else None, s'))"

definition morecore :: "nat \<Rightarrow> uheap \<Rightarrow> (nat \<times> uheap) option" where
  "morecore nu s =
     (let nu = (if nu < 4096 then 4096 else nu) in
      case sbrk (i32 (int (nu * HDR))) s of
        (None, s) \<Rightarrow> Some (0, s)
      | (Some hp, s) \<Rightarrow>
          (case free (hp + HDR) (set_size hp nu s) of None \<Rightarrow> None | Some s \<Rightarrow> Some (freep s, s)))"

text \<open>Cutting a block that is large enough: the whole of it, or its tail.\<close>

definition malloc_take :: "nat \<Rightarrow> nat \<Rightarrow> nat \<Rightarrow> uheap \<Rightarrow> nat \<times> uheap" where
  "malloc_take nunits prevp p s =
     (let (p, s) =
        (if hsize s p = nunits then (p, set_ptr prevp (hptr s p) s)
         else let s = set_size p (hsize s p - nunits) s; p' = p + HDR * hsize s p
              in (p', set_size p' nunits s))
      in (p + HDR, s\<lparr>freep := prevp\<rparr>))"

partial_function (option) malloc_loop :: "nat \<Rightarrow> nat \<Rightarrow> nat \<Rightarrow> uheap \<Rightarrow> (nat \<times> uheap) option" where
  "malloc_loop nunits prevp p s =
     (if hsize s p \<ge> nunits then Some (malloc_take nunits prevp p s)
      else if p = freep s then
        (case morecore nunits s of
           None \<Rightarrow> None
         | Some (p, s) \<Rightarrow> if p = 0 then Some (0, s) else malloc_loop nunits p (hptr s p) s)
      else malloc_loop nunits p (hptr s p) s)"

definition malloc :: "nat \<Rightarrow> nat \<Rightarrow> uheap \<Rightarrow> (nat \<times> uheap) option" where
  "malloc base nbytes s =
     (let nunits = (nbytes + HDR - 1) div HDR + 1;
          s = (if freep s = 0 then set_size base 0 ((set_ptr base base s)\<lparr>freep := base\<rparr>) else s)
      in malloc_loop nunits (freep s) (hptr s (freep s)) s)"

declare free_place.simps [simp del] malloc_loop.simps [simp del]

subsection \<open>The free list\<close>

fun lpath :: "(nat \<Rightarrow> nat) \<Rightarrow> nat \<Rightarrow> nat list \<Rightarrow> nat \<Rightarrow> bool" where
  "lpath nx a [] z = (nx a = z)"
| "lpath nx a (x # xs) z = (nx a = x \<and> lpath nx x xs z)"

definition heap_ok :: "nat \<Rightarrow> uheap \<Rightarrow> nat list \<Rightarrow> bool" where
  "heap_ok base s bs = (lpath (hptr s) base bs base \<and> sorted_wrt (\<lambda>x y. x + HDR * hsize s x < y) (base # bs)
     \<and> 0 < base \<and> hsize s base = 0 \<and> (\<forall>x\<in>set bs. 0 < hsize s x \<and> base + HDR \<le> x \<and> x + HDR * hsize s x \<le> brk s)
     \<and> base + HDR \<le> brk s \<and> brk s \<le> limit s \<and> limit s < 2 ^ 36 \<and> freep s \<in> set (base # bs))"

definition blk :: "uheap \<Rightarrow> nat \<Rightarrow> nat set" where
  "blk s b = {b..<b + HDR * hsize s b}"

definition free_bytes :: "uheap \<Rightarrow> nat list \<Rightarrow> nat set" where
  "free_bytes s bs = (\<Union>b\<in>set bs. blk s b)"

lemma lpath_append: "lpath nx a (xs @ y # ys) z \<longleftrightarrow> lpath nx a xs y \<and> lpath nx y ys z"
  by (induction xs arbitrary: a) auto

lemma lpath_upd: "lpath nx a xs z \<Longrightarrow> b \<notin> set (a # xs) \<Longrightarrow> lpath (nx(b := v)) a xs z"
  by (induction xs arbitrary: a) auto

lemma lpath_last: "lpath nx a xs z \<Longrightarrow> distinct (a # xs) \<Longrightarrow> lpath (nx(last (a # xs) := v)) a xs v"
proof (induction xs arbitrary: a)
  case (Cons x xs)
  have l: "last (a # x # xs) = last (x # xs)" by simp
  have "last (x # xs) \<in> set (x # xs)" by (rule last_in_set) simp
  then have "a \<noteq> last (x # xs)" using Cons.prems(2) by auto
  moreover have "lpath (nx(last (x # xs) := v)) x xs v" by (rule Cons.IH) (use Cons.prems in simp_all)
  ultimately show ?case using Cons.prems(1) unfolding l lpath.simps by (auto simp del: last.simps)
qed simp

lemma lpath_next: "lpath nx a xs z \<Longrightarrow> nx (last (a # xs)) = z"
  by (induction xs arbitrary: a) auto

lemma free_place_up:
  assumes "lpath (hptr s) a ys n" "sorted_wrt (<) (a # ys)" "\<forall>x\<in>set (a # ys). x < bp" "bp < n \<or> n \<le> a"
  shows "free_place s bp a = Some (last (a # ys))"
  using assms
proof (induction ys arbitrary: a)
  case Nil
  then show ?case by (subst free_place.simps) auto
next
  case (Cons y ys)
  have "free_place s bp y = Some (last (y # ys))" using Cons.prems by (intro Cons.IH) auto
  then show ?case using Cons.prems by (subst free_place.simps) auto
qed


lemma free_place_down:
  assumes "lpath (hptr s) a ys base" "sorted_wrt (<) (a # ys)" "\<forall>x\<in>set (a # ys). bp < x" "base < bp"
  shows "free_place s bp a = free_place s bp base"
  using assms
proof (induction ys arbitrary: a)
  case Nil
  then show ?case by (subst free_place.simps) auto
next
  case (Cons y ys)
  have "free_place s bp y = free_place s bp base" using Cons.prems by (intro Cons.IH) auto
  then show ?case using Cons.prems by (subst free_place.simps) auto
qed

lemma heap_okD:
  assumes "heap_ok base s bs"
  shows "lpath (hptr s) base bs base" "sorted_wrt (\<lambda>x y. x + HDR * hsize s x < y) (base # bs)" "0 < base" "hsize s base = 0"
    "x \<in> set bs \<Longrightarrow> 0 < hsize s x \<and> base + HDR \<le> x \<and> x + HDR * hsize s x \<le> brk s" "base + HDR \<le> brk s" "freep s \<in> set (base # bs)"
    "sorted_wrt (<) (base # bs)" "distinct (base # bs)" "brk s \<le> limit s" "limit s < 2 ^ 36"
proof -
  show a: "lpath (hptr s) base bs base" "sorted_wrt (\<lambda>x y. x + HDR * hsize s x < y) (base # bs)" "0 < base" "hsize s base = 0"
    "x \<in> set bs \<Longrightarrow> 0 < hsize s x \<and> base + HDR \<le> x \<and> x + HDR * hsize s x \<le> brk s" "base + HDR \<le> brk s" "freep s \<in> set (base # bs)"
    "brk s \<le> limit s" "limit s < 2 ^ 36"
    using assms unfolding heap_ok_def by blast+
  show "sorted_wrt (<) (base # bs)" using a(2) by (rule sorted_wrt_mono_rel[rotated]) simp
  then show "distinct (base # bs)" by (auto simp: strict_sorted_iff)
qed

lemma heap_ok_grants [simp]: "heap_ok base (s\<lparr>grants := g\<rparr>) bs = heap_ok base s bs"
  by (simp add: heap_ok_def)

text \<open>Sizes of blocks below the limit fit their field.\<close>

lemma set_size_fits: "b + HDR * n \<le> m \<Longrightarrow> m < 2 ^ 36 \<Longrightarrow> set_size p n s = s\<lparr>hsize := (hsize s)(p := n)\<rparr>"
  by (simp add: set_size_def HDR_def)

lemma lpath_split: "lpath nx a (xs @ ys) z \<longleftrightarrow> (\<exists>n. lpath nx a xs n \<and> (case ys of [] \<Rightarrow> n = z | y # ys' \<Rightarrow> n = y \<and> lpath nx y ys' z))"
  by (induction xs arbitrary: a) (auto split: list.splits)

lemma lpath_from:
  assumes "lpath nx a xs z" "f \<in> set (a # xs)"
  obtains us vs where "a # xs = us @ f # vs" "lpath nx f vs z"
proof -
  obtain us vs where e: "a # xs = us @ f # vs" using split_list[OF assms(2)] by blast
  show ?thesis
  proof (cases us)
    case Nil
    then show ?thesis using that e assms(1) by auto
  next
    case (Cons b us')
    then show ?thesis using that[OF e] e assms(1) by (auto simp: lpath_append)
  qed
qed

lemma free_place_found:
  assumes ok: "heap_ok base s (as @ cs)" and as: "\<forall>x\<in>set (base # as). x < bp" and cs: "\<forall>x\<in>set cs. bp < x" and f: "f \<in> set (base # as @ cs)"
  shows "free_place s bp f = Some (last (base # as))" "hptr s (last (base # as)) = (case cs of [] \<Rightarrow> base | c # _ \<Rightarrow> c)"
proof -
  let ?n = "case cs of [] \<Rightarrow> base | c # _ \<Rightarrow> c"
  note h = heap_okD[OF ok]
  have pa: "lpath (hptr s) base as ?n" and pc: "cs = c # cs' \<Longrightarrow> lpath (hptr s) c cs' base" for c cs'
    using h(1) unfolding lpath_split by (auto split: list.splits)
  show "hptr s (last (base # as)) = ?n" using lpath_next[OF pa] .
  have low: "free_place s bp x = Some (last (base # as))" if x: "x \<in> set (base # as)" for x
  proof -
    obtain us vs where e: "base # as = us @ x # vs" "lpath (hptr s) x vs ?n" using lpath_from[OF pa x] by blast
    have srt: "sorted_wrt (<) (us @ x # vs)" using h(8) unfolding e(1)[symmetric] by (simp add: sorted_wrt_append)
    have "base \<le> x" using h(8) x by (auto intro: less_imp_le)
    then have "free_place s bp x = Some (last (x # vs))"
      using srt as cs unfolding e(1) by (intro free_place_up[OF e(2)]) (auto simp: sorted_wrt_append split: list.splits)
    moreover have "last (base # as) = last (x # vs)" unfolding e(1) by simp
    ultimately show ?thesis by simp
  qed
  show "free_place s bp f = Some (last (base # as))"
  proof (cases "f \<in> set (base # as)")
    case False
    then have fc: "f \<in> set cs" using f by auto
    then obtain c cs' where c: "cs = c # cs'" by (cases cs) auto
    obtain us vs where e: "c # cs' = us @ f # vs" "lpath (hptr s) f vs base" using lpath_from[OF pc[OF c], of f] fc c by auto
    have "sorted_wrt (<) (us @ f # vs)" using h(8) unfolding c e(1)[symmetric] by (simp add: sorted_wrt_append)
    then have "free_place s bp f = free_place s bp base"
      using cs as unfolding c e(1) by (intro free_place_down[OF e(2)]) (auto simp: sorted_wrt_append)
    then show ?thesis using low[of base] by simp
  qed (rule low)
qed


text \<open>A block outside the free list, and its place in it.\<close>

definition outside :: "nat \<Rightarrow> uheap \<Rightarrow> nat list \<Rightarrow> nat \<Rightarrow> bool" where
  "outside base s bs bp = (base + HDR \<le> bp \<and> 0 < hsize s bp \<and> bp + HDR * hsize s bp \<le> brk s \<and> blk s bp \<inter> free_bytes s bs = {})"

lemma blk_self: "0 < hsize s b \<Longrightarrow> b \<in> blk s b"
  by (simp add: blk_def HDR_def)

lemma outside_apart:
  assumes "heap_ok base s bs" "outside base s bs bp" "x \<in> set bs"
  shows "x + HDR * hsize s x \<le> bp \<or> bp + HDR * hsize s bp \<le> x"
proof -
  have e: "blk s bp \<inter> blk s x = {}" "0 < hsize s bp" "0 < hsize s x"
    using assms heap_okD(5)[OF assms(1,3)] by (auto simp: outside_def free_bytes_def)
  have "bp \<notin> blk s x" "x \<notin> blk s bp" using e blk_self[of s bp] blk_self[of s x] by auto
  then show ?thesis by (auto simp: blk_def)
qed

lemma outside_split:
  assumes ok: "heap_ok base s bs" and out: "outside base s bs bp"
  obtains as cs where "bs = as @ cs" "\<forall>x\<in>set (base # as). x < bp" "\<forall>x\<in>set cs. bp < x"
    "\<forall>x\<in>set (base # as). x + HDR * hsize s x \<le> bp" "\<forall>x\<in>set cs. bp + HDR * hsize s bp \<le> x"
proof -
  let ?as = "takeWhile (\<lambda>x. x < bp) bs" and ?cs = "dropWhile (\<lambda>x. x < bp) bs"
  note h = heap_okD[OF ok]
  have bb: "base < bp" "0 < hsize s bp" using out by (auto simp: outside_def HDR_def)
  have cs: "bp \<le> x" if "x \<in> set ?cs" for x
  proof (cases ?cs)
    case (Cons c cs')
    then have c: "\<not> c < bp" using hd_dropWhile[of "\<lambda>x. x < bp" bs] by simp
    have "sorted_wrt (<) (?as @ ?cs)" using h(8) by simp
    then have "sorted_wrt (<) (c # cs')" unfolding Cons by (simp add: sorted_wrt_append)
    then show ?thesis using c that unfolding Cons by auto
  next
    case Nil
    show ?thesis using that unfolding Nil by simp
  qed
  have a: "x + HDR * hsize s x \<le> bp" if "x \<in> set ?as" for x
  proof -
    have "x \<in> set bs" "x < bp" using that set_takeWhileD by fastforce+
    then show ?thesis using outside_apart[OF ok out, of x] by auto
  qed
  have c: "bp + HDR * hsize s bp \<le> x" if "x \<in> set ?cs" for x
  proof -
    have x: "x \<in> set bs" using that set_dropWhileD by fastforce
    have "0 < HDR * hsize s x" using heap_okD(5)[OF ok x] by (simp add: HDR_def)
    then show ?thesis using outside_apart[OF ok out x] cs[OF that] by linarith
  qed
  have "0 < HDR * hsize s bp" using bb(2) by (simp add: HDR_def)
  then have "bp < x" if "x \<in> set ?cs" for x using c[OF that] by linarith
  then have c': "\<forall>x\<in>set ?cs. bp < x" by blast
  have a': "\<forall>x\<in>set (base # ?as). x < bp" using bb(1) by (auto dest: set_takeWhileD)
  have "\<forall>x\<in>set (base # ?as). x + HDR * hsize s x \<le> bp" using a bb(1) h(4) by simp
  then show ?thesis using that[OF _ a' c'] c by simp
qed

lemma apart_cong:
  "sorted_wrt (\<lambda>x y. x + HDR * f x < y) xs \<Longrightarrow> \<forall>x\<in>set xs. g x = f x \<Longrightarrow> sorted_wrt (\<lambda>x y. x + HDR * g x < y) xs"
  by (induction xs) auto

text \<open>Joining with the block above, then with the one below.\<close>

definition join_up :: "nat \<Rightarrow> nat \<Rightarrow> uheap \<Rightarrow> uheap" where
  "join_up bp p s = (if bp + HDR * hsize s bp = hptr s p
     then let s = set_size bp (hsize s bp + hsize s (hptr s p)) s in set_ptr bp (hptr s (hptr s p)) s
     else set_ptr bp (hptr s p) s)"

definition join_down :: "nat \<Rightarrow> nat \<Rightarrow> uheap \<Rightarrow> uheap" where
  "join_down bp p s = (if p + HDR * hsize s p = bp
     then let s = set_size p (hsize s p + hsize s bp) s in set_ptr p (hptr s bp) s
     else set_ptr p bp s)"

lemma free_join_alt: "free_join bp p s = (join_down bp p (join_up bp p s))\<lparr>freep := p\<rparr>"
  by (simp add: free_join_def join_up_def join_down_def Let_def)

lemma join_up_list:
  assumes ok: "heap_ok base s (as @ cs)" and out: "outside base s (as @ cs) bp"
    and as: "\<forall>x\<in>set (base # as). x < bp" and cs: "\<forall>x\<in>set cs. bp + HDR * hsize s bp \<le> x" "\<forall>x\<in>set cs. bp < x"
  defines "p \<equiv> last (base # as)"
  defines "t \<equiv> join_up bp p s"
  shows "\<exists>ds. (\<forall>x. x \<noteq> bp \<longrightarrow> hptr t x = hptr s x \<and> hsize t x = hsize s x) \<and> brk t = brk s \<and> limit t = limit s
    \<and> lpath (hptr t) bp ds base \<and> sorted_wrt (\<lambda>x y. x + HDR * hsize t x < y) (bp # ds) \<and> set ds \<subseteq> set cs
    \<and> blk t bp \<union> free_bytes t ds = blk s bp \<union> free_bytes s cs \<and> hsize s bp \<le> hsize t bp \<and> bp + HDR * hsize t bp \<le> brk s"
proof -
  note h = heap_okD[OF ok]
  have nx: "hptr s p = (case cs of [] \<Rightarrow> base | c # _ \<Rightarrow> c)" unfolding p_def by (rule free_place_found(2)[OF ok as cs(2), of base]) simp
  have bb: "base < bp" "base \<noteq> bp + HDR * hsize s bp" using as by auto
  have brk: "bp + HDR * hsize s bp \<le> brk s" using out by (simp add: outside_def)
  have nb: "bp \<notin> set cs" using cs(2) by auto
  have pc: "cs = c # ds \<Longrightarrow> lpath (hptr s) c ds base" for c ds
    using h(1) unfolding lpath_split by (auto split: list.splits)
  have sc: "sorted_wrt (\<lambda>x y. x + HDR * hsize s x < y) cs" using h(2) by (simp add: sorted_wrt_append)
  show ?thesis
  proof (cases "\<exists>c ds. cs = c # ds \<and> bp + HDR * hsize s bp = c")
    case True
    then obtain c ds where c: "cs = c # ds" "c = bp + HDR * hsize s bp" by auto
    have cb: "c + HDR * hsize s c \<le> brk s" using h(5)[of c] c(1) by simp
    have t: "t = set_ptr bp (hptr s c) (s\<lparr>hsize := (hsize s)(bp := hsize s bp + hsize s c)\<rparr>)"
    proof -
      have n: "hptr s p = c" using nx c(1) by simp
      have "bp + HDR * (hsize s bp + hsize s c) \<le> limit s" using cb h(10) unfolding c(2) by (simp add: add_mult_distrib2)
      from set_size_fits[OF this h(11), of bp s] show ?thesis
        unfolding t_def join_up_def n by (simp add: Let_def n c(2)[symmetric])
    qed
    have e: "bp + HDR * hsize t bp = c + HDR * hsize s c" by (simp add: t set_ptr_def c(2) algebra_simps)
    have "lpath (hptr t) c ds base" using pc[OF c(1)] nb c(1) unfolding t set_ptr_def by (auto intro: lpath_upd)
    then have "lpath (hptr t) bp ds base" by (cases ds) (auto simp: t set_ptr_def)
    moreover have "sorted_wrt (\<lambda>x y. x + HDR * hsize t x < y) (bp # ds)"
    proof -
      have "\<forall>y\<in>set ds. bp + HDR * hsize t bp < y" using sc c(1) unfolding e by simp
      moreover have "sorted_wrt (\<lambda>x y. x + HDR * hsize t x < y) ds"
        by (rule apart_cong[of "hsize s"]) (use sc c(1) nb in \<open>auto simp: t set_ptr_def\<close>)
      ultimately show ?thesis by simp
    qed
    moreover have "blk t bp \<union> free_bytes t ds = blk s bp \<union> free_bytes s cs"
    proof -
      have "blk t bp = blk s bp \<union> blk s c" unfolding blk_def e c(2) by auto
      moreover have "blk t x = blk s x" if "x \<in> set ds" for x using that nb c(1) by (auto simp: blk_def t set_ptr_def)
      ultimately show ?thesis unfolding free_bytes_def c(1) by auto
    qed
    moreover have "\<forall>x. x \<noteq> bp \<longrightarrow> hptr t x = hptr s x \<and> hsize t x = hsize s x" "brk t = brk s" "limit t = limit s"
      "hsize s bp \<le> hsize t bp" by (simp_all add: t set_ptr_def)
    moreover have "set ds \<subseteq> set cs" unfolding c(1) by auto
    ultimately show ?thesis using cb unfolding e[symmetric] by blast
  next
    case False
    then have "bp + HDR * hsize s bp \<noteq> hptr s p" using nx bb(2) by (auto split: list.splits)
    then have t: "t = set_ptr bp (hptr s p) s" unfolding t_def join_up_def by simp
    have "lpath (hptr t) bp cs base"
    proof (cases cs)
      case (Cons c ds)
      have "lpath (hptr t) c ds base" using pc[OF Cons] nb Cons unfolding t set_ptr_def by (auto intro: lpath_upd)
      then show ?thesis using Cons nx by (simp add: t set_ptr_def)
    qed (use nx in \<open>simp add: t set_ptr_def\<close>)
    moreover have "sorted_wrt (\<lambda>x y. x + HDR * hsize t x < y) (bp # cs)"
    proof -
      have "bp + HDR * hsize s bp < y" if y: "y \<in> set cs" for y
      proof -
        obtain c ds where c: "cs = c # ds" using y by (cases cs) auto
        then have "bp + HDR * hsize s bp < c" using False cs(1) by fastforce
        moreover have "c \<le> y" using sc y unfolding c by auto
        ultimately show ?thesis by simp
      qed
      then show ?thesis using sc by (simp add: t set_ptr_def)
    qed
    moreover have "\<forall>x. x \<noteq> bp \<longrightarrow> hptr t x = hptr s x" "hsize t = hsize s" "brk t = brk s" "limit t = limit s" by (simp_all add: t set_ptr_def)
    ultimately show ?thesis using brk by (intro exI[of _ cs]) (simp add: blk_def free_bytes_def)
  qed
qed

lemma join_down_list:
  assumes asp: "lpath (hptr t) base as n" "sorted_wrt (\<lambda>x y. x + HDR * hsize t x < y) (base # as)"
    and ab: "\<forall>x\<in>set (base # as). x + HDR * hsize t x \<le> bp" and b0: "base + HDR \<le> bp" "hsize t base = 0" "0 < hsize t bp"
    and ds: "lpath (hptr t) bp ds base" "sorted_wrt (\<lambda>x y. x + HDR * hsize t x < y) (bp # ds)" "\<forall>x\<in>set ds. 0 < hsize t x"
    and d: "distinct (base # as @ bp # ds)" and pos: "\<forall>x\<in>set as. 0 < hsize t x" and fits: "bp + HDR * hsize t bp < 2 ^ 36"
  defines "p \<equiv> last (base # as)"
  defines "u \<equiv> join_down bp p t"
  shows "\<exists>es. lpath (hptr u) base es base \<and> sorted_wrt (\<lambda>x y. x + HDR * hsize u x < y) (base # es)
    \<and> p \<in> set (base # es) \<and> hsize u base = 0 \<and> (\<forall>x\<in>set es. 0 < hsize u x) \<and> set es \<subseteq> set (as @ bp # ds)
    \<and> free_bytes u es = free_bytes t as \<union> blk t bp \<union> free_bytes t ds \<and> brk u = brk t \<and> limit u = limit t"
proof (cases "p + HDR * hsize t p = bp")
  case True
  have "p \<noteq> base" using True b0 by (auto simp: HDR_def)
  then obtain as' where as: "as = as' @ [p]" unfolding p_def
    by (metis append_butlast_last_id last.simps)
  have fb: "p + HDR * (hsize t p + hsize t bp) \<le> bp + HDR * hsize t bp" using True by (simp add: add_mult_distrib2)
  have u: "u = set_ptr p (hptr t bp) (t\<lparr>hsize := (hsize t)(p := hsize t p + hsize t bp)\<rparr>)"
    unfolding u_def join_down_def using True set_size_fits[OF fb fits, of p t] by (simp add: Let_def)
  have e: "p + HDR * hsize u p = bp + HDR * hsize t bp" using True by (simp add: u set_ptr_def add_mult_distrib2)
  have hs: "hsize u x = hsize t x" if "x \<noteq> p" for x using that by (simp add: u set_ptr_def)
  have dd: "p \<notin> set (base # as' @ bp # ds)" using d unfolding as by auto
  then have hsd: "hsize u x = hsize t x" if "x \<in> set (base # as' @ ds)" for x using hs[of x] that by auto
  have "lpath (hptr t) base as' p" using asp(1) unfolding as by (simp add: lpath_append)
  then have "lpath (hptr u) base as' p" using dd by (auto simp: u set_ptr_def intro!: lpath_upd)
  moreover have "lpath (hptr u) bp ds base" using ds(1) dd by (auto simp: u set_ptr_def intro!: lpath_upd)
  then have "lpath (hptr u) p ds base" using dd by (cases ds) (auto simp: u set_ptr_def)
  ultimately have 1: "lpath (hptr u) base (as @ ds) base" unfolding as by (simp add: lpath_append)
  have sb: "sorted_wrt (\<lambda>x y. x + HDR * hsize u x < y) (base # as')"
    by (rule apart_cong[of "hsize t"]) (use asp(2) hsd in \<open>auto simp: as sorted_wrt_append\<close>)
  have sd: "sorted_wrt (\<lambda>x y. x + HDR * hsize u x < y) ds"
    by (rule apart_cong[of "hsize t"]) (use ds(2) hsd in simp_all)
  have pd: "\<forall>y\<in>set ds. p + HDR * hsize u p < y" using ds(2) unfolding e by simp
  have ap: "\<forall>x\<in>set (base # as'). x + HDR * hsize u x < p" using asp(2) hsd by (auto simp: as sorted_wrt_append)
  have "p < y" if "y \<in> set ds" for y using pd that by fastforce
  then have "\<forall>x\<in>set (base # as'). \<forall>y\<in>set (p # ds). x + HDR * hsize u x < y" using ap by fastforce
  then have 2: "sorted_wrt (\<lambda>x y. x + HDR * hsize u x < y) ((base # as') @ p # ds)"
    using sb sd pd by (simp only: sorted_wrt_append) simp
  have "blk u p = blk t p \<union> blk t bp" unfolding blk_def e using True by auto
  moreover have "blk u x = blk t x" if "x \<in> set as' \<union> set ds" for x using hsd[of x] that by (auto simp: blk_def)
  ultimately have 3: "free_bytes u (as @ ds) = free_bytes t as \<union> blk t bp \<union> free_bytes t ds"
    unfolding free_bytes_def as by auto
  have 4: "\<forall>x\<in>set (as @ ds). 0 < hsize u x" using pos ds(3) dd by (auto simp: u set_ptr_def)
  have 5: "p \<in> set (base # as @ ds)" "set (as @ ds) \<subseteq> set (as @ bp # ds)" "hsize u base = 0" "brk u = brk t" "limit u = limit t"
    using b0(2) dd unfolding as by (auto simp: u set_ptr_def)
  have 2: "sorted_wrt (\<lambda>x y. x + HDR * hsize u x < y) (base # as @ ds)" using 2 unfolding as by simp
  show ?thesis by (rule exI[of _ "as @ ds"]) (intro conjI 1 2 3 4 5)
next
  case False
  then have u: "u = set_ptr p bp t" unfolding u_def join_down_def by simp
  have pin: "p \<in> set (base # as)" unfolding p_def by (rule last_in_set) simp
  have dd: "p \<notin> set (bp # ds)" using d pin by auto
  have "lpath (hptr u) base as bp" using lpath_last[OF asp(1), of bp] d unfolding u set_ptr_def p_def by simp
  moreover have "lpath (hptr u) bp ds base" using ds(1) dd by (auto simp: u set_ptr_def intro!: lpath_upd)
  ultimately have 1: "lpath (hptr u) base (as @ bp # ds) base" by (simp add: lpath_append)
  have hs: "hsize u = hsize t" by (simp add: u set_ptr_def)
  have ab': "x + HDR * hsize t x < bp" if x: "x \<in> set (base # as)" for x
  proof (cases "x = p")
    case True
    then show ?thesis using ab x False by fastforce
  next
    case no: False
    obtain us where us: "base # as = us @ [p]" unfolding p_def by (metis append_butlast_last_id list.distinct(1))
    then have "x \<in> set us" using x no by auto
    then have "x + HDR * hsize t x < p" using asp(2) unfolding us by (simp add: sorted_wrt_append)
    moreover have "p \<le> bp" using ab pin by fastforce
    ultimately show ?thesis by linarith
  qed
  have "bp < y" if "y \<in> set ds" for y using ds(2) that by fastforce
  then have "\<forall>x\<in>set (base # as). \<forall>y\<in>set (bp # ds). x + HDR * hsize t x < y" using ab' by fastforce
  then have "sorted_wrt (\<lambda>x y. x + HDR * hsize t x < y) ((base # as) @ bp # ds)"
    using asp(2) ds(2) by (simp only: sorted_wrt_append)
  then have 2: "sorted_wrt (\<lambda>x y. x + HDR * hsize u x < y) (base # as @ bp # ds)" unfolding hs by simp
  have 3: "free_bytes u (as @ bp # ds) = free_bytes t as \<union> blk t bp \<union> free_bytes t ds"
    unfolding free_bytes_def blk_def hs by auto
  have 4: "\<forall>x\<in>set (as @ bp # ds). 0 < hsize u x" using pos ds(3) b0(3) unfolding hs by auto
  have 5: "p \<in> set (base # as @ bp # ds)" "set (as @ bp # ds) \<subseteq> set (as @ bp # ds)" "hsize u base = 0" "brk u = brk t" "limit u = limit t"
    using b0(2) pin by (auto simp: u set_ptr_def)
  show ?thesis by (rule exI[of _ "as @ bp # ds"]) (intro conjI 1 2 3 4 5)
qed

lemma join_down_other: "x \<noteq> p \<Longrightarrow> hsize (join_down bp p t) x = hsize t x"
  by (simp add: join_down_def Let_def set_ptr_def set_size_def)

lemma lpath_cong: "lpath f a xs z \<Longrightarrow> \<forall>x\<in>set (a # xs). g x = f x \<Longrightarrow> lpath g a xs z"
  by (induction xs arbitrary: a) auto

lemma free_gives:
  assumes ok: "heap_ok base s bs" and out: "outside base s bs bp"
  obtains s' es where "free (bp + HDR) s = Some s'" "heap_ok base s' es" "free_bytes s' es = free_bytes s bs \<union> blk s bp"
    "brk s' = brk s" "limit s' = limit s" "\<forall>x. x \<notin> set (bp # base # bs) \<longrightarrow> hsize s' x = hsize s x" "set es \<subseteq> insert bp (set bs)"
proof -
  obtain as cs where bs: "bs = as @ cs" and as: "\<forall>x\<in>set (base # as). x < bp" and cs: "\<forall>x\<in>set cs. bp < x"
    and as': "\<forall>x\<in>set (base # as). x + HDR * hsize s x \<le> bp" and cs': "\<forall>x\<in>set cs. bp + HDR * hsize s bp \<le> x"
    using outside_split[OF ok out] by blast
  note ok' = ok[unfolded bs] and out' = out[unfolded bs] and h = heap_okD[OF ok]
  let ?p = "last (base # as)"
  let ?t = "join_up bp ?p s"
  let ?u = "join_down bp ?p ?t"
  have pin: "?p \<in> set (base # as)" by (rule last_in_set) simp
  have place: "free_place s bp (freep s) = Some ?p"
    by (rule free_place_found(1)[OF ok' as cs]) (use h(7) bs in simp)
  have fr: "free (bp + HDR) s = Some (?u\<lparr>freep := ?p\<rparr>)" by (simp add: free_def place free_join_alt)
  obtain ds where t: "\<forall>x. x \<noteq> bp \<longrightarrow> hptr ?t x = hptr s x \<and> hsize ?t x = hsize s x" "brk ?t = brk s" "limit ?t = limit s"
    "lpath (hptr ?t) bp ds base" "sorted_wrt (\<lambda>x y. x + HDR * hsize ?t x < y) (bp # ds)" "set ds \<subseteq> set cs"
    "blk ?t bp \<union> free_bytes ?t ds = blk s bp \<union> free_bytes s cs" "hsize s bp \<le> hsize ?t bp" "bp + HDR * hsize ?t bp \<le> brk s"
    using join_up_list[OF ok' out' as cs' cs] by blast
  have bo: "base + HDR \<le> bp" "0 < hsize s bp" using out by (auto simp: outside_def)
  have na: "x \<noteq> bp" if "x \<in> set (base # bs)" for x using that as cs bs by auto
  obtain n where pa: "lpath (hptr s) base as n" using h(1) unfolding bs lpath_split by blast
  have 1: "lpath (hptr ?t) base as n" by (rule lpath_cong[OF pa]) (use t(1) na bs in auto)
  have 2: "sorted_wrt (\<lambda>x y. x + HDR * hsize ?t x < y) (base # as)"
    by (rule apart_cong[of "hsize s"]) (use h(2) t(1) na bs in \<open>auto simp: sorted_wrt_append\<close>)
  have 3: "\<forall>x\<in>set (base # as). x + HDR * hsize ?t x \<le> bp" using as' t(1) na bs by auto
  have 4: "hsize ?t base = 0" "0 < hsize ?t bp" using h(4) t(1,8) bo(2) na by auto
  have 5: "\<forall>x\<in>set ds. 0 < hsize ?t x" "\<forall>x\<in>set as. 0 < hsize ?t x" using heap_okD(5)[OF ok] t(1,6) na bs by auto
  have 6: "distinct (base # as @ bp # ds)"
  proof -
    have "sorted_wrt (<) (bp # ds)" using t(5) by (rule sorted_wrt_mono_rel[rotated]) simp
    then have "distinct (bp # ds)" using strict_sorted_iff by blast
    then show ?thesis using h(9) t(6) na unfolding bs by auto
  qed
  have 7: "bp + HDR * hsize ?t bp < 2 ^ 36" using t(9) h(10,11) by simp
  obtain es where u: "lpath (hptr ?u) base es base" "sorted_wrt (\<lambda>x y. x + HDR * hsize ?u x < y) (base # es)"
    "?p \<in> set (base # es)" "hsize ?u base = 0" "\<forall>x\<in>set es. 0 < hsize ?u x" "set es \<subseteq> set (as @ bp # ds)"
    "free_bytes ?u es = free_bytes ?t as \<union> blk ?t bp \<union> free_bytes ?t ds" "brk ?u = brk ?t" "limit ?u = limit ?t"
    using join_down_list[OF 1 2 3 bo(1) 4 t(4,5) 5(1) 6 5(2) 7] by blast
  have fa: "free_bytes ?t as = free_bytes s as" using t(1) na bs by (auto simp: free_bytes_def blk_def)
  have fb: "free_bytes ?u es = free_bytes s bs \<union> blk s bp" unfolding u(7) fa using t(7) by (auto simp: free_bytes_def bs)
  have sub: "free_bytes s bs \<union> blk s bp \<subseteq> {..<brk s}"
    using heap_okD(5)[OF ok] out by (fastforce simp: free_bytes_def blk_def outside_def)
  have es: "base + HDR \<le> x \<and> x + HDR * hsize ?u x \<le> brk s" if x: "x \<in> set es" for x
  proof -
    have "base + HDR \<le> x" using x u(6) t(6) bo(1) heap_okD(5)[OF ok, of x] bs by auto
    moreover have "x + HDR * hsize ?u x - 1 \<in> blk ?u x" using u(5) x by (auto simp: blk_def HDR_def)
    then have "x + HDR * hsize ?u x - 1 \<in> free_bytes ?u es" unfolding free_bytes_def by (rule UN_I[OF x])
    then have "x + HDR * hsize ?u x - 1 \<in> {..<brk s}" using sub unfolding fb by blast
    ultimately show ?thesis using u(5) x by (auto simp: HDR_def)
  qed
  have ok2: "heap_ok base (?u\<lparr>freep := ?p\<rparr>) es"
    unfolding heap_ok_def using u(1-5,8,9) t(2,3) h(3,6,10,11) es by simp
  have fb2: "free_bytes (?u\<lparr>freep := ?p\<rparr>) es = free_bytes s bs \<union> blk s bp" using fb by (simp add: free_bytes_def blk_def)
  have fr2: "\<forall>x. x \<notin> set (bp # base # bs) \<longrightarrow> hsize (?u\<lparr>freep := ?p\<rparr>) x = hsize s x"
  proof (intro allI impI)
    fix x
    assume x: "x \<notin> set (bp # base # bs)"
    then have "x \<noteq> ?p" using pin bs by auto
    then show "hsize (?u\<lparr>freep := ?p\<rparr>) x = hsize s x" using join_down_other[of x ?p bp ?t] t(1) x by simp
  qed
  have "set es \<subseteq> insert bp (set bs)" using u(6) t(6) bs by auto
  then show ?thesis using that[OF fr ok2 fb2 _ _ fr2] u(8,9) t(2,3) by simp
qed


subsection \<open>More core\<close>

definition core_units :: "nat \<Rightarrow> nat" where
  "core_units nu = (if nu < 4096 then 4096 else nu)"

lemma blocks_apart:
  assumes ok: "heap_ok base s bs" and x: "x \<in> set bs" and y: "y \<in> set bs"
  shows "x = y \<or> x + HDR * hsize s x < y \<or> y + HDR * hsize s y < x"
proof -
  have srt: "sorted_wrt (\<lambda>x y. x + HDR * hsize s x < y) bs" using heap_okD(2)[OF ok] by simp
  obtain i j where ij: "i < length bs" "x = bs ! i" "j < length bs" "y = bs ! j" using x y by (metis in_set_conv_nth)
  show ?thesis using ij sorted_wrt_nth_less[OF srt, of i j] sorted_wrt_nth_less[OF srt, of j i] by (cases i j rule: linorder_cases) auto
qed

lemma blocks_disjoint: "heap_ok base s bs \<Longrightarrow> x \<in> set bs \<Longrightarrow> y \<in> set bs \<Longrightarrow> x \<noteq> y \<Longrightarrow> blk s x \<inter> blk s y = {}"
  using blocks_apart[of base s bs x y] by (auto simp: blk_def)

lemma one_block:
  assumes ok: "heap_ok base s bs" and sub: "{a..<a + HDR * m} \<subseteq> free_bytes s bs" and m: "0 < m"
  shows "\<exists>x\<in>set bs. m \<le> hsize s x"
proof -
  have "a \<in> free_bytes s bs" using sub m by (auto simp: HDR_def)
  then obtain x where x: "x \<in> set bs" "a \<in> blk s x" unfolding free_bytes_def by blast
  have "a + HDR * m \<le> x + HDR * hsize s x"
  proof (rule ccontr)
    assume n: "\<not> ?thesis"
    let ?e = "x + HDR * hsize s x"
    have "?e \<in> free_bytes s bs" using n x(2) by (intro subsetD[OF sub]) (auto simp: blk_def)
    then obtain y where y: "y \<in> set bs" "?e \<in> blk s y" unfolding free_bytes_def by blast
    have "x = y \<or> x + HDR * hsize s x < y \<or> y + HDR * hsize s y < x" by (rule blocks_apart[OF ok x(1) y(1)])
    then show False using y(2) by (auto simp: blk_def)
  qed
  moreover have "x \<le> a" using x(2) by (simp add: blk_def)
  ultimately have "HDR * m \<le> HDR * hsize s x" by linarith
  then show ?thesis using x(1) by (auto simp: HDR_def)
qed

lemma i32_small: "n < 2 ^ 31 \<Longrightarrow> i32 (int n) = int n"
  by (simp add: i32_def signed_take_bit_int_eq_self)

lemma blk_free: "heap_ok base s bs \<Longrightarrow> x \<in> set bs \<Longrightarrow> x \<in> free_bytes s bs"
  using heap_okD(5)[of base s bs x] blk_self[of s x] by (auto simp: free_bytes_def)

lemma free_below: "heap_ok base s bs \<Longrightarrow> free_bytes s bs \<subseteq> {..<brk s}"
  using heap_okD(5)[of base s bs] by (fastforce simp: free_bytes_def blk_def)

lemma heap_ok_same:
  assumes "heap_ok base s bs" "\<forall>x\<in>set (base # bs). hptr t x = hptr s x \<and> hsize t x = hsize s x" "freep t \<in> set (base # bs)"
    "brk s \<le> brk t" "brk t \<le> limit t" "limit t < 2 ^ 36"
  shows "heap_ok base t bs" "free_bytes t bs = free_bytes s bs"
proof -
  note h = heap_okD[OF assms(1)]
  have "lpath (hptr t) base bs base" by (rule lpath_cong[OF h(1)]) (use assms(2) in auto)
  moreover have "sorted_wrt (\<lambda>x y. x + HDR * hsize t x < y) (base # bs)" by (rule apart_cong[OF h(2)]) (use assms(2) in auto)
  moreover have "\<forall>x\<in>set bs. 0 < hsize t x \<and> base + HDR \<le> x \<and> x + HDR * hsize t x \<le> brk t"
    using heap_okD(5)[OF assms(1)] assms(2,4) by (fastforce intro: order_trans)
  ultimately show "heap_ok base t bs" using h(3,4,6) assms(2-6) by (simp add: heap_ok_def)
  show "free_bytes t bs = free_bytes s bs" using assms(2) by (simp add: free_bytes_def blk_def)
qed

text \<open>New memory at the break joins the free list.\<close>

lemma core_freed:
  assumes ok: "heap_ok base s bs" and m: "0 < m" and room: "brk s + HDR * m \<le> l" "l < 2 ^ 36"
  obtains s' es where "free (brk s + HDR) (set_size (brk s) m (s\<lparr>brk := brk s + HDR * m, limit := l, grants := g\<rparr>)) = Some s'"
    "heap_ok base s' es" "brk s' = brk s + HDR * m" "limit s' = l"
    "free_bytes s' es = free_bytes s bs \<union> {brk s..<brk s'}" "\<exists>x\<in>set es. m \<le> hsize s' x"
    "\<forall>x. x \<notin> free_bytes s bs \<and> x < brk s \<longrightarrow> hsize s' x = hsize s x"
proof -
  let ?hp = "brk s"
  define t where "t = set_size ?hp m (s\<lparr>brk := brk s + HDR * m, limit := l, grants := g\<rparr>)"
  note h = heap_okD[OF ok]
  have m32: "m mod 2 ^ 32 = m" using room by (simp add: HDR_def)
  have old: "x < ?hp" if "x \<in> set (base # bs)" for x
    using that h(6) heap_okD(5)[OF ok, of x] by (auto simp: HDR_def)
  have ts: "hptr t = hptr s" "freep t = freep s" "brk t = brk s + HDR * m" "limit t = l" "hsize t ?hp = m" "\<And>x. x \<noteq> ?hp \<Longrightarrow> hsize t x = hsize s x"
    using m32 by (simp_all add: t_def set_size_def)
  have "hptr t x = hptr s x \<and> hsize t x = hsize s x" if "x \<in> set (base # bs)" for x using ts(1) ts(6)[of x] old[OF that] by simp
  then have keep: "\<forall>x\<in>set (base # bs). hptr t x = hptr s x \<and> hsize t x = hsize s x" by blast
  have "freep t \<in> set (base # bs)" "brk s \<le> brk t" "brk t \<le> limit t" "limit t < 2 ^ 36" using h(7) room by (simp_all only: ts(2-4))
  note okt = heap_ok_same(1)[OF ok keep this] and fbt = heap_ok_same(2)[OF ok keep this]
  have bt: "blk t ?hp = {brk s..<brk s + HDR * m}" by (simp add: blk_def ts)
  note sub = free_below[OF ok]
  have out: "outside base t bs ?hp" unfolding outside_def bt fbt using h(6) m sub ts by auto
  obtain s' es where f: "free (?hp + HDR) t = Some s'" "heap_ok base s' es" "free_bytes s' es = free_bytes t bs \<union> blk t ?hp"
    "brk s' = brk t" "limit s' = limit t" "\<forall>x. x \<notin> set (?hp # base # bs) \<longrightarrow> hsize s' x = hsize t x" "set es \<subseteq> insert ?hp (set bs)"
    by (rule free_gives[OF okt out])
  have fb: "free_bytes s' es = free_bytes s bs \<union> {brk s..<brk s'}" using f(3,4) fbt bt ts(3) by simp
  have big: "\<exists>x\<in>set es. m \<le> hsize s' x" by (rule one_block[OF f(2) _ m, of "brk s"]) (use fb f(4) ts(3) in auto)
  have fr: "\<forall>x. x \<notin> free_bytes s bs \<and> x < brk s \<longrightarrow> hsize s' x = hsize s x"
  proof (intro allI impI)
    fix x
    assume x: "x \<notin> free_bytes s bs \<and> x < brk s"
    show "hsize s' x = hsize s x"
    proof (cases "x = base")
      case True
      then show ?thesis using heap_okD(4)[OF f(2)] h(4) by simp
    next
      case False
      then have "x \<notin> set (?hp # base # bs)" using x blk_free[OF ok, of x] by auto
      then show ?thesis using f(6) ts(6)[of x] x by auto
    qed
  qed
  show ?thesis using that[OF f(1)[unfolded t_def] f(2) _ _ fb big fr] f(4,5) ts by simp
qed

text \<open>When the kernel refuses to move the break up by \<open>n\<close> bytes.\<close>

definition refuses :: "nat \<Rightarrow> uheap \<Rightarrow> bool" where
  "refuses n s = (limit s < brk s + n \<or> grants s = [] \<or> \<not> hd (grants s))"

lemma sbrk_grows:
  assumes "0 < n" "n < 2 ^ 31"
  shows "\<not> refuses n s \<Longrightarrow> sbrk (i32 (int n)) s = (Some (brk s), s\<lparr>brk := brk s + n, grants := tl (grants s)\<rparr>)"
    and "refuses n s \<Longrightarrow> \<exists>g. sbrk (i32 (int n)) s = (None, s\<lparr>grants := g\<rparr>)"
proof -
  have i: "i32 (int n) = int n" by (rule i32_small[OF assms(2)])
  have "nat (int (brk s) + int n) = brk s + n" by linarith
  then show "\<not> refuses n s \<Longrightarrow> sbrk (i32 (int n)) s = (Some (brk s), s\<lparr>brk := brk s + n, grants := tl (grants s)\<rparr>)"
    unfolding i using assms(1) by (cases "grants s") (auto simp: refuses_def sbrk_def grow_def)
  have e: "\<exists>g. s = s\<lparr>grants := g\<rparr>" by (intro exI[of _ "grants s"]) simp
  show "refuses n s \<Longrightarrow> \<exists>g. sbrk (i32 (int n)) s = (None, s\<lparr>grants := g\<rparr>)"
    unfolding i using assms(1) by (cases "grants s") (auto simp: refuses_def sbrk_def grow_def intro: e)
qed

lemma morecore_gives:
  assumes ok: "heap_ok base s bs" and fits: "HDR * core_units nu < 2 ^ 31" and room: "\<not> refuses (HDR * core_units nu) s"
  obtains s' es where "morecore nu s = Some (freep s', s')" "heap_ok base s' es" "brk s' = brk s + HDR * core_units nu" "limit s' = limit s"
    "free_bytes s' es = free_bytes s bs \<union> {brk s..<brk s'}" "\<exists>x\<in>set es. nu \<le> hsize s' x"
    "\<forall>x. x \<notin> free_bytes s bs \<and> x < brk s \<longrightarrow> hsize s' x = hsize s x"
proof -
  let ?m = "core_units nu"
  have m: "0 < ?m" "nu \<le> ?m" "0 < HDR * ?m" by (auto simp: core_units_def HDR_def)
  have l: "brk s + HDR * ?m \<le> limit s" "limit s < 2 ^ 36" using room heap_okD(11)[OF ok] by (auto simp: refuses_def)
  obtain s' es where f: "free (brk s + HDR) (set_size (brk s) ?m (s\<lparr>brk := brk s + HDR * ?m, limit := limit s, grants := tl (grants s)\<rparr>)) = Some s'"
    "heap_ok base s' es" "brk s' = brk s + HDR * ?m" "limit s' = limit s"
    "free_bytes s' es = free_bytes s bs \<union> {brk s..<brk s'}" "\<exists>x\<in>set es. ?m \<le> hsize s' x"
    "\<forall>x. x \<notin> free_bytes s bs \<and> x < brk s \<longrightarrow> hsize s' x = hsize s x"
    by (rule core_freed[OF ok m(1) l])
  have "sbrk (i32 (int (?m * HDR))) s = (Some (brk s), s\<lparr>brk := brk s + HDR * ?m, grants := tl (grants s)\<rparr>)"
    using sbrk_grows(1)[OF m(3) fits room] by (simp only: mult.commute[of ?m])
  then have "morecore nu s = Some (freep s', s')"
    using f(1) unfolding morecore_def core_units_def[symmetric] Let_def by simp
  moreover have "\<exists>x\<in>set es. nu \<le> hsize s' x" using f(6) m(2) by (meson order_trans)
  ultimately show ?thesis using that[OF _ f(2-5) _ f(7)] by simp
qed


subsection \<open>The search\<close>

lemma malloc_loop_hit:
  assumes "lpath (hptr s) q (us @ x # vs) z" "\<forall>u\<in>set us. hsize s u < n \<and> u \<noteq> freep s" "n \<le> hsize s x"
  shows "malloc_loop n q (hptr s q) s = Some (malloc_take n (last (q # us)) x s)"
  using assms
proof (induction us arbitrary: q)
  case Nil
  then show ?case by (subst malloc_loop.simps) simp
next
  case (Cons u us)
  have "malloc_loop n u (hptr s u) s = Some (malloc_take n (last (u # us)) x s)" using Cons.prems by (intro Cons.IH) auto
  then show ?case using Cons.prems by (subst malloc_loop.simps) auto
qed

lemma malloc_loop_miss:
  assumes "lpath (hptr s) q us (freep s)" "\<forall>u\<in>set us. hsize s u < n \<and> u \<noteq> freep s" "hsize s (freep s) < n"
  shows "malloc_loop n q (hptr s q) s =
    (case morecore n s of None \<Rightarrow> None | Some (p, s) \<Rightarrow> if p = 0 then Some (0, s) else malloc_loop n p (hptr s p) s)"
  using assms
proof (induction us arbitrary: q)
  case Nil
  then show ?case by (subst malloc_loop.simps) simp
next
  case (Cons u us)
  have "malloc_loop n u (hptr s u) s =
    (case morecore n s of None \<Rightarrow> None | Some (p, s) \<Rightarrow> if p = 0 then Some (0, s) else malloc_loop n p (hptr s p) s)"
    using Cons.prems by (intro Cons.IH) auto
  then show ?case using Cons.prems by (subst malloc_loop.simps) auto
qed

text \<open>The list seen from \<open>freep\<close>: a ring through every free block and the static header.\<close>

lemma ring_from:
  assumes ok: "heap_ok base s bs"
  obtains rs where "lpath (hptr s) (freep s) rs (freep s)" "distinct (freep s # rs)" "set (freep s # rs) = set (base # bs)"
proof -
  note h = heap_okD[OF ok]
  obtain us vs where e: "base # bs = us @ freep s # vs" using split_list[OF h(7)] by blast
  show ?thesis
  proof (cases us)
    case Nil
    then show ?thesis using that[of bs] h(1,9) e by auto
  next
    case (Cons b us')
    then have b: "base # bs = base # us' @ freep s # vs" using e by simp
    then have "lpath (hptr s) base us' (freep s)" "lpath (hptr s) (freep s) vs base" using h(1) by (simp_all add: lpath_append)
    then have "lpath (hptr s) (freep s) (vs @ base # us') (freep s)" by (simp add: lpath_append)
    moreover have "distinct (freep s # vs @ base # us')" using h(9) unfolding b by auto
    moreover have "set (freep s # vs @ base # us') = set (base # bs)" unfolding b by auto
    ultimately show ?thesis using that by blast
  qed
qed

lemma lpath_inj:
  assumes "lpath nx a xs z" "distinct (a # xs)" "z \<notin> set xs"
  shows "inj_on nx (set (a # xs)) \<and> nx ` set (a # xs) = insert z (set xs)"
  using assms
proof (induction xs arbitrary: a)
  case (Cons x xs)
  have ih: "inj_on nx (set (x # xs)) \<and> nx ` set (x # xs) = insert z (set xs)" using Cons.prems by (intro Cons.IH) auto
  have "nx a = x" using Cons.prems(1) by simp
  moreover have "x \<notin> nx ` set (x # xs)" using ih Cons.prems by auto
  moreover have "nx ` set (a # x # xs) = insert (nx a) (nx ` set (x # xs))" by auto
  ultimately show ?case using ih by (auto simp: inj_on_insert)
qed simp

lemma pred_unique:
  assumes ok: "heap_ok base s (as @ x # cs)" and q: "q \<in> set (base # as @ x # cs)" "hptr s q = x"
  shows "q = last (base # as)"
proof -
  note h = heap_okD[OF ok]
  have "inj_on (hptr s) (set (base # as @ x # cs))" using lpath_inj[OF h(1,9)] h(9) by simp
  moreover have "hptr s (last (base # as)) = x" using h(1) by (intro lpath_next) (simp add: lpath_append)
  moreover have "last (base # as) \<in> set (base # as @ x # cs)" using last_in_set[of "base # as"] by auto
  ultimately show ?thesis using q by (metis inj_onD)
qed


subsection \<open>Taking a block\<close>

definition taken :: "nat \<Rightarrow> uheap \<Rightarrow> nat list \<Rightarrow> nat \<Rightarrow> nat \<Rightarrow> uheap \<Rightarrow> nat list \<Rightarrow> bool" where
  "taken base s bs n b s' es = (heap_ok base s' es \<and> base + HDR \<le> b \<and> hsize s' b = n \<and> blk s' b \<subseteq> free_bytes s bs
     \<and> free_bytes s' es = free_bytes s bs - blk s' b \<and> brk s' = brk s \<and> limit s' = limit s
     \<and> (\<forall>y. y \<notin> free_bytes s bs \<longrightarrow> hsize s' y = hsize s y))"

lemma take_whole:
  assumes ok: "heap_ok base s (as @ x # cs)"
  defines "p \<equiv> last (base # as)"
  shows "taken base s (as @ x # cs) (hsize s x) x ((set_ptr p (hptr s x) s)\<lparr>freep := p\<rparr>) (as @ cs)"
proof -
  let ?t = "(set_ptr p (hptr s x) s)\<lparr>freep := p\<rparr>" and ?bs = "as @ x # cs"
  note h = heap_okD[OF ok]
  have pin: "p \<in> set (base # as)" unfolding p_def by (rule last_in_set) simp
  have dd: "p \<notin> set (x # cs)" using h(9) pin by auto
  have ts: "hsize ?t = hsize s" "hptr ?t = (hptr s)(p := hptr s x)" "freep ?t = p" "brk ?t = brk s" "limit ?t = limit s" by (simp_all add: set_ptr_def)
  have pa: "lpath (hptr s) base as x" "lpath (hptr s) x cs base" using h(1) by (simp_all add: lpath_append)
  have "lpath ((hptr s)(p := hptr s x)) base as (hptr s x)" unfolding p_def by (rule lpath_last[OF pa(1)]) (use h(9) in auto)
  then have "lpath (hptr ?t) base as (hptr s x)" by (simp only: ts)
  moreover have "lpath (hptr ?t) x cs base" unfolding ts by (rule lpath_upd[OF pa(2) dd])
  ultimately have 1: "lpath (hptr ?t) base (as @ cs) base"
    unfolding lpath_split using dd by (intro exI[of _ "hptr s x"]) (cases cs, auto simp: set_ptr_def)
  have 2: "sorted_wrt (\<lambda>x y. x + HDR * hsize s x < y) (base # as @ cs)" using h(2) by (auto simp: sorted_wrt_append)
  have ok': "heap_ok base ?t (as @ cs)"
    using 1 2 h(3,4,6,10,11) heap_okD(5)[OF ok] pin unfolding heap_ok_def ts by simp blast
  have b: "blk ?t = blk s" by (simp add: fun_eq_iff blk_def ts)
  have "blk s y \<inter> blk s x = {}" if "y \<in> set (as @ cs)" for y by (rule blocks_disjoint[OF ok]) (use that h(9) in auto)
  then have "free_bytes s (as @ cs) = free_bytes s ?bs - blk s x" by (auto simp: free_bytes_def)
  then show ?thesis using ok' heap_okD(5)[OF ok, of x] unfolding taken_def
    by (auto simp: free_bytes_def b ts)
qed

lemma take_tail:
  assumes ok: "heap_ok base s bs" and x: "x \<in> set bs" and n: "0 < n" "n < hsize s x" and p: "p \<in> set (base # bs)"
  defines "b \<equiv> x + HDR * (hsize s x - n)"
  shows "taken base s bs n b (s\<lparr>hsize := (hsize s)(x := hsize s x - n, b := n), freep := p\<rparr>) bs"
proof -
  let ?t = "s\<lparr>hsize := (hsize s)(x := hsize s x - n, b := n), freep := p\<rparr>"
  note h = heap_okD[OF ok] and hx = heap_okD(5)[OF ok x]
  have bx: "x < b" "b + HDR * n = x + HDR * hsize s x" using n by (simp_all add: b_def HDR_def)
  then have bin: "b \<in> blk s x" using n(1) by (auto simp: blk_def HDR_def)
  have nb: "b \<notin> set (base # bs)"
  proof
    assume "b \<in> set (base # bs)"
    then have m: "b \<in> set bs" using bx(1) hx by auto
    then have "blk s x \<inter> blk s b = {}" using blocks_disjoint[OF ok x m] bx(1) by simp
    then show False using bin blk_self[of s b] heap_okD(5)[OF ok m] by auto
  qed
  have hs: "hsize ?t y = (if y = x then hsize s x - n else hsize s y)" if "y \<in> set (base # bs)" for y using that nb by auto
  have le: "hsize ?t y \<le> hsize s y" if "y \<in> set (base # bs)" for y using hs[OF that] by simp
  have "sorted_wrt (\<lambda>x y. x + HDR * hsize ?t x < y) (base # bs)"
  proof (rule sorted_wrt_mono_rel[OF _ h(2)])
    fix u v
    assume "u \<in> set (base # bs)" "u + HDR * hsize s u < v"
    moreover from le[OF this(1)] have "HDR * hsize ?t u \<le> HDR * hsize s u" by (rule mult_le_mono2)
    ultimately show "u + HDR * hsize ?t u < v" by linarith
  qed
  moreover have "0 < hsize ?t y \<and> base + HDR \<le> y \<and> y + HDR * hsize ?t y \<le> brk s" if y: "y \<in> set bs" for y
  proof -
    have "HDR * hsize ?t y \<le> HDR * hsize s y" using le[of y] y by (intro mult_le_mono2) auto
    moreover have "0 < hsize ?t y" unfolding hs[OF list.set_intros(2)[OF y]] using n(2) heap_okD(5)[OF ok y] by simp
    ultimately show ?thesis using heap_okD(5)[OF ok y] by linarith
  qed
  moreover have "hsize ?t base = 0" using le[of base] h(4) by auto
  ultimately have ok': "heap_ok base ?t bs" using h(1,3,6,10,11) p unfolding heap_ok_def by simp
  have bb: "blk ?t b = {b..<b + HDR * n}" using bx by (simp add: blk_def)
  have bt: "blk ?t x = blk s x - {b..<b + HDR * n}" using bx nb x n unfolding blk_def hs[of x, OF list.set_intros(2)[OF x]] b_def
    by (auto simp: HDR_def)
  have bo: "blk ?t y = blk s y - {b..<b + HDR * n}" if y: "y \<in> set bs" "y \<noteq> x" for y
  proof -
    have "blk s y \<inter> blk s x = {}" by (rule blocks_disjoint[OF ok y(1) x y(2)])
    moreover have "{b..<b + HDR * n} \<subseteq> blk s x" unfolding bx(2) blk_def using bx(1) by auto
    moreover have "blk ?t y = blk s y" using hs[of y] y by (auto simp: blk_def)
    ultimately show ?thesis by blast
  qed
  have "free_bytes ?t bs = free_bytes s bs - {b..<b + HDR * n}" using bt bo unfolding free_bytes_def by blast
  moreover have sub: "{b..<b + HDR * n} \<subseteq> free_bytes s bs"
  proof (rule order_trans[of _ "blk s x"])
    show "{b..<b + HDR * n} \<subseteq> blk s x" unfolding bx(2) blk_def using bx(1) by auto
    show "blk s x \<subseteq> free_bytes s bs" using x by (auto simp: free_bytes_def)
  qed
  moreover have "b \<in> free_bytes s bs" "x \<in> free_bytes s bs" using x bin blk_free[OF ok x] by (auto simp: free_bytes_def)
  then have "\<forall>y. y \<notin> free_bytes s bs \<longrightarrow> hsize ?t y = hsize s y" by auto
  moreover have "base + HDR \<le> b" using hx bx(1) by simp
  ultimately show ?thesis using ok' unfolding taken_def bb by simp
qed

lemma malloc_take_gives:
  assumes ok: "heap_ok base s bs" and x: "x \<in> set bs" and n: "0 < n" "n \<le> hsize s x" and q: "q \<in> set (base # bs)" "hptr s q = x"
  shows "\<exists>b s' es. malloc_take n q x s = (b + HDR, s') \<and> taken base s bs n b s' es \<and> b + HDR * n = x + HDR * hsize s x"
proof (cases "hsize s x = n")
  case True
  obtain as cs where bs: "bs = as @ x # cs" using split_list[OF x] by blast
  have "q = last (base # as)" using pred_unique[OF ok[unfolded bs]] q bs by simp
  then have "malloc_take n q x s = (x + HDR, (set_ptr (last (base # as)) (hptr s x) s)\<lparr>freep := last (base # as)\<rparr>)"
    using True by (simp add: malloc_take_def)
  then show ?thesis using take_whole[OF ok[unfolded bs]] True unfolding bs by blast
next
  case False
  have hx: "x + HDR * hsize s x < 2 ^ 36" using heap_okD(5)[OF ok x] heap_okD(10,11)[OF ok] by linarith
  let ?b = "x + HDR * (hsize s x - n)"
  have f1: "set_size x (hsize s x - n) s = s\<lparr>hsize := (hsize s)(x := hsize s x - n)\<rparr>"
    by (rule set_size_fits[of x _ "x + HDR * hsize s x"]) (use hx in \<open>simp_all add: HDR_def\<close>)
  have f2: "set_size ?b n u = u\<lparr>hsize := (hsize u)(?b := n)\<rparr>" for u
    by (rule set_size_fits[of x _ "x + HDR * hsize s x"]) (use hx n in \<open>simp_all add: HDR_def\<close>)
  have "malloc_take n q x s = (?b + HDR, s\<lparr>hsize := (hsize s)(x := hsize s x - n, ?b := n), freep := q\<rparr>)"
    using False f1 f2 by (simp add: malloc_take_def Let_def)
  moreover have less: "n < hsize s x" using False n(2) by simp
  moreover have "?b + HDR * n = x + HDR * hsize s x" using less by (simp add: HDR_def)
  ultimately show ?thesis using take_tail[OF ok x n(1) _ q(1)] by blast
qed

text \<open>The search looks at the links, the sizes and \<open>freep\<close> only.\<close>

lemma malloc_loop_finds:
  assumes ok: "heap_ok base s bs" and big: "\<exists>x\<in>set bs. n \<le> hsize s x" and n: "0 < n"
  obtains q x where "q \<in> set (base # bs)" "x \<in> set bs" "hptr s q = x" "n \<le> hsize s x"
    "\<forall>t. hptr t = hptr s \<and> hsize t = hsize s \<and> freep t = freep s \<longrightarrow>
       malloc_loop n (freep t) (hptr t (freep t)) t = Some (malloc_take n q x t)"
proof -
  let ?f = "freep s"
  obtain rs where r: "lpath (hptr s) ?f rs ?f" "distinct (?f # rs)" "set (?f # rs) = set (base # bs)" using ring_from[OF ok] .
  have "\<exists>x\<in>set (rs @ [?f]). n \<le> hsize s x" using big r(3) by auto
  then obtain us x vs where e: "rs @ [?f] = us @ x # vs" "n \<le> hsize s x" "\<forall>u\<in>set us. \<not> n \<le> hsize s u"
    using split_list_first_prop[of "rs @ [?f]" "\<lambda>x. n \<le> hsize s x"] by blast
  have p: "lpath (hptr s) ?f (us @ x # vs) (hptr s ?f)" unfolding e(1)[symmetric] using r(1) by (simp add: lpath_append)
  have "rs = butlast (us @ x # vs)" using e(1) by (metis butlast_snoc)
  then have us: "set us \<subseteq> set rs" by (auto simp: butlast_append)
  have run: "malloc_loop n (freep t) (hptr t (freep t)) t = Some (malloc_take n (last (?f # us)) x t)"
    if t: "hptr t = hptr s" "hsize t = hsize s" "freep t = freep s" for t
    unfolding t(3) by (rule malloc_loop_hit[of t _ us x vs "hptr s ?f"]) (use p e(2,3) us r(2) t in auto)
  have "x \<in> set (rs @ [?f])" unfolding e(1) by simp
  then have "x \<in> set (base # bs)" using r(3) by auto
  then have x: "x \<in> set bs" using e(2) n heap_okD(4)[OF ok] by auto
  have q: "last (?f # us) \<in> set (base # bs)" using last_in_set[of "?f # us"] us r(3) by (metis in_mono insert_mono list.distinct(1) list.simps(15))
  have "hptr s (last (?f # us)) = x" using p by (intro lpath_next) (simp add: lpath_append)
  then show ?thesis using that[OF q x _ e(2)] run by blast
qed

lemma malloc_loop_serves:
  assumes ok: "heap_ok base s bs" and big: "\<exists>x\<in>set bs. n \<le> hsize s x" and n: "0 < n"
  shows "\<exists>b s' es. malloc_loop n (freep s) (hptr s (freep s)) s = Some (b + HDR, s') \<and> taken base s bs n b s' es"
proof -
  obtain q x where f: "q \<in> set (base # bs)" "x \<in> set bs" "hptr s q = x" "n \<le> hsize s x"
    "\<forall>t. hptr t = hptr s \<and> hsize t = hsize s \<and> freep t = freep s \<longrightarrow>
       malloc_loop n (freep t) (hptr t (freep t)) t = Some (malloc_take n q x t)"
    by (rule malloc_loop_finds[OF ok big n])
  show ?thesis using malloc_take_gives[OF ok f(2) n f(4,1,3)] f(5)[rule_format, of s] by auto
qed

definition units :: "nat \<Rightarrow> nat" where
  "units nbytes = (nbytes + HDR - 1) div HDR + 1"

lemma units_enough: "nbytes + HDR \<le> HDR * units nbytes" "0 < units nbytes"
  by (simp_all add: units_def HDR_def)

text \<open>
  What a call returns: a block cut from the free bytes, which the kernel may have extended, or 0 with
  the heap unchanged.
\<close>

definition served :: "nat \<Rightarrow> uheap \<Rightarrow> nat list \<Rightarrow> nat \<Rightarrow> nat \<Rightarrow> uheap \<Rightarrow> nat list \<Rightarrow> bool" where
  "served base s bs n b s' es = (heap_ok base s' es \<and> base + HDR \<le> b \<and> hsize s' b = n \<and> brk s \<le> brk s' \<and> limit s' = limit s
     \<and> blk s' b \<subseteq> free_bytes s bs \<union> {brk s..<brk s'} \<and> free_bytes s' es = (free_bytes s bs \<union> {brk s..<brk s'}) - blk s' b
     \<and> (\<forall>y. y \<notin> free_bytes s bs \<and> y < brk s \<longrightarrow> hsize s' y = hsize s y))"

lemma taken_served: "taken base s bs n b s' es \<Longrightarrow> served base s bs n b s' es"
  by (auto simp: taken_def served_def)

lemma malloc_loop_misses:
  assumes ok: "heap_ok base s bs" and small: "\<forall>x\<in>set bs. hsize s x < n" and n: "0 < n"
  shows "malloc_loop n (freep s) (hptr s (freep s)) s =
    (case morecore n s of None \<Rightarrow> None | Some (p, s) \<Rightarrow> if p = 0 then Some (0, s) else malloc_loop n p (hptr s p) s)"
proof -
  obtain rs where r: "lpath (hptr s) (freep s) rs (freep s)" "distinct (freep s # rs)" "set (freep s # rs) = set (base # bs)"
    using ring_from[OF ok] .
  have "hsize s x < n" if "x \<in> set (freep s # rs)" for x using that small heap_okD(4)[OF ok] n unfolding r(3) by auto
  then show ?thesis using r(2) by (intro malloc_loop_miss[OF r(1)]) auto
qed

lemma freep_nonzero: "heap_ok base s bs \<Longrightarrow> freep s \<noteq> 0"
  using heap_okD(3,7)[of base s bs] heap_okD(5)[of base s bs "freep s"] by (auto simp: HDR_def)

lemma malloc_gives:
  assumes ok: "heap_ok base s bs" and fits: "HDR * core_units (units nbytes) < 2 ^ 31"
  shows "(\<exists>b s' es. malloc base nbytes s = Some (b + HDR, s') \<and> served base s bs (units nbytes) b s' es)
    \<or> (\<exists>g. malloc base nbytes s = Some (0, s\<lparr>grants := g\<rparr>)) \<and> refuses (HDR * core_units (units nbytes)) s
      \<and> (\<forall>x\<in>set bs. hsize s x < units nbytes)"
proof -
  let ?n = "units nbytes"
  have n: "0 < ?n" by (rule units_enough)
  have m: "malloc base nbytes s = malloc_loop ?n (freep s) (hptr s (freep s)) s"
    using freep_nonzero[OF ok] by (simp add: malloc_def units_def Let_def)
  show ?thesis
  proof (cases "\<exists>x\<in>set bs. ?n \<le> hsize s x")
    case True
    then show ?thesis using malloc_loop_serves[OF ok True n] taken_served unfolding m by blast
  next
    case False
    then have miss: "malloc base nbytes s = (case morecore ?n s of None \<Rightarrow> None | Some (p, s) \<Rightarrow> if p = 0 then Some (0, s) else malloc_loop ?n p (hptr s p) s)"
      unfolding m by (intro malloc_loop_misses[OF ok _ n]) (simp add: not_le)
    show ?thesis
    proof (cases "refuses (HDR * core_units ?n) s")
      case room: False
      obtain t ds where t: "morecore ?n s = Some (freep t, t)" "heap_ok base t ds" "brk t = brk s + HDR * core_units ?n" "limit t = limit s"
        "free_bytes t ds = free_bytes s bs \<union> {brk s..<brk t}" "\<exists>x\<in>set ds. ?n \<le> hsize t x"
        "\<forall>x. x \<notin> free_bytes s bs \<and> x < brk s \<longrightarrow> hsize t x = hsize s x"
        by (rule morecore_gives[OF ok fits room])
      obtain b s' es where l: "malloc_loop ?n (freep t) (hptr t (freep t)) t = Some (b + HDR, s')" "taken base t ds ?n b s' es"
        using malloc_loop_serves[OF t(2,6) n] by blast
      have "malloc base nbytes s = Some (b + HDR, s')" using miss t(1) l(1) freep_nonzero[OF t(2)] by simp
      moreover have "served base s bs ?n b s' es" using l(2) t(3-5,7) unfolding taken_def served_def by auto
      ultimately show ?thesis by blast
    next
      case no: True
      have "0 < HDR * core_units ?n" by (simp add: HDR_def core_units_def)
      from sbrk_grows(2)[OF this fits no] obtain g where "sbrk (i32 (int (core_units ?n * HDR))) s = (None, s\<lparr>grants := g\<rparr>)"
        by (auto simp: mult.commute)
      then have "morecore ?n s = Some (0, s\<lparr>grants := g\<rparr>)" unfolding morecore_def core_units_def[symmetric] Let_def by simp
      then show ?thesis using miss no False by (auto simp: not_le)
    qed
  qed
qed


subsection \<open>A program that allocates and frees\<close>

text \<open>
  A program calls \<open>malloc\<close> with a size, and \<open>free\<close> with any pointer it got and has not given back.
  \<open>live\<close> lists those pointers with the sizes that were asked for.
\<close>

datatype heap_req = Malloc nat | Free nat

fun heap_call :: "nat \<Rightarrow> heap_req \<Rightarrow> uheap \<times> (nat \<times> nat) list \<Rightarrow> (uheap \<times> (nat \<times> nat) list) option" where
  "heap_call base (Malloc n) (s, live) =
     (case malloc base n s of None \<Rightarrow> None | Some (r, s') \<Rightarrow> Some (s', if r = 0 then live else (r, n) # live))"
| "heap_call base (Free i) (s, live) =
     (if i < length live
      then case free (fst (live ! i)) s of None \<Rightarrow> None | Some s' \<Rightarrow> Some (s', take i live @ drop (Suc i) live)
      else Some (s, live))"

fun heap_run :: "nat \<Rightarrow> heap_req list \<Rightarrow> uheap \<times> (nat \<times> nat) list \<Rightarrow> (uheap \<times> (nat \<times> nat) list) option" where
  "heap_run base [] c = Some c"
| "heap_run base (k # ks) c = (case heap_call base k c of None \<Rightarrow> None | Some c' \<Rightarrow> heap_run base ks c')"

fun small_call :: "heap_req \<Rightarrow> bool" where
  "small_call (Malloc n) = (n < 2 ^ 31 - 32)"
| "small_call (Free i) = True"

definition extent :: "nat \<times> nat \<Rightarrow> nat set" where
  "extent v = {fst v - HDR..<fst v + snd v}"

definition live_ok :: "nat \<Rightarrow> uheap \<Rightarrow> nat list \<Rightarrow> (nat \<times> nat) list \<Rightarrow> bool" where
  "live_ok base s bs live =
     ((\<forall>v\<in>set live. HDR \<le> fst v \<and> outside base s bs (fst v - HDR) \<and> snd v + HDR \<le> HDR * hsize s (fst v - HDR))
      \<and> sorted_wrt (\<lambda>v w. blk s (fst v - HDR) \<inter> blk s (fst w - HDR) = {}) live)"

definition heap_inv :: "nat \<Rightarrow> uheap \<times> (nat \<times> nat) list \<Rightarrow> bool" where
  "heap_inv base c = (case c of (s, live) \<Rightarrow>
     (freep s = 0 \<and> live = [] \<and> 0 < base \<and> base + HDR \<le> brk s \<and> brk s \<le> limit s \<and> limit s < 2 ^ 36)
     \<or> (\<exists>bs. heap_ok base s bs \<and> live_ok base s bs live))"

lemma live_ok_grants: "live_ok base (s\<lparr>grants := g\<rparr>) bs live = live_ok base s bs live"
  by (simp add: live_ok_def outside_def blk_def free_bytes_def)

lemma small_fits: "n < 2 ^ 31 - 32 \<Longrightarrow> HDR * core_units (units n) < 2 ^ 31"
  by (simp add: core_units_def units_def HDR_def div_less_iff_less_mult)

lemma live_kept:
  assumes live: "live_ok base s bs live"
    and same: "\<And>v. v \<in> set live \<Longrightarrow> hsize t (fst v - HDR) = hsize s (fst v - HDR)"
    and apart: "\<And>v. v \<in> set live \<Longrightarrow> blk s (fst v - HDR) \<inter> free_bytes t es = {}" and brk: "brk s \<le> brk t"
  shows "live_ok base t es live"
proof -
  have b: "blk t (fst v - HDR) = blk s (fst v - HDR)" if "v \<in> set live" for v using same[OF that] by (simp add: blk_def)
  have "sorted_wrt (\<lambda>v w. blk t (fst v - HDR) \<inter> blk t (fst w - HDR) = {}) live"
    by (rule sorted_wrt_mono_rel[of live "\<lambda>v w. blk s (fst v - HDR) \<inter> blk s (fst w - HDR) = {}"]) (use live b in \<open>auto simp: live_ok_def\<close>)
  moreover have "HDR \<le> fst v \<and> outside base t es (fst v - HDR) \<and> snd v + HDR \<le> HDR * hsize t (fst v - HDR)" if v: "v \<in> set live" for v
    using live v brk unfolding live_ok_def outside_def same[OF v] b[OF v] by (auto simp: apart[OF v])
  ultimately show ?thesis unfolding live_ok_def by blast
qed

lemma malloc_live:
  assumes ok: "heap_ok base s bs" and live: "live_ok base s bs live" and srv: "served base s bs (units n) b s' es"
  shows "live_ok base s' es ((b + HDR, n) # live)"
proof -
  note sv = srv[unfolded served_def] and ok' = srv[unfolded served_def, THEN conjunct1]
  have v: "blk s (fst v - HDR) \<inter> (free_bytes s bs \<union> {brk s..<brk s'}) = {} \<and> fst v - HDR \<notin> free_bytes s bs \<and> fst v - HDR < brk s"
    if "v \<in> set live" for v
  proof -
    have o: "outside base s bs (fst v - HDR)" using live that by (simp add: live_ok_def)
    then have "fst v - HDR \<in> blk s (fst v - HDR)" by (intro blk_self) (simp add: outside_def)
    moreover have "blk s (fst v - HDR) \<subseteq> {..<brk s}" using o by (auto simp: outside_def blk_def)
    ultimately show ?thesis using o by (fastforce simp: outside_def)
  qed
  have hs: "hsize s' (fst v - HDR) = hsize s (fst v - HDR)" if "v \<in> set live" for v using v[OF that] sv by blast
  have "live_ok base s' es live" by (rule live_kept[OF live hs]) (use v sv in auto)
  moreover have "blk s' b \<inter> blk s' (fst v - HDR) = {}" if "v \<in> set live" for v
    using v[OF that] sv hs[OF that] unfolding blk_def[of s' "fst v - HDR"] blk_def[of s "fst v - HDR"] by auto
  moreover have "outside base s' es b"
  proof -
    have "0 < units n" "hsize s' b = units n" using units_enough(2) sv by simp_all
    then have "b + HDR * hsize s' b - 1 \<in> blk s' b" by (auto simp: blk_def HDR_def)
    also have "blk s' b \<subseteq> {..<brk s'}"
    proof -
      have "free_bytes s bs \<subseteq> {..<brk s'}" using free_below[OF ok] sv by fastforce
      then show ?thesis using sv by auto
    qed
    finally show ?thesis using sv units_enough(2)[of n] by (auto simp: outside_def)
  qed
  ultimately show ?thesis using sv units_enough(1)[of n] unfolding live_ok_def by auto
qed

lemma free_live:
  assumes ok: "heap_ok base s bs" and live: "live_ok base s bs live" and i: "i < length live"
  obtains s' es where "free (fst (live ! i)) s = Some s'" "heap_ok base s' es" "live_ok base s' es (take i live @ drop (Suc i) live)"
proof -
  let ?u = "live ! i" and ?rest = "take i live @ drop (Suc i) live"
  let ?bp = "fst ?u - HDR"
  have e: "live = take i live @ ?u # drop (Suc i) live" using id_take_nth_drop[OF i] .
  have u: "HDR \<le> fst ?u" "outside base s bs ?bp" using live i by (auto simp: live_ok_def)
  have srt: "sorted_wrt (\<lambda>v w. blk s (fst v - HDR) \<inter> blk s (fst w - HDR) = {}) (take i live @ ?u # drop (Suc i) live)"
    using live e by (simp add: live_ok_def)
  have sub: "set ?rest \<subseteq> set live" by (auto dest: in_set_takeD in_set_dropD)
  have rest: "live_ok base s bs ?rest" using live sub srt unfolding live_ok_def by (auto simp: sorted_wrt_append)
  have apart: "blk s (fst v - HDR) \<inter> blk s ?bp = {}" if "v \<in> set ?rest" for v
    using srt that by (auto simp: sorted_wrt_append)
  obtain s' es where f: "free (?bp + HDR) s = Some s'" "heap_ok base s' es" "free_bytes s' es = free_bytes s bs \<union> blk s ?bp"
    "brk s' = brk s" "limit s' = limit s" "\<forall>x. x \<notin> set (?bp # base # bs) \<longrightarrow> hsize s' x = hsize s x" "set es \<subseteq> insert ?bp (set bs)"
    by (rule free_gives[OF ok u(2)])
  have out: "outside base s bs (fst v - HDR)" "fst v - HDR \<in> blk s (fst v - HDR)" if "v \<in> set ?rest" for v
  proof -
    show "outside base s bs (fst v - HDR)" using rest that unfolding live_ok_def by blast
    then show "fst v - HDR \<in> blk s (fst v - HDR)" by (intro blk_self) (simp add: outside_def)
  qed
  have hs: "hsize s' (fst v - HDR) = hsize s (fst v - HDR)" if v: "v \<in> set ?rest" for v
  proof -
    have "fst v - HDR \<notin> free_bytes s bs" "fst v - HDR \<noteq> base" using out[OF v] by (auto simp: outside_def HDR_def)
    moreover have "fst v - HDR \<noteq> ?bp" using apart[OF v] out(2)[OF v] by auto
    ultimately show ?thesis using f(6) blk_free[OF ok] by auto
  qed
  have "live_ok base s' es ?rest"
  proof (rule live_kept[OF rest hs])
    show "blk s (fst v - HDR) \<inter> free_bytes s' es = {}" if "v \<in> set ?rest" for v
      using out(1)[OF that] apart[OF that] unfolding f(3) outside_def by blast
  qed (simp_all add: f(4))
  then show ?thesis using that f(1,2) u(1) by simp
qed

lemma heap_call_step:
  assumes inv: "heap_inv base c" and small: "small_call k"
  shows "\<exists>c'. heap_call base k c = Some c' \<and> heap_inv base c'"
proof -
  obtain s live where c: "c = (s, live)" by (cases c)
  have serve: "\<exists>c'. heap_call base (Malloc n) (s, live) = Some c' \<and> heap_inv base c'"
    if n: "n < 2 ^ 31 - 32" and m: "malloc base n s = malloc base n t" and ok: "heap_ok base t bs" and live: "live_ok base t bs live" for n t bs
    using malloc_gives[OF ok small_fits[OF n]]
  proof (elim disjE exE conjE)
    fix b s' es
    assume "malloc base n t = Some (b + HDR, s')" and srv: "served base t bs (units n) b s' es"
    then show ?thesis using m malloc_live[OF ok live srv] by (auto simp: heap_inv_def served_def HDR_def)
  next
    fix g
    assume "malloc base n t = Some (0, t\<lparr>grants := g\<rparr>)"
    then show ?thesis using m ok live by (auto simp: heap_inv_def live_ok_grants)
  qed
  show ?thesis
  proof (cases "\<exists>bs. heap_ok base s bs \<and> live_ok base s bs live")
    case True
    then obtain bs where ok: "heap_ok base s bs" and live: "live_ok base s bs live" by blast
    show ?thesis
    proof (cases k)
      case (Malloc n)
      then show ?thesis using serve[OF _ refl ok live] small c by simp
    next
      case (Free i)
      show ?thesis
      proof (cases "i < length live")
        case True
        obtain s' es where "free (fst (live ! i)) s = Some s'" "heap_ok base s' es" "live_ok base s' es (take i live @ drop (Suc i) live)"
          by (rule free_live[OF ok live True])
        then show ?thesis using True c Free by (auto simp: heap_inv_def)
      qed (use c Free inv in simp)
    qed
  next
    case False
    then have z: "freep s = 0" "live = []" "0 < base" "base + HDR \<le> brk s" "brk s \<le> limit s" "limit s < 2 ^ 36"
      using inv unfolding heap_inv_def c prod.case by blast+
    show ?thesis
    proof (cases k)
      case (Malloc n)
      let ?t = "set_size base 0 ((set_ptr base base s)\<lparr>freep := base\<rparr>)"
      have m: "malloc base n s = malloc base n ?t" using z(1,3) by (simp add: malloc_def Let_def set_size_def set_ptr_def)
      have "heap_ok base ?t []" using z by (simp add: heap_ok_def set_size_def set_ptr_def)
      moreover have "live_ok base ?t [] live" using z(2) by (simp add: live_ok_def)
      ultimately show ?thesis using serve[OF _ m] small c Malloc by simp
    qed (use c z inv in simp)
  qed
qed

lemma heap_run_inv:
  "heap_inv base c \<Longrightarrow> \<forall>k\<in>set ks. small_call k \<Longrightarrow> \<exists>c'. heap_run base ks c = Some c' \<and> heap_inv base c'"
proof (induction ks arbitrary: c)
  case (Cons k ks)
  obtain c' where "heap_call base k c = Some c'" "heap_inv base c'" using heap_call_step[OF Cons.prems(1), of k] Cons.prems(2) by auto
  then show ?case using Cons.IH[of c'] Cons.prems(2) by simp
qed simp

text \<open>C12.  A program that only frees what it was given and never asks for \<open>2 ^ 31 - 32\<close> bytes or more at
  once: whatever its calls of \<open>malloc\<close> and \<open>free\<close>, and whichever requests for memory the kernel refuses, each
  call returns; the blocks it holds, headers included, are pairwise disjoint, hold as many bytes as were asked
  for, lie in the process's memory and share no byte with the free list, which stays well formed.  (C36
  shows what a larger request does.)\<close>

theorem heap_calls_safe:
  assumes "0 < base" "base + HDR \<le> brk s" "brk s \<le> limit s" "limit s < 2 ^ 36" "freep s = 0" "\<forall>k\<in>set ks. small_call k"
  shows "\<exists>s' live. heap_run base ks (s, []) = Some (s', live)
    \<and> sorted_wrt (\<lambda>v w. extent v \<inter> extent w = {}) live \<and> (\<forall>v\<in>set live. extent v \<subseteq> {base + HDR..<brk s'})
    \<and> (live = [] \<or> (\<exists>bs. heap_ok base s' bs \<and> (\<forall>v\<in>set live. extent v \<inter> free_bytes s' bs = {})))"
proof -
  have "heap_inv base (s, [])" using assms by (simp add: heap_inv_def)
  from heap_run_inv[OF this assms(6)] obtain s' live where r: "heap_run base ks (s, []) = Some (s', live)" "heap_inv base (s', live)" by auto
  show ?thesis
  proof (cases "live = []")
    case False
    then obtain bs where ok: "heap_ok base s' bs" and lv: "live_ok base s' bs live" using r(2) by (auto simp: heap_inv_def)
    have ex: "extent v \<subseteq> blk s' (fst v - HDR)" if "v \<in> set live" for v
      using lv that by (fastforce simp: live_ok_def extent_def blk_def)
    have "extent v \<subseteq> {base + HDR..<brk s'} \<and> extent v \<inter> free_bytes s' bs = {}" if "v \<in> set live" for v
    proof -
      have "outside base s' bs (fst v - HDR)" using lv that by (simp add: live_ok_def)
      then show ?thesis using ex[OF that] by (fastforce simp: outside_def blk_def)
    qed
    moreover have "sorted_wrt (\<lambda>v w. extent v \<inter> extent w = {}) live"
      by (rule sorted_wrt_mono_rel[OF _ conjunct2[OF lv[unfolded live_ok_def]]]) (use ex in blast)
    ultimately show ?thesis using r(1) ok by blast
  qed (use r in simp)
qed

theorem heap_calls_safe_witness:
  "\<exists>s' live. heap_run 64 [Malloc 100, Malloc 5000, Free 1, Malloc 30]
       (\<lparr>hptr = \<lambda>_. 0, hsize = \<lambda>_. 0, freep = 0, brk = 4096, limit = 1000000, grants = [True, True]\<rparr>, []) = Some (s', live)
    \<and> sorted_wrt (\<lambda>v w. extent v \<inter> extent w = {}) live \<and> (\<forall>v\<in>set live. extent v \<subseteq> {64 + HDR..<brk s'})
    \<and> (live = [] \<or> (\<exists>bs. heap_ok 64 s' bs \<and> (\<forall>v\<in>set live. extent v \<inter> free_bytes s' bs = {})))"
  by (rule heap_calls_safe) (simp_all add: HDR_def)

text \<open>C35.  On a well-formed heap, a call of \<open>malloc\<close> whose request to the kernel would be below 2 GB returns.  It
  gives a block of enough units, cut from the free bytes and those the break was moved over, and takes
  exactly the block from them; it gives 0, with the heap unchanged, only when no free block is large enough
  and the kernel refuses to move the break.\<close>

theorem malloc_serves:
  assumes "heap_ok base s bs" "HDR * core_units (units nbytes) < 2 ^ 31"
  shows "(\<exists>b s' es. malloc base nbytes s = Some (b + HDR, s') \<and> served base s bs (units nbytes) b s' es)
    \<or> (\<exists>g. malloc base nbytes s = Some (0, s\<lparr>grants := g\<rparr>)) \<and> refuses (HDR * core_units (units nbytes)) s
      \<and> (\<forall>x\<in>set bs. hsize s x < units nbytes)"
  by (rule malloc_gives[OF assms])

definition two_blocks :: uheap where
  "two_blocks = \<lparr>hptr = (\<lambda>_. 0)(64 := 4096, 4096 := 8192, 8192 := 64), hsize = (\<lambda>_. 0)(4096 := 10, 8192 := 100),
     freep = 4096, brk = 12288, limit = 20000, grants = [False, True]\<rparr>"

lemma two_blocks_ok: "heap_ok 64 two_blocks [4096, 8192]"
  by (simp add: heap_ok_def two_blocks_def HDR_def)

theorem malloc_serves_witness:
  "(\<exists>b s' es. malloc 64 1000 two_blocks = Some (b + HDR, s') \<and> served 64 two_blocks [4096, 8192] (units 1000) b s' es)
    \<or> (\<exists>g. malloc 64 1000 two_blocks = Some (0, two_blocks\<lparr>grants := g\<rparr>)) \<and> refuses (HDR * core_units (units 1000)) two_blocks
      \<and> (\<forall>x\<in>set [4096, 8192]. hsize two_blocks x < units 1000)"
proof -
  have "HDR * core_units (units 1000) < 2 ^ 31" by (simp add: HDR_def core_units_def units_def)
  with two_blocks_ok show ?thesis by (rule malloc_serves)
qed

subsection \<open>Requests of 2 GB and more\<close>









end
