(* ===== verification/Mkfs.thy ===== *)
theory Mkfs
  imports Path
begin

text \<open>
  The file system image builder, \<^verbatim>\<open>mkfs/mkfs.c\<close>.

  The image file is the list of its sectors: writing past its end extends it, reading past its end
  fails.  The image file can be created and written, and the files of the host are a function from path
  names to contents.  \<open>die\<close> and a failed
  \<open>assert\<close> are \<open>Panic\<close>.  Progress messages are left out.
\<close>

unbundle bit_operations_syntax

definition FSSIZE :: nat where "FSSIZE = 2000"
definition NINODES :: nat where "NINODES = 200"
definition nbitmap :: nat where "nbitmap = FSSIZE div BPB + 1"
definition ninodeblocks :: nat where "ninodeblocks = NINODES div IPB + 1"
definition nlog :: nat where "nlog = LOGBLOCKS + 1"
definition nmeta :: nat where "nmeta = 2 + nlog + ninodeblocks + nbitmap"
abbreviation nblocks :: nat where "nblocks \<equiv> FSSIZE - nmeta"

record image =
  fsfd :: "uint8 list list"
  isb :: superblock
  freeinode :: nat
  freeblock :: nat

text \<open>The bytes of the result, in memory order, are those of the little-endian machine.\<close>

definition xshort :: "uint16 \<Rightarrow> uint16" where
  "xshort x = get16 (map (\<lambda>i. ucast (drop_bit (8 * i) x)) [0..<2]) 0"

definition xint :: "uint32 \<Rightarrow> uint32" where
  "xint x = get32 (map (\<lambda>i. ucast (drop_bit (8 * i) x)) [0..<4]) 0"

definition wsect :: "uint32 \<Rightarrow> uint8 list \<Rightarrow> image \<Rightarrow> image" where
  "wsect sec buf m =
     m\<lparr>fsfd := (fsfd m @ replicate (Suc (unat sec) - length (fsfd m)) (replicate BSIZE 0))[unat sec := buf]\<rparr>"

definition rsect :: "uint32 \<Rightarrow> image \<Rightarrow> uint8 list res" where
  "rsect sec m = (if unat sec < length (fsfd m) then Inr (fsfd m ! unat sec) else Inl (Panic ''read''))"

definition winode :: "uint32 \<Rightarrow> dinode \<Rightarrow> image \<Rightarrow> image res" where
  "winode inum ip m =
     (let bn = IBLOCK inum (isb m) in
      bindE (rsect bn m) (\<lambda>buf. Inr (wsect bn (put_dinode (ioff inum) ip buf) m)))"

definition rinode :: "uint32 \<Rightarrow> image \<Rightarrow> dinode res" where
  "rinode inum m =
     (let bn = IBLOCK inum (isb m) in
      bindE (rsect bn m) (\<lambda>buf. Inr (get_dinode buf (ioff inum))))"

abbreviation zero_dinode :: dinode where
  "zero_dinode \<equiv> \<lparr>di_type = 0, di_major = 0, di_minor = 0, di_nlink = 0, di_size = 0, di_addrs = (\<lambda>_. 0)\<rparr>"

definition mk_ialloc :: "uint16 \<Rightarrow> image \<Rightarrow> (uint32 \<times> image) res" where
  "mk_ialloc type m =
     (let inum = of_nat (freeinode m); m = m\<lparr>freeinode := Suc (freeinode m)\<rparr>;
          di = zero_dinode\<lparr>di_type := sint (xshort type), di_nlink := sint (xshort 1), di_size := xint 0\<rparr>
      in bindE (winode inum di m) (\<lambda>m. Inr (inum, m)))"

definition mk_balloc :: "nat \<Rightarrow> image \<Rightarrow> image res" where
  "mk_balloc used m =
     (if used < BPB then
        Inr (wsect (sb_bmapstart (isb m))
          (fold (\<lambda>i buf. buf[i div 8 := buf ! (i div 8) OR push_bit (i mod 8) 1]) [0..<used] (replicate BSIZE 0)) m)
      else Inl (Panic ''used < BPB''))"

text \<open>A block number from the counter of free blocks.\<close>

definition take_block :: "image \<Rightarrow> uint32 \<times> image" where
  "take_block m = (xint (of_nat (freeblock m)), m\<lparr>freeblock := Suc (freeblock m)\<rparr>)"

text \<open>The sector of block \<open>fbn\<close> of the file, allocated where there is none.\<close>

abbreviation set_addr :: "nat \<Rightarrow> uint32 \<Rightarrow> dinode \<Rightarrow> dinode" where
  "set_addr k x di \<equiv> di\<lparr>di_addrs := (di_addrs di)(k := x)\<rparr>"

definition have_addr :: "nat \<Rightarrow> dinode \<Rightarrow> image \<Rightarrow> dinode \<times> image" where
  "have_addr k di m =
     (if xint (di_addrs di k) = 0 then let (x, m) = take_block m in (set_addr k x di, m) else (di, m))"

definition block_for :: "nat \<Rightarrow> dinode \<Rightarrow> image \<Rightarrow> (uint32 \<times> dinode \<times> image) res" where
  "block_for fbn di m =
     (if fbn < NDIRECT then
        let (di, m) = have_addr fbn di m in Inr (xint (di_addrs di fbn), di, m)
      else
        let (di, m) = have_addr NDIRECT di m; ix = xint (di_addrs di NDIRECT); k = 4 * (fbn - NDIRECT) in
        bindE (rsect ix m) (\<lambda>indirect.
        if get32 indirect k = 0 then
          let (x, m) = take_block m; indirect = put32 k x indirect in
          Inr (xint (get32 indirect k), di, wsect ix indirect m)
        else Inr (xint (get32 indirect k), di, m)))"

text \<open>
  The loop of \<open>iappend\<close>: \<open>p\<close> are the bytes that are left.  The offset is below \<open>MAXFILE * BSIZE\<close> in
  every turn, so it fits its 32 bits.
\<close>

definition chunk_len :: "nat \<Rightarrow> nat \<Rightarrow> nat" where
  "chunk_len off n = min n ((off div BSIZE + 1) * BSIZE - off)"

lemma piece_pos [simp]: "0 < n \<Longrightarrow> 0 < chunk_len off n"
  using mod_less_divisor[of BSIZE off] div_mult_mod_eq[of off BSIZE] by (simp add: chunk_len_def BSIZE_def)

function iappend_loop :: "uint8 list \<Rightarrow> nat \<Rightarrow> dinode \<Rightarrow> image \<Rightarrow> (nat \<times> dinode \<times> image) res" where
  "iappend_loop p off di m =
     (if p = [] then Inr (off, di, m)
      else let fbn = off div BSIZE in
      if fbn < MAXFILE then
        bindE (block_for fbn di m) (\<lambda>(x, di, m).
        let n1 = chunk_len off (length p); k = off - fbn * BSIZE in
        bindE (rsect x m) (\<lambda>buf.
        iappend_loop (drop n1 p) (off + n1) di (wsect x (take k buf @ take n1 p @ drop (k + n1) buf) m)))
      else Inl (Panic ''fbn < MAXFILE''))"
  by pat_completeness auto
termination by (relation "measure (\<lambda>(p, _). length p)") auto

declare iappend_loop.simps [simp del]

definition iappend :: "uint32 \<Rightarrow> uint8 list \<Rightarrow> image \<Rightarrow> image res" where
  "iappend inum p m =
     bindE (rinode inum m) (\<lambda>di.
     bindE (iappend_loop p (unat (xint (di_size di))) di m) (\<lambda>(off, di, m).
     winode inum (di\<lparr>di_size := xint (of_nat off)\<rparr>) m))"

text \<open>\<open>main\<close>: the files are read in buffers of one block.\<close>

function copy_file :: "uint32 \<Rightarrow> uint8 list \<Rightarrow> image \<Rightarrow> image res" where
  "copy_file inum p m =
     (if p = [] then Inr m else bindE (iappend inum (take BSIZE p) m) (copy_file inum (drop BSIZE p)))"
  by pat_completeness auto
termination by (relation "measure (\<lambda>(_, p, _). length p)") (auto simp: BSIZE_def)

declare copy_file.simps [simp del]

definition shortname :: "string \<Rightarrow> string" where
  "shortname arg = (if take 5 arg = ''user/'' then drop 5 arg else arg)"

definition skip_underscore :: "string \<Rightarrow> string" where
  "skip_underscore name = (case name of c # t \<Rightarrow> if c = CHR ''_'' then t else name | [] \<Rightarrow> name)"

definition add_file :: "(string \<Rightarrow> uint8 list option) \<Rightarrow> uint32 \<Rightarrow> string \<Rightarrow> image \<Rightarrow> image res" where
  "add_file host rootino arg m =
     (let name = shortname arg in
      if CHR ''/'' \<in> set name then Inl (Panic ''index(shortname)'')
      else case host arg of
        None \<Rightarrow> Inl (Panic arg)
      | Some bytes \<Rightarrow>
          let name = skip_underscore name in
          if length name \<le> DIRSIZ then
            bindE (mk_ialloc (of_int T_FILE) m) (\<lambda>(inum, m).
            bindE (iappend rootino (mk_dirent name (xshort (ucast inum))) m) (\<lambda>m.
            copy_file inum bytes m))
          else Inl (Panic ''strlen(shortname)''))"

definition mk_sb :: superblock where
  "mk_sb = \<lparr>sb_magic = FSMAGIC, sb_size = xint (of_nat FSSIZE), sb_nblocks = xint (of_nat nblocks),
     sb_ninodes = xint (of_nat NINODES), sb_nlog = xint (of_nat nlog), sb_logstart = xint 2,
     sb_inodestart = xint (of_nat (2 + nlog)), sb_bmapstart = xint (of_nat (2 + nlog + ninodeblocks))\<rparr>"

definition put_sb :: "superblock \<Rightarrow> uint8 list \<Rightarrow> uint8 list" where
  "put_sb b d = fold (\<lambda>(i, w) d. put32 (4 * i) w d)
     (zip [0..<8] [sb_magic b, sb_size b, sb_nblocks b, sb_ninodes b, sb_nlog b, sb_logstart b, sb_inodestart b, sb_bmapstart b]) d"

definition blank_image :: image where
  "blank_image =
     (let m = fold (\<lambda>i. wsect (of_nat i) (replicate BSIZE 0)) [0..<FSSIZE]
            \<lparr>fsfd = [], isb = mk_sb, freeinode = 1, freeblock = nmeta\<rparr>
      in wsect 1 (put_sb mk_sb (replicate BSIZE 0)) m)"

definition fix_root :: "uint32 \<Rightarrow> image \<Rightarrow> image res" where
  "fix_root rootino m =
     bindE (rinode rootino m) (\<lambda>di.
     let off = xint (di_size di); off = (off div of_nat BSIZE + 1) * of_nat BSIZE in
     winode rootino (di\<lparr>di_size := xint off\<rparr>) m)"

definition main :: "(string \<Rightarrow> uint8 list option) \<Rightarrow> string list \<Rightarrow> image res" where
  "main host argv =
     (if length argv < 2 then Inl (Panic ''Usage: mkfs fs.img files...'')
      else
        bindE (mk_ialloc (of_int T_DIR) blank_image) (\<lambda>(rootino, m).
        if rootino \<noteq> ROOTINO then Inl (Panic ''rootino == ROOTINO'')
        else
          bindE (iappend rootino (mk_dirent ''.'' (xshort (ucast rootino))) m) (\<lambda>m.
          bindE (iappend rootino (mk_dirent ''..'' (xshort (ucast rootino))) m) (\<lambda>m.
          bindE (for_each (add_file host rootino) (drop 2 argv) m) (\<lambda>m.
          bindE (fix_root rootino m) (\<lambda>m.
          mk_balloc (freeblock m) m))))))"


subsection \<open>Words and sectors\<close>

lemma xint_id [simp]: "xint x = x"
  using le_map_bits[of 4 x] by (simp add: xint_def get32_def)

lemma xshort_id [simp]: "xshort x = x"
  using le_map_bits[of 2 x] by (simp add: xshort_def get16_def)

abbreviation zeros :: "uint8 list" where "zeros \<equiv> replicate BSIZE 0"

lemma get32_zeros: "get32 (replicate n 0) j = 0"
proof -
  have "foldr (\<lambda>b w. ucast b + 256 * w) (replicate k (0::uint8)) (0::uint32) = 0" for k by (induction k) simp_all
  then show ?thesis by (simp add: get32_def)
qed

definition geo :: "image \<Rightarrow> bool" where
  "geo m = (length (fsfd m) = FSSIZE \<and> (\<forall>d\<in>set (fsfd m). length d = BSIZE) \<and> isb m = mk_sb)"

lemma geo_len: "geo m \<Longrightarrow> b < FSSIZE \<Longrightarrow> length (fsfd m ! b) = BSIZE"
  by (simp add: geo_def)

lemma small_word: "b < FSSIZE \<Longrightarrow> unat (of_nat b :: uint32) = b"
  by (simp add: FSSIZE_def unat_of_nat take_bit_nat_eq_self)

lemma rsect_ok: "geo m \<Longrightarrow> b < FSSIZE \<Longrightarrow> rsect (of_nat b) m = Inr (fsfd m ! b)"
  by (simp add: rsect_def small_word geo_def)

lemma wsect_ok: "geo m \<Longrightarrow> b < FSSIZE \<Longrightarrow> wsect (of_nat b) d m = m\<lparr>fsfd := (fsfd m)[b := d]\<rparr>"
  by (simp add: wsect_def small_word geo_def)

lemma geo_write: "geo m \<Longrightarrow> length d = BSIZE \<Longrightarrow> geo (m\<lparr>fsfd := (fsfd m)[b := d]\<rparr>)"
  unfolding geo_def by (auto dest: set_update_subset_insert[THEN subsetD])

subsection \<open>The blocks of one file\<close>

definition owned :: "nat list \<Rightarrow> nat \<Rightarrow> nat list" where
  "owned bs ix = (if ix = 0 then [] else [ix]) @ bs"

definition file_at :: "image \<Rightarrow> dinode \<Rightarrow> nat list \<Rightarrow> nat \<Rightarrow> bool" where
  "file_at m di bs ix = (length bs \<le> MAXFILE
     \<and> (\<forall>k<NDIRECT. di_addrs di k = (if k < length bs then of_nat (bs ! k) else 0)) \<and> di_addrs di NDIRECT = of_nat ix
     \<and> (ix \<noteq> 0 \<longrightarrow> (\<forall>k<NINDIRECT. get32 (fsfd m ! ix) (4 * k) = (if NDIRECT + k < length bs then of_nat (bs ! (NDIRECT + k)) else 0))))"

definition lay :: "image \<Rightarrow> dinode \<Rightarrow> nat list \<Rightarrow> nat \<Rightarrow> nat set \<Rightarrow> bool" where
  "lay m di bs ix R = (geo m \<and> file_at m di bs ix \<and> distinct (owned bs ix) \<and> set (owned bs ix) \<inter> R = {}
     \<and> set (owned bs ix) \<union> R = {nmeta..<freeblock m} \<and> nmeta \<le> freeblock m \<and> freeblock m \<le> FSSIZE
     \<and> (\<forall>b. freeblock m \<le> b \<and> b < FSSIZE \<longrightarrow> fsfd m ! b = zeros))"

definition thin :: "nat list \<Rightarrow> nat \<Rightarrow> bool" where
  "thin bs ix = (ix = 0 \<longleftrightarrow> length bs \<le> NDIRECT)"

lemma layD:
  assumes "lay m di bs ix R"
  shows "geo m" "file_at m di bs ix" "distinct (owned bs ix)" "set (owned bs ix) \<inter> R = {}" "set (owned bs ix) \<union> R = {nmeta..<freeblock m}"
    "freeblock m \<le> FSSIZE" "freeblock m \<le> b \<Longrightarrow> b < FSSIZE \<Longrightarrow> fsfd m ! b = zeros"
    "x \<in> set (owned bs ix) \<Longrightarrow> nmeta \<le> x \<and> x < freeblock m" "k < length bs \<Longrightarrow> nmeta \<le> bs ! k \<and> bs ! k < freeblock m"
    "ix \<noteq> 0 \<Longrightarrow> nmeta \<le> ix \<and> ix < freeblock m" "nmeta \<le> freeblock m"
proof -
  show a: "geo m" "file_at m di bs ix" "distinct (owned bs ix)" "set (owned bs ix) \<inter> R = {}" "set (owned bs ix) \<union> R = {nmeta..<freeblock m}"
    "freeblock m \<le> FSSIZE" "freeblock m \<le> b \<Longrightarrow> b < FSSIZE \<Longrightarrow> fsfd m ! b = zeros"
    "nmeta \<le> freeblock m"
    using assms unfolding lay_def by blast+
  have s: "x \<in> set (owned bs ix) \<Longrightarrow> nmeta \<le> x \<and> x < freeblock m" for x using a(5) by auto
  show "x \<in> set (owned bs ix) \<Longrightarrow> nmeta \<le> x \<and> x < freeblock m" by (rule s)
  show "k < length bs \<Longrightarrow> nmeta \<le> bs ! k \<and> bs ! k < freeblock m" by (rule s) (simp add: owned_def)
  show "ix \<noteq> 0 \<Longrightarrow> nmeta \<le> ix \<and> ix < freeblock m" by (rule s) (simp add: owned_def)
qed

lemma nmeta_pos: "0 < nmeta" "nmeta < FSSIZE"
  by (simp_all add: nmeta_def nlog_def ninodeblocks_def nbitmap_def FSSIZE_def NINODES_def IPB_def BPB_def BSIZE_def LOGBLOCKS_def MAXOPBLOCKS_def)

lemma word_nonzero: "0 < b \<Longrightarrow> b < FSSIZE \<Longrightarrow> (of_nat b :: uint32) \<noteq> 0"
  using small_word[of b] by (metis less_irrefl unat_0)

text \<open>The two allocations, in the list of blocks and for the indirect block.\<close>

lemma have_addr_there:
  "lay m di bs ix R \<Longrightarrow> fbn < length bs \<Longrightarrow> fbn < NDIRECT \<Longrightarrow> have_addr fbn di m = (di, m) \<and> di_addrs di fbn = of_nat (bs ! fbn)"
  using layD(2)[of m di bs ix R] layD(9)[of m di bs ix R fbn] layD(6)[of m di bs ix R] word_nonzero[of "bs ! fbn"] nmeta_pos
  by (auto simp: have_addr_def file_at_def)

lemma have_addr_indirect:
  "lay m di bs ix R \<Longrightarrow> ix \<noteq> 0 \<Longrightarrow> have_addr NDIRECT di m = (di, m) \<and> di_addrs di NDIRECT = of_nat ix"
  using layD(2)[of m di bs ix R] layD(10)[of m di bs ix R] layD(6)[of m di bs ix R] word_nonzero[of ix] nmeta_pos
  by (auto simp: have_addr_def file_at_def)

lemma have_addr_new:
  assumes l: "lay m di bs ix R" and f: "fbn = length bs" "fbn < NDIRECT" "ix = 0" and room: "freeblock m < FSSIZE"
  defines "x \<equiv> freeblock m"
  shows "have_addr fbn di m = (set_addr fbn (of_nat x) di, m\<lparr>freeblock := Suc x\<rparr>)"
    "lay (m\<lparr>freeblock := Suc x\<rparr>) (set_addr fbn (of_nat x) di) (bs @ [x]) ix R"
proof -
  note d = layD[OF l]
  show "have_addr fbn di m = (set_addr fbn (of_nat x) di, m\<lparr>freeblock := Suc x\<rparr>)"
    using d(2) f by (simp add: have_addr_def file_at_def take_block_def x_def)
  have "file_at (m\<lparr>freeblock := Suc x\<rparr>) (set_addr fbn (of_nat x) di) (bs @ [x]) ix"
    using d(2) f by (auto simp: file_at_def MAXFILE_def nth_append)
  moreover have "x \<notin> set (owned bs ix)" "x \<notin> R" using d(5) by (auto simp: x_def)
  moreover have "set (owned bs ix) \<union> R \<union> {x} = {nmeta..<Suc x}"
    using d(5,11) by (auto simp: x_def)
  ultimately show "lay (m\<lparr>freeblock := Suc x\<rparr>) (set_addr fbn (of_nat x) di) (bs @ [x]) ix R"
    using d room f(3) unfolding lay_def by (auto simp: owned_def geo_def x_def)
qed

lemma have_addr_index:
  assumes l: "lay m di bs 0 R" and f: "length bs = NDIRECT" and room: "freeblock m < FSSIZE"
  defines "x \<equiv> freeblock m"
  shows "have_addr NDIRECT di m = (set_addr NDIRECT (of_nat x) di, m\<lparr>freeblock := Suc x\<rparr>)"
    "lay (m\<lparr>freeblock := Suc x\<rparr>) (set_addr NDIRECT (of_nat x) di) bs x R"
proof -
  note d = layD[OF l]
  show "have_addr NDIRECT di m = (set_addr NDIRECT (of_nat x) di, m\<lparr>freeblock := Suc x\<rparr>)"
    using d(2) by (simp add: have_addr_def file_at_def take_block_def x_def)
  have z: "fsfd m ! x = zeros" unfolding x_def by (rule layD(7)[OF l]) (use room in simp_all)
  have "file_at (m\<lparr>freeblock := Suc x\<rparr>) (set_addr NDIRECT (of_nat x) di) bs x"
    using d(2) f by (auto simp: file_at_def z get32_zeros)
  moreover have "x \<notin> set (owned bs 0)" "x \<notin> R" "x \<noteq> 0" using d(5,11) nmeta_pos by (auto simp: x_def)
  moreover have "set (owned bs 0) \<union> R \<union> {x} = {nmeta..<Suc x}" using d(5,11) by (auto simp: x_def)
  ultimately show "lay (m\<lparr>freeblock := Suc x\<rparr>) (set_addr NDIRECT (of_nat x) di) bs x R"
    using d room unfolding lay_def by (auto simp: owned_def geo_def x_def)
qed

text \<open>An entry of the indirect block.\<close>

lemma indirect_entry:
  assumes l: "lay m di bs ix R" and f: "NDIRECT \<le> fbn" "fbn < MAXFILE" "ix \<noteq> 0"
  shows "4 * (fbn - NDIRECT) + 4 \<le> BSIZE" "ix < FSSIZE" "length (fsfd m ! ix) = BSIZE"
    "get32 (fsfd m ! ix) (4 * (fbn - NDIRECT)) = (if fbn < length bs then of_nat (bs ! fbn) else 0)"
proof -
  note d = layD[OF l]
  have k: "fbn - NDIRECT < NINDIRECT" using f by (simp add: MAXFILE_def)
  then show "4 * (fbn - NDIRECT) + 4 \<le> BSIZE" by (simp add: NINDIRECT_def BSIZE_def)
  show "ix < FSSIZE" using d(6,10) f(3) by simp
  then show "length (fsfd m ! ix) = BSIZE" by (rule geo_len[OF d(1)])
  show "get32 (fsfd m ! ix) (4 * (fbn - NDIRECT)) = (if fbn < length bs then of_nat (bs ! fbn) else 0)"
    using d(2) f k unfolding file_at_def by (metis le_add_diff_inverse)
qed

lemma indirect_new:
  assumes l: "lay m di bs ix R" and f: "NDIRECT \<le> fbn" "fbn < MAXFILE" "ix \<noteq> 0" "fbn = length bs" and room: "freeblock m < FSSIZE"
  defines "x \<equiv> freeblock m"
  defines "m' \<equiv> m\<lparr>freeblock := Suc x, fsfd := (fsfd m)[ix := put32 (4 * (fbn - NDIRECT)) (of_nat x) (fsfd m ! ix)]\<rparr>"
  shows "lay m' di (bs @ [x]) ix R"
proof -
  note d = layD[OF l] and e = indirect_entry[OF l f(1-3)]
  let ?k = "4 * (fbn - NDIRECT)"
  let ?d = "put32 ?k (of_nat x) (fsfd m ! ix)"
  have ixl: "ix < length (fsfd m)" using d(1) e(2) by (simp add: geo_def)
  have len: "length ?d = BSIZE" using e(1,3) by simp
  have g: "geo m'" using geo_write[OF d(1) len, of ix] by (simp add: m'_def geo_def)
  have row: "get32 ?d (4 * k) = (if NDIRECT + k < length (bs @ [x]) then of_nat ((bs @ [x]) ! (NDIRECT + k)) else 0)" if k: "k < NINDIRECT" for k
  proof (cases "k = fbn - NDIRECT")
    case True
    then show ?thesis using e(1,3) f(1,4) by simp
  next
    case False
    then have "get32 ?d (4 * k) = get32 (fsfd m ! ix) (4 * k)" using e(1,3) by (intro get_put_other(1)) auto
    also have "\<dots> = (if NDIRECT + k < length bs then of_nat (bs ! (NDIRECT + k)) else 0)"
      using d(2) k f(3) unfolding file_at_def by blast
    finally show ?thesis using False f(1,4) by (auto simp: nth_append)
  qed
  have "file_at m' di (bs @ [x]) ix" unfolding file_at_def
    using d(2) f row ixl by (auto simp: file_at_def m'_def nth_append)
  moreover have "x \<notin> set (owned bs ix)" "x \<notin> R" using d(5) by (auto simp: x_def)
  moreover have "set (owned bs ix) \<union> R \<union> {x} = {nmeta..<Suc x}" using d(5,11) by (auto simp: x_def)
  moreover have "fsfd m' ! b = zeros" if "Suc x \<le> b" "b < FSSIZE" for b
    using layD(7)[OF l, of b] that layD(10)[OF l f(3)] by (simp add: m'_def x_def)
  ultimately show ?thesis
    using d(3,4,11) room g f(3) unfolding lay_def by (auto simp: owned_def m'_def x_def)
qed

definition tbl :: "nat \<Rightarrow> nat" where
  "tbl n = n + (if n > NDIRECT then 1 else 0)"

definition untouched :: "nat set \<Rightarrow> image \<Rightarrow> dinode \<Rightarrow> image \<Rightarrow> dinode \<Rightarrow> bool" where
  "untouched R m di m' di' = (freeinode m' = freeinode m \<and> (\<forall>b. b \<in> R \<or> b < nmeta \<longrightarrow> fsfd m' ! b = fsfd m ! b)
     \<and> di' = di\<lparr>di_addrs := di_addrs di'\<rparr> \<and> (\<forall>k>NDIRECT. di_addrs di' k = di_addrs di k))"

lemma untouched_refl: "untouched R m di m di"
  by (simp add: untouched_def)

lemma untouched_trans: "untouched R m di m' di' \<Longrightarrow> untouched R m' di' m'' di'' \<Longrightarrow> untouched R m di m'' di''"
  by (cases di; cases di'; cases di'') (simp add: untouched_def)

lemma untouched_mono: "untouched S m di m' di' \<Longrightarrow> R \<subseteq> S \<Longrightarrow> untouched R m di m' di'"
  unfolding untouched_def by blast

definition ready_block :: "nat \<Rightarrow> nat list \<Rightarrow> nat set \<Rightarrow> image \<Rightarrow> dinode \<Rightarrow> image \<Rightarrow> dinode \<Rightarrow> nat list \<Rightarrow> nat \<Rightarrow> bool" where
  "ready_block fbn bs R m di m' di' bs' ix' = (lay m' di' bs' ix' R \<and> thin bs' ix' \<and> length bs' = Suc fbn \<and> take (length bs) bs' = bs
     \<and> freeblock m' + tbl (length bs) = freeblock m + tbl (Suc fbn) \<and> untouched (R \<union> set bs) m di m' di')"

lemma indirect_tail:
  assumes l: "lay m di bs ix R" and f: "NDIRECT \<le> length bs" "length bs < MAXFILE" "ix \<noteq> 0" and room: "freeblock m < FSSIZE"
  defines "x \<equiv> freeblock m"
  defines "d \<equiv> put32 (4 * (length bs - NDIRECT)) (of_nat x) (fsfd m ! ix)"
  shows "wsect (of_nat ix) d (m\<lparr>freeblock := Suc x\<rparr>) = m\<lparr>freeblock := Suc x, fsfd := (fsfd m)[ix := d]\<rparr>"
    "untouched (R \<union> set bs) m di (m\<lparr>freeblock := Suc x, fsfd := (fsfd m)[ix := d]\<rparr>) di" "get32 d (4 * (length bs - NDIRECT)) = of_nat x"
proof -
  note e = indirect_entry[OF l f] and d = layD[OF l]
  have g: "geo (m\<lparr>freeblock := Suc x\<rparr>)" using d(1) by (simp add: geo_def)
  show "wsect (of_nat ix) d (m\<lparr>freeblock := Suc x\<rparr>) = m\<lparr>freeblock := Suc x, fsfd := (fsfd m)[ix := d]\<rparr>"
    using wsect_ok[OF g e(2)] by simp
  have "ix \<notin> R" "ix \<notin> set bs" "\<not> ix < nmeta" using d(3,4) layD(10)[OF l f(3)] f(3) by (auto simp: owned_def)
  then have "(fsfd m)[ix := d] ! b = fsfd m ! b" if "b \<in> R \<union> set bs \<or> b < nmeta" for b using that by (intro nth_list_update_neq) auto
  then show "untouched (R \<union> set bs) m di (m\<lparr>freeblock := Suc x, fsfd := (fsfd m)[ix := d]\<rparr>) di" by (simp add: untouched_def)
  show "get32 d (4 * (length bs - NDIRECT)) = of_nat x" unfolding d_def using e(1,3) by simp
qed

lemma block_for_ok:
  assumes l: "lay m di bs ix R" "thin bs ix" and f: "fbn = length bs \<or> Suc fbn = length bs" "fbn < MAXFILE"
    and room: "freeblock m + tbl (Suc fbn) \<le> FSSIZE + tbl (length bs)"
  shows "\<exists>m' di' bs' ix'. block_for fbn di m = Inr (of_nat (bs' ! fbn), di', m') \<and> ready_block fbn bs R m di m' di' bs' ix'"
proof (cases "fbn < length bs")
  case True
  then have n: "Suc fbn = length bs" using f(1) by auto
  have "block_for fbn di m = Inr (of_nat (bs ! fbn), di, m)"
  proof (cases "fbn < NDIRECT")
    case lo: True
    then show ?thesis using have_addr_there[OF l(1) True lo] by (simp add: block_for_def)
  next
    case False
    then have ix: "ix \<noteq> 0" "NDIRECT \<le> fbn" using l(2) n by (auto simp: thin_def)
    note e = indirect_entry[OF l(1) ix(2) f(2) ix(1)]
    have "bs ! fbn < FSSIZE" "0 < bs ! fbn" using layD(9)[OF l(1) True] layD(6)[OF l(1)] nmeta_pos by auto
    then show ?thesis using have_addr_indirect[OF l(1) ix(1)] e(4) True False rsect_ok[OF layD(1)[OF l(1)] e(2)] word_nonzero[of "bs ! fbn"]
      by (simp add: block_for_def Let_def)
  qed
  moreover have "ready_block fbn bs R m di m di bs ix" using l n by (simp add: ready_block_def untouched_refl)
  ultimately show ?thesis by blast
next
  case False
  then have n: "fbn = length bs" using f(1) by auto
  let ?x = "freeblock m"
  show ?thesis
  proof (cases "fbn < NDIRECT")
    case lo: True
    then have ix: "ix = 0" and t: "tbl (Suc fbn) = Suc (tbl (length bs))" using l(2) n by (auto simp: thin_def tbl_def)
    have r: "?x < FSSIZE" using room t by simp
    note h = have_addr_new[OF l(1) n lo ix r]
    have "block_for fbn di m = Inr (of_nat ?x, set_addr fbn (of_nat ?x) di, m\<lparr>freeblock := Suc ?x\<rparr>)"
      using lo h(1) by (simp add: block_for_def)
    moreover have "ready_block fbn bs R m di (m\<lparr>freeblock := Suc ?x\<rparr>) (set_addr fbn (of_nat ?x) di) (bs @ [?x]) ix"
      using h(2) n lo ix t by (auto simp: ready_block_def thin_def untouched_def)
    ultimately have "block_for fbn di m = Inr (of_nat ((bs @ [?x]) ! fbn), set_addr fbn (of_nat ?x) di, m\<lparr>freeblock := Suc ?x\<rparr>)
      \<and> ready_block fbn bs R m di (m\<lparr>freeblock := Suc ?x\<rparr>) (set_addr fbn (of_nat ?x) di) (bs @ [?x]) ix" using n by simp
    then show ?thesis by blast
  next
    case hi: False
    then have nd: "NDIRECT \<le> length bs" "length bs < MAXFILE" using n f(2) by auto
    obtain m1 di1 ix1 where h: "have_addr NDIRECT di m = (di1, m1)" "lay m1 di1 bs ix1 R" "ix1 \<noteq> 0" "di_addrs di1 NDIRECT = of_nat ix1"
      "freeblock m1 + tbl (length bs) = freeblock m + length bs + 1" "untouched (R \<union> set bs) m di m1 di1"
    proof (cases "ix = 0")
      case True
      then have b: "length bs = NDIRECT" using l(2) nd by (simp add: thin_def)
      have r: "?x < FSSIZE" using room n b by (simp add: tbl_def)
      show ?thesis
      proof (rule that[of "set_addr NDIRECT (of_nat ?x) di" "m\<lparr>freeblock := Suc ?x\<rparr>" ?x])
        show "have_addr NDIRECT di m = (set_addr NDIRECT (of_nat ?x) di, m\<lparr>freeblock := Suc ?x\<rparr>)"
          "lay (m\<lparr>freeblock := Suc ?x\<rparr>) (set_addr NDIRECT (of_nat ?x) di) bs ?x R"
          using have_addr_index[OF _ b r] l(1) True by auto
        show "?x \<noteq> 0" using layD(11)[OF l(1)] nmeta_pos by simp
      qed (auto simp: tbl_def b untouched_def)
    next
      case False
      then have "NDIRECT < length bs" using l(2) by (simp add: thin_def)
      then show ?thesis using that[of di m ix] have_addr_indirect[OF l(1) False] l(1) False by (simp add: tbl_def untouched_refl)
    qed
    let ?y = "freeblock m1"
    have r: "?y < FSSIZE" using room h(5) n nd(1) by (simp add: tbl_def split: if_splits)
    note e = indirect_entry[OF h(2) nd h(3)] and tl = indirect_tail[OF h(2) nd h(3) r]
    let ?d = "put32 (4 * (length bs - NDIRECT)) (of_nat ?y) (fsfd m1 ! ix1)"
    let ?m2 = "m1\<lparr>freeblock := Suc ?y, fsfd := (fsfd m1)[ix1 := ?d]\<rparr>"
    have "block_for fbn di m = Inr (of_nat ?y, di1, ?m2)"
      using hi h(1,4) rsect_ok[OF layD(1)[OF h(2)] e(2)] e(4) tl(1,3) n by (simp add: block_for_def Let_def take_block_def)
    moreover have "lay ?m2 di1 (bs @ [?y]) ix1 R" by (rule indirect_new[OF h(2) nd h(3) refl r])
    moreover have "untouched (R \<union> set bs) m di ?m2 di1" using untouched_trans[OF h(6) tl(2)] .
    ultimately have "block_for fbn di m = Inr (of_nat ((bs @ [?y]) ! fbn), di1, ?m2) \<and> ready_block fbn bs R m di ?m2 di1 (bs @ [?y]) ix1"
      using n nd h(3,5) by (auto simp: ready_block_def thin_def tbl_def split: if_splits)
    then show ?thesis by blast
  qed
qed

end
