(* ===== verification/MkfsFile.thy ===== *)
theory MkfsFile
  imports Mkfs
begin

text \<open>
  Appending to a file of the image of \<^verbatim>\<open>mkfs/mkfs.c\<close>: the loop of \<open>iappend\<close> adds the bytes at the end,
  through direct and indirect blocks, and leaves every other file as it is.
\<close>

subsection \<open>Appending\<close>

definition nblk :: "nat \<Rightarrow> nat" where
  "nblk sz = (sz + BSIZE - 1) div BSIZE"

definition content :: "image \<Rightarrow> nat \<Rightarrow> nat list \<Rightarrow> uint8 list" where
  "content m sz bs = take sz (concat (map ((!) (fsfd m)) bs))"

lemma nblk_shift: "nblk (q * BSIZE + r) = q + nblk r"
  by (simp add: nblk_def BSIZE_def)

lemma nblk_one: "0 < r \<Longrightarrow> r \<le> BSIZE \<Longrightarrow> nblk r = 1"
  unfolding nblk_def BSIZE_def by (rule div_nat_eqI) auto

lemma nblk_here: "nblk off = (if off mod BSIZE = 0 then off div BSIZE else Suc (off div BSIZE))"
proof -
  have "nblk off = off div BSIZE + nblk (off mod BSIZE)" using nblk_shift[of "off div BSIZE" "off mod BSIZE"] by simp
  moreover have "nblk 0 = 0" by (simp add: nblk_def BSIZE_def)
  moreover have "off mod BSIZE \<le> BSIZE" by (simp add: BSIZE_def order_less_imp_le)
  ultimately show ?thesis using nblk_one[of "off mod BSIZE"] by auto
qed

lemma nblk_next:
  assumes "0 < n" "n \<le> (off div BSIZE + 1) * BSIZE - off"
  shows "nblk (off + n) = Suc (off div BSIZE)"
proof -
  have e: "off = off div BSIZE * BSIZE + off mod BSIZE" by simp
  then have "off + n = off div BSIZE * BSIZE + (off mod BSIZE + n)" by linarith
  then have "nblk (off + n) = off div BSIZE + nblk (off mod BSIZE + n)" using nblk_shift by metis
  moreover have "(off div BSIZE + 1) * BSIZE = off div BSIZE * BSIZE + BSIZE" by simp
  then have "off mod BSIZE + n \<le> BSIZE" using assms(2) e assms(1) by linarith
  ultimately show ?thesis using nblk_one[of "off mod BSIZE + n"] assms(1) by simp
qed

lemma nblk_covers: "off \<le> nblk off * BSIZE"
  using div_mult_mod_eq[of "off + BSIZE - 1" BSIZE] mod_less_divisor[of BSIZE "off + BSIZE - 1"]
  unfolding nblk_def BSIZE_def by linarith

lemma nblk_max: "off \<le> MAXFILE * BSIZE \<Longrightarrow> nblk off \<le> MAXFILE"
  by (simp add: nblk_def BSIZE_def MAXFILE_def NDIRECT_def NINDIRECT_def)

lemma length_concat_blocks: "\<forall>d\<in>set ds. length d = n \<Longrightarrow> length (concat ds) = length ds * n"
  by (induction ds) simp_all

lemma lay_sectors: "lay m di bs ix R \<Longrightarrow> b \<in> set bs \<Longrightarrow> length (fsfd m ! b) = BSIZE"
  using layD(8)[of m di bs ix R b] layD(6)[of m di bs ix R] geo_len[OF layD(1), of m di bs ix R b] by (simp add: owned_def)

lemma content_split:
  assumes len: "length bs = Suc fbn" and sec: "\<forall>b\<in>set bs. length (f b) = BSIZE" and off: "fbn * BSIZE \<le> off" "off \<le> (fbn + 1) * BSIZE"
  shows "take off (concat (map f bs)) = concat (map f (take fbn bs)) @ take (off - fbn * BSIZE) (f (bs ! fbn))"
proof -
  have e: "bs = take fbn bs @ [bs ! fbn]" using len by (metis lessI take_Suc_conv_app_nth take_all_iff order_refl)
  have l: "length (concat (map f (take fbn bs))) = fbn * BSIZE"
    using length_concat_blocks[of "map f (take fbn bs)" BSIZE] sec len by (auto dest: in_set_takeD)
  have "concat (map f bs) = concat (map f (take fbn bs)) @ f (bs ! fbn)" by (subst e) simp
  then show ?thesis using l off by simp
qed

lemma lay_write:
  assumes l: "lay m di bs ix R" and x: "x \<in> set bs" and d: "length d = BSIZE"
  shows "lay (m\<lparr>fsfd := (fsfd m)[x := d]\<rparr>) di bs ix R" "untouched R m di (m\<lparr>fsfd := (fsfd m)[x := d]\<rparr>) di"
    "fsfd (m\<lparr>fsfd := (fsfd m)[x := d]\<rparr>) ! x = d" "b \<noteq> x \<Longrightarrow> fsfd (m\<lparr>fsfd := (fsfd m)[x := d]\<rparr>) ! b = fsfd m ! b"
proof -
  note e = layD[OF l]
  have xo: "x \<in> set (owned bs ix)" using x by (simp add: owned_def)
  then have xr: "nmeta \<le> x" "x < freeblock m" "x \<notin> R" using layD(8)[OF l xo] e(4) by auto
  have xi: "ix \<noteq> 0 \<Longrightarrow> x \<noteq> ix" using e(3) x by (auto simp: owned_def)
  show "fsfd (m\<lparr>fsfd := (fsfd m)[x := d]\<rparr>) ! x = d" using xr e(1,6) by (simp add: geo_def)
  show "b \<noteq> x \<Longrightarrow> fsfd (m\<lparr>fsfd := (fsfd m)[x := d]\<rparr>) ! b = fsfd m ! b" by simp
  have "(fsfd m)[x := d] ! b = fsfd m ! b" if "b \<in> R \<or> b < nmeta" for b using that xr by (intro nth_list_update_neq) auto
  then show "untouched R m di (m\<lparr>fsfd := (fsfd m)[x := d]\<rparr>) di" by (simp add: untouched_def)
  have "file_at (m\<lparr>fsfd := (fsfd m)[x := d]\<rparr>) di bs ix" using e(2) xi by (auto simp: file_at_def)
  moreover have "(fsfd m)[x := d] ! b = zeros" if "freeblock m \<le> b" "b < FSSIZE" for b using layD(7)[OF l that] that xr by simp
  ultimately show "lay (m\<lparr>fsfd := (fsfd m)[x := d]\<rparr>) di bs ix R"
    using e(3-6,11) geo_write[OF e(1) d] unfolding lay_def by simp
qed

text \<open>One turn of the loop, and the loop.\<close>

definition tail_piece :: "nat \<Rightarrow> uint8 list \<Rightarrow> uint8 list \<Rightarrow> uint8 list" where
  "tail_piece k bytes buf = take k buf @ bytes @ drop (k + length bytes) buf"

lemma appended_block:
  assumes l: "lay m di bs ix R" and len: "length bs = Suc fbn" and x: "x = bs ! fbn"
    and k: "k + length bytes \<le> BSIZE"
  defines "m' \<equiv> m\<lparr>fsfd := (fsfd m)[x := tail_piece k bytes (fsfd m ! x)]\<rparr>"
  shows "lay m' di bs ix R" "untouched R m di m' di"
    "content m' (fbn * BSIZE + k + length bytes) bs = content m (fbn * BSIZE + k) bs @ bytes"
proof -
  note e = layD[OF l]
  have xin: "x \<in> set bs" using len x by simp
  have lx: "length (fsfd m ! x) = BSIZE" by (rule lay_sectors[OF l xin])
  have ld: "length (tail_piece k bytes (fsfd m ! x)) = BSIZE" using lx k by (simp add: tail_piece_def)
  note w = lay_write[OF l xin ld, folded m'_def]
  show "lay m' di bs ix R" "untouched R m di m' di" by (rule w(1), rule w(2))
  have sec: "\<forall>b\<in>set bs. length (fsfd m ! b) = BSIZE" "\<forall>b\<in>set bs. length (fsfd m' ! b) = BSIZE"
    using lay_sectors[OF l] lay_sectors[OF w(1)] by auto
  have dis: "distinct bs" using e(3) by (simp add: owned_def split: if_splits)
  have "fsfd m' ! b = fsfd m ! b" if "b \<in> set (take fbn bs)" for b
  proof -
    have "bs = take fbn bs @ drop fbn bs" "x \<in> set (drop fbn bs)" using x len by (auto simp: in_set_conv_nth intro!: exI[of _ 0])
    then have "x \<notin> set (take fbn bs)" using dis by (metis disjoint_iff distinct_append)
    then show ?thesis using w(4)[of b] that by auto
  qed
  then have "map ((!) (fsfd m')) (take fbn bs) = map ((!) (fsfd m)) (take fbn bs)" by simp
  then have "concat (map ((!) (fsfd m')) (take fbn bs)) = concat (map ((!) (fsfd m)) (take fbn bs))" by (simp only:)
  moreover have "take (k + length bytes) (fsfd m' ! x) = take k (fsfd m ! x) @ bytes"
    unfolding w(3) tail_piece_def using lx k by simp
  ultimately show "content m' (fbn * BSIZE + k + length bytes) bs = content m (fbn * BSIZE + k) bs @ bytes"
    unfolding content_def using k content_split[OF len sec(1), of "fbn * BSIZE + k"] content_split[OF len sec(2), of "fbn * BSIZE + k + length bytes"] x
    by (simp add: add.assoc)
qed

definition appended :: "nat set \<Rightarrow> image \<Rightarrow> dinode \<Rightarrow> nat \<Rightarrow> nat list \<Rightarrow> uint8 list \<Rightarrow> image \<Rightarrow> dinode \<Rightarrow> nat list \<Rightarrow> nat \<Rightarrow> bool" where
  "appended R m di off bs p m' di' bs' ix' = (lay m' di' bs' ix' R \<and> thin bs' ix' \<and> length bs' = nblk (off + length p)
     \<and> content m' (off + length p) bs' = content m off bs @ p \<and> untouched R m di m' di'
     \<and> freeblock m' + tbl (nblk off) = freeblock m + tbl (nblk (off + length p)))"

lemma tbl_mono: "a \<le> b \<Longrightarrow> tbl a \<le> tbl b"
  by (simp add: tbl_def)

lemma nblk_mono: "a \<le> b \<Longrightarrow> nblk a \<le> nblk b"
  by (simp add: nblk_def div_le_mono)

lemma chunk_bounds:
  "p \<noteq> [] \<Longrightarrow> 0 < chunk_len off (length p) \<and> chunk_len off (length p) \<le> length p \<and> chunk_len off (length p) \<le> (off div BSIZE + 1) * BSIZE - off"
  using piece_pos[of "length p" off] by (simp add: chunk_len_def)

lemma iappend_turn:
  assumes l: "lay m di bs ix R" "thin bs ix" "length bs = nblk off" and p: "p \<noteq> []" and off: "off div BSIZE < MAXFILE"
    and room: "freeblock m + tbl (Suc (off div BSIZE)) \<le> FSSIZE + tbl (nblk off)"
  defines "n1 \<equiv> chunk_len off (length p)"
  shows "\<exists>m' di' bs' ix'. iappend_loop p off di m = iappend_loop (drop n1 p) (off + n1) di' m' \<and> appended R m di off bs (take n1 p) m' di' bs' ix'"
proof -
  let ?f = "off div BSIZE"
  let ?k = "off - ?f * BSIZE"
  have k: "off = ?f * BSIZE + ?k" by (simp add: minus_mod_eq_div_mult[symmetric])
  have n1: "0 < n1" "n1 \<le> length p" "n1 \<le> (?f + 1) * BSIZE - off" using chunk_bounds[OF p, of off] by (simp_all add: n1_def)
  have kn: "?k + length (take n1 p) \<le> BSIZE" using n1 k by simp
  have f: "?f = length bs \<or> Suc ?f = length bs" using l(3) nblk_here[of off] by auto
  obtain m1 di1 bs1 ix1 where b: "block_for ?f di m = Inr (of_nat (bs1 ! ?f), di1, m1)" and rb: "ready_block ?f bs R m di m1 di1 bs1 ix1"
    using block_for_ok[OF l(1,2) f off] room l(3) by auto
  note r = rb[unfolded ready_block_def]
  let ?x = "bs1 ! ?f"
  have lay1: "lay m1 di1 bs1 ix1 R" and len1: "length bs1 = Suc ?f" using r by blast+
  have x: "?x \<in> set bs1" "?x < FSSIZE" using len1 layD(9)[OF lay1, of ?f] layD(6)[OF lay1] by auto
  let ?m2 = "m1\<lparr>fsfd := (fsfd m1)[?x := tail_piece ?k (take n1 p) (fsfd m1 ! ?x)]\<rparr>"
  note ab = appended_block[OF lay1 len1 refl kn]
  have "iappend_loop p off di m = iappend_loop (drop n1 p) (off + n1) di1 ?m2"
    using p off b rsect_ok[OF layD(1)[OF lay1] x(2)] wsect_ok[OF layD(1)[OF lay1] x(2)] n1
    by (subst iappend_loop.simps) (simp add: n1_def[symmetric] Let_def tail_piece_def)
  moreover have "nblk (off + n1) = Suc ?f" by (rule nblk_next[OF n1(1,3)])
  moreover have "content m1 off bs1 = content m off bs"
  proof -
    have same: "map ((!) (fsfd m1)) bs = map ((!) (fsfd m)) bs" using r by (auto simp: untouched_def)
    have "bs1 = bs @ drop (length bs) bs1" using r by (metis append_take_drop_id)
    then have c: "concat (map ((!) (fsfd m1)) bs1) = concat (map ((!) (fsfd m)) bs) @ concat (map ((!) (fsfd m1)) (drop (length bs) bs1))"
      using same by (metis concat_append map_append)
    have "length (concat (map ((!) (fsfd m)) bs)) = length bs * BSIZE"
      using length_concat_blocks[of "map ((!) (fsfd m)) bs" BSIZE] lay_sectors[OF l(1)] by auto
    moreover have "off \<le> length bs * BSIZE" using nblk_covers l(3) by simp
    ultimately show ?thesis unfolding content_def c by simp
  qed
  moreover have "untouched R m di ?m2 di1" using untouched_trans[OF untouched_mono[of "R \<union> set bs" m di m1 di1 R] ab(2)] r by blast
  ultimately have "iappend_loop p off di m = iappend_loop (drop n1 p) (off + n1) di1 ?m2 \<and> appended R m di off bs (take n1 p) ?m2 di1 bs1 ix1"
    using ab(1,3) r n1 k l(3) len1 unfolding appended_def by (simp add: min_absorb2)
  then show ?thesis by blast
qed

lemma appended_trans:
  "appended R m di off bs p m1 di1 bs1 ix1 \<Longrightarrow> appended R m1 di1 (off + length p) bs1 q m2 di2 bs2 ix2
   \<Longrightarrow> appended R m di off bs (p @ q) m2 di2 bs2 ix2"
  unfolding appended_def using untouched_trans[of R m di m1 di1 m2 di2] by (simp add: add.assoc)

lemma iappend_loop_ok:
  assumes "lay m di bs ix R" "thin bs ix" "length bs = nblk off" "off + length p \<le> MAXFILE * BSIZE"
    "freeblock m + tbl (nblk (off + length p)) \<le> FSSIZE + tbl (nblk off)"
  shows "\<exists>m' di' bs' ix'. iappend_loop p off di m = Inr (off + length p, di', m') \<and> appended R m di off bs p m' di' bs' ix'"
  using assms
proof (induction "length p" arbitrary: p off di m bs ix rule: less_induct)
  case less
  show ?case
  proof (cases "p = []")
    case True
    have "appended R m di off bs p m di bs ix" using less.prems True by (simp add: appended_def untouched_refl content_def)
    then show ?thesis using True iappend_loop.simps[of p off di m] by auto
  next
    case False
    let ?n = "chunk_len off (length p)" and ?f = "off div BSIZE"
    have n: "0 < ?n" "?n \<le> length p" "?n \<le> (?f + 1) * BSIZE - off" using chunk_bounds[OF False, of off] by simp_all
    have nx: "nblk (off + ?n) = Suc ?f" by (rule nblk_next[OF n(1,3)])
    have "off < MAXFILE * BSIZE" using less.prems(4) False by (cases p) auto
    then have f: "?f < MAXFILE" by (simp add: div_less_iff_less_mult BSIZE_def)
    have t: "tbl (Suc ?f) \<le> tbl (nblk (off + length p))" unfolding nx[symmetric] using n(2) by (intro tbl_mono nblk_mono) simp
    then have room: "freeblock m + tbl (Suc ?f) \<le> FSSIZE + tbl (nblk off)" using less.prems(5) by linarith
    obtain m1 di1 bs1 ix1 where a: "iappend_loop p off di m = iappend_loop (drop ?n p) (off + ?n) di1 m1" "appended R m di off bs (take ?n p) m1 di1 bs1 ix1"
      using iappend_turn[OF less.prems(1-3) False f room] by blast
    have lt: "length (take ?n p) = ?n" using n(2) by simp
    note a' = a(2)[unfolded appended_def lt]
    have "\<exists>m' di' bs' ix'. iappend_loop (drop ?n p) (off + ?n) di1 m1 = Inr (off + ?n + length (drop ?n p), di', m')
      \<and> appended R m1 di1 (off + ?n) bs1 (drop ?n p) m' di' bs' ix'"
    proof (rule less.hyps)
      show "length (drop ?n p) < length p" using n(1) False by simp
      show "off + ?n + length (drop ?n p) \<le> MAXFILE * BSIZE" using less.prems(4) n(2) by simp
      show "freeblock m1 + tbl (nblk (off + ?n + length (drop ?n p))) \<le> FSSIZE + tbl (nblk (off + ?n))"
        using less.prems(5) a' n(2) by simp
    qed (use a' in blast)+
    then show ?thesis using a(1) appended_trans[OF a(2)] n(2) unfolding lt by fastforce
  qed
qed


subsection \<open>Inodes\<close>

definition ibn :: "nat \<Rightarrow> nat" where "ibn i = i div IPB + (2 + nlog)"

definition inode_of :: "image \<Rightarrow> nat \<Rightarrow> dinode" where
  "inode_of m i = get_dinode (fsfd m ! ibn i) (64 * (i mod IPB))"

abbreviation "NINO \<equiv> ninodeblocks * IPB"

lemma NINO_eq: "ninodeblocks = 13" "IPB = 16" "nlog = 31" "nmeta = 47"
  by (simp_all add: nmeta_def nlog_def ninodeblocks_def nbitmap_def FSSIZE_def NINODES_def IPB_def BPB_def BSIZE_def LOGBLOCKS_def MAXOPBLOCKS_def)

lemma ibn_range: "i < NINO \<Longrightarrow> 33 \<le> ibn i \<and> ibn i < 46"
  unfolding NINO_eq ibn_def by simp

lemma ibn_small: "i < NINO \<Longrightarrow> ibn i < FSSIZE" "i < NINO \<Longrightarrow> ibn i < nmeta"
  using ibn_range[of i] by (simp_all add: FSSIZE_def NINO_eq)

lemma inum_word: "i < NINO \<Longrightarrow> unat (of_nat i :: uint32) = i"
  unfolding NINO_eq by (simp add: unat_of_nat take_bit_nat_eq_self)

lemma IBLOCK_eq: "i < NINO \<Longrightarrow> IBLOCK (of_nat i) mk_sb = of_nat (ibn i)"
proof (rule word_unat_eq_iff[THEN iffD2])
  assume i: "i < NINO"
  have d: "unat (of_nat i div of_nat IPB :: uint32) = i div IPB"
    using inum_word[OF i] by (simp add: unat_div NINO_eq)
  have "unat (of_nat i div of_nat IPB + of_nat (2 + nlog) :: uint32) = i div IPB + (2 + nlog)"
    using i d by (subst unat_word_ariths(1)) (simp add: NINO_eq)
  then show "unat (IBLOCK (of_nat i) mk_sb) = unat (of_nat (ibn i) :: uint32)"
    using small_word[OF ibn_small(1)[OF i]] by (simp add: IBLOCK_def mk_sb_def ibn_def)
qed

lemma slot_fits: "geo m \<Longrightarrow> i < NINO \<Longrightarrow> 64 * (i mod IPB) + 64 \<le> length (fsfd m ! ibn i)"
  using geo_len[OF _ ibn_small(1), of m i] by (simp add: NINO_eq BSIZE_def)

lemma rinode_ok: "geo m \<Longrightarrow> i < NINO \<Longrightarrow> rinode (of_nat i) m = Inr (inode_of m i)"
  using rsect_ok[OF _ ibn_small(1), of m i] IBLOCK_eq[of i] inum_word[of i] by (simp add: rinode_def inode_of_def geo_def)

lemma get_dinode_cong: "take 64 (drop k d) = take 64 (drop k d') \<Longrightarrow> get_dinode d k = get_dinode d' k"
proof -
  assume e: "take 64 (drop k d) = take 64 (drop k d')"
  have w: "take n (drop (k + j) d) = take n (drop (k + j) d')" if "j + n \<le> 64" for j n
  proof -
    have "take n (drop j (take 64 (drop k x))) = take n (drop (k + j) x)" for x :: "uint8 list"
      using that by (simp add: drop_take add.commute)
    then show ?thesis using e by metis
  qed
  have g16: "get16 d (k + j) = get16 d' (k + j)" if "j + 2 \<le> 64" for j unfolding get16_def using w[of j 2] that by simp
  have g32: "get32 d (k + j) = get32 d' (k + j)" if "j + 4 \<le> 64" for j unfolding get32_def using w[of j 4] that by simp
  show ?thesis unfolding get_dinode_def
    using g16[of 0] g16[of 2] g16[of 4] g16[of 6] g32[of 8] g32 by (auto simp: NDIRECT_def fun_eq_iff add.assoc)
qed

lemma winode_ok:
  assumes g: "geo m" and i: "i < NINO" and ok: "dinode_ok di"
  obtains m' where "winode (of_nat i) di m = Inr m'" "geo m'" "inode_of m' i = di"
    "\<forall>j<NINO. j \<noteq> i \<longrightarrow> inode_of m' j = inode_of m j" "\<forall>b. b < 33 \<or> 46 \<le> b \<longrightarrow> fsfd m' ! b = fsfd m ! b"
    "freeblock m' = freeblock m" "freeinode m' = freeinode m"
proof -
  let ?k = "64 * (i mod IPB)"
  let ?d = "put_dinode ?k di (fsfd m ! ibn i)"
  let ?m = "m\<lparr>fsfd := (fsfd m)[ibn i := ?d]\<rparr>"
  note r = dinode_put_get[OF slot_fits[OF g i] ok] and s = ibn_small[OF i]
  have w: "winode (of_nat i) di m = Inr ?m"
    using rsect_ok[OF g s(1)] wsect_ok[OF g s(1)] IBLOCK_eq[OF i] inum_word[OF i] g by (simp add: winode_def geo_def)
  have l: "length ?d = BSIZE" using put_dinode_length[OF slot_fits[OF g i]] geo_len[OF g s(1)] by simp
  have at: "fsfd ?m ! ibn i = ?d" using g s by (simp add: geo_def)
  have o: "inode_of ?m j = inode_of m j" if j: "j < NINO" "j \<noteq> i" for j
  proof (cases "ibn j = ibn i")
    case True
    then have e: "j div IPB = i div IPB" by (simp add: ibn_def)
    have "j mod IPB \<noteq> i mod IPB" using e j(2) by (metis div_mult_mod_eq)
    then have "64 * (j mod IPB) + 64 \<le> ?k \<or> ?k + 64 \<le> 64 * (j mod IPB)" by arith
    then have "take 64 (drop (64 * (j mod IPB)) ?d) = take 64 (drop (64 * (j mod IPB)) (fsfd m ! ibn i))" using r by blast
    then show ?thesis unfolding inode_of_def True at by (rule get_dinode_cong)
  qed (simp add: inode_of_def)
  have "inode_of ?m i = di" unfolding inode_of_def at using r by blast
  moreover have "\<forall>b. b < 33 \<or> 46 \<le> b \<longrightarrow> fsfd ?m ! b = fsfd m ! b" using ibn_range[OF i] by auto
  ultimately show ?thesis using that[OF w geo_write[OF g l]] o by auto
qed


subsection \<open>The image\<close>

text \<open>
  The files of an image are listed by their blocks: entry \<open>i\<close> holds the data blocks and the indirect
  block of inode \<open>i + 1\<close>.
\<close>

type_synonym layout = "(nat list \<times> nat) list"

definition own :: "nat list \<times> nat \<Rightarrow> nat set" where "own f = set (owned (fst f) (snd f))"

definition isize :: "image \<Rightarrow> nat \<Rightarrow> nat" where "isize m i = unat (di_size (inode_of m (Suc i)))"

definition file_ok :: "image \<Rightarrow> nat \<Rightarrow> nat list \<times> nat \<Rightarrow> bool" where
  "file_ok m i f = (file_at m (inode_of m (Suc i)) (fst f) (snd f) \<and> thin (fst f) (snd f) \<and> length (fst f) = nblk (isize m i)
     \<and> isize m i \<le> MAXFILE * BSIZE \<and> dinode_ok (inode_of m (Suc i)) \<and> distinct (owned (fst f) (snd f)))"

definition image_ok :: "image \<Rightarrow> layout \<Rightarrow> bool" where
  "image_ok m L = (geo m \<and> freeinode m = Suc (length L) \<and> length L < NINO
     \<and> (\<forall>i<length L. file_ok m i (L ! i)) \<and> (\<forall>i<length L. \<forall>j<length L. i \<noteq> j \<longrightarrow> own (L ! i) \<inter> own (L ! j) = {})
     \<and> (\<Union>i<length L. own (L ! i)) = {nmeta..<freeblock m} \<and> nmeta \<le> freeblock m \<and> freeblock m \<le> FSSIZE
     \<and> (\<forall>b. freeblock m \<le> b \<and> b < FSSIZE \<longrightarrow> fsfd m ! b = zeros))"

definition bytes_of :: "image \<Rightarrow> layout \<Rightarrow> nat \<Rightarrow> uint8 list" where
  "bytes_of m L i = content m (isize m i) (fst (L ! i))"

lemma image_okD:
  assumes "image_ok m L"
  shows "geo m" "freeinode m = Suc (length L)" "length L < NINO" "i < length L \<Longrightarrow> file_ok m i (L ! i)"
    "i < length L \<Longrightarrow> j < length L \<Longrightarrow> i \<noteq> j \<Longrightarrow> own (L ! i) \<inter> own (L ! j) = {}"
    "(\<Union>i<length L. own (L ! i)) = {nmeta..<freeblock m}" "nmeta \<le> freeblock m" "freeblock m \<le> FSSIZE"
    "\<forall>b. freeblock m \<le> b \<and> b < FSSIZE \<longrightarrow> fsfd m ! b = zeros"
  using assms unfolding image_ok_def by blast+

definition others :: "layout \<Rightarrow> nat \<Rightarrow> nat set" where
  "others L i = (\<Union>j\<in>{..<length L} - {i}. own (L ! j))"

lemma others_in: "j < length L \<Longrightarrow> j \<noteq> i \<Longrightarrow> own (L ! j) \<subseteq> others L i"
  by (auto simp: others_def)

lemma image_lay:
  assumes ok: "image_ok m L" and i: "i < length L"
  shows "lay m (inode_of m (Suc i)) (fst (L ! i)) (snd (L ! i)) (others L i)"
proof -
  note d = image_okD[OF ok] and f = image_okD(4)[OF ok i, unfolded file_ok_def]
  have "own (L ! i) \<inter> others L i = {}" using image_okD(5)[OF ok i] by (auto simp: others_def)
  moreover have "own (L ! i) \<union> others L i = {nmeta..<freeblock m}" unfolding d(6)[symmetric] others_def using i by auto
  ultimately show ?thesis using d(1,7-9) f unfolding lay_def own_def by blast
qed

text \<open>What does not touch the blocks and the inode of a file leaves the file as it is.\<close>

lemma file_kept:
  assumes "inode_of m' (Suc j) = inode_of m (Suc j)" "\<forall>b\<in>own f. fsfd m' ! b = fsfd m ! b"
  shows "file_ok m' j f \<longleftrightarrow> file_ok m j f" "content m' (isize m' j) (fst f) = content m (isize m j) (fst f)"
proof -
  have s: "isize m' j = isize m j" using assms(1) by (simp add: isize_def)
  have x: "snd f \<noteq> 0 \<Longrightarrow> fsfd m' ! snd f = fsfd m ! snd f" using assms(2) by (simp add: own_def owned_def)
  then have "file_at m' di (fst f) (snd f) = file_at m di (fst f) (snd f)" for di by (auto simp: file_at_def)
  then show "file_ok m' j f \<longleftrightarrow> file_ok m j f" unfolding file_ok_def s assms(1) by simp
  have "map ((!) (fsfd m')) (fst f) = map ((!) (fsfd m)) (fst f)" using assms(2) by (simp add: own_def owned_def)
  then show "content m' (isize m' j) (fst f) = content m (isize m j) (fst f)" unfolding content_def s by (simp only:)
qed

definition blocks_for :: "nat \<Rightarrow> nat" where "blocks_for sz = tbl (nblk sz)"

definition grown :: "image \<Rightarrow> layout \<Rightarrow> nat \<Rightarrow> uint8 list \<Rightarrow> image \<Rightarrow> layout \<Rightarrow> bool" where
  "grown m L i p m' L' = (image_ok m' L' \<and> length L' = length L \<and> bytes_of m' L' i = bytes_of m L i @ p
     \<and> isize m' i = isize m i + length p \<and> (\<forall>j<length L. j \<noteq> i \<longrightarrow> bytes_of m' L' j = bytes_of m L j \<and> isize m' j = isize m j)
     \<and> freeblock m' + blocks_for (isize m i) = freeblock m + blocks_for (isize m i + length p)
     \<and> (\<forall>j<length L. di_type (inode_of m' (Suc j)) = di_type (inode_of m (Suc j)))
     \<and> (\<forall>b<33. fsfd m' ! b = fsfd m ! b))"

lemma grown_intro:
  assumes ok: "image_ok m L" and i: "i < length L" and a: "appended (others L i) m (inode_of m (Suc i)) (isize m i) (fst (L ! i)) p m1 di1 bs1 ix1"
    and g: "geo m2" and w: "inode_of m2 (Suc i) = di1\<lparr>di_size := z\<rparr>" "unat z = isize m i + length p"
    "\<forall>j<NINO. j \<noteq> Suc i \<longrightarrow> inode_of m2 j = inode_of m1 j" "\<forall>b. b < 33 \<or> 46 \<le> b \<longrightarrow> fsfd m2 ! b = fsfd m1 ! b"
    "freeblock m2 = freeblock m1 \<and> freeinode m2 = freeinode m1" and dok: "dinode_ok (di1\<lparr>di_size := z\<rparr>)" and sz: "isize m i + length p \<le> MAXFILE * BSIZE"
  shows "grown m L i p m2 (L[i := (bs1, ix1)])"
proof -
  let ?L = "L[i := (bs1, ix1)]" and ?f = "(bs1, ix1)"
  note d = image_okD[OF ok] and a' = a[unfolded appended_def] and k = a[unfolded appended_def untouched_def]
  note l1 = layD[OF a'[THEN conjunct1]]
  have s: "isize m2 i = isize m i + length p" using w(1,2) by (simp add: isize_def)
  have hi: "fsfd m2 ! b = fsfd m1 ! b" if "nmeta \<le> b" for b using w(4) that by (simp add: NINO_eq)
  have in1: "inode_of m1 j = inode_of m j" if "j < NINO" for j using k ibn_small(2)[OF that] by (simp add: inode_of_def)
  have inj: "inode_of m2 (Suc j) = inode_of m (Suc j)" if "j < length L" "j \<noteq> i" for j
    using w(3) in1[of "Suc j"] that d(3) by simp
  have oth: "fsfd m2 ! b = fsfd m ! b" if "j < length L" "j \<noteq> i" "b \<in> own (L ! j)" for j b
  proof -
    have "b \<in> others L i" using others_in[OF that(1,2)] that(3) by blast
    moreover then have "nmeta \<le> b" using l1(5) by auto
    ultimately show ?thesis using hi k by simp
  qed
  have mine: "fsfd m2 ! b = fsfd m1 ! b" if "b \<in> own ?f" for b using l1(5) that by (intro hi) (auto simp: own_def)
  have fat: "file_at m2 (di1\<lparr>di_size := z\<rparr>) bs1 ix1"
    using l1(2) mine[of ix1] by (auto simp: file_at_def own_def owned_def)
  have fi: "file_ok m2 i ?f" using fat a' s dok l1(3) sz w(1) by (simp add: file_ok_def)
  have ci: "bytes_of m2 ?L i = bytes_of m L i @ p"
  proof -
    have "map ((!) (fsfd m2)) bs1 = map ((!) (fsfd m1)) bs1" using mine by (simp add: own_def owned_def)
    then have "content m2 (isize m i + length p) bs1 = content m1 (isize m i + length p) bs1" unfolding content_def by (simp only:)
    then show ?thesis using a' i s by (simp add: bytes_of_def)
  qed
  have fj: "file_ok m2 j (L ! j)" "bytes_of m2 ?L j = bytes_of m L j" "isize m2 j = isize m j" if j: "j < length L" "j \<noteq> i" for j
    using file_kept[OF inj[OF j], of "L ! j"] oth[OF j] image_okD(4)[OF ok j(1)] inj[OF j] j by (auto simp: bytes_of_def isize_def)
  have dis: "own ?f \<inter> own (L ! j) = {}" if "j < length L" "j \<noteq> i" for j
    using l1(4) others_in[OF that] by (auto simp: own_def)
  have un: "(\<Union>j<length L. own (?L ! j)) = {nmeta..<freeblock m1}"
  proof -
    have "(\<Union>j<length L. own (?L ! j)) = own ?f \<union> others L i" using i by (auto simp: others_def nth_list_update split: if_splits)
    then show ?thesis using l1(5) by (simp add: own_def)
  qed
  have "image_ok m2 ?L"
    unfolding image_ok_def
  proof (intro conjI allI impI)
    fix j
    assume "j < length ?L"
    then show "file_ok m2 j (?L ! j)" using fi fj(1) i by (cases "j = i") auto
  next
    fix j k
    assume "j < length ?L" "k < length ?L" "j \<noteq> k"
    then show "own (?L ! j) \<inter> own (?L ! k) = {}" using dis image_okD(5)[OF ok] i by (auto simp: nth_list_update Int_commute)
  next
    fix b
    assume "freeblock m2 \<le> b \<and> b < FSSIZE"
    then show "fsfd m2 ! b = zeros" using layD(7)[OF a'[THEN conjunct1], of b] w(5) l1(11) hi[of b] by simp
  qed (use g w(5) k d(2,3) l1(6,11) un in simp_all)
  moreover have "di_type di1 = di_type (inode_of m (Suc i))"
    using k by (metis dinode.select_convs(1) dinode.surjective dinode.update_convs(6))
  then have "di_type (inode_of m2 (Suc j)) = di_type (inode_of m (Suc j))" if "j < length L" for j
    using inj[of j] that w(1) by (cases "j = i") auto
  moreover have "fsfd m2 ! b = fsfd m ! b" if "b < 33" for b using w(4) k that by (simp add: NINO_eq)
  ultimately show ?thesis using ci s fj a' w(5) unfolding grown_def by (auto simp: blocks_for_def)
qed

lemma size_word: "n \<le> MAXFILE * BSIZE \<Longrightarrow> unat (of_nat n :: uint32) = n"
  by (simp add: unat_of_nat take_bit_nat_eq_self MAXFILE_def NDIRECT_def NINDIRECT_def BSIZE_def)

lemma iappend_ok:
  assumes ok: "image_ok m L" and i: "i < length L" and sz: "isize m i + length p \<le> MAXFILE * BSIZE"
    and room: "freeblock m + blocks_for (isize m i + length p) \<le> FSSIZE + blocks_for (isize m i)"
  shows "\<exists>m' L'. iappend (of_nat (Suc i)) p m = Inr m' \<and> grown m L i p m' L'"
proof -
  let ?di = "inode_of m (Suc i)" and ?bs = "fst (L ! i)" and ?ix = "snd (L ! i)" and ?R = "others L i"
  note d = image_okD[OF ok] and fi = image_okD(4)[OF ok i, unfolded file_ok_def]
  have iN: "Suc i < NINO" using d(3) i by simp
  obtain m1 di1 bs1 ix1 where a: "iappend_loop p (isize m i) ?di m = Inr (isize m i + length p, di1, m1)"
    "appended ?R m ?di (isize m i) ?bs p m1 di1 bs1 ix1"
    using iappend_loop_ok[OF image_lay[OF ok i], of "isize m i" p] fi sz room by (auto simp: blocks_for_def)
  note a' = a(2)[unfolded appended_def] and k = a(2)[unfolded appended_def untouched_def]
  note l1 = layD[OF a'[THEN conjunct1]]
  let ?n = "isize m i + length p"
  let ?di2 = "di1\<lparr>di_size := of_nat ?n\<rparr>"
  have un: "unat (of_nat ?n :: uint32) = ?n" by (rule size_word[OF sz])
  have dok: "dinode_ok ?di2"
  proof -
    have "di_type di1 = di_type ?di" "di_major di1 = di_major ?di" "di_minor di1 = di_minor ?di" "di_nlink di1 = di_nlink ?di"
      using k by (metis dinode.select_convs(1-4) dinode.surjective dinode.update_convs(6))+
    then show ?thesis using fi k by (simp add: dinode_ok_def)
  qed
  obtain m2 where w: "winode (of_nat (Suc i)) ?di2 m1 = Inr m2" "geo m2" "inode_of m2 (Suc i) = ?di2"
    "\<forall>j<NINO. j \<noteq> Suc i \<longrightarrow> inode_of m2 j = inode_of m1 j" "\<forall>b. b < 33 \<or> 46 \<le> b \<longrightarrow> fsfd m2 ! b = fsfd m1 ! b"
    "freeblock m2 = freeblock m1" "freeinode m2 = freeinode m1"
    by (rule winode_ok[OF l1(1) iN dok])
  have "iappend (of_nat (Suc i)) p m = Inr m2"
    using rinode_ok[OF d(1) iN] a(1) w(1) by (simp add: iappend_def isize_def)
  moreover have "grown m L i p m2 (L[i := (bs1, ix1)])"
    by (rule grown_intro[OF ok i a(2) w(2) _ _ _ _ _ dok sz]) (use w k un in \<open>auto simp del: of_nat_add\<close>)
  ultimately show ?thesis by blast
qed

end
