(* ===== verification/MkfsTree.thy ===== *)
theory MkfsTree
  imports MkfsFile
begin

text \<open>
  What the image builder of \<^verbatim>\<open>mkfs/mkfs.c\<close> builds: the image as a list of files, each operation as one on
  the list, and the finished image.
\<close>

subsection \<open>The image as a list of files\<close>

text \<open>The type and the bytes of the inodes 1, 2, \<open>\<dots>\<close> that are in use.\<close>

type_synonym tree = "(int \<times> uint8 list) list"

definition files :: "image \<Rightarrow> layout \<Rightarrow> tree" where
  "files m L = map (\<lambda>i. (di_type (inode_of m (Suc i)), bytes_of m L i)) [0..<length L]"

definition used :: "tree \<Rightarrow> nat" where
  "used fs = (\<Sum>f\<leftarrow>fs. blocks_for (length (snd f)))"

definition sb_block :: "uint8 list" where "sb_block = put_sb mk_sb zeros"

definition repr :: "image \<Rightarrow> tree \<Rightarrow> bool" where
  "repr m fs = ((\<exists>L. image_ok m L \<and> files m L = fs) \<and> freeblock m = nmeta + used fs \<and> fsfd m ! 1 = sb_block)"

definition grow :: "nat \<Rightarrow> uint8 list \<Rightarrow> tree \<Rightarrow> tree" where
  "grow i p fs = fs[i := (fst (fs ! i), snd (fs ! i) @ p)]"

lemma length_bytes:
  assumes "image_ok m L" "i < length L"
  shows "length (bytes_of m L i) = isize m i"
proof -
  note f = image_okD(4)[OF assms, unfolded file_ok_def]
  have "length (concat (map ((!) (fsfd m)) (fst (L ! i)))) = length (fst (L ! i)) * BSIZE"
    using length_concat_blocks[of "map ((!) (fsfd m)) (fst (L ! i))" BSIZE] lay_sectors[OF image_lay[OF assms]] by auto
  then show ?thesis using nblk_covers[of "isize m i"] f by (simp add: bytes_of_def content_def)
qed

lemma files_nth: "i < length L \<Longrightarrow> files m L ! i = (di_type (inode_of m (Suc i)), bytes_of m L i)"
  by (simp add: files_def)

lemma used_update:
  assumes "i < length fs"
  shows "used (fs[i := f]) + blocks_for (length (snd (fs ! i))) = used fs + blocks_for (length (snd f))"
  using assms
proof (induction fs arbitrary: i)
  case (Cons x fs)
  then show ?case by (cases i) (auto simp: used_def)
qed simp

lemma iappend_repr:
  assumes r: "repr m fs" and i: "i < length fs" and sz: "length (snd (fs ! i)) + length p \<le> MAXFILE * BSIZE"
    and room: "nmeta + used (grow i p fs) \<le> FSSIZE"
  shows "\<exists>m'. iappend (of_nat (Suc i)) p m = Inr m' \<and> repr m' (grow i p fs)"
proof -
  obtain L where ok: "image_ok m L" and fs: "files m L = fs" and fb: "freeblock m = nmeta + used fs" and s1: "fsfd m ! 1 = sb_block"
    using r by (auto simp: repr_def)
  have iL: "i < length L" using i fs by (auto simp: files_def)
  have si: "isize m i = length (snd (fs ! i))" using length_bytes[OF ok iL] files_nth[OF iL, of m] fs by simp
  have u: "used (grow i p fs) + blocks_for (isize m i) = used fs + blocks_for (isize m i + length p)"
    using used_update[OF i, of "(fst (fs ! i), snd (fs ! i) @ p)"] si by (simp add: grow_def)
  obtain m' L' where a: "iappend (of_nat (Suc i)) p m = Inr m'" "grown m L i p m' L'"
    using iappend_ok[OF ok iL, of p] sz si room u fb by (auto simp del: of_nat_Suc)
  note g = a(2)[unfolded grown_def]
  have "files m' L' = grow i p fs"
  proof (rule nth_equalityI)
    show len: "length (files m' L') = length (grow i p fs)" using g fs by (auto simp: files_def grow_def)
    fix j
    assume "j < length (files m' L')"
    then have j: "j < length L" "j < length L'" using g by (simp_all add: files_def)
    show "files m' L' ! j = grow i p fs ! j"
      using files_nth[OF j(1), of m] files_nth[OF j(2), of m'] files_nth[OF iL, of m] g j fs i unfolding grow_def by (cases "j = i") auto
  qed
  moreover have "freeblock m' = nmeta + used (grow i p fs)" using g u fb by linarith
  ultimately show ?thesis using a(1) g s1 unfolding repr_def by (auto simp del: of_nat_Suc)
qed

lemma mk_ialloc_repr:
  assumes r: "repr m fs" and n: "Suc (length fs) < NINO"
  shows "\<exists>m'. mk_ialloc ty m = Inr (of_nat (Suc (length fs)), m') \<and> repr m' (fs @ [(sint ty, [])])"
proof -
  obtain L where ok: "image_ok m L" and fs: "files m L = fs" and fb: "freeblock m = nmeta + used fs" and s1: "fsfd m ! 1 = sb_block"
    using r by (auto simp: repr_def)
  note d = image_okD[OF ok]
  have len: "length fs = length L" using fs by (auto simp: files_def)
  let ?i = "Suc (length L)"
  let ?m = "m\<lparr>freeinode := Suc (freeinode m)\<rparr>"
  let ?di = "zero_dinode\<lparr>di_type := sint ty, di_nlink := 1, di_size := 0\<rparr>"
  have ty: "- 32768 \<le> sint ty" "sint ty < 32768" for ty :: uint16 using sint_greater_eq[of ty] sint_less[of ty] by simp_all
  have dok: "dinode_ok ?di" using ty[of ty] by (simp add: dinode_ok_def)
  have g: "geo ?m" using d(1) by (simp add: geo_def)
  have iN: "?i < NINO" using n len by simp
  obtain m' where w: "winode (of_nat ?i) ?di ?m = Inr m'" "geo m'" "inode_of m' ?i = ?di"
    "\<forall>j<NINO. j \<noteq> ?i \<longrightarrow> inode_of m' j = inode_of ?m j" "\<forall>b. b < 33 \<or> 46 \<le> b \<longrightarrow> fsfd m' ! b = fsfd ?m ! b"
    "freeblock m' = freeblock ?m" "freeinode m' = freeinode ?m"
    by (rule winode_ok[OF g iN dok])
  have res: "mk_ialloc ty m = Inr (of_nat ?i, m')"
    using w(1) d(2) by (simp add: mk_ialloc_def Let_def del: of_nat_Suc)
  let ?L = "L @ [([], 0)]"
  have inj: "inode_of m' (Suc j) = inode_of m (Suc j)" if "j < length L" for j using w(4) that d(3) by (simp add: inode_of_def)
  have hi: "fsfd m' ! b = fsfd m ! b" if "nmeta \<le> b" for b using w(5) that by (simp add: NINO_eq)
  have sec: "fsfd m' ! b = fsfd m ! b" if "b \<in> own (L ! j)" "j < length L" for b j using that d(6) by (intro hi) auto
  have fj: "file_ok m' j (?L ! j)" "bytes_of m' ?L j = bytes_of m L j" if j: "j < length L" for j
    using file_kept[OF inj[OF j], of "L ! j"] sec[OF _ j] image_okD(4)[OF ok j] j by (auto simp: bytes_of_def nth_append)
  have z: "isize m' (length L) = 0" using w(3) by (simp add: isize_def)
  have fn: "file_ok m' (length L) ([], 0)" using w(3) dok z
    by (simp add: file_ok_def file_at_def thin_def nblk_def BSIZE_def owned_def)
  have own0: "own ([], 0) = {}" by (simp add: own_def owned_def)
  have "image_ok m' ?L"
    unfolding image_ok_def
  proof (intro conjI allI impI)
    fix j
    assume "j < length ?L"
    then show "file_ok m' j (?L ! j)" using fj(1)[of j] fn by (cases "j = length L") (simp_all add: nth_append)
  next
    fix j k
    assume "j < length ?L" "k < length ?L" "j \<noteq> k"
    then show "own (?L ! j) \<inter> own (?L ! k) = {}" using image_okD(5)[OF ok] own0 by (auto simp: nth_append less_Suc_eq)
  next
    fix b
    assume "freeblock m' \<le> b \<and> b < FSSIZE"
    then show "fsfd m' ! b = zeros" using d(7,9) w(6) hi[of b] by simp
  next
    have "(\<Union>j<length ?L. own (?L ! j)) = (\<Union>j<length L. own (L ! j))"
      using own0 by (auto simp: nth_append less_Suc_eq split: if_splits)
    then show "(\<Union>j<length ?L. own (?L ! j)) = {nmeta..<freeblock m'}" using d(6) w(6) by simp
  qed (use w(2,6,7) d(2,3,7,8) n len in simp_all)
  moreover have "files m' ?L = fs @ [(sint ty, [])]"
  proof (rule nth_equalityI)
    show "length (files m' ?L) = length (fs @ [(sint ty, [])])" using len by (simp add: files_def)
    fix j
    assume "j < length (files m' ?L)"
    then have j: "j < length ?L" by (simp add: files_def)
    show "files m' ?L ! j = (fs @ [(sint ty, [])]) ! j"
    proof (cases "j = length L")
      case True
      then show ?thesis using files_nth[OF j, of m'] w(3) z len by (simp add: bytes_of_def content_def nth_append)
    next
      case False
      then have jl: "j < length L" using j by simp
      then show ?thesis using files_nth[OF j, of m'] fj(2)[OF jl] inj[OF jl] files_nth[OF jl, of m] fs len by (simp add: nth_append)
    qed
  qed
  moreover have "used (fs @ [(sint ty, [])]) = used fs" by (simp add: used_def blocks_for_def tbl_def nblk_def BSIZE_def)
  moreover have "fsfd m' ! 1 = sb_block" using w(5) s1 by simp
  ultimately show ?thesis using res w(6) fb len unfolding repr_def by (auto simp del: of_nat_Suc)
qed


subsection \<open>The whole image\<close>

lemma used_grow: "i < length fs \<Longrightarrow> used fs \<le> used (grow i p fs)"
  using used_update[of i fs "(fst (fs ! i), snd (fs ! i) @ p)"] tbl_mono[OF nblk_mono[of "length (snd (fs ! i))" "length (snd (fs ! i)) + length p"]]
  by (simp add: grow_def blocks_for_def)

lemma grow_grow: "i < length fs \<Longrightarrow> grow i q (grow i p fs) = grow i (p @ q) fs"
  by (simp add: grow_def)

lemma copy_file_repr:
  assumes "repr m fs" "i < length fs" "length (snd (fs ! i)) + length p \<le> MAXFILE * BSIZE" "nmeta + used (grow i p fs) \<le> FSSIZE"
  shows "\<exists>m'. copy_file (of_nat (Suc i)) p m = Inr m' \<and> repr m' (grow i p fs)"
  using assms
proof (induction "length p" arbitrary: p m fs rule: less_induct)
  case less
  show ?case
  proof (cases "p = []")
    case True
    then show ?thesis using less.prems by (subst copy_file.simps) (simp add: grow_def)
  next
    case False
    let ?a = "take BSIZE p" and ?b = "drop BSIZE p"
    have e: "grow i ?b (grow i ?a fs) = grow i p fs" using grow_grow[OF less.prems(2), of ?b ?a] by simp
    have gl: "i < length (grow i ?a fs)" using less.prems(2) by (simp add: grow_def)
    have ab: "length ?a + length ?b = length p" by simp
    have "used (grow i ?a fs) \<le> used (grow i p fs)" using used_grow[OF gl, of ?b] e by simp
    then obtain m1 where m1: "iappend (of_nat (Suc i)) ?a m = Inr m1" "repr m1 (grow i ?a fs)"
      using iappend_repr[OF less.prems(1,2), of ?a] less.prems(3,4) by fastforce
    have "\<exists>m'. copy_file (of_nat (Suc i)) ?b m1 = Inr m' \<and> repr m' (grow i ?b (grow i ?a fs))"
    proof (rule less.hyps[OF _ m1(2) gl])
      show "length ?b < length p" using False by (simp add: BSIZE_def)
      show "length (snd (grow i ?a fs ! i)) + length ?b \<le> MAXFILE * BSIZE" using less.prems(2,3) ab by (simp add: grow_def)
      show "nmeta + used (grow i ?b (grow i ?a fs)) \<le> FSSIZE" using less.prems(4) e by simp
    qed
    then show ?thesis using m1(1) False e by (subst copy_file.simps) (auto simp del: of_nat_Suc)
  qed
qed

text \<open>One file of the command line.\<close>

definition good_arg :: "(string \<Rightarrow> uint8 list option) \<Rightarrow> string \<Rightarrow> bool" where
  "good_arg host arg = (CHR ''/'' \<notin> set (shortname arg) \<and> length (skip_underscore (shortname arg)) \<le> DIRSIZ
     \<and> (case host arg of None \<Rightarrow> False | Some b \<Rightarrow> length b \<le> MAXFILE * BSIZE))"

definition add_tree :: "(string \<Rightarrow> uint8 list option) \<Rightarrow> string \<Rightarrow> tree \<Rightarrow> tree" where
  "add_tree host arg fs =
     grow 0 (mk_dirent (skip_underscore (shortname arg)) (of_nat (Suc (length fs)))) fs @ [(T_FILE, the (host arg))]"

lemma mk_dirent_length: "length (mk_dirent n i) = 16"
  by (simp add: mk_dirent_def strncpy_spec DIRSIZ_def)

lemma used_append: "used (fs @ gs) = used fs + used gs"
  by (simp add: used_def)

lemma inum_short: "i < NINO \<Longrightarrow> (ucast (of_nat i :: uint32) :: uint16) = of_nat i"
  unfolding NINO_eq by (simp add: unsigned_of_nat take_bit_nat_eq_self)

lemma add_file_repr:
  assumes r: "repr m fs" and fs: "fs \<noteq> []" and n: "Suc (length fs) < NINO" and good: "good_arg host arg"
    and dir: "length (snd (fs ! 0)) + 16 \<le> MAXFILE * BSIZE" and room: "nmeta + used (add_tree host arg fs) \<le> FSSIZE"
  shows "\<exists>m'. add_file host (of_nat 1) arg m = Inr m' \<and> repr m' (add_tree host arg fs)"
proof -
  let ?name = "skip_underscore (shortname arg)"
  obtain b where b: "host arg = Some b" "length b \<le> MAXFILE * BSIZE" using good by (auto simp: good_arg_def split: option.splits)
  let ?i = "Suc (length fs)"
  let ?de = "mk_dirent ?name (of_nat ?i)"
  let ?fs1 = "fs @ [(T_FILE, [])]"
  let ?fs2 = "grow 0 ?de ?fs1"
  obtain m1 where m1: "mk_ialloc (of_int T_FILE) m = Inr (of_nat ?i, m1)" "repr m1 ?fs1"
    using mk_ialloc_repr[OF r n, of "of_int T_FILE"] by (auto simp: T_FILE_def)
  have e2: "?fs2 = grow 0 ?de fs @ [(T_FILE, [])]" using fs by (simp add: grow_def nth_append list_update_append)
  have e3: "grow (length fs) b ?fs2 = add_tree host arg fs"
    unfolding e2 add_tree_def using b(1) by (simp add: grow_def nth_append list_update_append)
  have s2: "snd (?fs2 ! length fs) = []" unfolding e2 by (simp add: grow_def nth_append)
  have l2: "length fs < length ?fs2" by (simp add: grow_def)
  have u2: "nmeta + used ?fs2 \<le> FSSIZE" using used_grow[OF l2, of b] room e3 by simp
  obtain m2 where m2: "iappend (of_nat (Suc 0)) ?de m1 = Inr m2" "repr m2 ?fs2"
    using iappend_repr[OF m1(2) _ _ u2] dir fs by (auto simp: nth_append mk_dirent_length)
  obtain m3 where m3: "copy_file (of_nat ?i) b m2 = Inr m3" "repr m3 (add_tree host arg fs)"
    using copy_file_repr[OF m2(2) l2, of b, unfolded e3] room b(2) s2 by (auto simp del: of_nat_Suc)
  have "(ucast (of_nat ?i :: uint32) :: uint16) = of_nat ?i" by (rule inum_short[OF n])
  then show ?thesis using m1(1) m2(1) m3 good b(1) by (auto simp: add_file_def good_arg_def Let_def simp del: of_nat_Suc)
qed

lemma zero_loop: "n \<le> FSSIZE \<Longrightarrow> fold (\<lambda>i. wsect (of_nat i) zeros) [0..<n] m = m\<lparr>fsfd := replicate n zeros\<rparr>" if "fsfd m = []"
proof (induction n)
  case (Suc n)
  then have "unat (of_nat n :: uint32) = n" by (intro small_word) simp
  then have "wsect (of_nat n) zeros (m\<lparr>fsfd := replicate n zeros\<rparr>) = m\<lparr>fsfd := replicate (Suc n) zeros\<rparr>"
  proof -
    assume u: "unat (of_nat n :: uint32) = n"
    have a: "(replicate n zeros @ [zeros])[n := zeros] = replicate n zeros @ [zeros]" by (simp add: list_update_append)
    show ?thesis by (simp add: wsect_def a u) (simp add: replicate_append_same)
  qed
  then show ?case using Suc by simp
qed (use that in simp)

lemma length_put_sb: "length d = BSIZE \<Longrightarrow> length (put_sb b d) = BSIZE"
  by (simp add: put_sb_def BSIZE_def upt_rec)

lemma blank_repr: "repr blank_image []"
proof -
  let ?m = "\<lparr>fsfd = replicate FSSIZE zeros, isb = mk_sb, freeinode = 1, freeblock = nmeta\<rparr>"
  have g: "geo ?m" by (simp add: geo_def)
  have one: "(1::nat) < FSSIZE" by (simp add: FSSIZE_def)
  have b: "blank_image = ?m\<lparr>fsfd := (replicate FSSIZE zeros)[1 := sb_block]\<rparr>"
    using zero_loop[of "\<lparr>fsfd = [], isb = mk_sb, freeinode = 1, freeblock = nmeta\<rparr>" FSSIZE] wsect_ok[OF g one]
    by (simp add: blank_image_def sb_block_def Let_def)
  have "geo blank_image" using geo_write[OF g, of sb_block 1] by (simp add: b sb_block_def length_put_sb)
  then have "image_ok blank_image []" using nmeta_pos by (simp add: image_ok_def b NINO_eq)
  then show ?thesis using one by (auto simp: repr_def files_def used_def b)
qed

text \<open>The files of the command line, in order.\<close>

definition root_tree :: tree where
  "root_tree = [(T_DIR, mk_dirent ''.'' 1 @ mk_dirent ''..'' 1)]"

definition mk_tree :: "(string \<Rightarrow> uint8 list option) \<Rightarrow> string list \<Rightarrow> tree" where
  "mk_tree host args =
     (T_DIR, mk_dirent ''.'' 1 @ mk_dirent ''..'' 1
        @ concat (map (\<lambda>(k, a). mk_dirent (skip_underscore (shortname a)) (of_nat k)) (enumerate 2 args)))
     # map (\<lambda>a. (T_FILE, the (host a))) args"

lemma mk_tree_fold: "mk_tree host args = fold (add_tree host) args root_tree"
proof (induction args rule: rev_induct)
  case (snoc a args)
  have e: "fold (add_tree host) (args @ [a]) root_tree = add_tree host a (mk_tree host args)" using snoc by simp
  have n: "Suc (length (mk_tree host args)) = 2 + length args" by (simp add: mk_tree_def)
  have "add_tree host a (mk_tree host args) = mk_tree host (args @ [a])"
    unfolding add_tree_def n by (simp add: mk_tree_def grow_def enumerate_append_eq)
  then show ?case using e by simp
qed (simp add: mk_tree_def root_tree_def)

lemma add_tree_shape:
  assumes "fs \<noteq> []"
  shows "add_tree host arg fs \<noteq> []" "length (add_tree host arg fs) = Suc (length fs)"
    "length (snd (add_tree host arg fs ! 0)) = length (snd (fs ! 0)) + 16" "used fs \<le> used (add_tree host arg fs)"
  using assms used_grow[of 0 fs] by (auto simp: add_tree_def grow_def mk_dirent_length nth_append used_append trans_le_add1)

lemma used_tree: "fs \<noteq> [] \<Longrightarrow> used fs \<le> used (fold (add_tree host) args fs)"
proof (induction args arbitrary: fs)
  case (Cons a args)
  then show ?case using add_tree_shape[OF Cons.prems, of host a] Cons.IH[of "add_tree host a fs"] by (auto intro: order_trans)
qed simp

lemma add_files_repr:
  assumes "repr m fs" "fs \<noteq> []" "length fs + length args < NINO" "\<forall>a\<in>set args. good_arg host a" "length (snd (fs ! 0)) = 16 * (length fs + 1)"
    "nmeta + used (fold (add_tree host) args fs) \<le> FSSIZE"
  shows "\<exists>m'. for_each (add_file host (of_nat 1)) args m = Inr m' \<and> repr m' (fold (add_tree host) args fs)"
  using assms
proof (induction args arbitrary: m fs)
  case (Cons a args)
  let ?fs = "add_tree host a fs"
  note s = add_tree_shape[OF Cons.prems(2), of host a]
  have "nmeta + used ?fs \<le> FSSIZE" using used_tree[OF s(1), of host args] Cons.prems(6) by simp
  moreover have "length (snd (fs ! 0)) + 16 \<le> MAXFILE * BSIZE"
    using Cons.prems(3,5) by (simp add: NINO_eq MAXFILE_def NDIRECT_def NINDIRECT_def BSIZE_def)
  ultimately obtain m1 where m1: "add_file host (of_nat 1) a m = Inr m1" "repr m1 ?fs"
    using add_file_repr[OF Cons.prems(1,2), of host a] Cons.prems(3,4) by auto
  have "\<exists>m'. for_each (add_file host (of_nat 1)) args m1 = Inr m' \<and> repr m' (fold (add_tree host) args ?fs)"
    by (rule Cons.IH[OF m1(2) s(1)]) (use Cons.prems s(2,3) in auto)
  then show ?case using m1(1) by auto
qed simp

text \<open>The bitmap.\<close>

definition bitmap :: "nat \<Rightarrow> uint8 list" where
  "bitmap n = fold (\<lambda>i buf. buf[i div 8 := buf ! (i div 8) OR push_bit (i mod 8) 1]) [0..<n] zeros"

lemma bitmap_bits:
  "n \<le> BPB \<Longrightarrow> length (bitmap n) = BSIZE \<and> (\<forall>b<BPB. bit (bitmap n ! (b div 8)) (b mod 8) \<longleftrightarrow> b < n)"
proof (induction n)
  case 0
  have "b div 8 < BSIZE" if "b < BPB" for b using that by (simp add: BPB_def)
  then show ?case by (simp add: bitmap_def)
next
  case (Suc n)
  then have ih: "length (bitmap n) = BSIZE" "\<forall>b<BPB. bit (bitmap n ! (b div 8)) (b mod 8) \<longleftrightarrow> b < n" by auto
  have e: "bitmap (Suc n) = (bitmap n)[n div 8 := bitmap n ! (n div 8) OR push_bit (n mod 8) 1]" by (simp add: bitmap_def)
  have nl: "n div 8 < length (bitmap n)" using Suc.prems ih(1) by (simp add: BPB_def)
  have "bit (bitmap (Suc n) ! (b div 8)) (b mod 8) \<longleftrightarrow> b < Suc n" if b: "b < BPB" for b
  proof (cases "b div 8 = n div 8")
    case True
    have "b mod 8 = n mod 8 \<longleftrightarrow> b = n" using True by (metis div_mult_mod_eq)
    moreover have "bit (push_bit (n mod 8) 1 :: uint8) (b mod 8) \<longleftrightarrow> b mod 8 = n mod 8"
      by (auto simp: bit_exp_iff)
    ultimately show ?thesis using ih(2) b nl True unfolding e by (auto simp: bit_or_iff)
  next
    case False
    then have "b \<noteq> n" by auto
    then show ?thesis using ih(2) b False unfolding e by auto
  qed
  then show ?case using ih(1) e by simp
qed

definition root_size :: "nat \<Rightarrow> nat" where "root_size n = (n div BSIZE + 1) * BSIZE"

lemma root_word: "n \<le> MAXFILE * BSIZE \<Longrightarrow> unat ((of_nat n div of_nat BSIZE + 1) * of_nat BSIZE :: uint32) = root_size n"
proof -
  assume n: "n \<le> MAXFILE * BSIZE"
  have b: "unat (of_nat BSIZE :: uint32) = BSIZE" by (simp add: BSIZE_def)
  have q: "unat (of_nat n div of_nat BSIZE :: uint32) = n div BSIZE" using size_word[OF n] b by (simp add: unat_div)
  have le: "n div BSIZE \<le> 268" using n by (simp add: MAXFILE_def NDIRECT_def NINDIRECT_def BSIZE_def)
  have "unat (of_nat n div of_nat BSIZE + 1 :: uint32) = n div BSIZE + 1"
    using q le by (subst unat_word_ariths(1)) simp
  then show ?thesis unfolding root_size_def using b le by (subst unat_word_ariths(2)) (simp add: BSIZE_def)
qed

text \<open>
  A finished image holds the tree \<open>fs\<close>: each inode has its type, leads to its bytes through its direct
  and indirect blocks, no block belongs to two of them, the bitmap marks exactly the blocks before the
  first data block and those of the files, and the super block is in place.  The size of the root is
  rounded up beyond its entries.
\<close>

definition holds_tree :: "image \<Rightarrow> tree \<Rightarrow> layout \<Rightarrow> bool" where
  "holds_tree m fs L = (geo m \<and> length L = length fs
     \<and> (\<forall>i<length fs. di_type (inode_of m (Suc i)) = fst (fs ! i) \<and> file_at m (inode_of m (Suc i)) (fst (L ! i)) (snd (L ! i))
          \<and> thin (fst (L ! i)) (snd (L ! i)) \<and> content m (length (snd (fs ! i))) (fst (L ! i)) = snd (fs ! i)
          \<and> isize m i = (if i = 0 then root_size (length (snd (fs ! i))) else length (snd (fs ! i)))
          \<and> distinct (owned (fst (L ! i)) (snd (L ! i))))
     \<and> (\<forall>i<length L. \<forall>j<length L. i \<noteq> j \<longrightarrow> own (L ! i) \<inter> own (L ! j) = {})
     \<and> (\<forall>b<BPB. bit (fsfd m ! (2 + nlog + ninodeblocks) ! (b div 8)) (b mod 8) \<longleftrightarrow> b < nmeta \<or> (\<exists>i<length L. b \<in> own (L ! i)))
     \<and> fsfd m ! 1 = put_sb mk_sb zeros)"

lemma finish_repr:
  assumes r: "repr m fs" and fs: "fs \<noteq> []"
  shows "\<exists>m1 m2 L. fix_root (of_nat 1) m = Inr m1 \<and> mk_balloc (freeblock m1) m1 = Inr m2 \<and> holds_tree m2 fs L"
proof -
  obtain L where ok: "image_ok m L" and fm: "files m L = fs" and s1: "fsfd m ! 1 = sb_block" using r by (auto simp: repr_def)
  note d = image_okD[OF ok]
  have len: "length fs = length L" using fm by (auto simp: files_def)
  have L0: "0 < length L" using fs unfolding len[symmetric] by simp
  let ?n = "isize m 0" and ?di = "inode_of m 1"
  note f0 = image_okD(4)[OF ok L0, unfolded file_ok_def]
  have oneN: "(1::nat) < NINO" by (simp add: NINO_eq)
  let ?z = "(of_nat ?n div of_nat BSIZE + 1) * of_nat BSIZE :: uint32"
  have sz: "di_size ?di = of_nat ?n" by (simp add: isize_def)
  have dok: "dinode_ok (?di\<lparr>di_size := ?z\<rparr>)" using f0 by (simp add: dinode_ok_def)
  obtain m1 where w: "winode (of_nat 1) (?di\<lparr>di_size := ?z\<rparr>) m = Inr m1" "geo m1" "inode_of m1 1 = ?di\<lparr>di_size := ?z\<rparr>"
    "\<forall>j<NINO. j \<noteq> 1 \<longrightarrow> inode_of m1 j = inode_of m j" "\<forall>b. b < 33 \<or> 46 \<le> b \<longrightarrow> fsfd m1 ! b = fsfd m ! b"
    "freeblock m1 = freeblock m" "freeinode m1 = freeinode m"
    by (rule winode_ok[OF d(1) oneN dok])
  have fr: "fix_root (of_nat 1) m = Inr m1"
    using rinode_ok[OF d(1) oneN] w(1) sz by (simp add: fix_root_def Let_def)
  let ?bn = "2 + nlog + ninodeblocks"
  have bn: "?bn = 46" "?bn < FSSIZE" by (simp_all add: NINO_eq FSSIZE_def)
  have fb: "freeblock m1 < BPB" using w(6) d(8) by (simp add: FSSIZE_def BPB_def BSIZE_def)
  define m2 where "m2 = m1\<lparr>fsfd := (fsfd m1)[46 := bitmap (freeblock m1)]\<rparr>"
  have mb: "mk_balloc (freeblock m1) m1 = Inr m2"
  proof -
    have "sb_bmapstart (isb m1) = of_nat ?bn" using w(2) by (simp add: geo_def mk_sb_def)
    then show ?thesis using wsect_ok[OF w(2) bn(2)] fb unfolding mk_balloc_def bn(1) m2_def bitmap_def by (simp only: if_True)
  qed
  note bits = bitmap_bits[OF less_imp_le[OF fb]]
  have g2: "geo m2" unfolding m2_def by (rule geo_write[OF w(2)]) (use bits in simp)
  have hi: "fsfd m2 ! b = fsfd m ! b" if "nmeta \<le> b \<or> b < 33" for b using w(5) that by (auto simp: m2_def NINO_eq)
  have in2: "inode_of m2 j = inode_of m1 j" if "j < NINO" for j using ibn_range[OF that] by (simp add: inode_of_def m2_def)
  have each: "di_type (inode_of m2 (Suc i)) = fst (fs ! i) \<and> file_at m2 (inode_of m2 (Suc i)) (fst (L ! i)) (snd (L ! i))
      \<and> thin (fst (L ! i)) (snd (L ! i)) \<and> content m2 (length (snd (fs ! i))) (fst (L ! i)) = snd (fs ! i)
      \<and> isize m2 i = (if i = 0 then root_size (length (snd (fs ! i))) else length (snd (fs ! i)))
      \<and> distinct (owned (fst (L ! i)) (snd (L ! i)))" if i: "i < length fs" for i
  proof -
    have iL: "i < length L" "Suc i < NINO" using i len d(3) by simp_all
    note f = image_okD(4)[OF ok iL(1), unfolded file_ok_def]
    have fi: "fst (fs ! i) = di_type (inode_of m (Suc i))" "snd (fs ! i) = bytes_of m L i" using files_nth[OF iL(1), of m] fm by simp_all
    have ln: "length (snd (fs ! i)) = isize m i" using length_bytes[OF ok iL(1)] fi(2) by simp
    have own: "fsfd m2 ! b = fsfd m ! b" if "b \<in> own (L ! i)" for b using d(6) iL(1) that by (intro hi) auto
    have same: "inode_of m2 (Suc i) = (if i = 0 then ?di\<lparr>di_size := ?z\<rparr> else inode_of m (Suc i))"
      using in2[OF iL(2)] w(3,4) iL(2) by auto
    have fa: "file_at m2 di (fst (L ! i)) (snd (L ! i)) = file_at m di (fst (L ! i)) (snd (L ! i))" for di
      using own[of "snd (L ! i)"] by (auto simp: file_at_def own_def owned_def)
    have "file_at m2 (inode_of m2 (Suc i)) (fst (L ! i)) (snd (L ! i))"
      using f unfolding same fa by (auto simp: file_at_def)
    moreover have "map ((!) (fsfd m2)) (fst (L ! i)) = map ((!) (fsfd m)) (fst (L ! i))" using own by (simp add: own_def owned_def)
    then have "content m2 (isize m i) (fst (L ! i)) = bytes_of m L i" unfolding content_def bytes_of_def by (simp only:)
    moreover have "isize m2 i = (if i = 0 then root_size (isize m i) else isize m i)"
      using same root_word[of ?n] f0 by (auto simp: isize_def)
    moreover have "di_type (inode_of m2 (Suc i)) = fst (fs ! i)" using same fi(1) by auto
    ultimately show ?thesis using f fi(2) unfolding ln by simp
  qed
  have map: "bit (fsfd m2 ! ?bn ! (b div 8)) (b mod 8) \<longleftrightarrow> b < nmeta \<or> (\<exists>i<length L. b \<in> own (L ! i))" if "b < BPB" for b
  proof -
    have "fsfd m2 ! ?bn = bitmap (freeblock m1)" unfolding bn(1) m2_def using w(2) by (simp add: geo_def FSSIZE_def)
    then have "bit (fsfd m2 ! ?bn ! (b div 8)) (b mod 8) \<longleftrightarrow> b < freeblock m" using bits that w(6) by simp
    also have "\<dots> \<longleftrightarrow> b < nmeta \<or> b \<in> (\<Union>i<length L. own (L ! i))" unfolding d(6) using d(7) by auto
    finally show ?thesis by auto
  qed
  have "holds_tree m2 fs L" unfolding holds_tree_def
    using g2 len each image_okD(5)[OF ok] map hi[of 1] s1 by (simp add: sb_block_def)
  then show ?thesis using fr mb by blast
qed

text \<open>C13.  The image builder: for files that can be read, with names of at most 14 characters, whose
  blocks fit into the image, it returns an image that holds the root directory with its entries in the
  order of the command line and every file byte for byte.\<close>

theorem mkfs_builds_tree:
  assumes "\<forall>a\<in>set args. good_arg host a" "Suc (length args) < NINO" "nmeta + used (mk_tree host args) \<le> FSSIZE"
  shows "\<exists>m L. main host (prog # img # args) = Inr m \<and> holds_tree m (mk_tree host args) L"
proof -
  obtain m0 where m0: "mk_ialloc (of_int T_DIR) blank_image = Inr (of_nat 1, m0)" "repr m0 [(T_DIR, [])]"
    using mk_ialloc_repr[OF blank_repr, of "of_int T_DIR"] by (auto simp: NINO_eq T_DIR_def)
  let ?d1 = "mk_dirent ''.'' 1" and ?d2 = "mk_dirent ''..'' 1"
  have u: "nmeta + used root_tree \<le> FSSIZE" "root_tree \<noteq> []"
    using used_tree[of root_tree host args] assms(3) by (simp_all add: mk_tree_fold root_tree_def)
  have g: "grow 0 ?d2 (grow 0 ?d1 [(T_DIR, [])]) = root_tree" by (simp add: grow_def root_tree_def)
  have u1: "nmeta + used (grow 0 ?d1 [(T_DIR, [])]) \<le> FSSIZE"
    using used_grow[of 0 "grow 0 ?d1 [(T_DIR, [])]" ?d2] g u(1) by (simp add: grow_def)
  have big: "32 \<le> MAXFILE * BSIZE" by (simp add: MAXFILE_def NDIRECT_def NINDIRECT_def BSIZE_def)
  obtain m1 where m1: "iappend (of_nat 1) ?d1 m0 = Inr m1" "repr m1 (grow 0 ?d1 [(T_DIR, [])])"
    using iappend_repr[OF m0(2) _ _ u1] big by (auto simp: mk_dirent_length)
  obtain m2 where m2: "iappend (of_nat 1) ?d2 m1 = Inr m2" "repr m2 root_tree"
    using iappend_repr[OF m1(2), of 0 ?d2] g u(1) big by (auto simp: mk_dirent_length grow_def)
  obtain m3 where m3: "for_each (add_file host (of_nat 1)) args m2 = Inr m3" "repr m3 (mk_tree host args)"
    using add_files_repr[OF m2(2) u(2), of args host] assms by (auto simp: mk_tree_fold root_tree_def mk_dirent_length)
  have "mk_tree host args \<noteq> []" by (simp add: mk_tree_def)
  then obtain m4 m5 L where f: "fix_root (of_nat 1) m3 = Inr m4" "mk_balloc (freeblock m4) m4 = Inr m5" "holds_tree m5 (mk_tree host args) L"
    using finish_repr[OF m3(2)] by blast
  have "(ucast (1::uint32) :: uint16) = 1" by simp
  then have "main host (prog # img # args) = Inr m5"
    using m0(1) m1(1) m2(1) m3(1) f(1,2) by (simp add: main_def ROOTINO_def)
  then show ?thesis using f(3) by blast
qed

definition demo_host :: "string \<Rightarrow> uint8 list option" where
  "demo_host a = (if a = ''user/_cat'' then Some (replicate 14000 9) else if a = ''README'' then Some [72, 105] else None)"

theorem mkfs_builds_tree_witness:
  "\<exists>m L. main demo_host [''mkfs'', ''fs.img'', ''README'', ''user/_cat''] = Inr m
    \<and> holds_tree m [(T_DIR, mk_dirent ''.'' 1 @ mk_dirent ''..'' 1 @ mk_dirent ''README'' 2 @ mk_dirent ''cat'' 3),
         (T_FILE, [72, 105]), (T_FILE, replicate 14000 9)] L"
proof -
  have names: "skip_underscore (shortname ''README'') = ''README''" "skip_underscore (shortname ''user/_cat'') = ''cat''"
    by (simp_all add: shortname_def skip_underscore_def)
  have tree: "mk_tree demo_host [''README'', ''user/_cat''] =
      [(T_DIR, mk_dirent ''.'' 1 @ mk_dirent ''..'' 1 @ mk_dirent ''README'' 2 @ mk_dirent ''cat'' 3),
         (T_FILE, [72, 105]), (T_FILE, replicate 14000 9)]"
    by (simp add: mk_tree_def names demo_host_def)
  have "\<exists>m L. main demo_host (''mkfs'' # ''fs.img'' # [''README'', ''user/_cat'']) = Inr m \<and> holds_tree m (mk_tree demo_host [''README'', ''user/_cat'']) L"
  proof (rule mkfs_builds_tree)
    show "\<forall>a\<in>set [''README'', ''user/_cat'']. good_arg demo_host a"
      by (simp add: good_arg_def names demo_host_def DIRSIZ_def MAXFILE_def NDIRECT_def NINDIRECT_def BSIZE_def) (simp add: shortname_def)
    show "Suc (length [''README'', ''user/_cat'']) < NINO" by (simp add: NINO_eq)
    show "nmeta + used (mk_tree demo_host [''README'', ''user/_cat'']) \<le> FSSIZE"
      unfolding tree by (simp add: used_def blocks_for_def tbl_def nblk_def mk_dirent_length NINO_eq BSIZE_def NDIRECT_def FSSIZE_def)
  qed
  then show ?thesis unfolding tree by simp
qed

text \<open>C37.  \<open>iappend\<close> refines appending in the list of files: on an image that represents \<open>fs\<close> it returns an
  image that represents the list with the bytes added to the file, as long as the file keeps below its
  largest size and the blocks fit.\<close>

theorem iappend_refines:
  assumes "repr m fs" "i < length fs" "length (snd (fs ! i)) + length p \<le> MAXFILE * BSIZE" "nmeta + used (grow i p fs) \<le> FSSIZE"
  shows "\<exists>m'. iappend (of_nat (Suc i)) p m = Inr m' \<and> repr m' (fs[i := (fst (fs ! i), snd (fs ! i) @ p)])"
  using iappend_repr[OF assms] by (simp add: grow_def del: of_nat_Suc)

theorem iappend_refines_witness:
  "\<exists>m m'. repr m [(T_DIR, [])] \<and> iappend (of_nat (Suc 0)) (replicate 20000 7) m = Inr m' \<and> repr m' [(T_DIR, replicate 20000 7)]"
proof -
  obtain m where m: "repr m [(T_DIR, [])]"
    using mk_ialloc_repr[OF blank_repr, of "of_int T_DIR"] by (auto simp: NINO_eq T_DIR_def)
  let ?p = "replicate 20000 7 :: uint8 list"
  have "0 < length [(T_DIR, [] :: uint8 list)]" "length (snd ([(T_DIR, [] :: uint8 list)] ! 0)) + length ?p \<le> MAXFILE * BSIZE"
    "nmeta + used (grow 0 ?p [(T_DIR, [])]) \<le> FSSIZE"
    by (simp_all add: MAXFILE_def NDIRECT_def NINDIRECT_def BSIZE_def grow_def used_def blocks_for_def tbl_def nblk_def NINO_eq FSSIZE_def)
  from iappend_refines[OF m this] show ?thesis using m by auto
qed

end
