(* ===== verification/UserText.thy ===== *)
theory UserText
  imports CString Printf
begin

text \<open>
  The user library, \<^verbatim>\<open>user/ulib.c\<close> and \<^verbatim>\<open>user/printf.c\<close>, and the text utilities \<^verbatim>\<open>user/wc.c\<close>,
  \<^verbatim>\<open>user/cat.c\<close>, \<^verbatim>\<open>user/echo.c\<close> and \<open>fmtname\<close> of \<^verbatim>\<open>user/ls.c\<close>.

  A C string is the list of its characters before the terminating NUL.  What a program reads from a
  file descriptor is the list of the pieces that successive calls of \<open>read\<close> return, and the result of
  the last call, 0 at the end of the file and negative on an error.
\<close>

subsection \<open>Strings and memory\<close>

definition ustrcpy :: "string \<Rightarrow> char list" where
  "ustrcpy t = t @ [char_of (0::nat)]"

function ustrcmp :: "string \<Rightarrow> string \<Rightarrow> int" where
  "ustrcmp p q = (if cchar p \<noteq> 0 \<and> cchar p = cchar q then ustrcmp (tl p) (tl q) else cchar p - cchar q)"
  by pat_completeness auto
termination by (relation "measure (\<lambda>(p, q). length p)") (auto simp: cchar_def split: list.splits)

declare ustrcmp.simps [simp del]

fun ustrchr :: "string \<Rightarrow> char \<Rightarrow> string option" where
  "ustrchr [] c = None"
| "ustrchr (x # s) c = (if x = c then Some (x # s) else ustrchr s c)"

fun umemset :: "uint64 \<Rightarrow> uint8 \<Rightarrow> nat \<Rightarrow> bytemem \<Rightarrow> bytemem" where
  "umemset cdst c 0 m = m"
| "umemset cdst c (Suc n) m = umemset (cdst + 1) c n (m(cdst := c))"

definition umemmove :: "uint64 \<Rightarrow> uint64 \<Rightarrow> nat \<Rightarrow> bytemem \<Rightarrow> bytemem" where
  "umemmove dst src n m =
     (if src > dst then copy_up dst src n m else copy_down (dst + of_nat n) (src + of_nat n) n m)"

fun umemcmp :: "uint64 \<Rightarrow> uint64 \<Rightarrow> nat \<Rightarrow> bytemem \<Rightarrow> int" where
  "umemcmp p1 p2 0 m = 0"
| "umemcmp p1 p2 (Suc n) m = (if m p1 \<noteq> m p2 then uint (m p1) - uint (m p2) else umemcmp (p1 + 1) (p2 + 1) n m)"

definition umemcpy :: "uint64 \<Rightarrow> uint64 \<Rightarrow> nat \<Rightarrow> bytemem \<Rightarrow> bytemem" where
  "umemcpy dst src n m = umemmove dst src n m"

text \<open>\<open>gets\<close>: the line that is stored and the rest of the input.\<close>

definition newline :: char where "newline = CHR 0x0A"
abbreviation return :: char where "return \<equiv> CHR 0x0D"

fun gets_loop :: "nat \<Rightarrow> string \<Rightarrow> string \<times> string" where
  "gets_loop 0 inp = ([], inp)"
| "gets_loop (Suc n) [] = ([], [])"
| "gets_loop (Suc n) (c # inp) =
     (if c = newline \<or> c = return then ([c], inp) else let (b, r) = gets_loop n inp in (c # b, r))"

definition gets :: "nat \<Rightarrow> string \<Rightarrow> char list \<times> string" where
  "gets n inp = (let (b, r) = gets_loop (n - 1) inp in (b @ [char_of (0::nat)], r))"

fun atoi_loop :: "int \<Rightarrow> string \<Rightarrow> int" where
  "atoi_loop n [] = n"
| "atoi_loop n (c # s) =
     (if (of_char CHR ''0'' :: int) \<le> of_char c \<and> (of_char c :: int) \<le> of_char CHR ''9''
      then atoi_loop (i32 (n * 10 + of_char c - of_char CHR ''0'')) s else n)"

definition atoi :: "string \<Rightarrow> int" where "atoi s = atoi_loop 0 s"

subsection \<open>Formatted output\<close>

definition udigits :: string where "udigits = ''0123456789ABCDEF''"

function uprintint_loop :: "nat \<Rightarrow> nat \<Rightarrow> string" where
  "uprintint_loop base x =
     udigits ! (x mod base) # (if base < 2 \<or> x div base = 0 then [] else uprintint_loop base (x div base))"
  by pat_completeness auto
termination by (relation "measure snd") (auto intro!: div_less_dividend gr0I)

declare uprintint_loop.simps [simp del]

definition uprintint_buf :: "int \<Rightarrow> nat \<Rightarrow> bool \<Rightarrow> string" where
  "uprintint_buf xx base sg =
     (let neg = (sg \<and> xx < 0); x = (if neg then nat (- xx) else nat (xx mod 2 ^ 64))
      in uprintint_loop base x @ (if neg then ''-'' else []))"

text \<open>The characters that reach the file descriptor; a number that does not fit its buffer is a fault.\<close>

definition uprintint :: "int \<Rightarrow> nat \<Rightarrow> bool \<Rightarrow> string res" where
  "uprintint xx base sg =
     (let buf = uprintint_buf xx base sg in if 20 < length buf then Inl (Fault ''printint buf'') else Inr (rev buf))"

fun uprintptr_loop :: "nat \<Rightarrow> uint64 \<Rightarrow> string" where
  "uprintptr_loop 0 x = []"
| "uprintptr_loop (Suc n) x = udigits ! unat (drop_bit 60 x) # uprintptr_loop n (push_bit 4 x)"

definition uprintptr :: "uint64 \<Rightarrow> string" where
  "uprintptr x = ''0x'' @ uprintptr_loop 16 x"

definition vprintf_conv :: "conv \<Rightarrow> va list \<Rightarrow> (string \<times> va list) res" where
  "vprintf_conv cv ap =
     (case cv of
        ConvInt base sg \<Rightarrow> (case ap of
            VaInt n # ap \<Rightarrow> bindE (uprintint (if sg then i32 n else n mod 2 ^ 32) base sg) (\<lambda>t. Inr (t, ap))
          | _ \<Rightarrow> Inl (Fault ''va_arg''))
      | ConvLong base sg \<Rightarrow> (case ap of
            VaLong w # ap \<Rightarrow> bindE (uprintint (sint w) base sg) (\<lambda>t. Inr (t, ap))
          | _ \<Rightarrow> Inl (Fault ''va_arg''))
      | ConvPtr \<Rightarrow> (case ap of VaLong w # ap \<Rightarrow> Inr (uprintptr w, ap) | _ \<Rightarrow> Inl (Fault ''va_arg''))
      | ConvChar \<Rightarrow> (case ap of VaInt n # ap \<Rightarrow> Inr ([char_of (nat (n mod 2 ^ 32))], ap) | _ \<Rightarrow> Inl (Fault ''va_arg''))
      | ConvStr \<Rightarrow> (case ap of
            VaStr t # ap \<Rightarrow> Inr (case t of None \<Rightarrow> ''(null)'' | Some t \<Rightarrow> t, ap) | _ \<Rightarrow> Inl (Fault ''va_arg''))
      | ConvPercent \<Rightarrow> Inr (''%'', ap)
      | ConvUnknown x \<Rightarrow> Inr ([CHR ''%'', x], ap))"

lemma conversion_takes: "0 < snd (conversion f)"
  by (simp add: conversion_def Let_def)

text \<open>
  The loop of \<open>vprintf\<close> over the index \<open>i\<close>; \<open>st\<close> tells whether the last character was a percent sign.
  The conversions are those of the kernel's \<open>printf\<close>, tried in the same order.
\<close>

function vprintf_loop :: "string \<Rightarrow> nat \<Rightarrow> bool \<Rightarrow> va list \<Rightarrow> string res" where
  "vprintf_loop fmt i st ap =
     (if i < length fmt then
        let c0 = fmt ! i in
        if \<not> st then
          if c0 = CHR ''%'' then vprintf_loop fmt (Suc i) True ap
          else bindE (vprintf_loop fmt (Suc i) False ap) (\<lambda>t. Inr (c0 # t))
        else
          bindE (vprintf_conv (fst (conversion (drop i fmt))) ap) (\<lambda>(out, ap).
          bindE (vprintf_loop fmt (i + snd (conversion (drop i fmt))) False ap) (\<lambda>t. Inr (out @ t)))
      else Inr [])"
  by pat_completeness auto
termination by (relation "measure (\<lambda>(fmt, i, st, ap). length fmt - i)") (auto intro!: diff_less_mono2 simp: conversion_takes)

declare vprintf_loop.simps [simp del]

definition vprintf :: "string \<Rightarrow> va list \<Rightarrow> string res" where
  "vprintf fmt ap = vprintf_loop fmt 0 False ap"

subsection \<open>wc, cat, echo and the names of ls\<close>

record wcs =
  wl :: int
  ww :: int
  wc :: int
  inword :: bool

definition blanks :: string where "blanks = [CHR '' '', CHR 0x0D, CHR 0x09, newline, CHR 0x0B]"

definition wc_char :: "char \<Rightarrow> wcs \<Rightarrow> wcs" where
  "wc_char x s =
     (let s = s\<lparr>wc := i32 (wc s + 1)\<rparr>;
          s = (if x = newline then s\<lparr>wl := i32 (wl s + 1)\<rparr> else s)
      in if ustrchr blanks x \<noteq> None then s\<lparr>inword := False\<rparr>
         else if \<not> inword s then s\<lparr>ww := i32 (ww s + 1), inword := True\<rparr>
         else s)"

definition wc_counts :: "string list \<Rightarrow> wcs" where
  "wc_counts reads = fold (fold wc_char) reads \<lparr>wl = 0, ww = 0, wc = 0, inword = False\<rparr>"

text \<open>The output of \<open>wc\<close>, and the exit status where it exits.\<close>

definition wc_main :: "string list \<Rightarrow> int \<Rightarrow> string \<Rightarrow> (string \<times> int option) res" where
  "wc_main reads n name =
     (let s = wc_counts reads in
      if n < 0 then bindE (vprintf (''wc: read error'' @ [newline]) []) (\<lambda>t. Inr (t, Some 1))
      else bindE (vprintf (''%d %d %d %s'' @ [newline]) [VaInt (wl s), VaInt (ww s), VaInt (wc s), VaStr (Some name)]) (\<lambda>t. Inr (t, None)))"

text \<open>\<open>cat\<close>: \<open>wr\<close> is what a call of \<open>write\<close> returns for a piece; the result is the output and the exit status.\<close>

fun cat_loop :: "(string \<Rightarrow> int) \<Rightarrow> string list \<Rightarrow> int \<Rightarrow> string \<times> int option" where
  "cat_loop wr [] n = ([], if n < 0 then Some 1 else None)"
| "cat_loop wr (b # reads) n =
     (if wr b \<noteq> int (length b) then (take (nat (wr b)) b, Some 1)
      else let (t, e) = cat_loop wr reads n in (b @ t, e))"

fun echo :: "string list \<Rightarrow> string" where
  "echo [] = []"
| "echo [a] = a @ [newline]"
| "echo (a # as) = a @ '' '' @ echo as"

definition fmtname :: "string \<Rightarrow> string" where
  "fmtname path =
     (let p = rev (takeWhile (\<lambda>x. x \<noteq> CHR ''/'') (rev path)) in
      if length p \<ge> 14 then p else p @ replicate (14 - length p) CHR '' '')"


subsection \<open>Properties\<close>

text \<open>Two C strings compare equal exactly when they are equal, and \<open>memmove\<close> copies overlapping ranges.\<close>

lemma ustrcmp_zero_iff: "no_nul p \<Longrightarrow> no_nul q \<Longrightarrow> ustrcmp p q = 0 \<longleftrightarrow> p = q"
proof (induction p q rule: ustrcmp.induct)
  case (1 p q)
  show ?case
  proof (cases "cchar p \<noteq> 0 \<and> cchar p = cchar q")
    case True
    then obtain x p' q' where e: "p = x # p'" "q = x # q'" by (cases p; cases q) (auto simp: cchar_def)
    then have "ustrcmp p' q' = 0 \<longleftrightarrow> p' = q'" using 1 True by (simp add: no_nul_def)
    then show ?thesis using True e by (subst ustrcmp.simps) simp
  next
    case False
    have z: "cchar r = 0 \<longleftrightarrow> r = []" if "no_nul r" for r using that by (cases r) (auto simp: cchar_def no_nul_def of_char_zero)
    have "ustrcmp p q = cchar p - cchar q" by (rule trans[OF ustrcmp.simps if_not_P[OF False]])
    then show ?thesis using False z[OF "1.prems"(1)] z[OF "1.prems"(2)] by auto
  qed
qed

lemma umemmove_spec:
  assumes "unat dst + n \<le> 2 ^ 64" "unat src + n \<le> 2 ^ 64"
  shows "umemmove dst src n m y = (if in_range dst n y then m (src + (y - dst)) else m y)"
  using copy_up_spec[OF assms, of m y] copy_down_spec[OF assms, of m y]
  by (simp add: umemmove_def word_less_nat_alt not_less)

lemma cat_copies: "\<forall>b\<in>set reads. wr b = int (length b) \<Longrightarrow> cat_loop wr reads n = (concat reads, if n < 0 then Some 1 else None)"
  by (induction reads) auto

lemma gets_line: "gets_loop n inp = (b, r) \<Longrightarrow> inp = b @ r \<and> length b \<le> n \<and> (\<forall>c\<in>set (butlast b). c \<noteq> newline \<and> c \<noteq> return)"
proof (induction n inp arbitrary: b r rule: gets_loop.induct)
  case (3 n c inp)
  obtain b' r' where e: "gets_loop n inp = (b', r')" by force
  show ?case
  proof (cases "c = newline \<or> c = return")
    case True
    then show ?thesis using "3.prems" by auto
  next
    case False
    then have "b = c # b'" "r = r'" using "3.prems" e by auto
    then show ?thesis using "3.IH"[OF False e] False by auto
  qed
qed auto

lemma uloop_10: "uprintint_loop 10 x = printint_loop 10 x"
proof (induction "10::nat" x rule: printint_loop.induct)
  case (1 x)
  have "x mod 10 \<in> set [0..<10]" by simp
  then have "udigits ! (x mod 10) = digits ! (x mod 10)" by (auto simp: digits_def udigits_def upt_rec)
  then show ?case using 1 by (simp add: uprintint_loop.simps[of 10 x] printint_loop.simps[of 10 x])
qed

lemma uloop_length: "length (uprintint_loop base x) = length (printint_loop base x)"
  by (induction base x rule: printint_loop.induct) (subst uprintint_loop.simps, subst printint_loop.simps, simp)

lemma ubuf_10: "uprintint_buf xx 10 sg = printint_buf xx 10 sg"
  by (simp add: uprintint_buf_def printint_buf_def uloop_10)

lemma ubuf_length: "length (uprintint_buf xx base sg) = length (printint_buf xx base sg)"
  by (simp add: uprintint_buf_def printint_buf_def uloop_length Let_def)

text \<open>Reading digits from the most significant one.\<close>

lemma read_digits_append: "read_digits b (xs @ ys) = read_digits b xs + b ^ length xs * read_digits b ys"
  by (induction xs) (simp_all add: algebra_simps)

lemma digit_char:
  assumes "d < 10"
  shows "(of_char (digits ! d) :: int) = of_char CHR ''0'' + int d" "of_char (digits ! d) - of_char CHR ''0'' = d"
proof -
  have "d \<in> set [0..<10]" using assms by simp
  then show "(of_char (digits ! d) :: int) = of_char CHR ''0'' + int d" by (auto simp: digits_def upt_rec)
  show "of_char (digits ! d) - of_char CHR ''0'' = d" by (rule digit_value[OF assms])
qed

lemma atoi_digits:
  assumes "\<forall>c\<in>set t. \<exists>d<10. c = digits ! d" "0 \<le> n" "n * 10 ^ length t + int (read_digits 10 (rev t)) < 2 ^ 31"
  shows "atoi_loop n t = n * 10 ^ length t + int (read_digits 10 (rev t))"
  using assms
proof (induction t arbitrary: n)
  case (Cons c t)
  obtain d where d: "d < 10" "c = digits ! d" using Cons.prems(1) by auto
  let ?n = "n * 10 + int d"
  have e: "n * 10 ^ length (c # t) + int (read_digits 10 (rev (c # t))) = ?n * 10 ^ length t + int (read_digits 10 (rev t))"
    using digit_char(2)[OF d(1)] d(2) by (simp add: read_digits_append algebra_simps)
  have n0: "0 \<le> ?n" using Cons.prems(2) by simp
  have "?n * 1 \<le> ?n * 10 ^ length t" using n0 by (intro mult_left_mono) simp_all
  also have "\<dots> \<le> ?n * 10 ^ length t + int (read_digits 10 (rev t))" by simp
  also have "\<dots> < 2 ^ 31" using Cons.prems(3) unfolding e .
  finally have "?n < 2 ^ 31" by simp
  then have i: "i32 ?n = ?n" using n0 by (intro i32_id) simp_all
  have r: "(of_char c :: int) = of_char CHR ''0'' + int d" using digit_char(1)[OF d(1)] d(2) by simp
  have nine: "(of_char CHR ''9'' :: int) = of_char CHR ''0'' + 9" by simp
  have "atoi_loop n (c # t) = atoi_loop (i32 (n * 10 + of_char c - of_char CHR ''0'')) t"
    unfolding atoi_loop.simps nine r using d(1) by simp
  also have "\<dots> = atoi_loop ?n t" unfolding r using i by (simp add: algebra_simps)
  also have "\<dots> = ?n * 10 ^ length t + int (read_digits 10 (rev t))"
    by (rule Cons.IH) (use Cons.prems n0 e in auto)
  finally show ?case unfolding e .
qed simp

lemma loop_digits: "c \<in> set (printint_loop 10 n) \<Longrightarrow> \<exists>d<10. c = digits ! d"
proof (induction "10::nat" n rule: printint_loop.induct)
  case (1 n)
  show ?case
  proof (cases "c = digits ! (n mod 10)")
    case True
    then show ?thesis by (intro exI[of _ "n mod 10"]) simp
  next
    case False
    then show ?thesis using 1 printint_loop.simps[of 10 n] by (simp split: if_splits)
  qed
qed

lemma atoi_printed: "n < 2 ^ 31 \<Longrightarrow> atoi (rev (printint_loop 10 n)) = int n"
  unfolding atoi_def using atoi_digits[of "rev (printint_loop 10 n)" 0] loop_digits[of _ n]
  by (simp add: read_printint_loop)

text \<open>C39.  Numbers of the user library.  \<open>printint\<close> never overruns its buffer of 20 bytes, in decimal or in
  hexadecimal, for any value of 64 bits.  \<open>atoi\<close> reads decimal digits only, and no sign: it reads back
  what \<open>%d\<close> prints of an \<open>int\<close> that is not negative; of a negative \<open>int\<close> other than the smallest it
  returns 0, and the absolute value when it is given the digits after the sign.\<close>

theorem uprintint_atoi:
  assumes "- (2 ^ 63) \<le> xx" "xx < 2 ^ 64" "base = 10 \<or> base = 16"
  shows "\<exists>t. uprintint xx base sg = Inr t \<and> length t \<le> 20 \<and>
    (base = 10 \<and> 0 \<le> xx \<and> xx < 2 ^ 31 \<longrightarrow> atoi t = xx) \<and>
    (base = 10 \<and> sg \<and> - (2 ^ 31) < xx \<and> xx < 0 \<longrightarrow> (\<exists>u. t = CHR ''-'' # u \<and> atoi t = 0 \<and> atoi u = - xx))"
proof -
  have l: "length (uprintint_buf xx base sg) \<le> 20" unfolding ubuf_length by (rule printint_buf_length) (use assms in auto)
  have p: "atoi (rev (uprintint_buf xx 10 sg)) = xx" if x: "0 \<le> xx" "xx < 2 ^ 31"
  proof -
    have "xx mod 2 ^ 64 = xx" using x by simp
    then have "uprintint_buf xx 10 sg = printint_loop 10 (nat xx)" using x by (simp add: uprintint_buf_def uloop_10)
    then show ?thesis using atoi_printed[of "nat xx"] x by simp
  qed
  have m: "\<exists>u. rev (uprintint_buf xx 10 sg) = CHR ''-'' # u \<and> atoi (CHR ''-'' # u) = 0 \<and> atoi u = - xx"
    if x: "sg" "- (2 ^ 31) < xx" "xx < 0"
  proof (intro exI conjI)
    show "rev (uprintint_buf xx 10 sg) = CHR ''-'' # rev (printint_loop 10 (nat (- xx)))"
      using x by (simp add: uprintint_buf_def uloop_10)
    show "atoi (CHR ''-'' # rev (printint_loop 10 (nat (- xx)))) = 0" by (simp add: atoi_def)
    show "atoi (rev (printint_loop 10 (nat (- xx)))) = - xx" using atoi_printed[of "nat (- xx)"] x by simp
  qed
  show ?thesis
    by (intro exI[of _ "rev (uprintint_buf xx base sg)"]) (use l p m in \<open>auto simp: uprintint_def Let_def\<close>)
qed

theorem uprintint_atoi_witness:
  "(\<exists>t. uprintint 2147483647 10 True = Inr t \<and> length t \<le> 20 \<and> atoi t = 2147483647) \<and>
   (\<exists>u. uprintint (- 42) 10 True = Inr (CHR ''-'' # u) \<and> atoi (CHR ''-'' # u) = 0 \<and> atoi u = 42)"
  using uprintint_atoi[of 2147483647 10 True] uprintint_atoi[of "- 42" 10 True] by auto

text \<open>The loop of \<open>vprintf\<close> without its state: one call per character or conversion.\<close>

function vrender :: "string \<Rightarrow> va list \<Rightarrow> string res" where
  "vrender [] ap = Inr []"
| "vrender (x # f) ap =
     (if x \<noteq> CHR ''%'' then bindE (vrender f ap) (\<lambda>t. Inr (x # t))
      else if f = [] then Inr []
      else bindE (vprintf_conv (fst (conversion f)) ap) (\<lambda>(out, ap).
           bindE (vrender (drop (snd (conversion f)) f) ap) (\<lambda>t. Inr (out @ t))))"
  by pat_completeness auto
termination by (relation "measure (\<lambda>(f, ap). length f)") auto

lemma vprintf_loop_render: "vprintf_loop fmt i False ap = vrender (drop i fmt) ap"
proof (induction "length fmt - i" arbitrary: i ap rule: less_induct)
  case less
  show ?case
  proof (cases "i < length fmt")
    case True
    then have d: "drop i fmt = fmt ! i # drop (Suc i) fmt" by (rule Cons_nth_drop_Suc[symmetric])
    have ih: "vprintf_loop fmt j False ap = vrender (drop j fmt) ap" if "i < j" for j ap
      using less[of j ap] that True by simp
    show ?thesis
    proof (cases "fmt ! i = CHR ''%''")
      case False
      then show ?thesis using True d ih[of "Suc i"] by (subst vprintf_loop.simps) simp
    next
      case pc: True
      have one: "vprintf_loop fmt i False ap = vprintf_loop fmt (Suc i) True ap" using True pc by (subst vprintf_loop.simps) simp
      show ?thesis
      proof (cases "Suc i < length fmt")
        case more: True
        let ?f = "drop (Suc i) fmt"
        have j: "vprintf_loop fmt (Suc i + snd (conversion ?f)) False ap' = vrender (drop (snd (conversion ?f)) ?f) ap'" for ap'
          using ih[of "Suc i + snd (conversion ?f)" ap'] by (simp add: add.commute)
        have "vprintf_loop fmt (Suc i) True ap = bindE (vprintf_conv (fst (conversion ?f)) ap) (\<lambda>(out, ap).
           bindE (vrender (drop (snd (conversion ?f)) ?f) ap) (\<lambda>t. Inr (out @ t)))"
          using more by (subst vprintf_loop.simps) (simp only: j if_True Let_def not_True_eq_False if_False)
        then show ?thesis unfolding one d using pc more by simp
      next
        case False
        then show ?thesis unfolding one d using pc by (subst vprintf_loop.simps) simp
      qed
    qed
  next
    case False
    then show ?thesis by (subst vprintf_loop.simps) simp
  qed
qed

lemma uprintint_int: "uprintint (i32 n) 10 True = Inr (rev (uprintint_buf (i32 n) 10 True))"
  using printint_buf_length[of 10 True "i32 n"] i32_range[of n] by (simp add: uprintint_def ubuf_10 Let_def)

text \<open>The counts of \<open>wc\<close>: line ends, word beginnings and characters of the whole input.\<close>

definition blank :: "char \<Rightarrow> bool" where "blank x = (x \<in> set blanks)"

fun word_starts :: "bool \<Rightarrow> string \<Rightarrow> nat" where
  "word_starts inw [] = 0"
| "word_starts inw (x # t) = (if blank x then word_starts False t else (if inw then 0 else 1) + word_starts True t)"

lemma ustrchr_blank: "ustrchr s x \<noteq> None \<longleftrightarrow> x \<in> set s"
  by (induction s) auto

lemma word_starts_length: "word_starts inw t \<le> length t"
  by (induction t arbitrary: inw) (auto intro: le_SucI)

lemma wc_fold:
  assumes "wl s + int (length t) < 2 ^ 31" "ww s + int (length t) < 2 ^ 31" "wc s + int (length t) < 2 ^ 31" "0 \<le> wl s" "0 \<le> ww s" "0 \<le> wc s"
  shows "wl (fold wc_char t s) = wl s + int (length (filter (\<lambda>x. x = newline) t))
    \<and> ww (fold wc_char t s) = ww s + int (word_starts (inword s) t) \<and> wc (fold wc_char t s) = wc s + int (length t)"
  using assms
proof (induction t arbitrary: s)
  case (Cons x t)
  have i: "i32 (wl s + 1) = wl s + 1" "i32 (ww s + 1) = ww s + 1" "i32 (wc s + 1) = wc s + 1" using Cons.prems by (auto intro!: i32_id)
  let ?s = "wc_char x s"
  have u: "ustrchr blanks x = None \<longleftrightarrow> \<not> blank x" using ustrchr_blank[of blanks x] by (auto simp: blank_def)
  have w: "wl ?s = wl s + (if x = newline then 1 else 0)" "ww ?s = ww s + (if blank x \<or> inword s then 0 else 1)" "wc ?s = wc s + 1"
    "inword ?s = (\<not> blank x)"
    using i u by (simp_all add: wc_char_def Let_def del: not_None_eq)
  have "wl (fold wc_char t ?s) = wl ?s + int (length (filter (\<lambda>x. x = newline) t))
    \<and> ww (fold wc_char t ?s) = ww ?s + int (word_starts (inword ?s) t) \<and> wc (fold wc_char t ?s) = wc ?s + int (length t)"
    by (rule Cons.IH) (use Cons.prems w in auto)
  then show ?case using w by auto
qed simp

lemma fold_pieces: "fold (fold f) xss s = fold f (concat xss) s"
  by (induction xss arbitrary: s) simp_all

text \<open>A word begins where a character that is not blank follows a blank or nothing.\<close>

lemma word_starts_spec:
  "word_starts inw t = length (filter (\<lambda>i. \<not> blank (t ! i) \<and> (if i = 0 then \<not> inw else blank (t ! (i - 1)))) [0..<length t])"
proof (induction t arbitrary: inw)
  case (Cons x t)
  have idx: "[0..<length (x # t)] = 0 # map Suc [0..<length t]" by (simp add: map_Suc_upt upt_conv_Cons del: upt_Suc)
  let ?P = "\<lambda>i. \<not> blank ((x # t) ! i) \<and> (if i = 0 then \<not> inw else blank ((x # t) ! (i - 1)))"
  have "(\<lambda>i. ?P (Suc i)) = (\<lambda>i. \<not> blank (t ! i) \<and> (if i = 0 then \<not> (\<not> blank x) else blank (t ! (i - 1))))"
    by (auto simp: fun_eq_iff nth_Cons split: nat.splits)
  then have "length (filter ?P [0..<length (x # t)]) = (if ?P 0 then 1 else 0) + word_starts (\<not> blank x) t"
    unfolding idx Cons.IH[of "\<not> blank x"] by (simp add: filter_map comp_def)
  then show ?case by simp
qed simp

text \<open>C38.  \<open>wc\<close> prints the number of line ends, of words and of characters of its input, however the reads cut
  the input into pieces, as long as the input is shorter than 2 GB; a word is a maximal run of characters
  that are not blank.\<close>

theorem wc_prints_counts:
  assumes "length (concat reads) < 2 ^ 31"
  shows "wc_main reads 0 name = Inr (
      (let text_in = concat reads; dec = (\<lambda>n. rev (uprintint_buf (int n) 10 True)) in
       dec (length (filter (\<lambda>x. x = newline) text_in)) @ '' '' @
       dec (length (filter (\<lambda>i. \<not> blank (text_in ! i) \<and> (i = 0 \<or> blank (text_in ! (i - 1)))) [0..<length text_in])) @ '' '' @
       dec (length text_in) @ '' '' @ name @ [newline]), None)"
proof -
  let ?t = "concat reads" and ?s0 = "\<lparr>wl = 0, ww = 0, wc = 0, inword = False\<rparr>"
  have c: "wc_counts reads = fold wc_char ?t ?s0" by (simp add: wc_counts_def fold_pieces)
  have f: "wl (fold wc_char ?t ?s0) = int (length (filter (\<lambda>x. x = newline) ?t))" "ww (fold wc_char ?t ?s0) = int (word_starts False ?t)"
    "wc (fold wc_char ?t ?s0) = int (length ?t)"
    using wc_fold[of ?s0 ?t] assms by simp_all
  have small: "int (length (filter (\<lambda>x. x = newline) ?t)) < 2 ^ 31" "int (word_starts False ?t) < 2 ^ 31"
    using assms le_less_trans[OF length_filter_le[of "\<lambda>x. x = newline" ?t]] le_less_trans[OF word_starts_length[of False ?t]] by simp_all
  have i: "i32 (int n) = int n" if "int n < 2 ^ 31" for n using that by (intro i32_id) simp_all
  have w: "word_starts False ?t = length (filter (\<lambda>i. \<not> blank (?t ! i) \<and> (i = 0 \<or> blank (?t ! (i - 1)))) [0..<length ?t])"
    unfolding word_starts_spec by (rule arg_cong[where f = length]) (rule filter_cong, auto)
  have "vprintf (''%d %d %d %s'' @ [newline]) [VaInt a, VaInt b, VaInt c, VaStr (Some name)] =
      Inr (rev (uprintint_buf (i32 a) 10 True) @ '' '' @ rev (uprintint_buf (i32 b) 10 True) @ '' '' @
        rev (uprintint_buf (i32 c) 10 True) @ '' '' @ name @ [newline])" for a b c
    by (simp add: vprintf_def vprintf_loop_render conversion_def vprintf_conv_def uprintint_int newline_def)
  then show ?thesis unfolding Let_def w[symmetric] using assms small by (simp add: wc_main_def c f i)
qed

theorem wc_prints_counts_witness:
  "wc_main [''two wo'', ''rds'' @ [newline]] 0 ''f'' = Inr (''1 2 10 f'' @ [newline], None)"
proof -
  let ?t = "concat [''two wo'', ''rds'' @ [newline]]"
  have d: "rev (uprintint_buf (int 1) 10 True) = ''1''" "rev (uprintint_buf (int 2) 10 True) = ''2''" "rev (uprintint_buf (int 10) 10 True) = ''10''"
    by (simp_all add: uprintint_buf_def uprintint_loop.simps udigits_def)
  have c: "length (filter (\<lambda>x. x = newline) ?t) = 1" "length ?t = 10"
    "length (filter (\<lambda>i. \<not> blank (?t ! i) \<and> (i = 0 \<or> blank (?t ! (i - 1)))) [0..<length ?t]) = 2"
    by code_simp+
  have s: "length ?t < 2 ^ 31" unfolding c(2) by simp
  show ?thesis using wc_prints_counts[OF s, of "''f''"] unfolding Let_def c(3) unfolding c(1,2) d by simp
qed

end
