(* ===== verification/ShellRun.thy ===== *)
theory ShellRun
  imports Shell UserText "HOL-Library.Multiset"
begin

text \<open>
  The execution of commands by the shell, \<open>runcmd\<close>, \<open>getcmd\<close> and \<open>main\<close> of \<^verbatim>\<open>user/sh.c\<close>.

  What the shell does is a tree of system calls: a process forks a child and goes on, waits, becomes a
  program, or exits; a program is named by the place of its command, and a wait carries the files that
  are open meanwhile.  A process has a table of open files in which \<open>open\<close>, \<open>dup\<close> and \<open>pipe\<close> take the
  lowest free descriptors, as \<open>fdalloc\<close> of \<^verbatim>\<open>kernel/sysfile.c\<close> does.  A pipe is named by the place in the
  command where it is made.  Which calls of \<open>open\<close>, \<open>exec\<close>, \<open>pipe\<close> and \<open>fork\<close> succeed is an argument.
\<close>

datatype place = Line nat | Lft | Rgt | Sub

datatype obj = Console | Opened string int | PipeR "place list" | PipeW "place list"

type_synonym fdt = "nat \<Rightarrow> obj option"

definition NFD :: nat where "NFD = 16"

abbreviation lowest :: "fdt \<Rightarrow> nat option" where
  "lowest t \<equiv> find (\<lambda>i. t i = None) [0..<NFD]"

definition fd_close :: "nat \<Rightarrow> fdt \<Rightarrow> fdt" where "fd_close fd t = t(fd := None)"

definition fd_put :: "obj \<Rightarrow> fdt \<Rightarrow> (nat \<times> fdt) option" where
  "fd_put x t = (case lowest t of None \<Rightarrow> None | Some i \<Rightarrow> Some (i, t(i \<mapsto> x)))"

definition fd_dup :: "nat \<Rightarrow> fdt \<Rightarrow> fdt" where
  "fd_dup fd t = (case t fd of None \<Rightarrow> t | Some x \<Rightarrow> (case fd_put x t of None \<Rightarrow> t | Some (_, t) \<Rightarrow> t))"

record world =
  opens :: "string \<Rightarrow> int \<Rightarrow> bool"
  execs_ok :: "string \<Rightarrow> bool"
  chdir_ok :: "string \<Rightarrow> bool"
  pipes_ok :: "place list \<Rightarrow> bool"
  fork_ok :: "place list \<Rightarrow> bool"

datatype act =
    AExec "place list" "string list" fdt
  | AMsg "obj option" string act
  | AFork act act
  | AWait fdt act
  | AChdir string act
  | AExit int

definition sh_fail :: "string \<Rightarrow> fdt \<Rightarrow> act" where
  "sh_fail s t = AMsg (t 2) (s @ [newline]) (AExit 1)"

text \<open>\<open>fork1\<close>: the child and the parent, or the end of the process.\<close>

definition fork1 :: "world \<Rightarrow> place list \<Rightarrow> fdt \<Rightarrow> act \<Rightarrow> act \<Rightarrow> act" where
  "fork1 w pl t kid rest = (if fork_ok w pl then AFork kid rest else sh_fail ''fork'' t)"

fun runcmd :: "world \<Rightarrow> place list \<Rightarrow> string cmd \<Rightarrow> fdt \<Rightarrow> act" where
  "runcmd w pl (Execcmd argv) t =
     (case argv of
        [] \<Rightarrow> AExit 1
      | a # _ \<Rightarrow> if execs_ok w a then AExec pl argv t else AMsg (t 2) (''exec '' @ a @ '' failed'' @ [newline]) (AExit 0))"
| "runcmd w pl (Redircmd c name mode fd) t =
     (let t = fd_close fd t in
      case (if opens w name mode then fd_put (Opened name mode) t else None) of
        None \<Rightarrow> AMsg (t 2) (''open '' @ name @ '' failed'' @ [newline]) (AExit 1)
      | Some (_, t) \<Rightarrow> runcmd w (pl @ [Sub]) c t)"
| "runcmd w pl (Listcmd l r) t = fork1 w (pl @ [Lft]) t (runcmd w (pl @ [Lft]) l t) (AWait t (runcmd w (pl @ [Rgt]) r t))"
| "runcmd w pl (Pipecmd l r) t =
     (case (if pipes_ok w pl then fd_put (PipeR pl) t else None) of
        None \<Rightarrow> sh_fail ''pipe'' t
      | Some (p0, t) \<Rightarrow>
          (case fd_put (PipeW pl) t of
             None \<Rightarrow> sh_fail ''pipe'' (fd_close p0 t)
           | Some (p1, t) \<Rightarrow>
               fork1 w (pl @ [Lft]) t
                 (runcmd w (pl @ [Lft]) l (fd_close p1 (fd_close p0 (fd_dup p1 (fd_close 1 t)))))
                 (fork1 w (pl @ [Rgt]) t
                   (runcmd w (pl @ [Rgt]) r (fd_close p1 (fd_close p0 (fd_dup p0 (fd_close 0 t)))))
                   (let t = fd_close p1 (fd_close p0 t) in AWait t (AWait t (AExit 0))))))"
| "runcmd w pl (Backcmd c) t = fork1 w (pl @ [Sub]) t (runcmd w (pl @ [Sub]) c t) (AExit 0)"

text \<open>
  \<open>main\<close>: three descriptors are opened, then the lines of the input are run.  \<open>getcmd\<close> reads into a
  buffer of 100 bytes.
\<close>

function open_three :: "bool \<Rightarrow> fdt \<Rightarrow> fdt" where
  "open_three ok t =
     (case (if ok then fd_put Console t else None) of
        None \<Rightarrow> t
      | Some (fd, t) \<Rightarrow> if fd \<ge> 3 then fd_close fd t else open_three ok t)"
  by pat_completeness auto
termination
proof (relation "measure (\<lambda>(ok, t). length (filter (\<lambda>i. t i = None) [0..<NFD]))")
  show "wf (measure (\<lambda>(ok :: bool, t :: fdt). length (filter (\<lambda>i. t i = None) [0..<NFD])))" by simp
next
  fix ok :: bool and t :: fdt and x fd t'
  assume a: "(if ok then fd_put Console t else None) = Some x" "(fd, t') = x"
  then have l: "lowest t = Some fd" "t' = t(fd \<mapsto> Console)" by (auto simp: fd_put_def split: if_splits option.splits)
  then have fd: "fd < NFD" "t fd = None" by (auto simp: find_Some_iff)
  let ?free = "filter (\<lambda>i. t i = None) [0..<NFD]"
  have e: "filter (\<lambda>i. t' i = None) [0..<NFD] = filter (\<lambda>i. i \<noteq> fd) ?free"
    unfolding l(2) by (auto intro: filter_cong)
  have "length (filter (\<lambda>i. i \<noteq> fd) ?free) < length ?free" by (rule length_filter_less[of fd]) (use fd in simp_all)
  then show "((ok, t'), ok, t) \<in> measure (\<lambda>(ok, t). length (filter (\<lambda>i. t i = None) [0..<NFD]))"
    by (simp only: in_measure case_prod_conv e)
qed

declare open_three.simps [simp del]

datatype line_action = Blank | Cd string | Run string

definition sh_line :: "string \<Rightarrow> line_action" where
  "sh_line buf =
     (let cmd = dropWhile (\<lambda>x. x = CHR '' '' \<or> x = CHR 0x09) buf in
      if cmd \<noteq> [] \<and> hd cmd = newline then Blank
      else if take 3 cmd = ''cd '' then Cd (drop 3 (butlast cmd))
      else Run cmd)"

definition getcmd :: "string \<Rightarrow> string option \<times> string" where
  "getcmd inp = (let (b, r) = gets 100 inp; buf = cstr b in (if buf = [] then None else Some buf, r))"

lemma getcmd_shorter: "getcmd inp = (Some buf, r) \<Longrightarrow> length r < length inp"
proof -
  assume a: "getcmd inp = (Some buf, r)"
  obtain b where b: "gets_loop 99 inp = (b, r)" using a by (cases "gets_loop 99 inp") (auto simp: getcmd_def gets_def Let_def split: if_splits)
  then have "b \<noteq> []" using a by (auto simp: getcmd_def gets_def cstr_def Let_def split: if_splits)
  then show ?thesis using gets_line[OF b] by auto
qed

text \<open>The child that runs a line: a syntax error ends it with a message.\<close>

definition run_line :: "world \<Rightarrow> nat \<Rightarrow> string \<Rightarrow> fdt \<Rightarrow> act" where
  "run_line w k cmd t =
     (case parsecmd cmd of
        Inr (c, m) \<Rightarrow> runcmd w [Line k] (map_cmd (\<lambda>(a, _). cstring m a) c) t
      | Inl (Panic msg) \<Rightarrow> AMsg (t 2) msg (AExit 1)
      | Inl _ \<Rightarrow> AExit (- 1))"

text \<open>The loop of \<open>main\<close> over the input; \<open>k\<close> counts the lines.\<close>

function sh_main :: "world \<Rightarrow> nat \<Rightarrow> string \<Rightarrow> fdt \<Rightarrow> act" where
  "sh_main w k inp t = AMsg (t 2) ''$ ''
     (case getcmd inp of
        (None, _) \<Rightarrow> AExit 0
      | (Some buf, r) \<Rightarrow>
          (case sh_line buf of
             Blank \<Rightarrow> sh_main w (Suc k) r t
           | Cd d \<Rightarrow> if chdir_ok w d then AChdir d (sh_main w (Suc k) r t)
                     else AMsg (t 2) (''cannot cd '' @ d @ [newline]) (sh_main w (Suc k) r t)
           | Run cmd \<Rightarrow> fork1 w [Line k] t (run_line w k cmd t) (AWait t (sh_main w (Suc k) r t))))"
  by pat_completeness auto
termination by (relation "measure (\<lambda>(w, k, inp, t). length inp)") (auto intro: getcmd_shorter[OF sym])

declare sh_main.simps [simp del]


subsection \<open>Running the tree\<close>

text \<open>
  The processes that come from the tree of calls, as the kernel runs them: a process has what it still
  does, or is a running program, or has ended; an ended child is there until its parent waits for it.  The
  steps of all processes interleave freely.  A wait takes any ended child, and returns at once when there
  is none left to wait for.  The events are the start and the end of a program.
\<close>

datatype pstatus = PDo act | PIn "place list" | PGone | PReaped

datatype ptree = PNode (pst: pstatus) (kids: "ptree list")

datatype event = Start "place list" "string list" fdt | End "place list"

inductive proc_step :: "ptree \<Rightarrow> event option \<Rightarrow> ptree \<Rightarrow> bool" where
  forks: "proc_step (PNode (PDo (AFork a b)) cs) None (PNode (PDo b) (PNode (PDo a) [] # cs))"
| reaps_one: "proc_step (PNode (PDo (AWait t a)) (xs @ PNode PGone cs # ys)) None (PNode (PDo a) (xs @ PNode PReaped cs # ys))"
| none_left: "\<forall>k\<in>set cs. pst k = PReaped \<Longrightarrow> proc_step (PNode (PDo (AWait t a)) cs) None (PNode (PDo a) cs)"
| says: "proc_step (PNode (PDo (AMsg x m a)) cs) None (PNode (PDo a) cs)"
| moves: "proc_step (PNode (PDo (AChdir d a)) cs) None (PNode (PDo a) cs)"
| starts_it: "proc_step (PNode (PDo (AExec q argv t)) cs) (Some (Start q argv t)) (PNode (PIn q) cs)"
| ends_it: "proc_step (PNode (PIn q) cs) (Some (End q)) (PNode PGone cs)"
| exits_it: "proc_step (PNode (PDo (AExit n)) cs) None (PNode PGone cs)"
| kid: "proc_step k e k' \<Longrightarrow> proc_step (PNode st (xs @ k # ys)) e (PNode st (xs @ k' # ys))"

inductive proc_run :: "ptree \<Rightarrow> event list \<Rightarrow> ptree \<Rightarrow> bool" for r where
  run_start: "proc_run r [] r"
| run_step: "proc_run r tr k \<Longrightarrow> proc_step k e k' \<Longrightarrow> proc_run r (tr @ (case e of None \<Rightarrow> [] | Some v \<Rightarrow> [v])) k'"

fun starts :: "event list \<Rightarrow> (place list \<times> string list \<times> fdt) list" where
  "starts [] = []"
| "starts (Start q argv t # tr) = (q, argv, t) # starts tr"
| "starts (End q # tr) = starts tr"

text \<open>The programs that are still to start, and the files open in the waits.\<close>

fun started :: "act \<Rightarrow> (place list \<times> string list \<times> fdt) list" where
  "started (AExec q argv t) = [(q, argv, t)]"
| "started (AMsg x m a) = started a"
| "started (AFork a b) = started a @ started b"
| "started (AWait t a) = started a"
| "started (AChdir d a) = started a"
| "started (AExit n) = []"

fun waiting :: "act \<Rightarrow> fdt list" where
  "waiting (AExec q argv t) = []"
| "waiting (AMsg x m a) = waiting a"
| "waiting (AFork a b) = waiting a @ waiting b"
| "waiting (AWait t a) = t # waiting a"
| "waiting (AChdir d a) = waiting a"
| "waiting (AExit n) = []"

fun todo :: "ptree \<Rightarrow> (place list \<times> string list \<times> fdt) multiset" where
  "todo (PNode st cs) = (case st of PDo a \<Rightarrow> mset (started a) | _ \<Rightarrow> {#}) + sum_list (map todo cs)"

lemma starts_append: "starts (a @ b) = starts a @ starts b"
  by (induction a rule: starts.induct) auto

lemma step_todo: "proc_step k e k' \<Longrightarrow> todo k = mset (starts (case e of None \<Rightarrow> [] | Some v \<Rightarrow> [v])) + todo k'"
  by (induction rule: proc_step.induct) (auto simp: ac_simps)

lemma run_todo: "proc_run r tr k \<Longrightarrow> todo r = mset (starts tr) + todo k"
  by (induction rule: proc_run.induct) (auto simp: starts_append step_todo ac_simps)

text \<open>Nothing blocks for ever: where no process has a step, every program has been started.\<close>

lemma busy_steps: "\<forall>t b. a \<noteq> AWait t b \<Longrightarrow> \<exists>e k'. proc_step (PNode (PDo a) cs) e k'"
  by (cases a) (blast intro: proc_step.intros)+

lemma stuck_done:
  "(\<nexists>e k'. proc_step k e k') \<Longrightarrow> todo k = {#} \<and> (pst k = PGone \<or> pst k = PReaped)"
proof (induction k)
  case (PNode st cs)
  have kid: "\<nexists>e k'. proc_step k e k'" if k: "k \<in> set cs" for k
    using PNode.prems split_list[OF k] proc_step.kid by metis
  then have ih: "todo k = {#} \<and> (pst k = PGone \<or> pst k = PReaped)" if "k \<in> set cs" for k using PNode.IH that by blast
  then have "map todo cs = map (\<lambda>_. {#}) cs" by (intro map_cong) auto
  then have 0: "sum_list (map todo cs) = {#}" by (simp only:) simp
  show ?case
  proof (cases st)
    case (PDo a)
    show ?thesis
    proof (cases a)
      case (AWait t b)
      show ?thesis
      proof (cases "\<forall>k\<in>set cs. pst k = PReaped")
        case False
        then obtain k where k: "k \<in> set cs" "pst k = PGone" using ih by blast
        obtain xs ys where "cs = xs @ k # ys" using split_list[OF k(1)] by blast
        moreover obtain ds where "k = PNode PGone ds" using k(2) by (cases k) auto
        ultimately have "cs = xs @ PNode PGone ds # ys" by simp
        then show ?thesis using PNode.prems PDo AWait proc_step.reaps_one by blast
      qed (use PNode.prems PDo AWait proc_step.none_left in blast)
    qed (use PNode.prems PDo busy_steps[of a cs] in auto)
  next
    case (PIn q)
    then have "proc_step (PNode st cs) (Some (End q)) (PNode PGone cs)" by (simp add: proc_step.ends_it)
    then show ?thesis using PNode.prems by blast
  qed (use 0 in simp_all)
qed

subsection \<open>What a wait is good for\<close>

text \<open>
  \<open>post a P n D\<close>: the programs that have ended when a process that does \<open>a\<close> is gone, if those in \<open>D\<close> have ended
  now, and those in \<open>P\<close> will have when its \<open>n\<close> children that it has not waited for are gone.  Since a wait may
  take any child, only the last of them tells which programs have ended.  \<open>deps\<close>: the programs that are
  started, each with those that have ended before.
\<close>

fun post :: "act \<Rightarrow> place list set \<Rightarrow> nat \<Rightarrow> place list set \<Rightarrow> place list set" where
  "post (AExec q argv t) P n D = insert q D"
| "post (AMsg x m a) P n D = post a P n D"
| "post (AFork a b) P n D = post b (P \<union> post a {} 0 {}) (Suc n) D"
| "post (AWait t a) P n D = (if n \<le> 1 then post a {} 0 (D \<union> P) else post a P (n - 1) D)"
| "post (AChdir d a) P n D = post a P n D"
| "post (AExit x) P n D = D"

fun deps :: "act \<Rightarrow> place list set \<Rightarrow> nat \<Rightarrow> place list set \<Rightarrow> (place list \<times> string list \<times> fdt \<times> place list set) list" where
  "deps (AExec q argv t) P n D = [(q, argv, t, D)]"
| "deps (AMsg x m a) P n D = deps a P n D"
| "deps (AFork a b) P n D = deps a {} 0 D @ deps b (P \<union> post a {} 0 {}) (Suc n) D"
| "deps (AWait t a) P n D = (if n \<le> 1 then deps a {} 0 (D \<union> P) else deps a P (n - 1) D)"
| "deps (AChdir d a) P n D = deps a P n D"
| "deps (AExit x) P n D = []"

lemma post_mono: "P \<subseteq> P' \<Longrightarrow> D \<subseteq> D' \<Longrightarrow> post a P n D \<subseteq> post a P' n D'"
proof (induction a P n D arbitrary: P' D' rule: post.induct)
  case (3 a b P n D)
  have "post b (P \<union> post a {} 0 {}) (Suc n) D \<subseteq> post b (P' \<union> post a {} 0 {}) (Suc n) D'" by (rule 3(2)) (use 3(3,4) in auto)
  then show ?case by simp
next
  case (4 t a P n D)
  show ?case
  proof (cases "n \<le> 1")
    case True
    have "post a {} 0 (D \<union> P) \<subseteq> post a {} 0 (D' \<union> P')" by (rule 4(1)[OF True]) (use 4(3,4) in auto)
    then show ?thesis using True by simp
  qed (use 4 in simp)
qed auto

text \<open>
  The state of the processes agrees with it: \<open>F\<close> are the programs that have ended, \<open>E\<close> those that will
  have when the process is gone, and \<open>A\<close> the programs that may start.
\<close>

definition unreaped :: "ptree list \<Rightarrow> nat" where
  "unreaped cs = length (filter (\<lambda>k. pst k \<noteq> PReaped) cs)"

definition pending :: "ptree list \<Rightarrow> place list set list \<Rightarrow> place list set" where
  "pending cs Es = \<Union> {E. \<exists>k. (k, E) \<in> set (zip cs Es) \<and> pst k \<noteq> PReaped}"

definition st_ok :: "(place list \<times> string list \<times> fdt \<times> place list set) set \<Rightarrow> place list set \<Rightarrow> pstatus \<Rightarrow>
    ptree list \<Rightarrow> place list set list \<Rightarrow> place list set \<Rightarrow> bool" where
  "st_ok A F st cs Es E = (case st of
       PDo a \<Rightarrow> \<exists>P D. D \<subseteq> F \<and> P \<subseteq> F \<union> pending cs Es \<and> set (deps a P (unreaped cs) D) \<subseteq> A \<and> E \<subseteq> post a P (unreaped cs) D
     | PIn q \<Rightarrow> E \<subseteq> insert q F
     | PGone \<Rightarrow> E \<subseteq> F
     | PReaped \<Rightarrow> True)"

inductive node_ok :: "(place list \<times> string list \<times> fdt \<times> place list set) set \<Rightarrow> place list set \<Rightarrow> ptree \<Rightarrow> place list set \<Rightarrow> bool"
  for A F where
  "list_all2 (node_ok A F) cs Es \<Longrightarrow> st_ok A F st cs Es E \<Longrightarrow> node_ok A F (PNode st cs) E"

inductive_cases node_okE: "node_ok A F (PNode st cs) E"

lemma st_okI:
  "D \<subseteq> F \<Longrightarrow> P \<subseteq> F \<union> pending cs Es \<Longrightarrow> set (deps a P (unreaped cs) D) \<subseteq> A \<Longrightarrow> E \<subseteq> post a P (unreaped cs) D \<Longrightarrow>
   st_ok A F (PDo a) cs Es E"
  unfolding st_ok_def by auto

lemma st_ok_more: "st_ok A F st cs Es E \<Longrightarrow> F \<subseteq> F' \<Longrightarrow> st_ok A F' st cs Es E"
  unfolding st_ok_def by (cases st) (auto, (meson Un_mono order_refl order_trans)+)

lemma node_ok_more: "node_ok A F k E \<Longrightarrow> F \<subseteq> F' \<Longrightarrow> node_ok A F' k E"
proof (induction rule: node_ok.induct)
  case (1 cs Es st E)
  have "list_all2 (node_ok A F') cs Es" using 1(1,3) by (auto elim!: list_all2_mono)
  then show ?case using st_ok_more[OF 1(2,3)] by (rule node_ok.intros)
qed

lemma pending_split:
  "length xs = length Es \<Longrightarrow>
   pending (xs @ k # ys) (Es @ E # Es') = pending xs Es \<union> pending ys Es' \<union> (if pst k = PReaped then {} else E)"
  by (auto simp: pending_def)

lemma pending_Cons: "pending (k # cs) (E # Es) = (if pst k = PReaped then {} else E) \<union> pending cs Es"
  by (auto simp: pending_def)

lemma pending_none: "\<forall>k\<in>set cs. pst k = PReaped \<Longrightarrow> pending cs Es = {}"
  by (auto simp: pending_def dest: set_zip_leftD)

lemma unreaped_none: "unreaped cs = 0 \<longleftrightarrow> (\<forall>k\<in>set cs. pst k = PReaped)"
  by (auto simp: unreaped_def filter_empty_conv)

text \<open>A step of a process changes its status only when it is its own.\<close>

lemma step_pst: "proc_step k e k' \<Longrightarrow> pst k \<noteq> PReaped \<and> pst k' \<noteq> PReaped \<or> pst k' = pst k"
  by (induction rule: proc_step.induct) auto

definition after :: "event option \<Rightarrow> place list set \<Rightarrow> place list set" where
  "after e F = (case e of Some (End q) \<Rightarrow> insert q F | _ \<Rightarrow> F)"

definition allowed :: "(place list \<times> string list \<times> fdt \<times> place list set) set \<Rightarrow> place list set \<Rightarrow> event option \<Rightarrow> bool" where
  "allowed A F e = (case e of Some (Start q argv t) \<Rightarrow> \<exists>B. (q, argv, t, B) \<in> A \<and> B \<subseteq> F | _ \<Rightarrow> True)"

lemma step_ok: "proc_step k e k' \<Longrightarrow> node_ok A F k E \<Longrightarrow> allowed A F e \<and> node_ok A (after e F) k' E"
proof (induction arbitrary: E rule: proc_step.induct)
  case (forks a b cs)
  then obtain Es P D where n: "list_all2 (node_ok A F) cs Es" "D \<subseteq> F" "P \<subseteq> F \<union> pending cs Es"
    "set (deps (AFork a b) P (unreaped cs) D) \<subseteq> A" "E \<subseteq> post (AFork a b) P (unreaped cs) D"
    by (auto simp: st_ok_def elim!: node_okE)
  let ?E = "post a {} 0 {}"
  have "post a {} 0 {} \<subseteq> post a {} 0 D" by (rule post_mono) auto
  then have "node_ok A F (PNode (PDo a) []) ?E"
    by (intro node_ok.intros[of _ _ _ "[]"] st_okI[where P = "{}" and D = D]) (use n in \<open>auto simp: unreaped_def\<close>)
  moreover have "st_ok A F (PDo b) (PNode (PDo a) [] # cs) (?E # Es) E"
    by (rule st_okI[where P = "P \<union> ?E" and D = D]) (use n(2-) in \<open>auto simp: unreaped_def pending_Cons\<close>)
  ultimately show ?case using n(1) by (auto simp: allowed_def after_def intro!: node_ok.intros)
next
  case (reaps_one t a xs cs ys)
  then obtain Es P D where n: "list_all2 (node_ok A F) (xs @ PNode PGone cs # ys) Es" "D \<subseteq> F" "P \<subseteq> F \<union> pending (xs @ PNode PGone cs # ys) Es"
    "set (deps (AWait t a) P (unreaped (xs @ PNode PGone cs # ys)) D) \<subseteq> A" "E \<subseteq> post (AWait t a) P (unreaped (xs @ PNode PGone cs # ys)) D"
    by (auto simp: st_ok_def elim!: node_okE)
  obtain E1 E0 E2 where e: "Es = E1 @ E0 # E2" "list_all2 (node_ok A F) xs E1" "node_ok A F (PNode PGone cs) E0" "list_all2 (node_ok A F) ys E2"
    using n(1) by (auto simp: list_all2_append1 list_all2_Cons1)
  have len: "length xs = length E1" using e(2) list_all2_lengthD by blast
  obtain Fs where g: "list_all2 (node_ok A F) cs Fs" "E0 \<subseteq> F" using e(3) by (auto simp: st_ok_def elim!: node_okE)
  then have k: "node_ok A F (PNode PReaped cs) E0" by (auto simp: st_ok_def intro!: node_ok.intros)
  let ?n = "unreaped xs + unreaped ys"
  have u: "unreaped (xs @ PNode PGone cs # ys) = Suc ?n" "unreaped (xs @ PNode PReaped cs # ys) = ?n" by (simp_all add: unreaped_def)
  note w = n(4,5)[unfolded deps.simps post.simps u(1) diff_Suc_1]
  have pd: "P \<subseteq> F \<union> pending (xs @ PNode PReaped cs # ys) Es" using n(3) g(2) unfolding e(1) pending_split[OF len] by auto
  have "st_ok A F (PDo a) (xs @ PNode PReaped cs # ys) Es E"
  proof (cases "?n = 0")
    case True
    then have "pending (xs @ PNode PReaped cs # ys) Es = {}" unfolding u(2)[symmetric] unreaped_none by (rule pending_none)
    then have "D \<union> P \<subseteq> F" using pd n(2) by auto
    then show ?thesis by (rule st_okI[where P = "{}"]) (use w True in \<open>simp_all add: u(2)\<close>)
  next
    case False
    show ?thesis by (rule st_okI[OF n(2) pd]) (use w False in \<open>auto simp: u(2) split: if_splits\<close>)
  qed
  moreover have "list_all2 (node_ok A F) (xs @ PNode PReaped cs # ys) Es" unfolding e(1) using e(2,4) k by (simp add: list_all2_appendI)
  ultimately show ?case by (auto simp: allowed_def after_def intro: node_ok.intros)
next
  case (none_left cs t a)
  then obtain Es P D where n: "list_all2 (node_ok A F) cs Es" "D \<subseteq> F" "P \<subseteq> F \<union> pending cs Es"
    "set (deps (AWait t a) P (unreaped cs) D) \<subseteq> A" "E \<subseteq> post (AWait t a) P (unreaped cs) D"
    by (auto simp: st_ok_def elim!: node_okE)
  have z: "unreaped cs = 0" "pending cs Es = {}" using none_left(1) unreaped_none pending_none by blast+
  have "st_ok A F (PDo a) cs Es E" by (rule st_okI[where P = "{}" and D = "D \<union> P"]) (use n(2-) z in auto)
  then show ?case using n(1) by (auto simp: allowed_def after_def intro: node_ok.intros)
next
  case (kid k e k' st xs ys)
  obtain Es where n: "list_all2 (node_ok A F) (xs @ k # ys) Es" "st_ok A F st (xs @ k # ys) Es E" using kid.prems by (auto elim: node_okE)
  obtain E1 E0 E2 where e: "Es = E1 @ E0 # E2" "list_all2 (node_ok A F) xs E1" "node_ok A F k E0" "list_all2 (node_ok A F) ys E2"
    using n(1) by (auto simp: list_all2_append1 list_all2_Cons1)
  have len: "length xs = length E1" using e(2) list_all2_lengthD by blast
  have up: "F \<subseteq> after e F" by (auto simp: after_def split: option.splits event.splits)
  note ih = kid.IH[OF e(3)]
  have same: "(pst k = PReaped) = (pst k' = PReaped)" using step_pst[OF kid.hyps] by auto
  have "unreaped (xs @ k' # ys) = unreaped (xs @ k # ys)" "pending (xs @ k' # ys) Es = pending (xs @ k # ys) Es"
    unfolding e(1) pending_split[OF len] using same by (simp_all add: unreaped_def)
  then have "st_ok A (after e F) st (xs @ k' # ys) Es E" using st_ok_more[OF n(2) up] by (cases st) (simp_all add: st_ok_def)
  moreover have "list_all2 (node_ok A (after e F)) (xs @ k' # ys) Es"
    unfolding e(1) using ih list_all2_mono[OF e(2), of "node_ok A (after e F)"] list_all2_mono[OF e(4), of "node_ok A (after e F)"] node_ok_more[OF _ up]
    by (simp add: list_all2_appendI)
  ultimately show ?case using ih by (auto intro: node_ok.intros)
next
  case (starts_it q argv t cs)
  then obtain Es P D where n: "list_all2 (node_ok A F) cs Es" "D \<subseteq> F" "(q, argv, t, D) \<in> A" "E \<subseteq> insert q D"
    by (auto simp: st_ok_def elim!: node_okE)
  then have "st_ok A F (PIn q) cs Es E" by (auto simp: st_ok_def)
  then show ?case using n by (auto simp: allowed_def after_def intro: node_ok.intros)
next
  case (ends_it q cs)
  then obtain Es where n: "list_all2 (node_ok A F) cs Es" "E \<subseteq> insert q F" by (auto simp: st_ok_def elim!: node_okE)
  have "list_all2 (node_ok A (insert q F)) cs Es" by (rule list_all2_mono[OF n(1)]) (auto intro: node_ok_more)
  then show ?case using n(2) by (auto simp: st_ok_def allowed_def after_def intro!: node_ok.intros)
next
  case (exits_it x cs)
  then obtain Es where n: "list_all2 (node_ok A F) cs Es" "E \<subseteq> F" by (auto simp: st_ok_def elim!: node_okE)
  then show ?case by (auto simp: st_ok_def allowed_def after_def intro!: node_ok.intros)
qed (auto simp: st_ok_def allowed_def after_def elim!: node_okE intro!: node_ok.intros)

text \<open>A program starts only after those that it depends on have ended.\<close>

lemma run_ok:
  assumes "proc_run (PNode (PDo a) []) tr k"
  shows "\<exists>E. node_ok (set (deps a {} 0 {})) {q. End q \<in> set tr} k E"
    and "tr = xs @ Start q argv t # ys \<Longrightarrow> \<exists>B. (q, argv, t, B) \<in> set (deps a {} 0 {}) \<and> B \<subseteq> {p. End p \<in> set xs}"
proof -
  let ?A = "set (deps a {} 0 {})"
  have "(\<exists>E. node_ok ?A {q. End q \<in> set tr} k E) \<and>
    (\<forall>xs q argv t ys. tr = xs @ Start q argv t # ys \<longrightarrow> (\<exists>B. (q, argv, t, B) \<in> ?A \<and> B \<subseteq> {p. End p \<in> set xs}))"
    using assms
  proof (induction rule: proc_run.induct)
    case run_start
    have "node_ok ?A {} (PNode (PDo a) []) {}"
      by (intro node_ok.intros[of _ _ _ "[]"] st_okI[where P = "{}" and D = "{}"]) (simp_all add: unreaped_def)
    then show ?case by auto
  next
    case (run_step tr k e k')
    let ?F = "{q. End q \<in> set tr}" and ?v = "case e of None \<Rightarrow> [] | Some v \<Rightarrow> [v]"
    obtain E where E: "node_ok ?A ?F k E" using run_step.IH by blast
    note s = step_ok[OF run_step.hyps(2) E]
    have "after e ?F = {q. End q \<in> set (tr @ ?v)}" by (auto simp: after_def split: option.splits event.splits)
    moreover have "\<exists>B. (q, argv, t, B) \<in> ?A \<and> B \<subseteq> {p. End p \<in> set xs}" if x: "tr @ ?v = xs @ Start q argv t # ys" for xs q argv t ys
    proof (cases "ys = [] \<and> ?v \<noteq> []")
      case True
      then have "tr = xs" "e = Some (Start q argv t)" using x by (auto split: option.splits)
      then show ?thesis using s by (simp add: allowed_def)
    next
      case False
      then obtain ys' where "tr = xs @ Start q argv t # ys'" using x
        by (cases ys rule: rev_cases) (auto split: option.splits)
      then show ?thesis using run_step.IH by blast
    qed
    ultimately show ?case using s by auto
  qed
  then show "\<exists>E. node_ok ?A {q. End q \<in> set tr} k E"
    "tr = xs @ Start q argv t # ys \<Longrightarrow> \<exists>B. (q, argv, t, B) \<in> ?A \<and> B \<subseteq> {p. End p \<in> set xs}" by blast+
qed

subsection \<open>Plumbing\<close>

text \<open>
  The programs that a command starts, each with its standard input, output and error, as the reader of
  the command expects them: a redirection replaces one of them, a pipe connects the output of its left
  part with the input of its right part.  With each program come those that have ended before it starts:
  the right part of a list begins when the foreground programs of its left part have ended, the two parts
  of a pipe begin together, and nothing waits for a background command.
\<close>

type_synonym stdio = "obj \<times> obj \<times> obj"

definition std :: "stdio \<Rightarrow> fdt" where
  "std s = (case s of (i, q, e) \<Rightarrow> (\<lambda>_. None)(0 \<mapsto> i, 1 \<mapsto> q, 2 \<mapsto> e))"

fun foreground :: "place list \<Rightarrow> string cmd \<Rightarrow> place list set" where
  "foreground pl (Execcmd argv) = (if argv = [] then {} else {pl})"
| "foreground pl (Redircmd c name mode fd) = foreground (pl @ [Sub]) c"
| "foreground pl (Listcmd l r) = foreground (pl @ [Lft]) l \<union> foreground (pl @ [Rgt]) r"
| "foreground pl (Pipecmd l r) = foreground (pl @ [Lft]) l \<union> foreground (pl @ [Rgt]) r"
| "foreground pl (Backcmd c) = {}"

fun plan :: "place list \<Rightarrow> string cmd \<Rightarrow> stdio \<Rightarrow> place list set \<Rightarrow> (place list \<times> string list \<times> stdio \<times> place list set) list" where
  "plan pl (Execcmd argv) s D = (if argv = [] then [] else [(pl, argv, s, D)])"
| "plan pl (Redircmd c name mode fd) (i, q, e) D =
     plan (pl @ [Sub]) c (if fd = 0 then (Opened name mode, q, e) else (i, Opened name mode, e)) D"
| "plan pl (Listcmd l r) s D = plan (pl @ [Lft]) l s D @ plan (pl @ [Rgt]) r s (D \<union> foreground (pl @ [Lft]) l)"
| "plan pl (Pipecmd l r) (i, q, e) D = plan (pl @ [Lft]) l (i, PipeW pl, e) D @ plan (pl @ [Rgt]) r (PipeR pl, q, e) D"
| "plan pl (Backcmd c) s D = plan (pl @ [Sub]) c s D"


fun redirs_ok :: "string cmd \<Rightarrow> bool" where
  "redirs_ok (Execcmd argv) = True"
| "redirs_ok (Redircmd c name mode fd) = (fd \<le> 1 \<and> redirs_ok c)"
| "redirs_ok (Listcmd l r) = (redirs_ok l \<and> redirs_ok r)"
| "redirs_ok (Pipecmd l r) = (redirs_ok l \<and> redirs_ok r)"
| "redirs_ok (Backcmd c) = redirs_ok c"

definition all_ok :: "world \<Rightarrow> bool" where
  "all_ok w = ((\<forall>n m. opens w n m) \<and> (\<forall>n. execs_ok w n) \<and> (\<forall>n. chdir_ok w n) \<and> (\<forall>p. pipes_ok w p) \<and> (\<forall>p. fork_ok w p))"

lemma lowest_at: "k < NFD \<Longrightarrow> t k = None \<Longrightarrow> \<forall>j<k. t j \<noteq> None \<Longrightarrow> lowest t = Some k"
  unfolding find_Some_iff by (auto intro!: exI[of _ k])

lemma fd_put_at: "k < NFD \<Longrightarrow> t k = None \<Longrightarrow> \<forall>j<k. t j \<noteq> None \<Longrightarrow> fd_put x t = Some (k, t(k \<mapsto> x))"
  by (simp add: fd_put_def lowest_at)

lemma less_3: "(\<forall>j<3. P j) \<longleftrightarrow> P 0 \<and> P 1 \<and> P (2::nat)"
  by (auto simp: less_Suc_eq numeral_eq_Suc)

lemma less_4: "(\<forall>j<4. P j) \<longleftrightarrow> P 0 \<and> P 1 \<and> P 2 \<and> P (3::nat)"
  by (auto simp: less_Suc_eq numeral_eq_Suc)

lemma redir_std:
  assumes "fd \<le> 1"
  shows "fd_put x (fd_close fd (std (i, q, e))) = Some (fd, std (if fd = 0 then (x, q, e) else (i, x, e)))"
proof (cases "fd = 0")
  case True
  have "fd_put x (fd_close 0 (std (i, q, e))) = Some (0, (fd_close 0 (std (i, q, e)))(0 \<mapsto> x))"
    by (rule fd_put_at) (simp_all add: std_def fd_close_def NFD_def)
  then show ?thesis using True by (simp add: std_def fd_close_def fun_upd_twist)
next
  case False
  then have fd: "fd = 1" using assms by simp
  have "fd_put x (fd_close 1 (std (i, q, e))) = Some (1, (fd_close 1 (std (i, q, e)))(1 \<mapsto> x))"
    by (rule fd_put_at) (simp_all add: std_def fd_close_def NFD_def)
  then show ?thesis using fd by (simp add: std_def fd_close_def fun_upd_twist)
qed

lemma pipe_std:
  "fd_put x (std s) = Some (3, (std s)(3 \<mapsto> x))" "fd_put y ((std s)(3 \<mapsto> x)) = Some (4, (std s)(3 \<mapsto> x, 4 \<mapsto> y))"
  by (subst fd_put_at[of 3]; auto simp: std_def NFD_def less_3 split: prod.splits)
     (subst fd_put_at[of 4]; auto simp: std_def NFD_def less_4 split: prod.splits)

lemma pipe_ends:
  "fd_close 4 (fd_close 3 (fd_dup 4 (fd_close 1 ((std (i, q, e))(3 \<mapsto> x, 4 \<mapsto> y))))) = std (i, y, e)"
  "fd_close 4 (fd_close 3 (fd_dup 3 (fd_close 0 ((std (i, q, e))(3 \<mapsto> x, 4 \<mapsto> y))))) = std (x, q, e)"
proof -
  let ?t = "(std (i, q, e))(3 \<mapsto> x, 4 \<mapsto> y)"
  have "fd_put y (fd_close 1 ?t) = Some (1, (fd_close 1 ?t)(1 \<mapsto> y))"
    by (rule fd_put_at) (simp_all add: std_def fd_close_def NFD_def)
  then show "fd_close 4 (fd_close 3 (fd_dup 4 (fd_close 1 ?t))) = std (i, y, e)"
    by (simp add: fd_dup_def fd_close_def std_def fun_eq_iff)
  have "fd_put x (fd_close 0 ?t) = Some (0, (fd_close 0 ?t)(0 \<mapsto> x))"
    by (rule fd_put_at) (simp_all add: std_def fd_close_def NFD_def)
  then show "fd_close 4 (fd_close 3 (fd_dup 3 (fd_close 0 ?t))) = std (x, q, e)"
    by (simp add: fd_dup_def fd_close_def std_def fun_eq_iff)
qed

lemma pipe_parent: "fd_close 4 (fd_close 3 ((std s)(3 \<mapsto> x, 4 \<mapsto> y))) = std s"
  by (auto simp: fd_close_def std_def fun_eq_iff split: prod.splits)

lemma runcmd_post:
  assumes "all_ok w" "redirs_ok c"
  shows "post (runcmd w pl c (std s)) {} 0 D = D \<union> foreground pl c"
  using assms(2)
proof (induction c arbitrary: pl s D)
  case (Execcmd argv)
  then show ?case using assms(1) by (cases argv) (auto simp: all_ok_def)
next
  case (Redircmd c name mode fd)
  obtain i q e where s: "s = (i, q, e)" by (cases s)
  show ?case using Redircmd assms(1) redir_std[of fd "Opened name mode" i q e] by (simp add: s all_ok_def Let_def)
next
  case (Pipecmd l r)
  obtain i q e where s: "s = (i, q, e)" by (cases s)
  show ?case using Pipecmd assms(1) by (auto simp: s all_ok_def fork1_def pipe_std pipe_ends pipe_ends[simplified] Let_def)
next
  case (Listcmd l r)
  then show ?case using assms(1) by (auto simp: all_ok_def fork1_def)
next
  case (Backcmd c)
  then show ?case using assms(1) by (simp add: all_ok_def fork1_def)
qed

lemma runcmd_deps:
  assumes "all_ok w" "redirs_ok c"
  shows "deps (runcmd w pl c (std s)) {} 0 D = map (\<lambda>(q, argv, s, B). (q, argv, std s, B)) (plan pl c s D)"
  using assms(2)
proof (induction c arbitrary: pl s D)
  case (Execcmd argv)
  then show ?case using assms(1) by (cases argv) (auto simp: all_ok_def)
next
  case (Redircmd c name mode fd)
  obtain i q e where s: "s = (i, q, e)" by (cases s)
  show ?case using Redircmd assms(1) redir_std[of fd "Opened name mode" i q e] by (simp add: s all_ok_def Let_def)
next
  case (Pipecmd l r)
  obtain i q e where s: "s = (i, q, e)" by (cases s)
  show ?case using Pipecmd assms(1) by (simp add: s all_ok_def fork1_def pipe_std pipe_ends pipe_ends[simplified] Let_def)
next
  case (Listcmd l r)
  then show ?case using assms runcmd_post[OF assms(1), of l] by (simp add: all_ok_def fork1_def)
next
  case (Backcmd c)
  then show ?case using assms(1) by (simp add: all_ok_def fork1_def)
qed

lemma runcmd_waiting:
  assumes "all_ok w" "redirs_ok c"
  shows "set (waiting (runcmd w pl c (std s))) \<subseteq> range std"
  using assms(2)
proof (induction c arbitrary: pl s)
  case (Execcmd argv)
  then show ?case using assms(1) by (cases argv) (auto simp: all_ok_def)
next
  case (Redircmd c name mode fd)
  obtain i q e where s: "s = (i, q, e)" by (cases s)
  show ?case using Redircmd assms(1) redir_std[of fd "Opened name mode" i q e] by (simp add: s all_ok_def Let_def)
next
  case (Pipecmd l r)
  obtain i q e where s: "s = (i, q, e)" by (cases s)
  show ?case using Pipecmd assms(1) by (simp add: s all_ok_def fork1_def pipe_std pipe_ends pipe_ends[simplified] pipe_parent Let_def)
next
  case (Listcmd l r)
  then show ?case using assms(1) by (simp add: all_ok_def fork1_def)
next
  case (Backcmd c)
  then show ?case using assms(1) by (simp add: all_ok_def fork1_def)
qed

lemma deps_started: "map (\<lambda>(q, argv, t, B). (q, argv, t)) (deps a P n D) = started a"
  by (induction a P n D rule: deps.induct) auto

text \<open>C40.  A command that the shell runs, when every open, exec, pipe and fork succeeds, and however the
  processes interleave.  A program of the command is started with the standard input, output and error that
  the command gives it and with no other file open, and only when the programs that the command puts
  before it have ended: those in the foreground of the left part of a list, before any of the right part.
  No program is started that is not in the command, or twice; and the processes come to rest only when
  all programs of the command have been started.  A shell process that waits has no file open but its
  standard ones, so that no end of a pipe stays open behind the programs that use it.\<close>

theorem runcmd_plumbing:
  assumes "all_ok w" "redirs_ok c" "proc_run (PNode (PDo (runcmd w pl c (std s))) []) tr k"
  shows "(\<forall>xs q argv t ys. tr = xs @ Start q argv t # ys \<longrightarrow>
      (\<exists>s' B. (q, argv, s', B) \<in> set (plan pl c s {}) \<and> t = std s' \<and> B \<subseteq> {p. End p \<in> set xs})) \<and>
    mset (starts tr) \<subseteq># mset (map (\<lambda>(q, argv, s, B). (q, argv, std s)) (plan pl c s {})) \<and>
    ((\<nexists>e k'. proc_step k e k') \<longrightarrow> mset (starts tr) = mset (map (\<lambda>(q, argv, s, B). (q, argv, std s)) (plan pl c s {}))) \<and>
    set (waiting (runcmd w pl c (std s))) \<subseteq> range std"
proof -
  let ?a = "runcmd w pl c (std s)"
  note d = runcmd_deps[OF assms(1,2), of pl s "{}"]
  have "map (\<lambda>(q, argv, t, B). (q, argv, t)) (deps ?a {} 0 {}) = map (\<lambda>(q, argv, s, B). (q, argv, std s)) (plan pl c s {})"
    unfolding d by auto
  then have st: "started ?a = map (\<lambda>(q, argv, s, B). (q, argv, std s)) (plan pl c s {})" by (simp only: deps_started)
  have all: "mset (started ?a) = mset (starts tr) + todo k" using run_todo[OF assms(3)] by simp
  have "\<exists>s' B. (q, argv, s', B) \<in> set (plan pl c s {}) \<and> t = std s' \<and> B \<subseteq> {p. End p \<in> set xs}"
    if "tr = xs @ Start q argv t # ys" for xs q argv t ys
    using run_ok(2)[OF assms(3) that] unfolding d by fastforce
  moreover have "mset (starts tr) \<subseteq># mset (started ?a)" using all by simp
  moreover have "mset (starts tr) = mset (started ?a)" if "\<nexists>e k'. proc_step k e k'" using all stuck_done[OF that] by simp
  ultimately show ?thesis using runcmd_waiting[OF assms(1,2)] unfolding st by blast
qed

definition ok_world :: world where
  "ok_world = \<lparr>opens = \<lambda>_ _. True, execs_ok = \<lambda>_. True, chdir_ok = \<lambda>_. True, pipes_ok = \<lambda>_. True, fork_ok = \<lambda>_. True\<rparr>"

text \<open>A run of \<^verbatim>\<open>cat < in ; ls\<close>, up to the start of the second program.\<close>

abbreviation two_cmds :: "string cmd" where
  "two_cmds \<equiv> Listcmd (Redircmd (Execcmd [''cat'']) ''in'' 0 0) (Execcmd [''ls''])"

abbreviation at_console :: stdio where "at_console \<equiv> (Console, Console, Console)"

abbreviation two_events :: "event list" where
  "two_events \<equiv> [Start [Lft, Sub] [''cat''] (std (Opened ''in'' 0, Console, Console)), End [Lft, Sub], Start [Rgt] [''ls''] (std at_console)]"

lemma two_cmds_run: "\<exists>k. proc_run (PNode (PDo (runcmd ok_world [] two_cmds (std at_console))) []) two_events k"
proof -
  let ?s = "std at_console" and ?r = "std (Opened ''in'' 0, Console, Console)"
  let ?b = "AExec [Rgt] [''ls''] ?s"
  let ?root = "PNode (PDo (AFork (AExec [Lft, Sub] [''cat''] ?r) (AWait ?s ?b))) []"
  let ?kid = "\<lambda>st. PNode (PDo (AWait ?s ?b)) [PNode st []]"
  have a: "runcmd ok_world [] two_cmds ?s = AFork (AExec [Lft, Sub] [''cat''] ?r) (AWait ?s ?b)"
    using redir_std[of 0 "Opened ''in'' 0" Console Console Console] by (simp add: ok_world_def fork1_def Let_def)
  have k: "proc_step (?kid x) e (?kid y)" if "proc_step (PNode x []) e (PNode y [])" for x y e
    using proc_step.kid[OF that, of _ "[]" "[]"] by simp
  have "proc_run ?root [] (?kid (PDo (AExec [Lft, Sub] [''cat''] ?r)))"
    using run_step[OF run_start forks] by simp
  from run_step[OF this k[OF starts_it]] have "proc_run ?root [Start [Lft, Sub] [''cat''] ?r] (?kid (PIn [Lft, Sub]))" by simp
  from run_step[OF this k[OF ends_it]] have r: "proc_run ?root [Start [Lft, Sub] [''cat''] ?r, End [Lft, Sub]] (?kid PGone)" by simp
  have "proc_step (?kid PGone) None (PNode (PDo ?b) [PNode PReaped []])" using reaps_one[of ?s ?b "[]" "[]" "[]"] by simp
  from run_step[OF r this] have "proc_run ?root [Start [Lft, Sub] [''cat''] ?r, End [Lft, Sub]] (PNode (PDo ?b) [PNode PReaped []])" by simp
  from run_step[OF this starts_it] have "proc_run ?root two_events (PNode (PIn [Rgt]) [PNode PReaped []])" by simp
  then show ?thesis unfolding a by blast
qed

theorem runcmd_plumbing_witness:
  "\<exists>k. proc_run (PNode (PDo (runcmd ok_world [] two_cmds (std at_console))) []) two_events k \<and>
    (\<exists>s' B. ([Rgt], [''ls''], s', B) \<in> set (plan [] two_cmds at_console {}) \<and> std at_console = std s' \<and>
      B \<subseteq> {p. End p \<in> set [Start [Lft, Sub] [''cat''] (std (Opened ''in'' 0, Console, Console)), End [Lft, Sub]]}) \<and>
    mset (starts two_events) \<subseteq># mset (map (\<lambda>(q, argv, s, B). (q, argv, std s)) (plan [] two_cmds at_console {}))"
proof -
  let ?xs = "[Start [Lft, Sub] [''cat''] (std (Opened ''in'' 0, Console, Console)), End [Lft, Sub]]"
  obtain k where k: "proc_run (PNode (PDo (runcmd ok_world [] two_cmds (std at_console))) []) two_events k"
    using two_cmds_run by blast
  have "all_ok ok_world" "redirs_ok two_cmds" by (simp_all add: all_ok_def ok_world_def)
  note p = runcmd_plumbing[OF this k]
  have "two_events = ?xs @ Start [Rgt] [''ls''] (std at_console) # []" by simp
  then show ?thesis using k p by blast
qed

text \<open>A shell that starts with no open file gets the console three times.\<close>

lemma open_three_empty: "open_three True (\<lambda>_. None) = std (Console, Console, Console)"
proof -
  let ?t0 = "(\<lambda>_. None) :: fdt" and ?t3 = "std (Console, Console, Console)"
  let ?t1 = "?t0(0 \<mapsto> Console)"
  let ?t2 = "?t1(1 \<mapsto> Console)"
  have "fd_put Console ?t0 = Some (0, ?t1)" "fd_put Console ?t1 = Some (1, ?t2)" "fd_put Console ?t2 = Some (2, ?t2(2 \<mapsto> Console))"
    by (rule fd_put_at; simp add: NFD_def less_Suc_eq numeral_eq_Suc)+
  then have "open_three True ?t0 = open_three True ?t1" "open_three True ?t1 = open_three True ?t2"
    "open_three True ?t2 = open_three True ?t3"
    by (subst open_three.simps, simp add: std_def)+
  moreover have "open_three True ?t3 = ?t3"
    by (subst open_three.simps) (simp add: pipe_std fd_close_def, simp add: std_def fun_eq_iff)
  ultimately show ?thesis by simp
qed

end
