(* ===== verification/Spec2Isabelle.thy ===== *)
theory Spec2Isabelle
  imports SchedSystem Trap Grep LogSpec Path ShellPrint Umalloc MkfsTree ShellRun
begin

text \<open>
  A verification of the xv6-riscv kernel with a thermal-aware scheduler.

  \<^bold>\<open>The program.\<close>  A small Unix kernel for RISC-V in C (\<^verbatim>\<open>src/kernel\<close>), its user programs
  (\<^verbatim>\<open>src/user\<close>) and a file system image builder (\<^verbatim>\<open>src/mkfs\<close>).  What distinguishes this
  kernel is the scheduler of \<^verbatim>\<open>kernel/proc.c\<close>: each process carries a heat score, the CPU
  carries a temperature, and both decide which process runs; a \<open>ps\<close> system call shows them.
  Every other part sits on top of the spin locks and the process table.

  \<^bold>\<open>The model.\<close>  The kernel state is one extensible record that grows along the components:
  \<open>machine\<close> (CPUs and locks), \<open>kio\<close> (console output), \<open>thermal\<close> (temperature and metrics),
  \<open>ptable\<close> (process table), \<open>kmem\<close> (physical memory as bytes, and the free list), \<open>kpipe\<close> (pipes),
  \<open>ksleep\<close> (sleep locks), \<open>kcons\<close> (console), \<open>kdisk\<close> (disk queue, buffers, sectors), \<open>klog\<close> (log),
  \<open>kfs\<close> (super block and inode table), \<open>kfile\<close> (open files) and \<open>kproc\<close> (ticks).  An operation takes the number of the CPU that runs it and returns
  \<open>stop + result\<close>: \<open>Inl\<close> is a panic, a busy wait that cannot end by itself, or a trap of the
  hardware; \<open>Inr\<close> is a normal return with the new state.  Locks are part of the state and every
  \<open>acquire\<close> and \<open>release\<close> of the source is a call in the model.  A C \<open>int\<close> is a HOL
  \<open>int\<close> wrapped by \<open>i32\<close> where the code can overflow it; unsigned integers are words.

  \<^bold>\<open>The theories.\<close>
  \<^item> \<open>Xv6_Prelude\<close>: result combinators, loop combinators, machine integers, shared lemmas.
  \<^item> \<open>Spinlock\<close> (\<^verbatim>\<open>kernel/spinlock.c\<close>): locks and interrupt nesting.  A critical section on a
    free lock is its body; mutual exclusion over all interleavings of CPUs at the grain of
    single memory operations (\<open>lk_step\<close>).
  \<^item> \<open>Printf\<close> (\<^verbatim>\<open>kernel/printf.c\<close>): \<open>printf\<close> with all its conversions, refined to the text a
    format stands for (\<open>render\<close>); decimal output round-trips.
  \<^item> \<open>CString\<close> (\<^verbatim>\<open>kernel/string.c\<close>): memory and string routines.
  \<^item> \<open>Thermal\<close> (\<^verbatim>\<open>kernel/proc.c\<close>): temperature model, metrics table, summary.
  \<^item> \<open>ProcTable\<close> (\<^verbatim>\<open>kernel/proc.c\<close>, \<^verbatim>\<open>kernel/proc.h\<close>): process table, sleep and wakeup, kill,
    exit, listings; each operation is given by an equation on the whole table.
  \<^item> \<open>Scheduler\<close> (\<^verbatim>\<open>kernel/proc.c\<close>): one round of \<open>scheduler()\<close> and its policy.
  \<^item> \<open>TempRace\<close> (\<^verbatim>\<open>kernel/proc.c\<close>): \<open>update_cpu_temp\<close> on several CPUs, one load or store at a time, since
    nothing locks the temperature; it is in range whenever no call is under way.  Elsewhere a call is one step.
  \<^item> \<open>SchedSystem\<close> (\<^verbatim>\<open>kernel/proc.c\<close>): all CPUs in the scheduler or in a process, which may be preempted
    in the middle of \<open>kfork\<close>, as a step relation; no process is on two CPUs, and heat stays in its range,
    whatever the temperature is.
  \<^item> \<open>Memory\<close>, \<open>Kalloc\<close> (\<^verbatim>\<open>kernel/kalloc.c\<close>): words in a byte memory, and the page allocator with its
    free list threaded through the free pages, refined to a list of pages.
  \<^item> \<open>Vm\<close> (\<^verbatim>\<open>kernel/vm.c\<close>), \<open>PageTable\<close>, \<open>UserMem\<close>: page tables in physical memory.  \<open>PageTable\<close> shows
    that a well-formed tree of tables stays one under \<open>walk\<close> and \<open>mappages\<close> and what they do to the
    address space; \<open>UserMem\<close> that \<open>copyout\<close> and \<open>copyin\<close> write and read user memory.
  \<^item> \<open>Pipe\<close> (\<^verbatim>\<open>kernel/pipe.c\<close>): pipes as bounded queues, and the Peterson lock, one memory operation at a
    time.  It excludes a writer and a reader when all CPUs see the stores in order, and fails to when stores
    wait in store buffers, which the code does not exclude; two writers are never excluded, and an
    operation that blocks brings the kernel down.
  \<^item> \<open>Sleeplock\<close> (\<^verbatim>\<open>kernel/sleeplock.c\<close>), \<open>Console\<close> (\<^verbatim>\<open>kernel/console.c\<close>, \<^verbatim>\<open>kernel/uart.c\<close>), \<open>Virtio\<close>
    (\<^verbatim>\<open>kernel/virtio_disk.c\<close>), \<open>Bio\<close> (\<^verbatim>\<open>kernel/bio.c\<close>), \<open>Log\<close> (\<^verbatim>\<open>kernel/log.c\<close>), \<open>Fs\<close> and \<open>Dir\<close>
    (\<^verbatim>\<open>kernel/fs.c\<close>), \<open>File\<close> (\<^verbatim>\<open>kernel/file.c\<close>), \<open>ProcLife\<close> (the rest of \<^verbatim>\<open>kernel/proc.c\<close>), \<open>Exec\<close>
    (\<^verbatim>\<open>kernel/exec.c\<close>), \<open>Sysfile\<close> (\<^verbatim>\<open>kernel/sysfile.c\<close>) and \<open>Trap\<close> (\<^verbatim>\<open>kernel/sysproc.c\<close>,
    \<^verbatim>\<open>kernel/syscall.c\<close>, \<^verbatim>\<open>kernel/trap.c\<close>): the kernel from the disk to the trap handlers, as runs of
    one process.  A call that goes to sleep leaves the CPU and does not come back in the run; the
    wait for the disk and for the serial line has the device and its interrupt handler run in
    between.  The devices are arguments.  \<open>Fs\<close> shows that disk inodes round-trip.
  \<^item> \<open>LogSpace\<close>: over all interleavings of transactions the log never overflows.
  \<^item> \<open>DiskSpec\<close>: a disk request, from its descriptors to the interrupt, moves one block between a
    buffer and the disk, for every device that follows the virtio block protocol (\<open>virtio_blk\<close>).
  \<^item> \<open>Lru\<close>, \<open>BioSpec\<close>: the doubly linked list of buffers as a list, and the buffer cache refined to an
    abstract view of it, the bytes, the references and the holder of every block number, on which
    each operation of \<^verbatim>\<open>kernel/bio.c\<close> is a function.
  \<^item> \<open>LogSpec\<close>: on that view a commit is a sequence of disk writes, and a crash after any of them
    followed by recovery leaves all of the transaction on the disk or nothing of it.
  \<^item> \<open>Path\<close>: \<open>skipelem\<close> enumerates the elements of a path; a directory entry matches its name.
  \<^item> \<open>Grep\<close> (\<^verbatim>\<open>user/grep.c\<close>): the matcher equals a declarative meaning of patterns, and \<open>grep\<close>
    prints the finished lines that match of an input without NULs and with lines shorter than 1023 bytes,
    however the reads cut it.
  \<^item> \<open>Shell\<close>, \<open>ShellPrint\<close>, \<open>ShellRun\<close> (\<^verbatim>\<open>user/sh.c\<close>): the parser returns on every line, its commands are
    well formed, and every command is the result of parsing its printed form; \<open>runcmd\<close> is a
    tree of system calls, and the processes that run it start the programs of a command with the files the
    command gives them and no others, and after those that the command puts before them.
  \<^item> \<open>Umalloc\<close> (\<^verbatim>\<open>user/umalloc.c\<close>): the allocator of user programs, over a kernel that may refuse any
    request.  Whatever a program allocates in requests below 2 GB and frees, the blocks it holds are disjoint
    from each other and from the free list; a larger request is given memory that the process does not have.
  \<^item> \<open>UserText\<close> (\<^verbatim>\<open>user/ulib.c\<close>, \<^verbatim>\<open>user/printf.c\<close>, \<^verbatim>\<open>user/wc.c\<close>, \<^verbatim>\<open>user/cat.c\<close>, \<^verbatim>\<open>user/echo.c\<close>): the user
    library and the text utilities; \<open>wc\<close> counts right, and \<open>atoi\<close> reads the numbers that \<open>printf\<close> prints
    in decimal, up to the sign.
  \<^item> \<open>Mkfs\<close>, \<open>MkfsFile\<close>, \<open>MkfsTree\<close> (\<^verbatim>\<open>mkfs/mkfs.c\<close>): the image builder.  \<open>iappend\<close> refines appending to
    one file of a list of files, and the finished image holds the files of the command line.

  \<^bold>\<open>Bounds and fuel.\<close>  A loop over a table is a loop over its indices.  \<open>freewalk\<close> takes a depth, 3 in
  \<open>uvmfree\<close>, the number of levels of a table.  The searches of \<open>bget\<close> take \<open>NBUF + 1\<close> steps, enough
  to come round the list of \<open>NBUF\<close> buffers.  \<open>free_chain\<close> takes \<open>NUM + 1\<close> rounds; freeing a
  descriptor twice panics, so no run needs more.  The interrupt loop of the disk takes the distance
  of its two counters.  The descent of the shell's parser takes \<open>length t + 2\<close> levels on a line \<open>t\<close>;
  \<open>parsecmd_terminates\<close> shows that it never runs out.  The two searches of the allocator follow links
  without a bound, as \<open>partial_function\<close>s in which \<open>None\<close> is a search that never ends; the theorems
  say that the calls return.  The other loops are functions with a termination proof.

  \<^bold>\<open>Not modelled.\<close>  Start-up and assembly (\<^verbatim>\<open>start.c\<close>, \<^verbatim>\<open>main.c\<close>, \<^verbatim>\<open>entry.S\<close>, \<^verbatim>\<open>swtch.S\<close>,
  \<^verbatim>\<open>trampoline.S\<close>, \<^verbatim>\<open>kernelvec.S\<close>): machine registers with no logic of their own; \<open>swtch\<close> is where
  \<open>sched\<close> and \<open>scheduler\<close> are split.  \<open>kvminit\<close>, \<open>kvminithart\<close>, \<open>trapinithart\<close> and \<^verbatim>\<open>plic.c\<close>: stores to
  one register.  The end of \<open>forkret\<close>, a jump to user space.  Of the user programs, the loops over the
  command line that open and close files in \<^verbatim>\<open>grep.c\<close>, \<^verbatim>\<open>wc.c\<close> and \<^verbatim>\<open>cat.c\<close>, the directory listing of
  \<^verbatim>\<open>ls.c\<close>, and the programs that are one system call (\<^verbatim>\<open>kill.c\<close>, \<^verbatim>\<open>ln.c\<close>, \<^verbatim>\<open>mkdir.c\<close>, \<^verbatim>\<open>rm.c\<close>, \<^verbatim>\<open>ps.c\<close>,
  \<^verbatim>\<open>init.c\<close>).  The progress messages of \<^verbatim>\<open>mkfs.c\<close>.  Test programs and host scripts have no contract of
  their own.
\<close>

end
